(* ===== verification/Xv6_Prelude.thy ===== *)
theory Xv6_Prelude
  imports Main "HOL-Library.Word"
begin

unbundle bit_operations_syntax

text \<open>
  Shared vocabulary of the development: the C integer types of \<^verbatim>\<open>include/types.h\<close>, the
  configuration constants of \<^verbatim>\<open>include/param.h\<close>, the outcome type that every kernel
  operation returns, and generic facts about words, byte lists and tables that the
  component theories use.
\<close>

section \<open>C types and configuration\<close>

type_synonym uchar = "8 word"
type_synonym ushort = "16 word"
type_synonym uint = "32 word"

definition NPROC :: nat where "NPROC = 64"
definition NOFILE :: nat where "NOFILE = 16"
definition NFILE :: nat where "NFILE = 100"
definition NBUF :: nat where "NBUF = 10"
definition NINODE :: nat where "NINODE = 50"
definition NDEV :: nat where "NDEV = 10"
definition ROOTDEV :: uint where "ROOTDEV = 1"
definition MAXARG :: nat where "MAXARG = 32"
definition LOGSIZE :: nat where "LOGSIZE = 10"
definition STACK_DEPTH :: nat where "STACK_DEPTH = 32"

text \<open>The configuration constants, for unfolding in arithmetic.\<close>

lemmas param_defs = NPROC_def NOFILE_def NFILE_def NBUF_def NINODE_def NDEV_def ROOTDEV_def
  MAXARG_def LOGSIZE_def STACK_DEPTH_def

section \<open>Outcomes of kernel operations\<close>

text \<open>
  An operation either returns a value and the new machine state; or stops the machine
  (\<^verbatim>\<open>panic\<close> never returns, and the data-abort handler panics on a kernel fault); or gives
  the CPU to the scheduler, with the state at the point of the switch; or spins for ever.
\<close>

datatype ('a, 's) outcome =
    Ok 'a 's
  | Panic string
  | Blocked 's
  | Diverge

definition kfault :: "('a, 's) outcome" where
  "kfault = Panic ''data abort exception''"

text \<open>
  An access outside a C array has no defined effect. The model ends there, with a value that
  no operation of the kernel produces; the theorems exclude it.
\<close>

definition ub :: "('a, 's) outcome" where
  "ub = Panic ''undefined behaviour''"

primrec obind :: "('a, 's) outcome \<Rightarrow> ('a \<Rightarrow> 's \<Rightarrow> ('b, 's) outcome) \<Rightarrow> ('b, 's) outcome" where
  "obind (Ok a s) f = f a s"
| "obind (Panic m) f = Panic m"
| "obind (Blocked s) f = Blocked s"
| "obind Diverge f = Diverge"

lemma obind_kfault [simp]: "obind kfault f = kfault"
  by (simp add: kfault_def)

lemma obind_ub [simp]: "obind ub f = ub"
  by (simp add: ub_def)

lemma obind_Ok [simp]: "obind m Ok = m" "obind m' (\<lambda>_. Ok ()) = m'"
  by (cases m, auto) (cases m', auto)

lemma obind_assoc: "obind (obind m f) g = obind m (\<lambda>a s. obind (f a s) g)"
  by (cases m) auto

lemma obind_Ok_iff:
  "obind m f = Ok b t \<longleftrightarrow> (\<exists>a s. m = Ok a s \<and> f a s = Ok b t)"
  by (cases m) auto

lemma obind_OkE [elim!]:
  assumes "obind m f = Ok b t"
  obtains a s where "m = Ok a s" and "f a s = Ok b t"
  using assms by (auto simp: obind_Ok_iff)

lemma obind_cong [fundef_cong]:
  "\<lbrakk>m = m'; \<And>a s. m' = Ok a s \<Longrightarrow> f a s = g a s\<rbrakk> \<Longrightarrow> obind m f = obind m' g"
  by (cases m') auto

text \<open>The state of an outcome that still has one.\<close>

definition returns :: "('a, 's) outcome \<Rightarrow> bool" where
  "returns m \<longleftrightarrow> (\<exists>a s. m = Ok a s)"

lemma returns_simps [simp]:
  "returns (Ok a s)" "\<not> returns (Panic m)" "\<not> returns (Blocked s)" "\<not> returns Diverge"
  by (auto simp: returns_def)

section \<open>Words\<close>

lemma unat_uint_less: "unat (x::uint) < 2 ^ 32"
  by (rule less_le_trans [OF unsigned_less]) simp

lemma unat_uint_less' [simp]: "unat (x::uint) < 4294967296"
  using unat_uint_less [of x] by simp

lemma unat_uchar_less [simp]: "unat (x::uchar) < 256"
  by (rule less_le_trans [OF unsigned_less]) simp

section \<open>Lists\<close>

lemma find_map: "find P (map f xs) = map_option f (find (\<lambda>x. P (f x)) xs)"
  by (induction xs) auto

section \<open>Collections\<close>

text \<open>Facts that evaluate the operations of a layer in the states its callers meet.\<close>

named_theorems kexec

end
