(* ===== verification/Xv6_String.thy ===== *)
theory Xv6_String
  imports Xv6_Prelude
begin

text \<open>
  \<^verbatim>\<open>kernel/string.c\<close>: the memory and string primitives. The routines that write
  memory work on a byte-addressed 32-bit memory; the string routines read their sources
  through a view (the byte at each offset from the pointer) and write a destination
  buffer by index.
\<close>

section \<open>Memory\<close>

type_synonym mem = "uint \<Rightarrow> uchar"

text \<open>A byte store, and a little-endian 32-bit load and store, as the CPU performs them.\<close>

definition store8 :: "uint \<Rightarrow> uchar \<Rightarrow> mem \<Rightarrow> mem" where
  "store8 a c m = m(a := c)"

definition load32 :: "mem \<Rightarrow> uint \<Rightarrow> uint" where
  "load32 m a = ucast (m a) OR push_bit 8 (ucast (m (a + 1)))
     OR push_bit 16 (ucast (m (a + 2))) OR push_bit 24 (ucast (m (a + 3)))"

definition store32 :: "uint \<Rightarrow> uint \<Rightarrow> mem \<Rightarrow> mem" where
  "store32 a w m = m(a := ucast w, a + 1 := ucast (drop_bit 8 w),
     a + 2 := ucast (drop_bit 16 w), a + 3 := ucast (drop_bit 24 w))"

lemma word_pred_less [simp]: "(n::uint) \<noteq> 0 \<Longrightarrow> unat (n - 1) < unat n"
  by (metis diff_less unat_eq_zero unat_minus_one zero_less_one_class.zero_less_one neq0_conv)

lemma word_minus4_less [simp]: "(4::uint) \<le> n \<Longrightarrow> unat (n - 4) < unat n"
  by (simp add: unat_sub word_le_nat_alt)

function memset_head :: "uint \<Rightarrow> uchar \<Rightarrow> uint \<Rightarrow> mem \<Rightarrow> uint \<times> uint \<times> mem" where
  "memset_head p c n m =
     (if n > 0 \<and> p mod 4 \<noteq> 0 then memset_head (p + 1) c (n - 1) (store8 p c m) else (p, n, m))"
  by pat_completeness auto
termination
  by (relation "measure (\<lambda>(p, c, n, m). unat n)") (auto simp: word_gt_0)

function memset_words :: "uint \<Rightarrow> uint \<Rightarrow> uint \<Rightarrow> mem \<Rightarrow> uint \<times> uint \<times> mem" where
  "memset_words p4 val n m =
     (if n \<ge> 4 then memset_words (p4 + 4) val (n - 4) (store32 p4 val m) else (p4, n, m))"
  by pat_completeness auto
termination
  by (relation "measure (\<lambda>(p4, val, n, m). unat n)") auto

function memset_tail :: "uint \<Rightarrow> uchar \<Rightarrow> uint \<Rightarrow> mem \<Rightarrow> mem" where
  "memset_tail p c n m = (if n > 0 then memset_tail (p + 1) c (n - 1) (store8 p c m) else m)"
  by pat_completeness auto
termination
  by (relation "measure (\<lambda>(p, c, n, m). unat n)") (auto simp: word_gt_0)

declare memset_head.simps [simp del] memset_words.simps [simp del] memset_tail.simps [simp del]

text \<open>The word with the byte \<^verbatim>\<open>c\<close> in each of its four positions.\<close>

definition splat :: "uchar \<Rightarrow> uint" where
  "splat c = push_bit 24 (ucast c) OR push_bit 16 (ucast c) OR push_bit 8 (ucast c) OR ucast c"

definition memset :: "uint \<Rightarrow> uint \<Rightarrow> uint \<Rightarrow> mem \<Rightarrow> mem" where
  "memset dst v n m =
     (let c = ucast (v AND 255);
          val = splat c;
          (p, n1, m1) = memset_head dst c n m;
          (p4, n2, m2) = memset_words p val n1 m1
      in memset_tail p4 c n2 m2)"

function memmove_fwd :: "uint \<Rightarrow> uint \<Rightarrow> uint \<Rightarrow> mem \<Rightarrow> mem" where
  "memmove_fwd d s n m =
     (if n > 0 then memmove_fwd (d + 1) (s + 1) (n - 1) (store8 d (m s) m) else m)"
  by pat_completeness auto
termination
  by (relation "measure (\<lambda>(d, s, n, m). unat n)") (auto simp: word_gt_0)

function memmove_bwd :: "uint \<Rightarrow> uint \<Rightarrow> uint \<Rightarrow> mem \<Rightarrow> mem" where
  "memmove_bwd d s n m =
     (if n > 0 then memmove_bwd (d - 1) (s - 1) (n - 1) (store8 (d - 1) (m (s - 1)) m) else m)"
  by pat_completeness auto
termination
  by (relation "measure (\<lambda>(d, s, n, m). unat n)") (auto simp: word_gt_0)

declare memmove_fwd.simps [simp del] memmove_bwd.simps [simp del]

definition memmove :: "uint \<Rightarrow> uint \<Rightarrow> uint \<Rightarrow> mem \<Rightarrow> mem" where
  "memmove dst src n m =
     (if src < dst \<and> src + n > dst then memmove_bwd (dst + n) (src + n) n m
      else memmove_fwd dst src n m)"

definition memcpy :: "uint \<Rightarrow> uint \<Rightarrow> uint \<Rightarrow> mem \<Rightarrow> mem" where
  "memcpy dst src n m = memmove dst src n m"

section \<open>Strings\<close>

type_synonym view = "nat \<Rightarrow> uchar"

fun memcmp :: "view \<Rightarrow> view \<Rightarrow> nat \<Rightarrow> int" where
  "memcmp s1 s2 0 = 0"
| "memcmp s1 s2 (Suc n) =
     (if s1 0 \<noteq> s2 0 then uint (s1 0) - uint (s2 0)
      else memcmp (\<lambda>i. s1 (Suc i)) (\<lambda>i. s2 (Suc i)) n)"

fun strncmp :: "view \<Rightarrow> view \<Rightarrow> nat \<Rightarrow> int" where
  "strncmp p q 0 = 0"
| "strncmp p q (Suc n) =
     (if p 0 \<noteq> 0 \<and> p 0 = q 0 then strncmp (\<lambda>i. p (Suc i)) (\<lambda>i. q (Suc i)) n
      else uint (p 0) - uint (q 0))"

fun strncpy_pad :: "uchar list \<Rightarrow> nat \<Rightarrow> nat \<Rightarrow> uchar list" where
  "strncpy_pad s i 0 = s"
| "strncpy_pad s i (Suc n) = strncpy_pad (s[i := 0]) (Suc i) n"

fun strncpy_copy :: "uchar list \<Rightarrow> nat \<Rightarrow> view \<Rightarrow> nat \<Rightarrow> uchar list" where
  "strncpy_copy s i t 0 = s"
| "strncpy_copy s i t (Suc n) =
     (if t i \<noteq> 0 then strncpy_copy (s[i := t i]) (Suc i) t n
      else strncpy_pad (s[i := t i]) (Suc i) n)"

definition strncpy :: "uchar list \<Rightarrow> view \<Rightarrow> int \<Rightarrow> uchar list" where
  "strncpy s t n = strncpy_copy s 0 t (nat n)"

fun safestrcpy_copy :: "uchar list \<Rightarrow> nat \<Rightarrow> view \<Rightarrow> nat \<Rightarrow> uchar list" where
  "safestrcpy_copy s i t 0 = s[i := 0]"
| "safestrcpy_copy s i t (Suc n) =
     (if t i \<noteq> 0 then safestrcpy_copy (s[i := t i]) (Suc i) t n
      else (s[i := t i])[Suc i := 0])"

definition safestrcpy :: "uchar list \<Rightarrow> view \<Rightarrow> int \<Rightarrow> uchar list" where
  "safestrcpy s t n = (if n \<le> 0 then s else safestrcpy_copy s 0 t (nat (n - 1)))"

text \<open>The scan for the terminator has no bound: it does not return on a view without one.\<close>

partial_function (option) strlen_from :: "view \<Rightarrow> nat \<Rightarrow> nat option" where
  "strlen_from s n = (if s n \<noteq> 0 then strlen_from s (Suc n) else Some n)"

definition strlen :: "view \<Rightarrow> nat option" where
  "strlen s = strlen_from s 0"

section \<open>Correctness of the memory primitives\<close>

text \<open>Reference operations: fill and simultaneous copy of a region, modulo the address space.\<close>

definition mem_fill :: "uint \<Rightarrow> uint \<Rightarrow> uchar \<Rightarrow> mem \<Rightarrow> mem" where
  "mem_fill p n c m = (\<lambda>a. if a - p < n then c else m a)"

definition mem_copy :: "uint \<Rightarrow> uint \<Rightarrow> uint \<Rightarrow> mem \<Rightarrow> mem" where
  "mem_copy d s n m = (\<lambda>a. if a - d < n then m (s + (a - d)) else m a)"

lemma region_step:
  fixes a :: uint
  assumes "n > 0"
  shows "a - (p + 1) < n - 1 \<longleftrightarrow> a - p < n \<and> a \<noteq> p"
proof (cases "a = p")
  case True
  have "- 1 < n - 1 \<longleftrightarrow> False"
    using assms by (metis word_n1_ge leD)
  with True show ?thesis by simp
next
  case False
  then have "a - p \<noteq> 0" by simp
  then have "unat (a - p - 1) = unat (a - p) - 1" "unat (a - p) > 0"
    by (simp_all add: unat_minus_one unat_gt_0)
  moreover have "unat (n - 1) = unat n - 1" "unat n > 0"
    using assms by (simp_all add: unat_minus_one unat_gt_0 word_gt_0)
  ultimately show ?thesis
    using False by (auto simp: word_less_nat_alt diff_diff_eq[symmetric])
qed

lemma mem_fill_step:
  "n > 0 \<Longrightarrow> mem_fill (p + 1) (n - 1) c (store8 p c m) = mem_fill p n c m"
  by (auto simp: mem_fill_def store8_def region_step fun_eq_iff)

lemma mem_fill_0 [simp]: "mem_fill p 0 c m = m"
  by (simp add: mem_fill_def)

lemma memset_tail_fill: "memset_tail p c n m = mem_fill p n c m"
proof (induction p c n m rule: memset_tail.induct)
  case (1 p c n m)
  then show ?case
    by (subst memset_tail.simps) (auto simp: mem_fill_step word_gt_0)
qed

lemma memset_head_fill:
  "memset_head p c n m = (p', n', m') \<Longrightarrow> mem_fill p' n' c m' = mem_fill p n c m"
proof (induction p c n m rule: memset_head.induct)
  case (1 p c n m)
  then show ?case
    by (cases "n > 0 \<and> p mod 4 \<noteq> 0") (auto simp: memset_head.simps [of p c n m] mem_fill_step)
qed

lemma store_splat:
  "store32 p (splat c) m = m(p := c, p + 1 := c, p + 2 := c, p + 3 := c)"
proof -
  have high: "bit c (k + n) = False" if "8 \<le> k" for k n
    using that bit_imp_le_length [of c "k + n"] by auto
  have "ucast (drop_bit k (splat c)) = c" if "k \<in> {0, 8, 16, 24}" for k
    using that by (auto intro!: bit_word_eqI simp: splat_def bit_simps high)
  from this [of 0] this [of 8] this [of 16] this [of 24] show ?thesis
    by (simp add: store32_def)
qed

lemma mem_fill_step4:
  assumes "n \<ge> 4"
  shows "mem_fill (p + 4) (n - 4) c (m(p := c, p + 1 := c, p + 2 := c, p + 3 := c)) = mem_fill p n c m"
proof -
  have "n > 0" "n - 1 > 0" "n - 2 > 0" "n - 3 > 0"
    using assms by unat_arith+
  then show ?thesis
    using mem_fill_step [of n p c m] mem_fill_step [of "n - 1" "p + 1" c "m(p := c)"]
      mem_fill_step [of "n - 2" "p + 2" c "m(p := c, p + 1 := c)"]
      mem_fill_step [of "n - 3" "p + 3" c "m(p := c, p + 1 := c, p + 2 := c)"]
    by (simp add: store8_def algebra_simps)
qed

lemma memset_words_fill:
  "memset_words p (splat c) n m = (p', n', m') \<Longrightarrow> mem_fill p' n' c m' = mem_fill p n c m"
proof (induction p "splat c" n m rule: memset_words.induct)
  case (1 p n m)
  then show ?case
    by (cases "4 \<le> n") (auto simp: memset_words.simps [of p "splat c" n m] mem_fill_step4 store_splat)
qed

lemma memset_fills:
  "memset dst v n m = mem_fill dst n (ucast (v AND 255)) m"
  by (simp add: memset_def Let_def memset_tail_fill memset_head_fill memset_words_fill
      split: prod.split)

lemma memmove_fwd_copy:
  "d = s \<or> n \<le> d - s \<Longrightarrow> memmove_fwd d s n m = mem_copy d s n m"
proof (induction d s n m rule: memmove_fwd.induct)
  case (1 d s n m)
  show ?case
  proof (cases "n > 0")
    case True
    have pre: "d + 1 = s + 1 \<or> n - 1 \<le> (d + 1) - (s + 1)"
      using "1.prems" True by (auto simp: word_le_nat_alt unat_minus_one word_gt_0)
    have "memmove_fwd d s n m = mem_copy (d + 1) (s + 1) (n - 1) (store8 d (m s) m)"
      using True "1.IH" [OF _ pre] by (simp add: memmove_fwd.simps [of d s n m])
    also have "\<dots> = mem_copy d s n m"
    proof
      fix a
      have "s + (a - d) = d \<Longrightarrow> a - d < n \<Longrightarrow> d = s"
        using "1.prems" by (metis add_diff_cancel_left' leD)
      moreover have "s + 1 + (a - (d + 1)) = s + (a - d)" by simp
      ultimately show "mem_copy (d + 1) (s + 1) (n - 1) (store8 d (m s) m) a = mem_copy d s n m a"
        using True by (auto simp: mem_copy_def store8_def region_step)
    qed
    finally show ?thesis .
  next
    case False
    then show ?thesis
      by (subst memmove_fwd.simps) (simp add: mem_copy_def word_gt_0)
  qed
qed

lemma region_back:
  fixes a :: uint
  assumes "n > 0"
  shows "a - (d - n) < n - 1 \<longleftrightarrow> a - (d - n) < n \<and> a \<noteq> d - 1"
proof -
  have "a - (d - n) = n - 1 \<longleftrightarrow> a = d - 1"
    by (auto simp: algebra_simps)
  moreover have "unat (n - 1) = unat n - 1" "unat n > 0"
    using assms by (simp_all add: unat_minus_one unat_gt_0 word_gt_0)
  ultimately show ?thesis
    unfolding word_less_nat_alt by (metis One_nat_def Suc_diff_1 less_Suc_eq nat_neq_iff word_unat_eq_iff)
qed

lemma memmove_bwd_copy:
  "d = s \<or> n \<le> s - d \<Longrightarrow> memmove_bwd d s n m = mem_copy (d - n) (s - n) n m"
proof (induction d s n m rule: memmove_bwd.induct)
  case (1 d s n m)
  show ?case
  proof (cases "n > 0")
    case True
    have pre: "d - 1 = s - 1 \<or> n - 1 \<le> (s - 1) - (d - 1)"
      using "1.prems" True by (auto simp: word_le_nat_alt unat_minus_one word_gt_0)
    have "memmove_bwd d s n m = mem_copy (d - n) (s - n) (n - 1) (store8 (d - 1) (m (s - 1)) m)"
      using True "1.IH" [OF _ pre] by (simp add: memmove_bwd.simps [of d s n m] algebra_simps)
    also have "\<dots> = mem_copy (d - n) (s - n) n m"
    proof
      fix a
      have "s - n + (a - (d - n)) = d - 1 \<Longrightarrow> a - (d - n) < n - 1 \<Longrightarrow> d = s"
      proof -
        assume e: "s - n + (a - (d - n)) = d - 1" and l: "a - (d - n) < n - 1"
        define x where "x = a - (d - n)"
        have "s - d = n - 1 - x" using e by (simp add: x_def algebra_simps)
        moreover have "x < n - 1" using l by (simp add: x_def)
        then have "n - 1 - x < n"
          using True by (simp add: word_less_nat_alt unat_sub word_le_nat_alt unat_minus_one word_gt_0)
        ultimately have "s - d < n" by simp
        with "1.prems" show "d = s" by auto
      qed
      moreover have "n - 1 < n"
        using True by (metis word_pred_less word_gt_0 word_less_nat_alt)
      ultimately show "mem_copy (d - n) (s - n) (n - 1) (store8 (d - 1) (m (s - 1)) m) a
          = mem_copy (d - n) (s - n) n m a"
        using True by (auto simp: mem_copy_def store8_def region_back)
    qed
    finally show ?thesis .
  next
    case False
    then show ?thesis
      by (subst memmove_bwd.simps) (simp add: mem_copy_def word_gt_0)
  qed
qed

lemma memmove_copies:
  assumes "unat src + unat n \<le> 2 ^ 32" and "unat dst + unat n \<le> 2 ^ 32"
  shows "memmove dst src n m = mem_copy dst src n m"
proof (cases "src < dst \<and> src + n > dst")
  case True
  have "unat (src - dst) = 2 ^ 32 - (unat dst - unat src)"
    using True by (simp add: unat_sub_if' word_less_nat_alt)
  then have "n \<le> src - dst"
    using assms(2) True by (simp add: word_le_nat_alt word_less_nat_alt)
  then show ?thesis
    using True by (simp add: memmove_def memmove_bwd_copy)
next
  case False
  have "dst = src \<or> n \<le> dst - src"
  proof (cases "src < dst")
    case True
    then have le: "src + n \<le> dst" using False by auto
    show ?thesis
    proof (cases "unat src + unat n < 2 ^ 32")
      case True
      then have "unat (src + n) = unat src + unat n"
        by (simp add: unat_word_ariths)
      then have "n \<le> dst - src"
        using le \<open>src < dst\<close> by (simp add: word_le_nat_alt word_less_nat_alt unat_sub_if')
      then show ?thesis ..
    next
      case False
      then show ?thesis
        using assms \<open>src < dst\<close> by (simp add: word_less_nat_alt)
    qed
  next
    case False
    then have "dst < src \<or> dst = src" by auto
    moreover have "n \<le> dst - src" if "dst < src"
      using that assms(1) by (simp add: word_le_nat_alt word_less_nat_alt unat_sub_if')
    ultimately show ?thesis by auto
  qed
  then show ?thesis
    using False by (auto simp: memmove_def memmove_fwd_copy)
qed


section \<open>Correctness of the string primitives\<close>

text \<open>The C string a bounded read sees: the bytes before the first NUL, at most \<open>k\<close>.\<close>

definition cstr :: "nat \<Rightarrow> view \<Rightarrow> uchar list" where
  "cstr k t = takeWhile (\<lambda>c. c \<noteq> 0) (map t [0..<k])"

lemma cstr_0 [simp]: "cstr 0 t = []"
  by (simp add: cstr_def)

lemma cstr_Suc [simp]:
  "cstr (Suc k) t = (if t 0 = 0 then [] else t 0 # cstr k (\<lambda>i. t (Suc i)))"
proof -
  have "map t [0..<Suc k] = t 0 # map (\<lambda>i. t (Suc i)) [0..<k]"
    by (simp add: upt_conv_Cons map_Suc_upt [symmetric] del: upt_Suc)
  then show ?thesis by (simp add: cstr_def)
qed

lemma length_cstr_le: "length (cstr k t) \<le> k"
  unfolding cstr_def by (metis diff_zero length_map length_takeWhile_le length_upt)

lemma cstr_nonzero: "0 \<notin> set (cstr k t)"
  by (auto simp: cstr_def dest: set_takeWhileD)

lemma memcmp_eq_0: "memcmp s1 s2 n = 0 \<longleftrightarrow> (\<forall>i<n. s1 i = s2 i)"
proof (induction s1 s2 n rule: memcmp.induct)
  case (2 s1 s2 n)
  then show ?case
    by (auto simp: less_Suc_eq_0_disj word_uint_eq_iff)
qed simp

lemma strncmp_eq_0: "strncmp p q n = 0 \<longleftrightarrow> cstr n p = cstr n q"
  by (induction p q n rule: strncmp.induct) (auto simp: word_uint_eq_iff)

lemma strncpy_pad_eq:
  "i + n \<le> length s \<Longrightarrow> strncpy_pad s i n = take i s @ replicate n 0 @ drop (i + n) s"
proof (induction s i n rule: strncpy_pad.induct)
  case (2 s i n)
  then show ?case
    by (simp add: take_Suc_conv_app_nth replicate_append_same [symmetric]) 
qed simp

lemma strncpy_copy_eq:
  "i + n \<le> length s \<Longrightarrow> strncpy_copy s i t n =
     take i s @ cstr n (\<lambda>j. t (i + j)) @ replicate (n - length (cstr n (\<lambda>j. t (i + j)))) 0
       @ drop (i + n) s"
proof (induction s i t n rule: strncpy_copy.induct)
  case (2 s i t n)
  then show ?case
    by (simp add: take_Suc_conv_app_nth strncpy_pad_eq)
qed simp

lemma strncpy_eq:
  assumes "nat n \<le> length s"
  shows "strncpy s t n = cstr (nat n) t @ replicate (nat n - length (cstr (nat n) t)) 0 @ drop (nat n) s"
  using strncpy_copy_eq [of 0 "nat n" s t] assms by (simp add: strncpy_def)

lemma safestrcpy_copy_props:
  "i + n < length s \<Longrightarrow>
     length (safestrcpy_copy s i t n) = length s
   \<and> take (i + Suc (length (cstr n (\<lambda>j. t (i + j))))) (safestrcpy_copy s i t n)
       = take i s @ cstr n (\<lambda>j. t (i + j)) @ [0]
   \<and> drop (i + Suc n) (safestrcpy_copy s i t n) = drop (i + Suc n) s"
proof (induction s i t n rule: safestrcpy_copy.induct)
  case (1 s i t)
  then show ?case by (simp add: take_Suc_conv_app_nth)
next
  case (2 s i t n)
  then show ?case
    by (cases "t i = 0") (simp_all add: take_Suc_conv_app_nth)
qed

lemma safestrcpy_terminates_string:
  assumes "0 < n" and "nat n \<le> length s"
  shows "length (safestrcpy s t n) = length s
   \<and> take (Suc (length (cstr (nat n - 1) t))) (safestrcpy s t n) = cstr (nat n - 1) t @ [0]
   \<and> drop (nat n) (safestrcpy s t n) = drop (nat n) s"
  using safestrcpy_copy_props [of 0 "nat n - 1" s t] assms
  by (simp add: safestrcpy_def nat_diff_distrib)

lemma strlen_from_least:
  assumes "s k = 0" and "n \<le> k" and "\<forall>i<n. s i \<noteq> 0"
  shows "strlen_from s n = Some (LEAST i. s i = 0)"
  using assms
proof (induction "k - n" arbitrary: n)
  case 0
  then have "n = k" by simp
  then have "(LEAST i. s i = 0) = n"
    using 0 by (intro Least_equality) (auto simp: not_less [symmetric])
  then show ?case using 0 \<open>n = k\<close> by (simp add: strlen_from.simps)
next
  case (Suc x)
  show ?case
  proof (cases "s n = 0")
    case True
    then have "(LEAST i. s i = 0) = n"
      using Suc.prems by (intro Least_equality) (auto simp: not_less [symmetric])
    then show ?thesis using True by (simp add: strlen_from.simps)
  next
    case False
    then have "strlen_from s (Suc n) = Some (LEAST i. s i = 0)"
      using Suc by (intro Suc.hyps(1)) (auto simp: less_Suc_eq)
    then show ?thesis using False by (simp add: strlen_from.simps [of s n])
  qed
qed

lemma strlen_least: "s k = 0 \<Longrightarrow> strlen s = Some (LEAST i. s i = 0)"
  by (simp add: strlen_def strlen_from_least)

section \<open>Properties\<close>

text \<open>
  C23. \<^verbatim>\<open>memset\<close>, which fills unaligned head bytes, whole words and tail bytes in three loops, equals the
  byte-by-byte specification: the \<open>n\<close> bytes from \<open>dst\<close> become the low byte of \<open>v\<close>, no other changes.
\<close>

theorem memset_refines_fill: "memset dst v n m = mem_fill dst n (ucast (v AND 255)) m"
  by (rule memset_fills)

text \<open>
  C22. \<^verbatim>\<open>memmove\<close> copies the old content of the source to the destination for every overlap of two regions
  that do not cross the end of the address space.
\<close>

theorem memmove_correct:
  assumes "unat src + unat n \<le> 2 ^ 32" and "unat dst + unat n \<le> 2 ^ 32"
  shows "memmove dst src n m = mem_copy dst src n m"
  using assms by (rule memmove_copies)

theorem memmove_correct_witness:
  "unat (100 :: uint) + unat (8 :: uint) \<le> 2 ^ 32 \<and> unat (104 :: uint) + unat (8 :: uint) \<le> 2 ^ 32 \<and>
   memmove 104 100 8 (\<lambda>a. ucast a) = mem_copy 104 100 8 (\<lambda>a. ucast a)"
  using memmove_correct [of 100 8 104 "\<lambda>a. ucast a"] by simp

text \<open>
  The string primitives on which directory names rest: \<^verbatim>\<open>strncmp\<close> is zero exactly when the two strings,
  cut at their terminator or at \<open>n\<close> bytes, are equal; \<^verbatim>\<open>strncpy\<close> writes that string, pads with zeros to
  \<open>n\<close> bytes and leaves the rest of the destination.
\<close>

theorem bounded_strings:
  assumes "nat n \<le> length d"
  shows "(strncmp p q (nat n) = 0 \<longleftrightarrow> cstr (nat n) p = cstr (nat n) q) \<and>
    strncpy d t n = cstr (nat n) t @ replicate (nat n - length (cstr (nat n) t)) 0 @ drop (nat n) d"
  using assms by (simp add: strncmp_eq_0 strncpy_eq)

theorem bounded_strings_witness:
  "nat 3 \<le> length [7, 7, 7, 7 :: uchar] \<and>
   strncpy [7, 7, 7, 7] (\<lambda>i. if i = 0 then 5 else 0) 3 = [5, 0, 0, 7]"
  using bounded_strings [of 3 "[7, 7, 7, 7]" "\<lambda>_. 0" "\<lambda>_. 0" "\<lambda>i. if i = 0 then 5 else 0"]
  by (simp add: eval_nat_numeral)

end
