(* ===== verification/Xv6_Spinlock.thy ===== *)
theory Xv6_Spinlock
  imports Xv6_Prelude
begin

text \<open>
  \<^verbatim>\<open>kernel/spinlock.c\<close> and the interrupt flag of \<^verbatim>\<open>include/arm.h\<close>: the per-CPU
  interrupt nesting (\<^verbatim>\<open>pushcli\<close>, \<^verbatim>\<open>popcli\<close>) and the spin locks. The record \<open>cpu_state\<close>
  is the root of the machine state; the later components extend it.
\<close>

section \<open>State\<close>

text \<open>The spin locks of the kernel, by the object that contains them.\<close>

datatype lockid =
    KmemLock | PtableLock | BcacheLock | LogLock | IcacheLock | FtableLock
  | TicksLock | ConsLock | InputLock | PipeLock nat | SleepLkLock nat

text \<open>
  \<^verbatim>\<open>struct spinlock\<close>. The call stack recorded in \<^verbatim>\<open>pcs\<close> is read by nothing but a debugger
  and is left out; \<open>getcallerpcs\<close> below computes it.
\<close>

record spinlock =
  locked :: bool
  lcpu :: "nat option"

text \<open>
  \<^verbatim>\<open>struct cpu\<close> with the CPSR interrupt bit: \<open>irq\<close> holds when IRQs are enabled. The port runs
  one CPU, number 0.
\<close>

record cpu_state =
  irq :: bool
  ncli :: int
  intena :: bool
  locks :: "lockid \<Rightarrow> spinlock"

section \<open>Operations\<close>

definition cli :: "'z cpu_state_scheme \<Rightarrow> 'z cpu_state_scheme" where
  "cli s = s\<lparr>irq := False\<rparr>"

definition sti :: "'z cpu_state_scheme \<Rightarrow> 'z cpu_state_scheme" where
  "sti s = s\<lparr>irq := True\<rparr>"

definition is_int :: "'z cpu_state_scheme \<Rightarrow> bool" where
  "is_int s = irq s"

definition initlock :: "lockid \<Rightarrow> 'z cpu_state_scheme \<Rightarrow> 'z cpu_state_scheme" where
  "initlock l s = s\<lparr>locks := (locks s)(l := \<lparr>locked = False, lcpu = None\<rparr>)\<rparr>"

definition pushcli :: "'z cpu_state_scheme \<Rightarrow> (unit, 'z cpu_state_scheme) outcome" where
  "pushcli s =
     (let s = cli s;
          s = (if ncli s = 0 then s\<lparr>intena := is_int s\<rparr> else s)
      in Ok () (s\<lparr>ncli := ncli s + 1\<rparr>))"

definition popcli :: "'z cpu_state_scheme \<Rightarrow> (unit, 'z cpu_state_scheme) outcome" where
  "popcli s =
     (if is_int s then Panic ''popcli - interruptible''
      else let s = s\<lparr>ncli := ncli s - 1\<rparr>
           in if ncli s < 0 then Panic ''popcli -- ncli < 0''
              else if ncli s = 0 \<and> intena s then Ok () (sti s) else Ok () s)"

text \<open>The build has \<^verbatim>\<open>MULTICORE\<close> 0: holding does not compare the CPU.\<close>

definition holding :: "lockid \<Rightarrow> 'z cpu_state_scheme \<Rightarrow> (bool, 'z cpu_state_scheme) outcome" where
  "holding l s =
     obind (pushcli s) (\<lambda>_ s.
     let r = locked (locks s l)
     in obind (popcli s) (\<lambda>_ s. Ok r s))"

text \<open>\<^verbatim>\<open>xchg(&lk->locked, 1)\<close>: the old value, with the lock word set.\<close>

definition xchg_locked :: "lockid \<Rightarrow> 'z cpu_state_scheme \<Rightarrow> bool \<times> 'z cpu_state_scheme" where
  "xchg_locked l s =
     (locked (locks s l), s\<lparr>locks := (locks s)(l := (locks s l)\<lparr>locked := True\<rparr>)\<rparr>)"

text \<open>
  With interrupts off on one CPU nothing can clear the lock word while \<^verbatim>\<open>acquire\<close> spins, so
  a first exchange that returns non-zero is followed by the same one for ever.
\<close>

definition acquire :: "lockid \<Rightarrow> 'z cpu_state_scheme \<Rightarrow> (unit, 'z cpu_state_scheme) outcome" where
  "acquire l s =
     obind (pushcli s) (\<lambda>_ s.
     obind (holding l s) (\<lambda>h s.
     if h then Panic ''acquire''
     else let (old, s) = xchg_locked l s
          in if old then Diverge
             else Ok () (s\<lparr>locks := (locks s)(l := (locks s l)\<lparr>lcpu := Some 0\<rparr>)\<rparr>)))"

definition release :: "lockid \<Rightarrow> 'z cpu_state_scheme \<Rightarrow> (unit, 'z cpu_state_scheme) outcome" where
  "release l s =
     obind (holding l s) (\<lambda>h s.
     if \<not> h then Panic ''release''
     else popcli (s\<lparr>locks := (locks s)(l := \<lparr>locked = False, lcpu = None\<rparr>)\<rparr>))"

text \<open>
  \<^verbatim>\<open>getcallerpcs\<close>: follow the chain of saved frame pointers in kernel memory, given as the
  word at each address. The loop runs at most \<open>STACK_DEPTH\<close> times and pads with zeros.
\<close>

definition KERNBASE :: uint where "KERNBASE = 0x80000000"

fun callerpcs_from :: "nat \<Rightarrow> (uint \<Rightarrow> uint) \<Rightarrow> uint \<Rightarrow> uint list" where
  "callerpcs_from 0 w fp = []"
| "callerpcs_from (Suc k) w fp =
     (if fp = 0 \<or> fp < KERNBASE \<or> fp = 0xFFFFFFFF then replicate (Suc k) 0
      else let fp = fp - 4 in w (fp + 4) # callerpcs_from k w (w fp))"

definition getcallerpcs :: "(uint \<Rightarrow> uint) \<Rightarrow> uint \<Rightarrow> uint list" where
  "getcallerpcs w v = callerpcs_from STACK_DEPTH w v"

section \<open>Interrupt nesting\<close>

lemma length_callerpcs_from [simp]: "length (callerpcs_from k w fp) = k"
  by (induction k w fp rule: callerpcs_from.induct) (auto simp: Let_def)

lemma getcallerpcs_length: "length (getcallerpcs w v) = STACK_DEPTH"
  by (simp add: getcallerpcs_def)

text \<open>
  \<open>cpu_ok\<close>: what every state between kernel operations satisfies: the nesting depth is not
  negative, and interrupts are off while it is positive.
\<close>

definition cpu_ok :: "'z cpu_state_scheme \<Rightarrow> bool" where
  "cpu_ok s \<longleftrightarrow> 0 \<le> ncli s \<and> (0 < ncli s \<longrightarrow> \<not> irq s)"

abbreviation lk_free :: spinlock where
  "lk_free \<equiv> \<lparr>locked = False, lcpu = None\<rparr>"

abbreviation lk_held :: spinlock where
  "lk_held \<equiv> \<lparr>locked = True, lcpu = Some 0\<rparr>"

lemmas irq_defs = pushcli_def popcli_def Let_def cli_def sti_def is_int_def cpu_ok_def

lemma holding_eq:
  assumes "cpu_ok s" and "ncli s > 0"
  shows "holding l s = Ok (locked (locks s l)) s"
  using assms by (simp add: holding_def irq_defs)

lemma acquire_eq:
  assumes "cpu_ok s" and "\<not> locked (locks s l)"
  shows "acquire l s = Ok () (s\<lparr>irq := False, ncli := ncli s + 1,
     intena := (ncli s \<noteq> 0 \<and> intena s), locks := (locks s)(l := lk_held)\<rparr>)"
  using assms by (cases "locks s l") (simp add: acquire_def holding_def irq_defs xchg_locked_def)

lemma acquire_held:
  assumes "cpu_ok s" and "locked (locks s l)"
  shows "acquire l s = Panic ''acquire''"
  using assms by (simp add: acquire_def holding_def irq_defs)

lemma release_eq:
  assumes "cpu_ok s" and "ncli s > 0" and "locked (locks s l)"
  shows "release l s = Ok () (s\<lparr>irq := (ncli s = 1 \<and> intena s), ncli := ncli s - 1,
     locks := (locks s)(l := lk_free)\<rparr>)"
  using assms by (auto simp: release_def holding_eq irq_defs)

text \<open>
  Evaluation rules for the kernel proper, which runs with interrupts off: an
  \<^verbatim>\<open>acquire\<close>/\<^verbatim>\<open>release\<close> pair then changes the depth and the lock table only.
\<close>

lemma acquire_exec [kexec]:
  assumes "\<not> irq s" and "\<not> intena s" and "0 \<le> ncli s" and "locks s l = lk_free"
  shows "acquire l s = Ok () (s\<lparr>ncli := ncli s + 1, locks := (locks s)(l := lk_held)\<rparr>)"
  using assms acquire_eq [of s l] by (simp add: cpu_ok_def)

lemma release_exec [kexec]:
  assumes "\<not> irq s" and "\<not> intena s" and "0 < ncli s" and "locks s l = lk_held"
  shows "release l s = Ok () (s\<lparr>ncli := ncli s - 1, locks := (locks s)(l := lk_free)\<rparr>)"
  using assms release_eq [of s l] by (simp add: cpu_ok_def)

lemma fun_upd_const [simp]: "(\<lambda>_. c)(l := c) = (\<lambda>_. c)"
  by auto

text \<open>The state of a process that runs in the kernel between operations: no lock held.\<close>

definition quiet :: "'z cpu_state_scheme \<Rightarrow> bool" where
  "quiet s \<longleftrightarrow> irq s = False \<and> intena s = False \<and> ncli s = 0 \<and> locks s = (\<lambda>_. lk_free)"

lemma quietD [kexec]:
  assumes "quiet s"
  shows "irq s = False" "intena s = False" "ncli s = 0" "locks s = (\<lambda>_. lk_free)"
  using assms by (simp_all add: quiet_def)

lemma quiet_cpu_ok: "quiet s \<Longrightarrow> cpu_ok s"
  by (simp add: quiet_def cpu_ok_def)

section \<open>Sequences of lock operations\<close>

text \<open>
  The lock steps a CPU makes, from the state after reset: all locks free, interrupts as the
  scheduler leaves them.
\<close>

inductive lock_step :: "cpu_state \<Rightarrow> cpu_state \<Rightarrow> bool" where
  ls_acquire: "acquire l s = Ok () t \<Longrightarrow> lock_step s t"
| ls_release: "release l s = Ok () t \<Longrightarrow> lock_step s t"
| ls_sti: "ncli s = 0 \<Longrightarrow> lock_step s (sti s)"

inductive lock_reachable :: "cpu_state \<Rightarrow> bool" where
  lr_init: "lock_reachable \<lparr>irq = b, ncli = 0, intena = False, locks = (\<lambda>_. lk_free)\<rparr>"
| lr_step: "lock_reachable s \<Longrightarrow> lock_step s t \<Longrightarrow> lock_reachable t"

definition held_locks :: "'z cpu_state_scheme \<Rightarrow> lockid set" where
  "held_locks s = {l. locked (locks s l)}"

definition nesting_inv :: "'z cpu_state_scheme \<Rightarrow> bool" where
  "nesting_inv s \<longleftrightarrow> cpu_ok s \<and> \<not> intena s \<and> finite (held_locks s) \<and>
     ncli s = int (card (held_locks s))"

lemma held_locks_take:
  "held_locks (s\<lparr>irq := a, ncli := n, intena := b, locks := (locks s)(l := lk_held)\<rparr>)
     = insert l (held_locks s)"
  by (auto simp: held_locks_def)

lemma held_locks_drop:
  "held_locks (s\<lparr>irq := a, ncli := n, locks := (locks s)(l := lk_free)\<rparr>) = held_locks s - {l}"
  by (auto simp: held_locks_def)

lemma acquire_nesting:
  assumes "nesting_inv s" and "acquire l s = Ok () t"
  shows "nesting_inv t"
proof -
  from assms have free: "\<not> locked (locks s l)"
    using acquire_held [of s l] by (auto simp: nesting_inv_def)
  moreover have "l \<notin> held_locks s" using free by (simp add: held_locks_def)
  ultimately show ?thesis
    using assms by (auto simp: nesting_inv_def acquire_eq held_locks_take cpu_ok_def)
qed

lemma release_not_held:
  assumes "nesting_inv s" and "\<not> locked (locks s l)"
  shows "release l s = Panic ''release'' \<or> release l s = Panic ''popcli - interruptible''"
  using assms by (auto simp: release_def holding_def irq_defs nesting_inv_def)

lemma release_nesting:
  assumes "nesting_inv s" and "release l s = Ok () t"
  shows "nesting_inv t"
proof -
  from assms have lk: "locked (locks s l)"
    using release_not_held [of s l] by auto
  then have held: "l \<in> held_locks s" by (simp add: held_locks_def)
  then have "0 < card (held_locks s)"
    using assms by (auto simp: nesting_inv_def card_gt_0_iff)
  with lk held show ?thesis
    using assms by (auto simp: nesting_inv_def release_eq held_locks_drop cpu_ok_def)
qed

lemma sti_nesting: "nesting_inv s \<Longrightarrow> ncli s = 0 \<Longrightarrow> nesting_inv (sti s)"
  by (simp add: nesting_inv_def sti_def cpu_ok_def held_locks_def)

lemma lock_reachable_nesting: "lock_reachable s \<Longrightarrow> nesting_inv s"
proof (induction rule: lock_reachable.induct)
  case (lr_init b)
  show ?case by (simp add: nesting_inv_def held_locks_def cpu_ok_def)
next
  case (lr_step s t)
  from lr_step.hyps(2) lr_step.IH show ?case
    by cases (auto intro: acquire_nesting release_nesting sti_nesting)
qed

section \<open>Properties\<close>

text \<open>
  \<^verbatim>\<open>acquire\<close> in every state between operations: it panics when the lock is held, otherwise it takes the
  lock for CPU 0 with interrupts off and the depth one higher. It never spins.
\<close>

theorem acquire_cases:
  assumes "cpu_ok s"
  shows "acquire l s =
    (if locked (locks s l) then Panic ''acquire''
     else Ok () (s\<lparr>irq := False, ncli := ncli s + 1, intena := (ncli s \<noteq> 0 \<and> intena s),
       locks := (locks s)(l := lk_held)\<rparr>))"
  using assms by (simp add: acquire_eq acquire_held)

definition reset_cpu :: cpu_state where
  "reset_cpu = \<lparr>irq = True, ncli = 0, intena = False, locks = (\<lambda>_. lk_free)\<rparr>"

theorem acquire_cases_witness:
  "cpu_ok reset_cpu \<and> acquire KmemLock reset_cpu = Ok () (reset_cpu\<lparr>irq := False, ncli := 1, intena := False,
     locks := (\<lambda>_. lk_free)(KmemLock := lk_held)\<rparr>)"
proof -
  have "cpu_ok reset_cpu" by (simp add: reset_cpu_def cpu_ok_def)
  then show ?thesis using acquire_cases [of reset_cpu KmemLock] by (simp add: reset_cpu_def)
qed

text \<open>
  C18. In every state reached by acquiring and releasing locks and by the scheduler's \<^verbatim>\<open>sti\<close>, the depth \<^verbatim>\<open>ncli\<close>
  is the number of locks held, and interrupts are off while it is positive.
\<close>

theorem lock_depth_exact:
  assumes "lock_reachable s"
  shows "finite (held_locks s) \<and> ncli s = int (card (held_locks s)) \<and> (held_locks s \<noteq> {} \<longrightarrow> \<not> irq s)"
  using lock_reachable_nesting [OF assms] by (auto simp: nesting_inv_def cpu_ok_def card_gt_0_iff)

theorem lock_depth_exact_witness:
  "\<exists>s. lock_reachable s \<and> held_locks s = {KmemLock} \<and> ncli s = 1 \<and> \<not> irq s"
proof -
  let ?s = "reset_cpu\<lparr>irq := False, ncli := 1, locks := (\<lambda>_. lk_free)(KmemLock := lk_held)\<rparr>"
  have "lock_reachable reset_cpu" unfolding reset_cpu_def by (rule lr_init)
  moreover have "acquire KmemLock reset_cpu = Ok () ?s"
    by (simp add: reset_cpu_def acquire_eq cpu_ok_def)
  ultimately have r: "lock_reachable ?s" by (metis ls_acquire lr_step)
  moreover have "held_locks ?s = {KmemLock}" by (auto simp: held_locks_def)
  ultimately show ?thesis using lock_depth_exact [OF r] by (intro exI [of _ ?s]) simp
qed

text \<open>
  C21. \<^verbatim>\<open>pushcli\<close> reads the interrupt flag after it has cleared it, so \<^verbatim>\<open>intena\<close> is always false and the last
  \<^verbatim>\<open>popcli\<close> does not enable interrupts again: an \<^verbatim>\<open>acquire\<close>/\<^verbatim>\<open>release\<close> pair entered with interrupts on
  returns with interrupts off.
\<close>

theorem release_leaves_irq_off:
  assumes "irq s" and "ncli s = 0" and "\<not> locked (locks s l)"
  shows "obind (acquire l s) (\<lambda>_ s. release l s) =
    Ok () (s\<lparr>irq := False, intena := False, locks := (locks s)(l := lk_free)\<rparr>)"
  using assms by (simp add: acquire_eq release_eq cpu_ok_def)

theorem release_leaves_irq_off_witness:
  "irq reset_cpu \<and> obind (acquire TicksLock reset_cpu) (\<lambda>_ s. release TicksLock s) = Ok () (reset_cpu\<lparr>irq := False\<rparr>)"
  using release_leaves_irq_off [of reset_cpu TicksLock] by (simp add: reset_cpu_def)

end
