(* ===== verification/Xv6_Mmu.thy ===== *)
theory Xv6_Mmu
  imports Xv6_String Xv6_Spinlock
begin

text \<open>
  \<^verbatim>\<open>include/mmu.h\<close>, \<^verbatim>\<open>include/memlayout.h\<close> and \<^verbatim>\<open>include/device.h\<close>: rounding macros, address
  translation and the bit layout of first- and second-level descriptors, with the
  arithmetic facts that the allocator and the virtual memory code rest on.
\<close>

section \<open>Constants and macros\<close>

definition PGSIZE :: uint where "PGSIZE = 65536"
definition PTE_SZ :: uint where "PTE_SZ = 4096"
definition PDE_SZ :: uint where "PDE_SZ = 1048576"
definition UADDR_SZ :: uint where "UADDR_SZ = 0x10000000"
definition NUM_UPDE :: nat where "NUM_UPDE = 256"
definition NUM_PTE :: uint where "NUM_PTE = 256"
definition PHYSTOP :: uint where "PHYSTOP = 0x08000000"
definition KSTACKSIZE :: uint where "KSTACKSIZE = 4096"

definition AP_KO :: uint where "AP_KO = 1"
definition AP_KU :: uint where "AP_KU = 3"
definition PDE_TYPES :: uint where "PDE_TYPES = 3"
definition PDE_COARSE :: uint where "PDE_COARSE = 1"
definition PTE_TYPES :: uint where "PTE_TYPES = 3"
definition PTE_SMALL :: uint where "PTE_SMALL = 2"
definition PTE_BUF :: uint where "PTE_BUF = 4"
definition PTE_CACHE :: uint where "PTE_CACHE = 8"

lemmas mmu_consts = PGSIZE_def PTE_SZ_def PDE_SZ_def UADDR_SZ_def NUM_UPDE_def NUM_PTE_def PHYSTOP_def
  KSTACKSIZE_def KERNBASE_def

definition ALIGNUP :: "uint \<Rightarrow> uint \<Rightarrow> uint" where
  "ALIGNUP sz al = (sz + al - 1) AND NOT (al - 1)"

definition ALIGNDOWN :: "uint \<Rightarrow> uint \<Rightarrow> uint" where
  "ALIGNDOWN sz al = sz AND NOT (al - 1)"

definition V2P :: "uint \<Rightarrow> uint" where "V2P a = a - KERNBASE"
definition P2V :: "uint \<Rightarrow> uint" where "P2V a = a + KERNBASE"

definition PDE_IDX :: "uint \<Rightarrow> uint" where "PDE_IDX v = drop_bit 20 v"
definition PTE_IDX :: "uint \<Rightarrow> uint" where "PTE_IDX v = drop_bit 12 v AND (NUM_PTE - 1)"
definition PTE_ADDR :: "uint \<Rightarrow> uint" where "PTE_ADDR v = ALIGNDOWN v PTE_SZ"
definition PTE_AP :: "uint \<Rightarrow> uint" where "PTE_AP p = drop_bit 4 p AND 3"

section \<open>Arithmetic of the macros\<close>

lemma P2V_V2P [simp]: "P2V (V2P a) = a" "V2P (P2V a) = a"
  by (simp_all add: P2V_def V2P_def)

lemma and_not_mask_shift: "(x::uint) AND NOT (2 ^ k - 1) = push_bit k (drop_bit k x)"
  by (rule bit_word_eqI) (auto simp: bit_simps mask_eq_exp_minus_1 [symmetric])

lemma unat_and_not_mask: "unat ((x::uint) AND NOT (2 ^ k - 1)) = unat x div 2 ^ k * 2 ^ k"
proof -
  have "take_bit 32 (unat x) = unat x"
    by (rule take_bit_nat_eq_self [OF unat_uint_less])
  then have "unat (push_bit k (drop_bit k x)) = take_bit 32 (push_bit k (drop_bit k (unat x)))"
    by (simp add: unsigned_push_bit_eq unsigned_drop_bit_eq)
  also have "push_bit k (drop_bit k (unat x)) = unat x div 2 ^ k * 2 ^ k"
    by (simp add: push_bit_eq_mult drop_bit_eq_div)
  also have "take_bit 32 (unat x div 2 ^ k * 2 ^ k) = unat x div 2 ^ k * 2 ^ k"
  proof -
    have "unat x div 2 ^ k * 2 ^ k \<le> unat x" by simp
    also have "unat x < 2 ^ 32" by (rule unat_uint_less)
    finally show ?thesis by (simp add: take_bit_eq_mod)
  qed
  finally show ?thesis by (simp add: and_not_mask_shift)
qed

lemma unat_ALIGNDOWN: "al = 2 ^ k \<Longrightarrow> unat (ALIGNDOWN x al) = unat x div 2 ^ k * 2 ^ k"
  by (simp add: ALIGNDOWN_def unat_and_not_mask)

lemma unat_ALIGNUP:
  assumes "al = 2 ^ k" and "k < 32" and "unat x + 2 ^ k \<le> 2 ^ 32"
  shows "unat (ALIGNUP x al) = (unat x + 2 ^ k - 1) div 2 ^ k * 2 ^ k"
proof -
  have "unat (2 ^ k :: uint) = 2 ^ k"
    using assms(2) unat_of_nat [of "2 ^ k", where 'a = 32] power_strict_increasing [of k 32 "2 :: nat"]
    by simp
  moreover from this have "(2 ^ k :: uint) \<noteq> 0" by (metis power_not_zero unat_0 zero_neq_numeral)
  ultimately have "unat (2 ^ k - 1 :: uint) = 2 ^ k - 1"
    by (simp add: unat_minus_one)
  then have "unat (x + (2 ^ k - 1)) = unat x + (2 ^ k - 1)"
    using assms(3) by (subst unat_add_lem [THEN iffD1]) auto
  then show ?thesis
    using assms(1) by (simp add: ALIGNUP_def unat_and_not_mask add_diff_eq [symmetric])
qed

end
