(* ===== verification/Xv6_Sched.thy ===== *)
theory Xv6_Sched
  imports Xv6_Spinlock
begin

text \<open>
  The process table and the part of \<^verbatim>\<open>kernel/proc.c\<close> that moves processes between states:
  \<^verbatim>\<open>sched\<close>, \<^verbatim>\<open>yield\<close>, \<^verbatim>\<open>forkret\<close>, \<^verbatim>\<open>sleep\<close>, \<^verbatim>\<open>wakeup1\<close>, \<^verbatim>\<open>wakeup\<close>, \<^verbatim>\<open>kill\<close> and \<^verbatim>\<open>scheduler\<close>, with the data of
  \<^verbatim>\<open>include/proc.h\<close>. Creation and destruction of processes need memory and files and
  live in \<open>Xv6_Proc\<close>.
\<close>

section \<open>State\<close>

record trapframe =
  tf_sp_usr :: uint
  tf_lr_usr :: uint
  tf_r14_svc :: uint
  tf_spsr :: uint
  tf_r0 :: uint
  tf_r1 :: uint
  tf_r2 :: uint
  tf_r3 :: uint
  tf_r4 :: uint
  tf_r5 :: uint
  tf_r6 :: uint
  tf_r7 :: uint
  tf_r8 :: uint
  tf_r9 :: uint
  tf_r10 :: uint
  tf_r11 :: uint
  tf_r12 :: uint
  tf_pc :: uint

datatype procstate = UNUSED | EMBRYO | SLEEPING | RUNNABLE | RUNNING | ZOMBIE

text \<open>A wait channel is the address of the object waited for.\<close>

datatype wchan =
    ChanProc nat | ChanBuf nat | ChanInode nat | ChanLog | ChanTicks
  | ChanPipeRead nat | ChanPipeWrite nat | ChanInput | ChanSleepLock nat

text \<open>
  The saved kernel context of a process: where \<^verbatim>\<open>swtch\<close> resumes it. A new process starts at
  \<^verbatim>\<open>forkret\<close>; the others stopped in \<^verbatim>\<open>sched\<close>, called from \<^verbatim>\<open>sleep\<close> (with the lock it will take
  again), \<^verbatim>\<open>yield\<close> or \<^verbatim>\<open>exit\<close>, with the saved \<^verbatim>\<open>intena\<close>.
\<close>

datatype kcontext = NoContext | AtForkret | InSleep lockid bool | InYield bool | InExit bool

record proc =
  p_sz :: uint
  p_pgdir :: uint
  p_kstack :: uint
  p_state :: procstate
  p_pid :: int
  p_parent :: "nat option"
  p_tf :: trapframe
  p_context :: kcontext
  p_chan :: "wchan option"
  p_killed :: bool
  p_ofile :: "nat option list"
  p_cwd :: "nat option"
  p_name :: "uchar list"

text \<open>An entry of the table as static storage starts it: all zero, that is \<^verbatim>\<open>UNUSED\<close>.\<close>

definition zero_tf :: trapframe where
  "zero_tf = \<lparr>tf_sp_usr = 0, tf_lr_usr = 0, tf_r14_svc = 0, tf_spsr = 0, tf_r0 = 0, tf_r1 = 0, tf_r2 = 0,
     tf_r3 = 0, tf_r4 = 0, tf_r5 = 0, tf_r6 = 0, tf_r7 = 0, tf_r8 = 0, tf_r9 = 0, tf_r10 = 0, tf_r11 = 0,
     tf_r12 = 0, tf_pc = 0\<rparr>"

definition zero_proc :: proc where
  "zero_proc = \<lparr>p_sz = 0, p_pgdir = 0, p_kstack = 0, p_state = UNUSED, p_pid = 0, p_parent = None,
     p_tf = zero_tf, p_context = NoContext, p_chan = None, p_killed = False,
     p_ofile = replicate NOFILE None, p_cwd = None, p_name = replicate 16 0\<rparr>"

text \<open>
  \<^verbatim>\<open>ptable\<close>, \<^verbatim>\<open>proc\<close>, \<^verbatim>\<open>initproc\<close>, \<^verbatim>\<open>nextpid\<close> and the clock. A pointer into the table is an index.
\<close>

record sched_state = cpu_state +
  ptable :: "proc list"
  curproc :: "nat option"
  initproc :: "nat option"
  nextpid :: int
  ticks :: uint

definition upd_proc :: "nat \<Rightarrow> (proc \<Rightarrow> proc) \<Rightarrow> 'z sched_state_scheme \<Rightarrow> 'z sched_state_scheme" where
  "upd_proc i f s = s\<lparr>ptable := (ptable s)[i := f (ptable s ! i)]\<rparr>"

section \<open>Operations\<close>

text \<open>
  \<^verbatim>\<open>sched\<close> saves the context and switches: as a function it never returns. The value type of
  its outcome is therefore arbitrary, and so is that of the functions that end in it.
\<close>

definition sched :: "(bool \<Rightarrow> kcontext) \<Rightarrow> 'z sched_state_scheme \<Rightarrow> ('a, 'z sched_state_scheme) outcome" where
  "sched ctx s =
     obind (holding PtableLock s) (\<lambda>h s.
     if \<not> h then Panic ''sched ptable.lock''
     else if ncli s \<noteq> 1 then Panic ''sched locks''
     else case curproc s of
       None \<Rightarrow> kfault
     | Some p \<Rightarrow>
         if p_state (ptable s ! p) = RUNNING then Panic ''sched running''
         else if is_int s then Panic ''sched interruptible''
         else Blocked (upd_proc p (\<lambda>q. q\<lparr>p_context := ctx (intena s)\<rparr>) s))"

definition yield :: "'z sched_state_scheme \<Rightarrow> ('a, 'z sched_state_scheme) outcome" where
  "yield s =
     obind (acquire PtableLock s) (\<lambda>_ s.
     case curproc s of
       None \<Rightarrow> kfault
     | Some p \<Rightarrow> sched InYield (upd_proc p (\<lambda>q. q\<lparr>p_state := RUNNABLE\<rparr>) s))"

text \<open>
  \<^verbatim>\<open>sleep\<close> up to the switch; its tail, after the process is scheduled again, is
  \<open>sleep_resume\<close>.
\<close>

definition sleep :: "wchan \<Rightarrow> lockid option \<Rightarrow> 'z sched_state_scheme \<Rightarrow> ('a, 'z sched_state_scheme) outcome" where
  "sleep chan lk s =
     (case curproc s of
        None \<Rightarrow> Panic ''sleep''
      | Some p \<Rightarrow>
         (case lk of
            None \<Rightarrow> Panic ''sleep without lk''
          | Some l \<Rightarrow>
              obind (if l \<noteq> PtableLock
                     then obind (acquire PtableLock s) (\<lambda>_ s. release l s)
                     else Ok () s) (\<lambda>_ s.
              sched (InSleep l)
                (upd_proc p (\<lambda>q. q\<lparr>p_chan := Some chan, p_state := SLEEPING\<rparr>) s))))"

definition sleep_resume :: "lockid \<Rightarrow> 'z sched_state_scheme \<Rightarrow> (unit, 'z sched_state_scheme) outcome" where
  "sleep_resume l s =
     (case curproc s of
        None \<Rightarrow> kfault
      | Some p \<Rightarrow>
         (let s = upd_proc p (\<lambda>q. q\<lparr>p_chan := None\<rparr>) s
          in if l \<noteq> PtableLock
             then obind (release PtableLock s) (\<lambda>_ s. acquire l s)
             else Ok () s))"

definition wakeup1 :: "wchan \<Rightarrow> 'z sched_state_scheme \<Rightarrow> 'z sched_state_scheme" where
  "wakeup1 chan s = s\<lparr>ptable := map (\<lambda>p.
     if p_state p = SLEEPING \<and> p_chan p = Some chan then p\<lparr>p_state := RUNNABLE\<rparr> else p) (ptable s)\<rparr>"

definition wakeup :: "wchan \<Rightarrow> 'z sched_state_scheme \<Rightarrow> (unit, 'z sched_state_scheme) outcome" where
  "wakeup chan s =
     obind (acquire PtableLock s) (\<lambda>_ s. release PtableLock (wakeup1 chan s))"

text \<open>The scan of \<^verbatim>\<open>kill\<close>: the first slot whose pid is the argument.\<close>

fun kill_scan :: "int \<Rightarrow> proc list \<Rightarrow> proc list option" where
  "kill_scan pd [] = None"
| "kill_scan pd (p # ps) =
     (if p_pid p = pd
      then Some (p\<lparr>p_killed := True,
                   p_state := (if p_state p = SLEEPING then RUNNABLE else p_state p)\<rparr> # ps)
      else map_option ((#) p) (kill_scan pd ps))"

definition kill :: "int \<Rightarrow> 'z sched_state_scheme \<Rightarrow> (int, 'z sched_state_scheme) outcome" where
  "kill pd s =
     obind (acquire PtableLock s) (\<lambda>_ s.
     case kill_scan pd (ptable s) of
       Some ps \<Rightarrow> obind (release PtableLock (s\<lparr>ptable := ps\<rparr>)) (\<lambda>_ s. Ok 0 s)
     | None \<Rightarrow> obind (release PtableLock s) (\<lambda>_ s. Ok (-1) s))"

text \<open>\<^verbatim>\<open>forkret\<close>; \<open>first\<close> tells whether the one-time \<^verbatim>\<open>initlog\<close> is still to be run.\<close>

definition forkret :: "('z sched_state_scheme \<Rightarrow> (unit, 'z sched_state_scheme) outcome) \<Rightarrow> bool
    \<Rightarrow> 'z sched_state_scheme \<Rightarrow> (unit, 'z sched_state_scheme) outcome" where
  "forkret initlog first s =
     obind (release PtableLock s) (\<lambda>_ s. if first then initlog s else Ok () s)"

text \<open>\<^verbatim>\<open>switchuvm\<close>: its checks; the page-table register is not part of the state.\<close>

definition switchuvm :: "proc option \<Rightarrow> 'z cpu_state_scheme \<Rightarrow> (unit, 'z cpu_state_scheme) outcome" where
  "switchuvm p s =
     (case p of
        None \<Rightarrow> Panic ''switchuvm: no process''
      | Some p \<Rightarrow>
          if p_kstack p = 0 then Panic ''switchuvm: no kstack''
          else if p_pgdir p = 0 then Panic ''switchuvm: no pgdir''
          else obind (pushcli s) (\<lambda>_ s. popcli s))"

text \<open>
  What a process does when \<^verbatim>\<open>swtch\<close> loads its context: the tail of \<^verbatim>\<open>sched\<close>, which restores
  \<^verbatim>\<open>intena\<close>, and then the tail of the function that had called it.
\<close>

definition resume :: "kcontext \<Rightarrow> 'z sched_state_scheme \<Rightarrow> (unit, 'z sched_state_scheme) outcome" where
  "resume ctx s =
     (case ctx of
        NoContext \<Rightarrow> kfault
      | AtForkret \<Rightarrow> forkret (Ok ()) False s
      | InSleep l ie \<Rightarrow> sleep_resume l (s\<lparr>intena := ie\<rparr>)
      | InYield ie \<Rightarrow> release PtableLock (s\<lparr>intena := ie\<rparr>)
      | InExit ie \<Rightarrow> Panic ''zombie exit'')"

text \<open>
  The body of the scheduler's loop for one slot that is \<^verbatim>\<open>RUNNABLE\<close>, up to the point where
  the chosen process runs.
\<close>

definition sched_run :: "nat \<Rightarrow> 'z sched_state_scheme \<Rightarrow> (unit, 'z sched_state_scheme) outcome" where
  "sched_run i s =
     (let p = ptable s ! i; s = s\<lparr>curproc := Some i\<rparr>
      in obind (switchuvm (Some p) s) (\<lambda>_ s.
         resume (p_context p) (upd_proc i (\<lambda>q. q\<lparr>p_state := RUNNING\<rparr>) s)))"

text \<open>The first \<^verbatim>\<open>RUNNABLE\<close> slot at or after position \<open>i\<close> of the table.\<close>

fun next_runnable :: "nat \<Rightarrow> proc list \<Rightarrow> nat option" where
  "next_runnable i [] = None"
| "next_runnable i (p # ps) = (if p_state p \<noteq> RUNNABLE then next_runnable (Suc i) ps else Some i)"

section \<open>The scheduler as a machine\<close>

text \<open>
  Control is either in the scheduler, at a position of its scan, or in a process. The
  processes run kernel code that takes and releases spin locks, wakes, kills, yields and
  sleeps; there is no preemption in the kernel (\<^verbatim>\<open>isr_timer\<close> does not yield).
\<close>

datatype ctl = InScheduler nat | InProc nat

inductive mstep :: "ctl \<times> sched_state \<Rightarrow> ctl \<times> sched_state \<Rightarrow> bool" where
  ms_skip: "i < length (ptable s) \<Longrightarrow> p_state (ptable s ! i) \<noteq> RUNNABLE \<Longrightarrow>
    mstep (InScheduler i, s) (InScheduler (Suc i), s)"
| ms_run: "i < length (ptable s) \<Longrightarrow> p_state (ptable s ! i) = RUNNABLE \<Longrightarrow>
    sched_run i s = Ok () t \<Longrightarrow> mstep (InScheduler i, s) (InProc i, t)"
| ms_wrap: "release PtableLock s = Ok () s1 \<Longrightarrow> acquire PtableLock (sti s1) = Ok () t \<Longrightarrow>
    mstep (InScheduler (length (ptable s)), s) (InScheduler 0, t)"
| ms_acquire: "acquire l s = Ok () t \<Longrightarrow> mstep (InProc i, s) (InProc i, t)"
| ms_release: "release l s = Ok () t \<Longrightarrow> mstep (InProc i, s) (InProc i, t)"
| ms_wakeup: "wakeup ch s = Ok () t \<Longrightarrow> mstep (InProc i, s) (InProc i, t)"
| ms_kill: "kill pd s = Ok r t \<Longrightarrow> mstep (InProc i, s) (InProc i, t)"
| ms_yield: "yield s = (Blocked t :: (unit, sched_state) outcome) \<Longrightarrow>
    mstep (InProc i, s) (InScheduler (Suc i), t\<lparr>curproc := None\<rparr>)"
| ms_sleep: "sleep ch l s = (Blocked t :: (unit, sched_state) outcome) \<Longrightarrow>
    mstep (InProc i, s) (InScheduler (Suc i), t\<lparr>curproc := None\<rparr>)"

definition running :: "'z sched_state_scheme \<Rightarrow> nat set" where
  "running s = {i. i < length (ptable s) \<and> p_state (ptable s ! i) = RUNNING}"

fun ctx_ok :: "kcontext \<Rightarrow> bool" where
  "ctx_ok (InSleep l ie) = (\<not> ie)"
| "ctx_ok (InYield ie) = (\<not> ie)"
| "ctx_ok (InExit ie) = (\<not> ie)"
| "ctx_ok _ = True"

definition ctxs_ok :: "'z sched_state_scheme \<Rightarrow> bool" where
  "ctxs_ok s \<longleftrightarrow> (\<forall>p \<in> set (ptable s). ctx_ok (p_context p))"

text \<open>
  The machine invariant: the lock nesting is exact; in the scheduler \<^verbatim>\<open>ptable.lock\<close> is the
  only lock held, there is no current process and none is RUNNING; in a process, that
  process is the current one and the only one RUNNING. No saved context remembers
  interrupts as enabled.
\<close>

fun minv :: "ctl \<times> 'z sched_state_scheme \<Rightarrow> bool" where
  "minv (InScheduler i, s) \<longleftrightarrow> nesting_inv s \<and> held_locks s = {PtableLock} \<and>
     curproc s = None \<and> running s = {} \<and> ctxs_ok s \<and> i \<le> length (ptable s)"
| "minv (InProc i, s) \<longleftrightarrow> nesting_inv s \<and> curproc s = Some i \<and> running s = {i} \<and>
     ctxs_ok s \<and> i < length (ptable s)"

lemma acquire_sched:
  assumes "nesting_inv s" and "acquire l s = Ok u t"
  shows "nesting_inv t \<and> held_locks t = insert l (held_locks s) \<and> l \<notin> held_locks s \<and>
    ptable t = ptable s \<and> curproc t = curproc s"
proof -
  from assms have free: "\<not> locked (locks s l)"
    using acquire_held [of s l] by (auto simp: nesting_inv_def)
  moreover have "nesting_inv t" using assms acquire_nesting by auto
  ultimately show ?thesis
    using assms by (auto simp: nesting_inv_def acquire_eq held_locks_take) (auto simp: held_locks_def)
qed

lemma release_sched:
  assumes "nesting_inv s" and "release l s = Ok u t"
  shows "nesting_inv t \<and> held_locks t = held_locks s - {l} \<and> l \<in> held_locks s \<and>
    ptable t = ptable s \<and> curproc t = curproc s"
proof -
  from assms have lk: "locked (locks s l)"
    using release_not_held [of s l] by auto
  then have "l \<in> held_locks s" by (simp add: held_locks_def)
  moreover from this have "0 < card (held_locks s)"
    using assms by (auto simp: nesting_inv_def card_gt_0_iff)
  moreover have "nesting_inv t" using assms release_nesting by auto
  ultimately show ?thesis
    using assms lk by (auto simp: nesting_inv_def release_eq held_locks_drop)
qed

lemma lock_ops_not_Blocked [simp]: "acquire l s \<noteq> Blocked t" "release l s \<noteq> Blocked t"
  by (auto simp: acquire_def release_def holding_def irq_defs xchg_locked_def)

lemma nesting_inv_ptable [simp]:
  "nesting_inv (s\<lparr>ptable := ps\<rparr>) = nesting_inv s" "nesting_inv (s\<lparr>curproc := c\<rparr>) = nesting_inv s"
  "held_locks (s\<lparr>ptable := ps\<rparr>) = held_locks s" "held_locks (s\<lparr>curproc := c\<rparr>) = held_locks s"
  by (simp_all add: nesting_inv_def held_locks_def cpu_ok_def)

lemma sched_Blocked:
  assumes "nesting_inv s" and "sched ctx s = Blocked t"
  obtains p where "curproc s = Some p" "held_locks s = {PtableLock}"
    "p_state (ptable s ! p) \<noteq> RUNNING"
    "t = upd_proc p (\<lambda>q. q\<lparr>p_context := ctx (intena s)\<rparr>) s"
proof (cases "ncli s = 0")
  case True
  then have "held_locks s = {}" using assms(1) by (auto simp: nesting_inv_def)
  then have "\<not> locked (locks s PtableLock)" by (auto simp: held_locks_def)
  then show ?thesis
    using assms True by (simp add: sched_def holding_def irq_defs nesting_inv_def)
next
  case False
  then have h: "holding PtableLock s = Ok (locked (locks s PtableLock)) s"
    using assms(1) by (intro holding_eq) (auto simp: nesting_inv_def cpu_ok_def)
  have one: "held_locks s = {PtableLock}" if "locked (locks s PtableLock)" "ncli s = 1"
  proof -
    have "card (held_locks s) = 1" "PtableLock \<in> held_locks s"
      using assms(1) that by (auto simp: nesting_inv_def held_locks_def)
    then show ?thesis by (metis card_1_singletonE singletonD)
  qed
  from assms(2) obtain p where "curproc s = Some p" "locked (locks s PtableLock)" "ncli s = 1"
    "p_state (ptable s ! p) \<noteq> RUNNING" "t = upd_proc p (\<lambda>q. q\<lparr>p_context := ctx (intena s)\<rparr>) s"
    by (auto simp: sched_def h kfault_def split: if_splits option.splits)
  with one show ?thesis by (intro that [of p]) auto
qed


lemma length_upd_proc [simp]: "length (ptable (upd_proc i f s)) = length (ptable s)"
  by (simp add: upd_proc_def)

lemma upd_proc_frame [simp]:
  "curproc (upd_proc i f s) = curproc s" "nesting_inv (upd_proc i f s) = nesting_inv s"
  "held_locks (upd_proc i f s) = held_locks s"
  by (simp_all add: upd_proc_def)

lemma running_upd_proc:
  "i < length (ptable s) \<Longrightarrow> running (upd_proc i f s) =
     (if p_state (f (ptable s ! i)) = RUNNING then insert i (running s) else running s - {i})"
  by (auto simp: running_def upd_proc_def nth_list_update split: if_splits)

lemma running_wakeup1 [simp]: "running (wakeup1 ch s) = running s"
  by (auto simp: running_def wakeup1_def split: if_splits)

lemma wakeup1_frame [simp]:
  "curproc (wakeup1 ch s) = curproc s" "nesting_inv (wakeup1 ch s) = nesting_inv s"
  "held_locks (wakeup1 ch s) = held_locks s" "length (ptable (wakeup1 ch s)) = length (ptable s)"
  by (simp_all add: wakeup1_def)

lemma ctxs_ok_upd_proc:
  "ctxs_ok s \<Longrightarrow> i < length (ptable s) \<Longrightarrow> ctx_ok (p_context (f (ptable s ! i))) \<Longrightarrow> ctxs_ok (upd_proc i f s)"
  by (auto simp: ctxs_ok_def upd_proc_def dest!: set_update_subset_insert [THEN subsetD])

lemma ctxs_ok_nth: "ctxs_ok s \<Longrightarrow> i < length (ptable s) \<Longrightarrow> ctx_ok (p_context (ptable s ! i))"
  by (simp add: ctxs_ok_def)

lemma ctxs_ok_curproc [simp]: "ctxs_ok (s\<lparr>curproc := c\<rparr>) = ctxs_ok s"
  by (simp add: ctxs_ok_def)

lemma ctxs_ok_wakeup1 [simp]: "ctxs_ok (wakeup1 ch s) = ctxs_ok s"
  unfolding ctxs_ok_def all_set_conv_all_nth by (auto simp: wakeup1_def)

lemma ctxs_ok_cong: "ptable t = ptable s \<Longrightarrow> ctxs_ok t = ctxs_ok s"
  by (simp add: ctxs_ok_def)

lemma kill_scan_ctx:
  "kill_scan pd ps = Some qs \<Longrightarrow> \<forall>p \<in> set ps. ctx_ok (p_context p) \<Longrightarrow> \<forall>p \<in> set qs. ctx_ok (p_context p)"
  by (induction ps arbitrary: qs) (auto split: if_splits)

lemma kill_scan_Some:
  "kill_scan pd ps = Some qs \<Longrightarrow> length qs = length ps \<and>
     (\<forall>i<length ps. (p_state (qs ! i) = RUNNING) = (p_state (ps ! i) = RUNNING))"
proof (induction ps arbitrary: qs)
  case (Cons p ps)
  then show ?case
    by (auto simp: nth_Cons' split: if_splits)
qed simp

lemma running_ptable_cong:
  "length qs = length (ptable s) \<Longrightarrow>
   (\<And>i. i < length (ptable s) \<Longrightarrow> (p_state (qs ! i) = RUNNING) = (p_state (ptable s ! i) = RUNNING)) \<Longrightarrow>
   running (s\<lparr>ptable := qs\<rparr>) = running s"
  by (auto simp: running_def)

lemma running_cong: "ptable t = ptable s \<Longrightarrow> running t = running s"
  by (simp add: running_def)

lemma running_curproc [simp]: "running (s\<lparr>curproc := c\<rparr>) = running s"
  by (simp add: running_def)

lemma minv_wakeup:
  assumes "minv (InProc i, s)" and "wakeup ch s = Ok u t"
  shows "minv (InProc i, t)"
proof -
  from assms(2) obtain s1 where a: "acquire PtableLock s = Ok () s1"
    and r: "release PtableLock (wakeup1 ch s1) = Ok u t"
    by (auto simp: wakeup_def)
  from acquire_sched [OF _ a] release_sched [OF _ r] assms(1)
  show ?thesis
    by (auto simp: running_cong [of t "wakeup1 ch s1"] running_cong [of s1 s]
        ctxs_ok_cong [of t "wakeup1 ch s1"] ctxs_ok_cong [of s1 s])
qed

lemma minv_kill:
  assumes "minv (InProc i, s)" and "kill pd s = Ok r t"
  shows "minv (InProc i, t)"
proof -
  from assms(2) obtain s1 where a: "acquire PtableLock s = Ok () s1"
    and k: "(case kill_scan pd (ptable s1) of
       Some ps \<Rightarrow> obind (release PtableLock (s1\<lparr>ptable := ps\<rparr>)) (\<lambda>_ s. Ok 0 s)
     | None \<Rightarrow> obind (release PtableLock s1) (\<lambda>_ s. Ok (-1) s)) = Ok r t"
    by (auto simp: kill_def)
  note s1 = acquire_sched [OF _ a]
  show ?thesis
  proof (cases "kill_scan pd (ptable s1)")
    case None
    then obtain u where "release PtableLock s1 = Ok u t" using k by auto
    from release_sched [OF _ this] s1 assms(1) show ?thesis
      by (auto simp: running_cong [of t s1] running_cong [of s1 s]
          ctxs_ok_cong [of t s1] ctxs_ok_cong [of s1 s])
  next
    case (Some ps)
    then obtain u where "release PtableLock (s1\<lparr>ptable := ps\<rparr>) = Ok u t" using k by auto
    note t = release_sched [OF _ this]
    have "running (s1\<lparr>ptable := ps\<rparr>) = running s1"
      using kill_scan_Some [OF Some] by (intro running_ptable_cong) auto
    moreover have "ctxs_ok t"
      using t s1 assms(1) kill_scan_ctx [OF Some] by (auto simp: ctxs_ok_def)
    ultimately show ?thesis
      using t s1 assms(1) kill_scan_Some [OF Some]
      by (simp add: running_cong [of t "s1\<lparr>ptable := ps\<rparr>"] running_cong [of s1 s])
  qed
qed

lemma minv_blocked:
  assumes "nesting_inv s" and "curproc s = Some i" and "i < length (ptable s)"
    and "running s = {}" and "ctxs_ok s" and "ctx_ok (ctx False)" and "sched ctx s = Blocked t"
  shows "minv (InScheduler (Suc i), t\<lparr>curproc := None\<rparr>)"
  using assms(1,7)
proof (cases rule: sched_Blocked)
  case (1 p)
  moreover have "ctxs_ok t"
    using assms 1 by (auto intro!: ctxs_ok_upd_proc simp: nesting_inv_def)
  ultimately show ?thesis
    using assms by (auto simp: running_upd_proc ctxs_ok_cong [of "t\<lparr>curproc := None\<rparr>" t])
qed

lemma minv_yield:
  assumes "minv (InProc i, s)" and "yield s = (Blocked t :: (unit, 'z sched_state_scheme) outcome)"
  shows "minv (InScheduler (Suc i), t\<lparr>curproc := None\<rparr>)"
proof (cases "acquire PtableLock s")
  case (Ok u s1)
  from acquire_sched [OF _ Ok] assms have s1: "nesting_inv s1" "ptable s1 = ptable s"
    "curproc s1 = Some i" by auto
  then have "sched InYield (upd_proc i (\<lambda>q. q\<lparr>p_state := RUNNABLE\<rparr>) s1) = (Blocked t :: (unit, 'z sched_state_scheme) outcome)"
    using assms Ok by (simp add: yield_def)
  then show ?thesis
    using s1 assms(1)
    by (intro minv_blocked)
      (auto simp: running_upd_proc running_cong [of s1 s] ctxs_ok_cong [of s1 s]
        intro!: ctxs_ok_upd_proc dest: ctxs_ok_nth)
qed (use assms in \<open>simp_all add: yield_def\<close>)

lemma minv_sleep:
  assumes "minv (InProc i, s)" and "sleep ch lk s = (Blocked t :: (unit, 'z sched_state_scheme) outcome)"
  shows "minv (InScheduler (Suc i), t\<lparr>curproc := None\<rparr>)"
proof -
  let ?pre = "\<lambda>l. if l \<noteq> PtableLock then obind (acquire PtableLock s) (\<lambda>_ s. release l s) else Ok () s"
  let ?go = "\<lambda>s. upd_proc i (\<lambda>q. q\<lparr>p_chan := Some ch, p_state := SLEEPING\<rparr>) s"
  from assms obtain l where lk: "lk = Some l"
    by (cases lk) (auto simp: sleep_def)
  with assms have m: "obind (?pre l) (\<lambda>_ s. sched (InSleep l) (?go s)) = (Blocked t :: (unit, 'z sched_state_scheme) outcome)"
    by (simp add: sleep_def)
  from m obtain u s1 where pre: "?pre l = Ok u s1" and go: "sched (InSleep l) (?go s1) = (Blocked t :: (unit, 'z sched_state_scheme) outcome)"
    by (cases "?pre l"; cases "acquire PtableLock s") (auto split: if_splits)
  have s1: "nesting_inv s1" "ptable s1 = ptable s" "curproc s1 = curproc s"
  proof -
    have "nesting_inv s1 \<and> ptable s1 = ptable s \<and> curproc s1 = curproc s"
    proof (cases "l = PtableLock")
      case False
      with pre obtain s0 where a: "acquire PtableLock s = Ok () s0" and r: "release l s0 = Ok u s1"
        by auto
      show ?thesis using acquire_sched [OF _ a] release_sched [OF _ r] assms(1) by auto
    qed (use pre assms(1) in auto)
    then show "nesting_inv s1" "ptable s1 = ptable s" "curproc s1 = curproc s" by auto
  qed
  show ?thesis
    using s1 assms(1) go
    by (intro minv_blocked [where ctx = "InSleep l"])
      (auto simp: running_upd_proc running_cong [of s1 s] ctxs_ok_cong [of s1 s]
        intro!: ctxs_ok_upd_proc dest: ctxs_ok_nth)
qed

lemma push_pop_nested:
  "nesting_inv s \<Longrightarrow> 0 < ncli s \<Longrightarrow> obind (pushcli s) (\<lambda>_ s. popcli s) = Ok () s"
  by (simp add: irq_defs nesting_inv_def)

lemma minv_resume:
  assumes "minv (InProc i, s)" and "ctx_ok ctx" and "resume ctx s = Ok u t"
  shows "minv (InProc i, t)"
proof -
  have ie: "s\<lparr>intena := False\<rparr> = s" using assms(1) by (simp add: nesting_inv_def)
  show ?thesis
  proof (cases ctx)
    case AtForkret
    with assms(3) have r: "release PtableLock s = Ok () t" by (auto simp: resume_def forkret_def)
    show ?thesis
      using release_sched [OF _ r] assms(1) by (auto simp: running_cong [of t s] ctxs_ok_cong [of t s])
  next
    case (InYield b)
    with assms ie have r: "release PtableLock s = Ok () t" by (auto simp: resume_def)
    show ?thesis
      using release_sched [OF _ r] assms(1) by (auto simp: running_cong [of t s] ctxs_ok_cong [of t s])
  next
    case (InSleep l b)
    let ?s = "upd_proc i (\<lambda>q. q\<lparr>p_chan := None\<rparr>) s"
    have "i \<in> running s" using assms(1) by simp
    then have "p_state (ptable s ! i) = RUNNING" by (simp add: running_def)
    then have s: "nesting_inv ?s" "running ?s = {i}" "ctxs_ok ?s" "curproc ?s = Some i"
      "length (ptable ?s) = length (ptable s)"
      using assms(1)
      by (auto simp: running_upd_proc intro!: ctxs_ok_upd_proc dest: ctxs_ok_nth)
    have r: "sleep_resume l s = Ok u t" using InSleep assms ie by (simp add: resume_def)
    show ?thesis
    proof (cases "l = PtableLock")
      case True
      then have "t = ?s" using r assms(1) by (simp add: sleep_resume_def)
      then show ?thesis using s assms(1) by simp
    next
      case False
      then obtain s1 where r1: "release PtableLock ?s = Ok () s1" and a1: "acquire l s1 = Ok () t"
        using r assms(1) by (auto simp: sleep_resume_def)
      note c1 = release_sched [OF s(1) r1]
      from c1 have c2: "nesting_inv t \<and> ptable t = ptable ?s \<and> curproc t = curproc ?s"
        using acquire_sched [OF _ a1] by auto
      then show ?thesis
        using s assms(1) running_cong [of t ?s] ctxs_ok_cong [of t ?s] by simp
    qed
  qed (use assms in \<open>simp_all add: resume_def kfault_def\<close>)
qed

lemma minv_run:
  assumes "minv (InScheduler i, s)" and "i < length (ptable s)" and "sched_run i s = Ok u t"
  shows "minv (InProc i, t)"
proof -
  let ?s = "s\<lparr>curproc := Some i\<rparr>"
  let ?s1 = "upd_proc i (\<lambda>q. q\<lparr>p_state := RUNNING\<rparr>) ?s"
  have n: "nesting_inv ?s" using assms(1) by simp
  have n': "0 < ncli ?s" using assms(1) by (simp add: nesting_inv_def)
  have "switchuvm (Some (ptable s ! i)) ?s = Ok () ?s"
    using assms(3) push_pop_nested [OF n n'] by (auto simp: sched_run_def switchuvm_def Let_def split: if_splits)
  then have "resume (p_context (ptable s ! i)) ?s1 = Ok u t"
    using assms(3) by (simp add: sched_run_def Let_def)
  moreover have "minv (InProc i, ?s1)"
    using assms n by (auto simp: running_upd_proc ctxs_ok_cong [of ?s s]
        intro!: ctxs_ok_upd_proc dest: ctxs_ok_nth)
  moreover have "ctx_ok (p_context (ptable s ! i))"
    using assms by (auto dest: ctxs_ok_nth)
  ultimately show ?thesis by (rule minv_resume [rotated 2])
qed

lemma minv_wrap:
  assumes "minv (InScheduler i, s)" and "release PtableLock s = Ok u s1"
    and "acquire PtableLock (sti s1) = Ok v t"
  shows "minv (InScheduler 0, t)"
proof -
  note s1 = release_sched [OF _ assms(2)]
  from s1 assms(1) have "nesting_inv s1" "held_locks s1 = {}" by auto
  then have "nesting_inv (sti s1)" "held_locks (sti s1) = {}"
    using sti_nesting [of s1] by (auto simp: nesting_inv_def held_locks_def sti_def)
  moreover have "ptable (sti s1) = ptable s1" "curproc (sti s1) = curproc s1"
    by (simp_all add: sti_def)
  ultimately show ?thesis
    using acquire_sched [OF _ assms(3)] s1 assms(1)
    by (auto simp: running_cong [of t s] ctxs_ok_cong [of t s])
qed

lemma mstep_minv: "mstep m m' \<Longrightarrow> minv m \<Longrightarrow> minv m'"
proof (induction rule: mstep.induct)
  case (ms_acquire l s t i)
  then show ?case
    using acquire_sched [OF _ ms_acquire.hyps] by (auto simp: running_cong [of t s] ctxs_ok_cong [of t s])
next
  case (ms_release l s t i)
  then show ?case
    using release_sched [OF _ ms_release.hyps] by (auto simp: running_cong [of t s] ctxs_ok_cong [of t s])
next
  case (ms_run i s t)
  then show ?case by (intro minv_run) auto
next
  case (ms_wrap s s1 t)
  then show ?case using minv_wrap by blast
next
  case (ms_skip i s)
  then show ?case by auto
next
  case (ms_wakeup ch s t i)
  then show ?case using minv_wakeup by blast
next
  case (ms_kill pd s r t i)
  then show ?case using minv_kill by blast
next
  case (ms_yield s t i)
  then show ?case using minv_yield by blast
next
  case (ms_sleep ch l s t i)
  then show ?case using minv_sleep by blast
qed


lemma mstep_star_minv: "mstep\<^sup>*\<^sup>* m m' \<Longrightarrow> minv m \<Longrightarrow> minv m'"
  by (induction rule: rtranclp_induct) (auto intro: mstep_minv)

text \<open>The state in which \<^verbatim>\<open>scheduler\<close> starts its first scan, over the table \<open>ps\<close>.\<close>

definition sched_entry :: "proc list \<Rightarrow> sched_state" where
  "sched_entry ps = \<lparr>irq = False, ncli = 1, intena = False, locks = (\<lambda>_. lk_free)(PtableLock := lk_held),
     ptable = ps, curproc = None, initproc = Some 0, nextpid = 2, ticks = 0\<rparr>"

lemma sched_entry_minv:
  assumes "\<forall>p \<in> set ps. p_state p \<noteq> RUNNING \<and> ctx_ok (p_context p)"
  shows "minv (InScheduler 0, sched_entry ps)"
proof -
  have "held_locks (sched_entry ps) = {PtableLock}"
    by (auto simp: held_locks_def sched_entry_def)
  moreover from this have "nesting_inv (sched_entry ps)"
    by (simp add: nesting_inv_def) (simp add: sched_entry_def cpu_ok_def)
  ultimately show ?thesis
    using assms by (auto simp: sched_entry_def running_def ctxs_ok_def)
qed

lemma one_running:
  assumes "\<forall>p \<in> set ps. p_state p \<noteq> RUNNING \<and> ctx_ok (p_context p)"
    and "mstep\<^sup>*\<^sup>* (InScheduler 0, sched_entry ps) (c, s)"
  shows "(case c of
      InScheduler i \<Rightarrow> running s = {} \<and> curproc s = None \<and> held_locks s = {PtableLock} \<and> ncli s = 1
    | InProc i \<Rightarrow> running s = {i} \<and> curproc s = Some i) \<and>
    ncli s = int (card (held_locks s))"
proof -
  have "minv (c, s)"
    using mstep_star_minv [OF assms(2) sched_entry_minv [OF assms(1)]] .
  then show ?thesis by (cases c) (auto simp: nesting_inv_def)
qed

text \<open>Waking up: exactly the processes asleep on the channel become runnable.\<close>

lemma wakeup1_nth:
  "i < length (ptable s) \<Longrightarrow> ptable (wakeup1 ch s) ! i =
     (if p_state (ptable s ! i) = SLEEPING \<and> p_chan (ptable s ! i) = Some ch
      then (ptable s ! i)\<lparr>p_state := RUNNABLE\<rparr> else ptable s ! i)"
  by (simp add: wakeup1_def)

lemma wakeup_exec [kexec]:
  assumes "\<not> irq s" "\<not> intena s" "0 \<le> ncli s" "locks s PtableLock = lk_free"
  shows "wakeup ch s = Ok () (wakeup1 ch s)"
  using assms
  by (cases s) (simp add: wakeup_def wakeup1_def kexec fun_upd_idem)

text \<open>
  \<^verbatim>\<open>sleep\<close> gives up the lock and the CPU in one step: in the state that reaches the scheduler the
  process is asleep on the channel, its lock is free and \<^verbatim>\<open>ptable.lock\<close> is the one lock held.
\<close>

definition sleeping_on :: "wchan \<Rightarrow> nat \<Rightarrow> lockid \<Rightarrow> 'z sched_state_scheme \<Rightarrow> 'z sched_state_scheme" where
  "sleeping_on ch p l s = upd_proc p (\<lambda>q. q\<lparr>p_chan := Some ch, p_state := SLEEPING,
     p_context := InSleep l False\<rparr>)
     (s\<lparr>locks := (locks s)(PtableLock := lk_held, l := (if l = PtableLock then lk_held else lk_free))\<rparr>)"

lemma sleep_exec:
  assumes "curproc s = Some p" "p < length (ptable s)" "\<not> irq s" "\<not> intena s" "ncli s = 1"
    and "locks s l = lk_held" "l \<noteq> PtableLock \<Longrightarrow> locks s PtableLock = lk_free"
  shows "sleep ch (Some l) s = Blocked (sleeping_on ch p l s)"
proof (cases "l = PtableLock")
  case True
  then show ?thesis
    using assms
    by (simp add: sleep_def sched_def holding_eq cpu_ok_def upd_proc_def sleeping_on_def is_int_def
        fun_upd_idem)
next
  case False
  then show ?thesis
    using assms
    by (simp add: sleep_def sched_def kexec holding_eq cpu_ok_def upd_proc_def sleeping_on_def
        is_int_def fun_upd_twist)
qed

section \<open>Properties\<close>


definition ready_proc :: proc where
  "ready_proc = zero_proc\<lparr>p_state := RUNNABLE, p_pid := 1, p_pgdir := 1, p_kstack := 1, p_context := AtForkret\<rparr>"




lemma kill_scan_find:
  "kill_scan pd ps = (case find (\<lambda>i. p_pid (ps ! i) = pd) [0..<length ps] of
     None \<Rightarrow> None
   | Some i \<Rightarrow> Some (ps[i := (ps ! i)\<lparr>p_killed := True,
       p_state := (if p_state (ps ! i) = SLEEPING then RUNNABLE else p_state (ps ! i))\<rparr>]))"
proof (induction ps)
  case (Cons p ps)
  have "find (\<lambda>i. p_pid ((p # ps) ! i) = pd) (map Suc [0..<length ps]) =
      map_option Suc (find (\<lambda>i. p_pid (ps ! i) = pd) [0..<length ps])"
    by (simp add: find_map)
  then show ?case
    using Cons by (auto simp: upt_conv_Cons map_Suc_upt [symmetric] simp del: upt_Suc split: option.splits)
qed simp

text \<open>
  C20. \<^verbatim>\<open>kill\<close>, on both branches: the first slot with the pid is marked killed and woken if it sleeps, and the
  result is 0; without such a slot nothing changes and the result is -1. No state of a slot is
  exempt: \<^verbatim>\<open>kill(0)\<close> marks the first UNUSED slot of a fresh table.
\<close>

theorem kill_spec:
  assumes "quiet s"
  shows "kill pd s =
    (case find (\<lambda>i. p_pid (ptable s ! i) = pd) [0..<length (ptable s)] of
       None \<Rightarrow> Ok (-1) s
     | Some i \<Rightarrow> Ok 0 (upd_proc i (\<lambda>p. p\<lparr>p_killed := True,
         p_state := (if p_state p = SLEEPING then RUNNABLE else p_state p)\<rparr>) s))"
proof (cases "find (\<lambda>i. p_pid (ptable s ! i) = pd) [0..<length (ptable s)]")
  case None
  then show ?thesis
    using assms by (simp add: kill_def kexec kill_scan_find)
next
  case (Some i)
  then show ?thesis
    using assms by (simp add: kill_def kexec kill_scan_find upd_proc_def)
qed

theorem kill_spec_witness:
  "quiet (sched_entry [zero_proc]\<lparr>ncli := 0, locks := (\<lambda>_. lk_free)\<rparr>) \<and>
   kill 0 (sched_entry [zero_proc]\<lparr>ncli := 0, locks := (\<lambda>_. lk_free)\<rparr>) =
     Ok 0 (sched_entry [zero_proc\<lparr>p_killed := True\<rparr>]\<lparr>ncli := 0, locks := (\<lambda>_. lk_free)\<rparr>)"
  using kill_spec [of "sched_entry [zero_proc]\<lparr>ncli := 0, locks := (\<lambda>_. lk_free)\<rparr>" 0]
  by (simp add: sched_entry_def quiet_def zero_proc_def upd_proc_def)

end
