(* ===== verification/Xv6_Kalloc.thy ===== *)
theory Xv6_Kalloc
  imports Xv6_Mmu Xv6_Sched
begin

text \<open>
  \<^verbatim>\<open>kernel/kalloc.c\<close>: the physical page allocator. Its free list is threaded through the free
  pages themselves: the first word of a free page is the address of the next one. The
  unit it hands out is \<open>4 * PGSIZE\<close>, 256 KB. The abstraction is the list of the free
  pages; the interface that the rest of the kernel relies on is the locale
  \<open>page_allocator\<close>.
\<close>

section \<open>State and operations\<close>

text \<open>
  \<^verbatim>\<open>kmem\<close>, the kernel's memory and the address where the kernel image ends (given by the
  linker script, never written).
\<close>

record kmem_state = sched_state +
  kmem_mem :: mem
  freelist :: uint
  use_lock :: bool
  kern_end :: uint

definition KPAGE :: uint where "KPAGE = 4 * PGSIZE"

definition kinit1 :: "'z kmem_state_scheme \<Rightarrow> 'z kmem_state_scheme" where
  "kinit1 s = (initlock KmemLock s)\<lparr>use_lock := False\<rparr>"

definition kinit2 :: "'z kmem_state_scheme \<Rightarrow> 'z kmem_state_scheme" where
  "kinit2 s = s\<lparr>use_lock := True\<rparr>"

definition kfree :: "uint \<Rightarrow> 'z kmem_state_scheme \<Rightarrow> (unit, 'z kmem_state_scheme) outcome" where
  "kfree v s =
     (if v mod KPAGE \<noteq> 0 then Panic ''kfree - unaligned''
      else if v < kern_end s then Panic ''kfree - under kern_end''
      else if V2P v \<ge> PHYSTOP then Panic ''kfree - over PHYSTOP''
      else let s = s\<lparr>kmem_mem := memset v 0 KPAGE (kmem_mem s)\<rparr>
           in obind (if use_lock s then acquire KmemLock s else Ok () s) (\<lambda>_ s.
              let s = s\<lparr>kmem_mem := store32 v (freelist s) (kmem_mem s)\<rparr>;
                  s = s\<lparr>freelist := v\<rparr>
              in if use_lock s then release KmemLock s else Ok () s))"

definition kalloc :: "'z kmem_state_scheme \<Rightarrow> (uint, 'z kmem_state_scheme) outcome" where
  "kalloc s =
     obind (if use_lock s then acquire KmemLock s else Ok () s) (\<lambda>_ s.
     let r = freelist s;
         s = (if r \<noteq> 0 then s\<lparr>freelist := load32 (kmem_mem s) r\<rparr> else s)
     in obind (if use_lock s then release KmemLock s else Ok () s) (\<lambda>_ s. Ok r s))"

lemma kfree_Ok_range: "kfree v s = Ok u t \<Longrightarrow> V2P v < PHYSTOP"
  by (auto simp: kfree_def split: if_splits)

lemma freerange_step:
  assumes "V2P p < PHYSTOP"
  shows "unat (p + KPAGE) = unat p + 0x40000"
proof -
  have "unat (V2P p) < 0x08000000"
    using assms by (simp add: word_less_nat_alt PHYSTOP_def)
  then have "unat (V2P p + 0x80000000) = unat (V2P p) + 0x80000000"
    by (subst unat_add_lem [THEN iffD1]) auto
  moreover have "V2P p + 0x80000000 = p" by (simp add: V2P_def KERNBASE_def)
  ultimately have "unat p < 0x88000000"
    using \<open>unat (V2P p) < 0x08000000\<close> by simp
  then show ?thesis
    by (subst unat_add_lem [THEN iffD1]) (auto simp: KPAGE_def PGSIZE_def)
qed

text \<open>The loop of \<^verbatim>\<open>freerange\<close>. It stops because \<^verbatim>\<open>kfree\<close> panics above the physical memory.\<close>

function freerange_from :: "uint \<Rightarrow> uint \<Rightarrow> 'z kmem_state_scheme \<Rightarrow> (unit, 'z kmem_state_scheme) outcome" where
  "freerange_from p vend s =
     (if p + KPAGE \<le> vend
      then obind (kfree p s) (\<lambda>_ s. freerange_from (p + KPAGE) vend s)
      else Ok () s)"
  by pat_completeness auto
termination
proof (relation "measure (\<lambda>(p, vend, s). 2 ^ 32 - unat p)")
  fix p vend :: uint and s t :: "'z kmem_state_scheme" and a
  assume "kfree p s = Ok a t"
  then have "unat (p + KPAGE) = unat p + 0x40000"
    by (intro freerange_step kfree_Ok_range)
  then have "2 ^ 32 - unat (p + KPAGE) < 2 ^ 32 - unat p"
    using unat_uint_less [of p] by (intro diff_less_mono2) auto
  then show "((p + KPAGE, vend, t), p, vend, s) \<in> measure (\<lambda>(p, vend, s). 2 ^ 32 - unat p)"
    by simp
qed simp

declare freerange_from.simps [simp del]

definition freerange :: "uint \<Rightarrow> uint \<Rightarrow> 'z kmem_state_scheme \<Rightarrow> (unit, 'z kmem_state_scheme) outcome" where
  "freerange vstart vend s = freerange_from (ALIGNUP vstart KPAGE) vend s"

section \<open>The free list\<close>

text \<open>The pages that \<^verbatim>\<open>kfree\<close> accepts.\<close>

definition page_ok :: "uint \<Rightarrow> uint \<Rightarrow> bool" where
  "page_ok ke v \<longleftrightarrow> v mod KPAGE = 0 \<and> ke \<le> v \<and> V2P v < PHYSTOP"

fun flist :: "mem \<Rightarrow> uint \<Rightarrow> uint list \<Rightarrow> bool" where
  "flist m p [] \<longleftrightarrow> p = 0"
| "flist m p (x # xs) \<longleftrightarrow> p = x \<and> x \<noteq> 0 \<and> flist m (load32 m x) xs"

text \<open>The abstraction: \<open>ps\<close> is the list of free pages, first to be allocated first.\<close>

definition free_pages :: "'z kmem_state_scheme \<Rightarrow> uint list \<Rightarrow> bool" where
  "free_pages s ps \<longleftrightarrow> flist (kmem_mem s) (freelist s) ps \<and> distinct ps \<and>
     (\<forall>p \<in> set ps. page_ok (kern_end s) p)"

lemma KPAGE_unat [simp]: "unat KPAGE = 0x40000"
  by (simp add: KPAGE_def PGSIZE_def)

lemma page_nonzero: "page_ok ke v \<Longrightarrow> v \<noteq> 0"
  by (auto simp: page_ok_def V2P_def KERNBASE_def PHYSTOP_def)

lemma aligned_unat: "v mod KPAGE = 0 \<Longrightarrow> unat v mod 0x40000 = 0"
  by (metis KPAGE_unat unat_0 unat_mod)

lemma in_page:
  assumes "v mod KPAGE = 0"
  shows "a - v < KPAGE \<longleftrightarrow> unat a div 0x40000 = unat v div 0x40000"
proof -
  have al: "unat v mod 0x40000 = 0" using assms by (rule aligned_unat)
  then obtain k where k: "unat v = 0x40000 * k" by (auto simp: mod_eq_0_iff_dvd dvd_def)
  show ?thesis
  proof
    assume "a - v < KPAGE"
    then have l: "unat (a - v) < 0x40000" by (simp add: word_less_nat_alt)
    have "unat v \<le> 2 ^ 32 - 0x40000"
      using k unat_uint_less [of v] by simp
    then have "unat (v + (a - v)) = unat v + unat (a - v)"
      using l by (subst unat_add_lem [THEN iffD1]) auto
    then show "unat a div 0x40000 = unat v div 0x40000"
      using l k by simp
  next
    assume e: "unat a div 0x40000 = unat v div 0x40000"
    then have "unat v \<le> unat a" "unat a - unat v < 0x40000"
      using k by auto
    then show "a - v < KPAGE"
      by (simp add: word_less_nat_alt unat_sub_if')
  qed
qed

lemma same_page_eq:
  assumes "v mod KPAGE = 0" "w mod KPAGE = 0" "unat v div 0x40000 = unat w div 0x40000"
  shows "v = w"
  using assms aligned_unat [of v] aligned_unat [of w]
  by (metis add.right_neutral div_mult_mod_eq word_unat_eq_iff)

lemma page_word:
  assumes "v mod KPAGE = 0" "unat i < 4"
  shows "unat (v + i) div 0x40000 = unat v div 0x40000"
  using in_page [OF assms(1), of "v + i"] assms(2) by (simp add: word_less_nat_alt)

lemma load32_cong:
  "m a = m' a \<Longrightarrow> m (a + 1) = m' (a + 1) \<Longrightarrow> m (a + 2) = m' (a + 2) \<Longrightarrow> m (a + 3) = m' (a + 3)
   \<Longrightarrow> load32 m a = load32 m' a"
  by (simp add: load32_def)

lemma load32_store32: "load32 (store32 a w m) a = w"
proof (rule bit_word_eqI)
  fix n assume "n < LENGTH(32)"
  then show "bit (load32 (store32 a w m) a) n = bit w n"
    by (cases "24 \<le> n"; cases "16 \<le> n"; cases "8 \<le> n")
      (auto simp: load32_def store32_def bit_simps not_less)
qed

text \<open>What a write inside one page leaves of the free list on the other pages.\<close>

lemma flist_other_page:
  assumes "\<And>a. unat a div 0x40000 \<noteq> unat v div 0x40000 \<Longrightarrow> m' a = m a"
    and "v mod KPAGE = 0" and "\<forall>p \<in> set ps. p mod KPAGE = 0" and "v \<notin> set ps"
  shows "flist m' q ps = flist m q ps"
  using assms(3,4)
proof (induction ps arbitrary: q)
  case (Cons x xs)
  have x: "x mod KPAGE = 0" "x \<noteq> v" using Cons.prems by auto
  have "m' (x + i) = m (x + i)" if "unat i < 4" for i
    using assms(1) [of "x + i"] page_word [OF x(1) that] same_page_eq [OF x(1) assms(2)] x(2) by auto
  from this [of 0] this [of 1] this [of 2] this [of 3] have "load32 m' x = load32 m x"
    by (intro load32_cong) simp_all
  then show ?case using Cons by simp
qed simp


section \<open>Allocation and freeing\<close>

text \<open>
  The condition under which the allocator's critical section can be entered: before
  \<^verbatim>\<open>kinit2\<close> no lock is used; after it the kernel runs with interrupts off.
\<close>

definition kmem_idle :: "'z kmem_state_scheme \<Rightarrow> bool" where
  "kmem_idle s \<longleftrightarrow> (use_lock s \<longrightarrow>
     \<not> irq s \<and> \<not> intena s \<and> 0 \<le> ncli s \<and> locks s KmemLock = lk_free)"

lemma quiet_kmem_idle: "quiet s \<Longrightarrow> kmem_idle s"
  by (simp add: quiet_def kmem_idle_def)

lemma kfree_exec:
  assumes "kmem_idle s" and "page_ok (kern_end s) v"
  shows "kfree v s = Ok () (s\<lparr>kmem_mem := store32 v (freelist s) (mem_fill v KPAGE 0 (kmem_mem s)),
    freelist := v\<rparr>)"
  using assms
  by (cases "use_lock s")
    (simp_all add: kfree_def page_ok_def kmem_idle_def memset_fills kexec Let_def fun_upd_idem not_less not_le)

lemma kalloc_exec:
  assumes "kmem_idle s"
  shows "kalloc s = Ok (freelist s)
    (if freelist s = 0 then s else s\<lparr>freelist := load32 (kmem_mem s) (freelist s)\<rparr>)"
  using assms
  by (cases "use_lock s") (simp_all add: kalloc_def kmem_idle_def kexec Let_def fun_upd_idem)

lemma store32_other: "b - a \<ge> 4 \<Longrightarrow> store32 a w m b = m b"
  by (auto simp: store32_def word_le_nat_alt)

lemma store_in_page:
  assumes "v mod KPAGE = 0" and "unat b div 0x40000 \<noteq> unat v div 0x40000"
  shows "store32 v w (mem_fill v KPAGE 0 m) b = m b"
proof -
  have "\<not> b - v < KPAGE" using assms(2) in_page [OF assms(1)] by simp
  moreover from this have "b - v \<ge> 4"
    by (simp add: word_less_nat_alt word_le_nat_alt)
  ultimately show ?thesis by (simp add: store32_other mem_fill_def)
qed

lemma kfree_correct:
  assumes "kmem_idle s" and "free_pages s ps" and "page_ok (kern_end s) v" and "v \<notin> set ps"
  shows "\<exists>t. kfree v s = Ok () t \<and> free_pages t (v # ps) \<and> kmem_idle t \<and> kern_end t = kern_end s \<and>
    (\<forall>a. unat a div 0x40000 \<noteq> unat v div 0x40000 \<longrightarrow> kmem_mem t a = kmem_mem s a)"
proof -
  let ?m = "store32 v (freelist s) (mem_fill v KPAGE 0 (kmem_mem s))"
  let ?t = "s\<lparr>kmem_mem := ?m, freelist := v\<rparr>"
  have al: "v mod KPAGE = 0" using assms(3) by (simp add: page_ok_def)
  have "flist ?m (freelist s) ps = flist (kmem_mem s) (freelist s) ps"
    using assms al by (intro flist_other_page [where v = v]) (auto simp: store_in_page free_pages_def page_ok_def)
  then have "free_pages ?t (v # ps)"
    using assms page_nonzero [OF assms(3)] by (simp add: free_pages_def load32_store32)
  moreover have "\<forall>a. unat a div 0x40000 \<noteq> unat v div 0x40000 \<longrightarrow> ?m a = kmem_mem s a"
    using store_in_page [OF al] by blast
  moreover have "kmem_idle ?t" using assms(1) by (simp add: kmem_idle_def)
  ultimately show ?thesis
    using kfree_exec [OF assms(1,3)] by auto
qed

lemma kalloc_correct:
  assumes "kmem_idle s" and "free_pages s (p # ps)"
  shows "\<exists>t. kalloc s = Ok p t \<and> free_pages t ps \<and> kmem_idle t \<and> kern_end t = kern_end s \<and>
    kmem_mem t = kmem_mem s"
  using assms by (simp add: kalloc_exec free_pages_def kmem_idle_def)

lemma kalloc_empty:
  assumes "kmem_idle s" and "free_pages s []"
  shows "kalloc s = Ok 0 s"
  using assms by (simp add: kalloc_exec free_pages_def)

section \<open>Building the free list\<close>

fun pages_from :: "uint \<Rightarrow> nat \<Rightarrow> uint list" where
  "pages_from p 0 = []"
| "pages_from p (Suc k) = p # pages_from (p + KPAGE) k"

lemma pages_from_above:
  "unat p + k * 0x40000 < 2 ^ 32 \<Longrightarrow> q \<in> set (pages_from p k) \<Longrightarrow> unat p \<le> unat q"
proof (induction p k rule: pages_from.induct)
  case (2 p k)
  show ?case
  proof (cases "q = p")
    case False
    have "unat (p + KPAGE) = unat p + 0x40000"
      using 2 by (subst unat_add_lem [THEN iffD1]) auto
    then have "unat (p + KPAGE) \<le> unat q"
      using 2 False by (intro "2.IH") auto
    then show ?thesis using \<open>unat (p + KPAGE) = unat p + 0x40000\<close> by simp
  qed simp
qed simp

lemma page_step:
  assumes "unat p + 0x40000 < 2 ^ 32" and "p mod KPAGE = 0"
  shows "unat (p + KPAGE) = unat p + 0x40000" and "(p + KPAGE) mod KPAGE = 0"
proof -
  show u: "unat (p + KPAGE) = unat p + 0x40000"
    using assms by (subst unat_add_lem [THEN iffD1]) auto
  have "unat ((p + KPAGE) mod KPAGE) = 0"
    using aligned_unat [OF assms(2)] by (simp add: unat_mod u)
  then show "(p + KPAGE) mod KPAGE = 0" by (simp only: unat_eq_zero)
qed

lemma page_ok_between:
  assumes "p mod KPAGE = 0" "ke \<le> p" "KERNBASE \<le> p" "unat p < 0x88000000"
  shows "page_ok ke p"
proof -
  have "unat (V2P p) = unat p - 0x80000000"
    using assms(3) by (simp add: V2P_def KERNBASE_def word_le_nat_alt unat_sub)
  then show ?thesis
    using assms by (simp add: page_ok_def word_less_nat_alt PHYSTOP_def word_le_nat_alt KERNBASE_def)
qed

lemma freerange_from_correct:
  assumes "kmem_idle s" "free_pages s ps" "p mod KPAGE = 0" "kern_end s \<le> p" "KERNBASE \<le> p"
    and "unat p + k * 0x40000 \<le> unat vend" "unat vend < unat p + Suc k * 0x40000"
    and "unat vend \<le> 0x88000000" "set ps \<inter> set (pages_from p k) = {}"
  shows "\<exists>t. freerange_from p vend s = Ok () t \<and> kmem_idle t \<and>
    free_pages t (rev (pages_from p k) @ ps)"
  using assms
proof (induction k arbitrary: p s ps)
  case 0
  then have "unat (p + KPAGE) = unat p + 0x40000" by (intro page_step) auto
  then have "\<not> p + KPAGE \<le> vend" using 0 by (simp add: word_le_nat_alt)
  then show ?case using 0 by (simp add: freerange_from.simps [of p vend s])
next
  case (Suc k)
  have st: "unat (p + KPAGE) = unat p + 0x40000" "(p + KPAGE) mod KPAGE = 0"
    using Suc.prems by (intro page_step; simp)+
  have "page_ok (kern_end s) p"
    using Suc.prems by (intro page_ok_between) auto
  then obtain t where t: "kfree p s = Ok () t" "free_pages t (p # ps)" "kmem_idle t"
    "kern_end t = kern_end s"
    using kfree_correct [of s ps p] Suc.prems by auto
  have "p \<notin> set (pages_from (p + KPAGE) k)"
    using pages_from_above [of "p + KPAGE" k p] st Suc.prems by auto
  then have "\<exists>u. freerange_from (p + KPAGE) vend t = Ok () u \<and> kmem_idle u \<and>
      free_pages u (rev (pages_from (p + KPAGE) k) @ (p # ps))"
    using Suc.prems st t by (intro Suc.IH) (auto simp: word_le_nat_alt)
  then show ?case
    using t st Suc.prems by (auto simp: freerange_from.simps [of p vend s] word_le_nat_alt)
qed

section \<open>The allocator's interface\<close>

text \<open>
  What the users of the allocator rely on: \<open>fp s ps\<close> says that \<open>ps\<close> is free in \<open>s\<close>,
  \<open>ok s v\<close> that \<open>v\<close> is a page of the machine.
\<close>

locale page_allocator =
  fixes alloc :: "'s \<Rightarrow> (uint, 's) outcome"
    and free :: "uint \<Rightarrow> 's \<Rightarrow> (unit, 's) outcome"
    and fp :: "'s \<Rightarrow> uint list \<Rightarrow> bool"
    and ok :: "'s \<Rightarrow> uint \<Rightarrow> bool"
  assumes alloc_some: "fp s (p # ps) \<Longrightarrow> \<exists>t. alloc s = Ok p t \<and> fp t ps \<and> ok t = ok s"
    and alloc_none: "fp s [] \<Longrightarrow> alloc s = Ok 0 s"
    and free_page: "fp s ps \<Longrightarrow> ok s v \<Longrightarrow> v \<notin> set ps \<Longrightarrow>
          \<exists>t. free v s = Ok () t \<and> fp t (v # ps) \<and> ok t = ok s"
    and fp_distinct: "fp s ps \<Longrightarrow> distinct ps"
    and fp_ok: "fp s ps \<Longrightarrow> p \<in> set ps \<Longrightarrow> ok s p"
    and ok_nonzero: "ok s p \<Longrightarrow> p \<noteq> 0"
begin

lemma alloc_fresh:
  assumes "fp s ps" and "alloc s = Ok p t" and "p \<noteq> 0"
  shows "\<exists>qs. ps = p # qs \<and> fp t qs \<and> p \<notin> set qs \<and> ok t p"
proof (cases ps)
  case Nil
  then show ?thesis using assms alloc_none [of s] by simp
next
  case (Cons q qs)
  then show ?thesis
    using assms alloc_some [of s q qs] fp_distinct [of s ps] fp_ok [of s ps q] by auto
qed

lemma alloc_twice_distinct:
  assumes "fp s ps" and "alloc s = Ok p t" and "p \<noteq> 0" and "alloc t = Ok q u" and "q \<noteq> 0"
  shows "p \<noteq> q"
proof -
  obtain qs where "fp t qs" "p \<notin> set qs" using alloc_fresh [OF assms(1-3)] by blast
  moreover obtain rs where "qs = q # rs" using alloc_fresh [OF \<open>fp t qs\<close> assms(4,5)] by blast
  ultimately show ?thesis by auto
qed

lemma free_then_alloc:
  assumes "fp s ps" and "ok s v" and "v \<notin> set ps"
  shows "\<exists>t u. free v s = Ok () t \<and> alloc t = Ok v u \<and> fp u ps"
  using free_page [OF assms] alloc_some by blast

lemma alloc_then_free:
  assumes "fp s (p # ps)"
  shows "\<exists>t u. alloc s = Ok p t \<and> free p t = Ok () u \<and> fp u (p # ps)"
proof -
  obtain t where t: "alloc s = Ok p t" "fp t ps" "ok t = ok s" using alloc_some [OF assms] by blast
  have "ok t p" "p \<notin> set ps"
    using t fp_ok [OF assms, of p] fp_distinct [OF assms] by auto
  then show ?thesis using free_page [OF t(2)] t(1) by blast
qed

end

interpretation km: page_allocator kalloc kfree
  "\<lambda>s ps. kmem_idle s \<and> free_pages s ps" "\<lambda>s. page_ok (kern_end s)"
proof unfold_locales
  fix s :: "'z kmem_state_scheme" and p ps
  assume "kmem_idle s \<and> free_pages s (p # ps)"
  then show "\<exists>t. kalloc s = Ok p t \<and> (kmem_idle t \<and> free_pages t ps) \<and>
      page_ok (kern_end t) = page_ok (kern_end s)"
    using kalloc_correct [of s p ps] by auto
next
  fix s :: "'z kmem_state_scheme" and ps v
  assume "kmem_idle s \<and> free_pages s ps" "page_ok (kern_end s) v" "v \<notin> set ps"
  then show "\<exists>t. kfree v s = Ok () t \<and> (kmem_idle t \<and> free_pages t (v # ps)) \<and>
      page_ok (kern_end t) = page_ok (kern_end s)"
    using kfree_correct [of s ps v] by auto
qed (auto simp: kalloc_empty page_nonzero, auto simp: free_pages_def)

section \<open>Properties\<close>

text \<open>
  C9. \<^verbatim>\<open>kalloc\<close> and \<^verbatim>\<open>kfree\<close> implement a stack of pages: an allocation returns the first free page and removes
  exactly it, or 0 when there is none and then changes nothing; freeing a page that is not free pushes it,
  clears it and touches no byte of any other page.
\<close>

theorem kalloc_kfree_stack:
  assumes "kmem_idle s" and "free_pages s ps"
  shows "(case ps of
      [] \<Rightarrow> kalloc s = Ok 0 s
    | p # qs \<Rightarrow> \<exists>t. kalloc s = Ok p t \<and> free_pages t qs \<and> kmem_idle t \<and> kmem_mem t = kmem_mem s \<and> p \<notin> set qs) \<and>
    (\<forall>v. page_ok (kern_end s) v \<longrightarrow> v \<notin> set ps \<longrightarrow>
      (\<exists>t. kfree v s = Ok () t \<and> free_pages t (v # ps) \<and> kmem_idle t \<and>
        (\<forall>a. unat a div 0x40000 \<noteq> unat v div 0x40000 \<longrightarrow> kmem_mem t a = kmem_mem s a)))"
proof
  show "case ps of [] \<Rightarrow> kalloc s = Ok 0 s
    | p # qs \<Rightarrow> \<exists>t. kalloc s = Ok p t \<and> free_pages t qs \<and> kmem_idle t \<and> kmem_mem t = kmem_mem s \<and> p \<notin> set qs"
  proof (cases ps)
    case Nil
    then show ?thesis using assms kalloc_empty by simp
  next
    case (Cons p qs)
    then have "p \<notin> set qs" using assms(2) by (simp add: free_pages_def)
    then show ?thesis using assms Cons kalloc_correct [of s p qs] by auto
  qed
  show "\<forall>v. page_ok (kern_end s) v \<longrightarrow> v \<notin> set ps \<longrightarrow> (\<exists>t. kfree v s = Ok () t \<and> free_pages t (v # ps) \<and>
      kmem_idle t \<and> (\<forall>a. unat a div 0x40000 \<noteq> unat v div 0x40000 \<longrightarrow> kmem_mem t a = kmem_mem s a))"
    using kfree_correct [OF assms] by blast
qed

definition boot_kmem :: kmem_state where
  "boot_kmem = \<lparr>irq = False, ncli = 0, intena = False, locks = (\<lambda>_. lk_free), ptable = [], curproc = None,
     initproc = None, nextpid = 1, ticks = 0, kmem_mem = (\<lambda>_. 0), freelist = 0, use_lock = False,
     kern_end = 0x80040000\<rparr>"

lemma boot_kmem_idle: "kmem_idle boot_kmem" "free_pages boot_kmem []"
  by (simp_all add: boot_kmem_def kmem_idle_def free_pages_def)

lemma boot_page: "page_ok (kern_end boot_kmem) 0x80080000"
  by (simp add: boot_kmem_def page_ok_def KPAGE_def V2P_def mmu_consts)

theorem kalloc_kfree_stack_witness:
  "kalloc boot_kmem = Ok 0 boot_kmem \<and>
   (\<exists>t. kfree 0x80080000 boot_kmem = Ok () t \<and> free_pages t [0x80080000])"
  using kalloc_kfree_stack [OF boot_kmem_idle] boot_page by auto

text \<open>Two allocations that succeed return different pages, both of them pages of the machine.\<close>

theorem kalloc_distinct:
  assumes "kmem_idle s" and "free_pages s ps"
    and "kalloc s = Ok p t" and "p \<noteq> 0" and "kalloc t = Ok q u" and "q \<noteq> 0"
  shows "p \<noteq> q \<and> page_ok (kern_end s) p"
proof -
  have c: "kmem_idle s \<and> free_pages s ps" using assms(1,2) by simp
  have "kern_end t = kern_end s" using kalloc_exec [OF assms(1)] assms(3) by (auto split: if_splits)
  then show ?thesis
    using km.alloc_twice_distinct [OF c assms(3-6)] km.alloc_fresh [OF c assms(3,4)] by auto
qed

theorem kalloc_distinct_witness:
  "\<exists>(s :: kmem_state) t u. kalloc s = Ok 0x80080000 t \<and> kalloc t = Ok 0x800C0000 u \<and> (0x80080000 :: uint) \<noteq> 0x800C0000"
proof -
  have p2: "page_ok (kern_end boot_kmem) 0x800C0000"
    by (simp add: boot_kmem_def page_ok_def KPAGE_def V2P_def mmu_consts)
  obtain a where a: "kfree 0x800C0000 boot_kmem = Ok () a" "free_pages a [0x800C0000]" "kmem_idle a"
    "kern_end a = kern_end boot_kmem"
    using kfree_correct [OF boot_kmem_idle p2] by auto
  obtain s :: kmem_state where s: "free_pages s [0x80080000, 0x800C0000]" "kmem_idle s"
    using kfree_correct [where v = "0x80080000", OF a(3,2)] boot_page a(4) by auto
  obtain t where t: "kalloc s = Ok 0x80080000 t" "free_pages t [0x800C0000]" "kmem_idle t"
    using kalloc_correct [OF s(2,1)] by auto
  obtain u where u: "kalloc t = Ok 0x800C0000 u" using kalloc_correct [OF t(3,2)] by auto
  have "(0x80080000 :: uint) \<noteq> 0x800C0000"
    using kalloc_distinct [OF s(2,1) t(1) _ u] by auto
  with t(1) u show ?thesis by blast
qed

text \<open>
  \<^verbatim>\<open>freerange\<close>, given a range inside the physical memory and above the kernel, returns and has put exactly the
  whole pages of the range on the free list, the highest first.
\<close>

theorem freerange_builds_list:
  assumes "kmem_idle s" "free_pages s ps" "p = ALIGNUP vstart KPAGE" "p mod KPAGE = 0"
    and "kern_end s \<le> p" "KERNBASE \<le> p"
    and "unat p + k * 0x40000 \<le> unat vend" "unat vend < unat p + Suc k * 0x40000"
    and "unat vend \<le> 0x88000000" "set ps \<inter> set (pages_from p k) = {}"
  shows "\<exists>t. freerange vstart vend s = Ok () t \<and> kmem_idle t \<and> free_pages t (rev (pages_from p k) @ ps)"
  using freerange_from_correct [OF assms(1,2,4-)] assms(3) by (simp add: freerange_def)

theorem freerange_builds_list_witness:
  "\<exists>t. freerange 0x80040001 0x80110000 boot_kmem = Ok () t \<and> free_pages t [0x800C0000, 0x80080000]"
proof -
  have a: "ALIGNUP 0x80040001 KPAGE = 0x80080000" by (simp add: ALIGNUP_def KPAGE_def PGSIZE_def)
  have ps: "pages_from 0x80080000 2 = [0x80080000, 0x800C0000]"
    by (simp add: eval_nat_numeral KPAGE_def PGSIZE_def)
  have "\<exists>t. freerange 0x80040001 0x80110000 boot_kmem = Ok () t \<and> kmem_idle t \<and>
      free_pages t (rev (pages_from 0x80080000 2) @ [])"
    by (rule freerange_builds_list [OF boot_kmem_idle a [symmetric]])
      (simp_all add: boot_kmem_def KPAGE_def mmu_consts)
  then show ?thesis by (auto simp: ps)
qed

end
