(* ===== verification/Xv6_Pipe.thy ===== *)
theory Xv6_Pipe
  imports Xv6_Kalloc
begin

text \<open>
  \<^verbatim>\<open>kernel/pipe.c\<close>: the ring buffer behind a pipe. The counters \<^verbatim>\<open>nread\<close> and \<^verbatim>\<open>nwrite\<close> are 32-bit
  and wrap around; the abstraction of a pipe is the queue of bytes written and not yet
  read. \<^verbatim>\<open>pipealloc\<close> needs the file table and is in \<open>Xv6_File\<close>.
\<close>

section \<open>State and operations\<close>

definition PIPESIZE :: uint where "PIPESIZE = 512"

record pipe =
  pdata :: "uchar list"
  nread :: uint
  nwrite :: uint
  readopen :: bool
  writeopen :: bool

text \<open>A pipe is a page of the allocator, known by its address.\<close>

record pipe_state = kmem_state +
  pipes :: "uint \<rightharpoonup> pipe"

definition set_pipe :: "uint \<Rightarrow> pipe \<Rightarrow> 'z pipe_state_scheme \<Rightarrow> 'z pipe_state_scheme" where
  "set_pipe p b s = s\<lparr>pipes := (pipes s)(p \<mapsto> b)\<rparr>"

text \<open>\<^verbatim>\<open>p->data[p->nwrite++ % PIPESIZE] = c\<close> and \<^verbatim>\<open>p->data[p->nread++ % PIPESIZE]\<close>.\<close>

definition pipe_put :: "uchar \<Rightarrow> pipe \<Rightarrow> pipe" where
  "pipe_put c b = b\<lparr>pdata := (pdata b)[unat (nwrite b mod PIPESIZE) := c], nwrite := nwrite b + 1\<rparr>"

definition pipe_get :: "pipe \<Rightarrow> uchar \<times> pipe" where
  "pipe_get b = (pdata b ! unat (nread b mod PIPESIZE), b\<lparr>nread := nread b + 1\<rparr>)"

definition pipe_full :: "pipe \<Rightarrow> bool" where
  "pipe_full b \<longleftrightarrow> nwrite b = nread b + PIPESIZE"

definition pipe_empty :: "pipe \<Rightarrow> bool" where
  "pipe_empty b \<longleftrightarrow> nread b = nwrite b"

definition pipeclose :: "uint \<Rightarrow> bool \<Rightarrow> 'z pipe_state_scheme \<Rightarrow> (unit, 'z pipe_state_scheme) outcome" where
  "pipeclose p writable s =
     obind (acquire (PipeLock (unat p)) s) (\<lambda>_ s.
     case pipes s p of
       None \<Rightarrow> kfault
     | Some b \<Rightarrow>
         obind (if writable
                then wakeup (ChanPipeRead (unat p)) (set_pipe p (b\<lparr>writeopen := False\<rparr>) s)
                else wakeup (ChanPipeWrite (unat p)) (set_pipe p (b\<lparr>readopen := False\<rparr>) s)) (\<lambda>_ s.
         case pipes s p of
           None \<Rightarrow> kfault
         | Some b \<Rightarrow>
             if \<not> readopen b \<and> \<not> writeopen b
             then obind (release (PipeLock (unat p)) s) (\<lambda>_ s.
                  kfree p (s\<lparr>pipes := (pipes s)(p := None)\<rparr>))
             else release (PipeLock (unat p)) s))"

text \<open>
  The copying loop of \<^verbatim>\<open>pipewrite\<close>, entered with the pipe's lock held and the bytes still to
  be written. The value tells whether all bytes were written; a full pipe whose read end
  is closed ends it, a full pipe with a reader puts the writer to sleep, and it goes on
  with the same bytes when it is woken.
\<close>

fun pipewrite_loop :: "uint \<Rightarrow> uchar list \<Rightarrow> 'z pipe_state_scheme \<Rightarrow> (bool, 'z pipe_state_scheme) outcome" where
  "pipewrite_loop p [] s = Ok True s"
| "pipewrite_loop p (c # cs) s =
     (case pipes s p of
        None \<Rightarrow> kfault
      | Some b \<Rightarrow>
          if pipe_full b
          then if \<not> readopen b then Ok False s
               else obind (wakeup (ChanPipeRead (unat p)) s) (\<lambda>_ s.
                    sleep (ChanPipeWrite (unat p)) (Some (PipeLock (unat p))) s)
          else pipewrite_loop p cs (set_pipe p (pipe_put c b) s))"

text \<open>
  \<open>pipewrite_body\<close> is what \<^verbatim>\<open>pipewrite\<close> does once it has the lock: on entry, and again, with the
  bytes that are left, when its sleep returns.
\<close>

definition pipewrite_body :: "uint \<Rightarrow> uchar list \<Rightarrow> int \<Rightarrow> 'z pipe_state_scheme \<Rightarrow> (int, 'z pipe_state_scheme) outcome" where
  "pipewrite_body p cs n s =
     obind (pipewrite_loop p cs s) (\<lambda>done s.
     if done
     then obind (wakeup (ChanPipeRead (unat p)) s) (\<lambda>_ s.
          obind (release (PipeLock (unat p)) s) (\<lambda>_ s. Ok n s))
     else obind (release (PipeLock (unat p)) s) (\<lambda>_ s. Ok (-1) s))"

definition pipewrite :: "uint \<Rightarrow> view \<Rightarrow> int \<Rightarrow> 'z pipe_state_scheme \<Rightarrow> (int, 'z pipe_state_scheme) outcome" where
  "pipewrite p addr n s =
     obind (acquire (PipeLock (unat p)) s) (\<lambda>_ s. pipewrite_body p (map addr [0..<nat n]) n s)"

definition pipewrite_resume :: "uint \<Rightarrow> uchar list \<Rightarrow> int \<Rightarrow> 'z pipe_state_scheme \<Rightarrow> (int, 'z pipe_state_scheme) outcome" where
  "pipewrite_resume p cs n s =
     obind (sleep_resume (PipeLock (unat p)) s) (\<lambda>_ s. pipewrite_body p cs n s)"

text \<open>The copying loop of \<^verbatim>\<open>piperead\<close>: at most \<open>n\<close> bytes, stopping when the pipe is empty.\<close>

fun piperead_copy :: "nat \<Rightarrow> pipe \<Rightarrow> uchar list \<times> pipe" where
  "piperead_copy 0 b = ([], b)"
| "piperead_copy (Suc n) b =
     (if pipe_empty b then ([], b)
      else let (c, b) = pipe_get b; (cs, b) = piperead_copy n b in (c # cs, b))"

text \<open>
  \<^verbatim>\<open>piperead\<close> returns the count and the bytes stored at \<^verbatim>\<open>addr\<close>. An empty pipe with a writer puts
  the reader to sleep; on waking it tests the loop condition again.
\<close>

definition piperead_body :: "uint \<Rightarrow> int \<Rightarrow> 'z pipe_state_scheme \<Rightarrow> (int \<times> uchar list, 'z pipe_state_scheme) outcome" where
  "piperead_body p n s =
     (case pipes s p of
       None \<Rightarrow> kfault
     | Some b \<Rightarrow>
         if pipe_empty b \<and> writeopen b
         then case curproc s of
                None \<Rightarrow> kfault
              | Some q \<Rightarrow>
                  if p_killed (ptable s ! q)
                  then obind (release (PipeLock (unat p)) s) (\<lambda>_ s. Ok (-1, []) s)
                  else sleep (ChanPipeRead (unat p)) (Some (PipeLock (unat p))) s
         else let (cs, b) = piperead_copy (nat n) b; s = set_pipe p b s
              in obind (wakeup (ChanPipeWrite (unat p)) s) (\<lambda>_ s.
                 obind (release (PipeLock (unat p)) s) (\<lambda>_ s. Ok (int (length cs), cs) s)))"

definition piperead :: "uint \<Rightarrow> int \<Rightarrow> 'z pipe_state_scheme \<Rightarrow> (int \<times> uchar list, 'z pipe_state_scheme) outcome" where
  "piperead p n s = obind (acquire (PipeLock (unat p)) s) (\<lambda>_ s. piperead_body p n s)"

definition piperead_resume :: "uint \<Rightarrow> int \<Rightarrow> 'z pipe_state_scheme \<Rightarrow> (int \<times> uchar list, 'z pipe_state_scheme) outcome" where
  "piperead_resume p n s = obind (sleep_resume (PipeLock (unat p)) s) (\<lambda>_ s. piperead_body p n s)"

section \<open>The queue behind the ring buffer\<close>

definition pipe_count :: "pipe \<Rightarrow> nat" where
  "pipe_count b = unat (nwrite b - nread b)"

definition pipe_ok :: "pipe \<Rightarrow> bool" where
  "pipe_ok b \<longleftrightarrow> length (pdata b) = 512 \<and> pipe_count b \<le> 512"

definition ring_index :: "uint \<Rightarrow> nat \<Rightarrow> nat" where
  "ring_index r k = unat ((r + of_nat k) mod PIPESIZE)"

definition pipe_bytes :: "pipe \<Rightarrow> uchar list" where
  "pipe_bytes b = map (\<lambda>k. pdata b ! ring_index (nread b) k) [0..<pipe_count b]"

lemma length_pipe_bytes [simp]: "length (pipe_bytes b) = pipe_count b"
  by (simp add: pipe_bytes_def)

lemma ring_index_less [simp]: "ring_index r k < 512"
  by (simp add: ring_index_def unat_mod PIPESIZE_def)

lemma mod_512_of_mod_32: "(n mod 2 ^ 32) mod 512 = n mod (512::nat)"
  by (rule mod_mod_cancel) simp

lemma ring_index_eq: "ring_index r k = (unat r + k) mod 512"
proof -
  have "unat (r + of_nat k) mod 512 = ((unat r + k mod 2 ^ 32) mod 2 ^ 32) mod 512"
    by (simp add: unat_word_ariths unat_of_nat)
  also have "\<dots> = (unat r + k mod 2 ^ 32) mod 512"
    by (rule mod_512_of_mod_32)
  also have "\<dots> = (unat r + (k mod 2 ^ 32) mod 512) mod 512"
    by (simp only: mod_add_right_eq)
  also have "\<dots> = (unat r + k) mod 512"
    by (simp only: mod_512_of_mod_32 mod_add_right_eq)
  finally show ?thesis by (simp add: ring_index_def unat_mod PIPESIZE_def)
qed

lemma ring_index_inj: "j < 512 \<Longrightarrow> k < 512 \<Longrightarrow> ring_index r j = ring_index r k \<Longrightarrow> j = k"
proof -
  assume b: "j < 512" "k < 512" and "ring_index r j = ring_index r k"
  then have "(int (unat r) + int j) mod 512 = (int (unat r) + int k) mod 512"
    by (metis ring_index_eq of_nat_add of_nat_mod of_nat_numeral)
  then have "512 dvd int j - int k" by (simp add: mod_eq_dvd_iff)
  with b show "j = k" using dvd_imp_le_int [of "int j - int k" 512] by (cases "j = k") linarith+
qed

lemma nwrite_ring: "unat (nwrite b mod PIPESIZE) = ring_index (nread b) (pipe_count b)"
  by (simp add: ring_index_def pipe_count_def)

lemma ring_index_Suc: "ring_index r (Suc k) = ring_index (r + 1) k"
  by (simp add: ring_index_def add.assoc)

lemma pipe_full_count: "pipe_full b \<longleftrightarrow> pipe_count b = 512"
proof -
  have "nwrite b = nread b + PIPESIZE \<longleftrightarrow> nwrite b - nread b = PIPESIZE"
    by (metis add.commute diff_add_cancel add_diff_cancel_right')
  also have "\<dots> \<longleftrightarrow> unat (nwrite b - nread b) = 512"
    by (simp add: word_unat_eq_iff PIPESIZE_def)
  finally show ?thesis by (simp add: pipe_full_def pipe_count_def)
qed

lemma pipe_empty_count: "pipe_empty b \<longleftrightarrow> pipe_count b = 0"
  by (auto simp: pipe_empty_def pipe_count_def unat_eq_zero)

lemma pipe_put_count:
  assumes "pipe_count b < 512"
  shows "pipe_count (pipe_put c b) = Suc (pipe_count b)"
proof -
  have "unat ((nwrite b - nread b) + 1) = unat (nwrite b - nread b) + 1"
    using assms by (subst unat_add_lem [THEN iffD1]) (auto simp: pipe_count_def)
  then show ?thesis
    by (simp add: pipe_count_def pipe_put_def diff_add_eq)
qed

lemma pipe_get_count:
  assumes "0 < pipe_count b"
  shows "pipe_count (snd (pipe_get b)) = pipe_count b - 1"
proof -
  have "nwrite b - nread b \<noteq> 0" using assms by (auto simp: pipe_count_def)
  then have "unat ((nwrite b - nread b) - 1) = unat (nwrite b - nread b) - 1"
    by (rule unat_minus_one)
  then show ?thesis by (simp add: pipe_count_def pipe_get_def diff_diff_eq)
qed

text \<open>Writing a byte appends it to the queue and reading one takes the head.\<close>

lemma pipe_put_bytes:
  assumes "pipe_ok b" and "\<not> pipe_full b"
  shows "pipe_ok (pipe_put c b)" and "pipe_bytes (pipe_put c b) = pipe_bytes b @ [c]"
proof -
  have l: "pipe_count b < 512" and len: "length (pdata b) = 512"
    using assms by (auto simp: pipe_ok_def pipe_full_count)
  show "pipe_ok (pipe_put c b)"
    using l len pipe_put_count [OF l] by (simp add: pipe_ok_def) (simp add: pipe_put_def)
  let ?d = "(pdata b)[ring_index (nread b) (pipe_count b) := c]"
  have d: "pdata (pipe_put c b) = ?d" and r: "nread (pipe_put c b) = nread b"
    by (simp_all add: pipe_put_def nwrite_ring)
  have "?d ! ring_index (nread b) k = pdata b ! ring_index (nread b) k" if "k < pipe_count b" for k
    using ring_index_inj [of k "pipe_count b" "nread b"] that l by (metis less_irrefl less_trans nth_list_update_neq)
  then show "pipe_bytes (pipe_put c b) = pipe_bytes b @ [c]"
    using l len by (simp add: pipe_bytes_def pipe_put_count d r)
qed

lemma pipe_get_bytes:
  assumes "pipe_ok b" and "\<not> pipe_empty b"
  shows "pipe_ok (snd (pipe_get b))" and "pipe_bytes b = fst (pipe_get b) # pipe_bytes (snd (pipe_get b))"
proof -
  have l: "0 < pipe_count b" using assms by (simp add: pipe_empty_count)
  show "pipe_ok (snd (pipe_get b))"
    using assms(1) pipe_get_count [OF l] by (auto simp: pipe_ok_def) (simp add: pipe_get_def)
  have "pipe_bytes b = map (\<lambda>k. pdata b ! ring_index (nread b) k) (0 # map Suc [0..<pipe_count b - 1])"
    using l by (simp add: pipe_bytes_def map_Suc_upt upt_conv_Cons)
  also have "\<dots> = fst (pipe_get b) # pipe_bytes (snd (pipe_get b))"
    using pipe_get_count [OF l]
    by (simp add: pipe_bytes_def comp_def ring_index_Suc) (simp add: pipe_get_def ring_index_def)
  finally show "pipe_bytes b = fst (pipe_get b) # pipe_bytes (snd (pipe_get b))" .
qed

text \<open>
  The copying loops on the queue. \<open>pipe_fill\<close> is the effect of the writer's loop until it ends or
  finds the pipe full: the bytes left over and the pipe.
\<close>

fun pipe_fill :: "uchar list \<Rightarrow> pipe \<Rightarrow> uchar list \<times> pipe" where
  "pipe_fill [] b = ([], b)"
| "pipe_fill (c # cs) b = (if pipe_full b then (c # cs, b) else pipe_fill cs (pipe_put c b))"

lemma pipe_put_ends [simp]:
  "readopen (pipe_put c b) = readopen b" "writeopen (pipe_put c b) = writeopen b"
  by (simp_all add: pipe_put_def)

lemma pipe_fill_ends:
  "pipe_fill cs b = (rest, b') \<Longrightarrow> readopen b' = readopen b \<and> writeopen b' = writeopen b"
  by (induction cs b rule: pipe_fill.induct) (auto split: if_splits)

lemma pipe_fill_bytes:
  assumes "pipe_ok b" and "pipe_fill cs b = (rest, b')"
  shows "pipe_ok b' \<and> pipe_bytes b' = pipe_bytes b @ take (512 - pipe_count b) cs \<and>
    rest = drop (512 - pipe_count b) cs \<and> (rest \<noteq> [] \<longrightarrow> pipe_full b')"
  using assms
proof (induction cs b rule: pipe_fill.induct)
  case (2 c cs b)
  show ?case
  proof (cases "pipe_full b")
    case True
    then show ?thesis using 2 by (auto simp: pipe_full_count)
  next
    case False
    then have l: "pipe_count b < 512"
      using "2.prems" by (auto simp: pipe_ok_def pipe_full_count)
    then have k: "512 - pipe_count b = Suc (512 - pipe_count (pipe_put c b))"
      by (simp add: pipe_put_count)
    show ?thesis
      using 2 False pipe_put_bytes [of b c] by (simp add: k)
  qed
qed auto

lemma piperead_copy_bytes:
  assumes "pipe_ok b" and "piperead_copy n b = (cs, b')"
  shows "pipe_ok b' \<and> cs = take n (pipe_bytes b) \<and> pipe_bytes b' = drop n (pipe_bytes b) \<and>
    readopen b' = readopen b \<and> writeopen b' = writeopen b"
  using assms
proof (induction n b arbitrary: cs rule: piperead_copy.induct)
  case (2 n b)
  show ?case
  proof (cases "pipe_empty b")
    case True
    then have "pipe_bytes b = []" by (simp add: pipe_bytes_def pipe_empty_count)
    then show ?thesis using 2 True by auto
  next
    case False
    obtain ds where ds: "piperead_copy n (snd (pipe_get b)) = (ds, b')" "cs = fst (pipe_get b) # ds"
      using "2.prems" False by (auto simp: Let_def split: prod.splits)
    have "readopen (snd (pipe_get b)) = readopen b" "writeopen (snd (pipe_get b)) = writeopen b"
      by (simp_all add: pipe_get_def)
    then show ?thesis
      using 2 False ds pipe_get_bytes [of b] by (cases "pipe_get b") auto
  qed
qed auto

section \<open>The operations of a pipe\<close>

lemma set_pipe_sched [simp]:
  "irq (set_pipe p b s) = irq s" "intena (set_pipe p b s) = intena s" "ncli (set_pipe p b s) = ncli s"
  "locks (set_pipe p b s) = locks s" "ptable (set_pipe p b s) = ptable s"
  "curproc (set_pipe p b s) = curproc s" "pipes (set_pipe p b s) p = Some b"
  "set_pipe p b (set_pipe p b' s) = set_pipe p b s"
  by (simp_all add: set_pipe_def)

lemma set_pipe_same: "pipes s p = Some b \<Longrightarrow> set_pipe p b s = s"
  by (simp add: set_pipe_def fun_upd_idem)

lemma wakeup1_same [simp]:
  "irq (wakeup1 ch s) = irq s" "intena (wakeup1 ch s) = intena s" "ncli (wakeup1 ch s) = ncli s"
  "locks (wakeup1 ch s) = locks s" "curproc (wakeup1 ch s) = curproc s"
  "length (ptable (wakeup1 ch s)) = length (ptable s)"
  by (simp_all add: wakeup1_def)

lemma wakeup1_pipes [simp]: "pipes (wakeup1 ch s) = pipes s"
  by (simp add: wakeup1_def)

text \<open>
  The writer's loop, with the pipe's lock held: it fills the pipe; then it is done, or it
  fails on a closed read end, or it wakes the readers and sleeps.
\<close>

lemma pipewrite_loop_exec:
  assumes "pipes s p = Some b" and "pipe_fill cs b = (rest, b')"
  shows "pipewrite_loop p cs s =
    (if rest = [] then Ok True (set_pipe p b' s)
     else if \<not> readopen b then Ok False (set_pipe p b' s)
     else obind (wakeup (ChanPipeRead (unat p)) (set_pipe p b' s)) (\<lambda>_ s.
          sleep (ChanPipeWrite (unat p)) (Some (PipeLock (unat p))) s))"
  using assms
proof (induction cs arbitrary: s b)
  case Nil
  then show ?case by (simp add: set_pipe_same)
next
  case (Cons c cs)
  show ?case
  proof (cases "pipe_full b")
    case True
    then show ?thesis using Cons.prems by (auto simp: set_pipe_same)
  next
    case False
    then show ?thesis
      using Cons.prems Cons.IH [of "set_pipe p (pipe_put c b) s" "pipe_put c b"] by simp
  qed
qed

text \<open>
  The states in which a process calls the pipe operations: no lock held, interrupts off,
  and the process in the table.
\<close>

definition in_kernel :: "'z sched_state_scheme \<Rightarrow> nat \<Rightarrow> bool" where
  "in_kernel s q \<longleftrightarrow> quiet s \<and> curproc s = Some q \<and> q < length (ptable s)"

lemma pipewrite_exec:
  assumes "in_kernel s q" and "pipes s p = Some b" and "pipe_fill (map addr [0..<nat n]) b = (rest, b')"
  shows "pipewrite p addr n s =
    (if rest = [] then Ok n (wakeup1 (ChanPipeRead (unat p)) (set_pipe p b' s))
     else if \<not> readopen b then Ok (-1) (set_pipe p b' s)
     else Blocked (sleeping_on (ChanPipeWrite (unat p)) q (PipeLock (unat p))
            (wakeup1 (ChanPipeRead (unat p)) (set_pipe p b' (s\<lparr>ncli := 1\<rparr>)))))"
proof -
  let ?l = "PipeLock (unat p)"
  let ?s = "s\<lparr>ncli := 1, locks := (\<lambda>_. lk_free)(?l := lk_held)\<rparr>"
  have a: "acquire ?l s = Ok () ?s"
    using assms(1) by (simp add: in_kernel_def kexec)
  have unlock: "?s\<lparr>ncli := 0, locks := (\<lambda>_. lk_free)\<rparr> = s" "irq s = False" "intena s = False"
    "locks s = (\<lambda>_. lk_free)" "ncli s = 0"
    using assms(1) by (cases s, auto simp: in_kernel_def quiet_def)
  have "pipes ?s p = Some b" using assms(2) by simp
  note loop = pipewrite_loop_exec [OF this assms(3)]
  show ?thesis
  proof (cases "rest = [] \<or> \<not> readopen b")
    case True
    then show ?thesis
      using unlock by (auto simp: pipewrite_def pipewrite_body_def a loop kexec) (auto simp: set_pipe_def wakeup1_def)
  next
    case False
    then show ?thesis
      using assms(1) unlock
      by (simp add: pipewrite_def pipewrite_body_def a loop kexec sleep_exec [where p = q] in_kernel_def)
        (simp add: set_pipe_def wakeup1_def sleeping_on_def upd_proc_def kexec)
  qed
qed

lemma piperead_exec:
  assumes "in_kernel s q" and "pipes s p = Some b" and "piperead_copy (nat n) b = (cs, b')"
  shows "piperead p n s =
    (if pipe_empty b \<and> writeopen b
     then if p_killed (ptable s ! q) then Ok (-1, []) s
          else Blocked (sleeping_on (ChanPipeRead (unat p)) q (PipeLock (unat p)) (s\<lparr>ncli := 1\<rparr>))
     else Ok (int (length cs), cs) (wakeup1 (ChanPipeWrite (unat p)) (set_pipe p b' s)))"
proof -
  let ?l = "PipeLock (unat p)"
  let ?s = "s\<lparr>ncli := 1, locks := (\<lambda>_. lk_free)(?l := lk_held)\<rparr>"
  have a: "acquire ?l s = Ok () ?s"
    using assms(1) by (simp add: in_kernel_def kexec)
  have unlock: "?s\<lparr>ncli := 0, locks := (\<lambda>_. lk_free)\<rparr> = s" "irq s = False" "intena s = False"
    "locks s = (\<lambda>_. lk_free)" "ncli s = 0"
    using assms(1) by (cases s, auto simp: in_kernel_def quiet_def)
  show ?thesis
  proof (cases "pipe_empty b \<and> writeopen b")
    case True
    then show ?thesis
      using assms unlock
      by (auto simp: piperead_def piperead_body_def a kexec sleep_exec [where p = q] in_kernel_def)
        (simp_all add: sleeping_on_def upd_proc_def kexec)
  next
    case False
    then show ?thesis
      using assms unlock by (auto simp: piperead_def piperead_body_def a kexec) (auto simp: set_pipe_def wakeup1_def)
  qed
qed

text \<open>Closing an end: the other end's sleepers are woken; the second close frees the page.\<close>

lemma pipeclose_exec:
  fixes s :: "'z pipe_state_scheme" and w :: bool
  assumes "in_kernel s q" and "pipes s p = Some b"
  defines "b' \<equiv> (if w then b\<lparr>writeopen := False\<rparr> else b\<lparr>readopen := False\<rparr>)"
    and "ch \<equiv> (if w then ChanPipeRead (unat p) else ChanPipeWrite (unat p))"
  shows "pipeclose p w s =
    (if readopen b' \<or> writeopen b' then Ok () (wakeup1 ch (set_pipe p b' s))
     else kfree p (wakeup1 ch (s\<lparr>pipes := (pipes s)(p := None)\<rparr>)))"
proof -
  let ?l = "PipeLock (unat p)"
  let ?s = "s\<lparr>ncli := 1, locks := (\<lambda>_. lk_free)(?l := lk_held)\<rparr>"
  have a: "acquire ?l s = Ok () ?s"
    using assms(1) by (simp add: in_kernel_def kexec)
  have unlock: "?s\<lparr>ncli := 0, locks := (\<lambda>_. lk_free)\<rparr> = s" "irq s = False" "intena s = False"
    "locks s = (\<lambda>_. lk_free)" "ncli s = 0"
    using assms(1) by (cases s, auto simp: in_kernel_def quiet_def)
  show ?thesis
    unfolding b'_def ch_def
    using assms(2) unlock
    by (cases w) (auto simp: pipeclose_def a kexec,
        (cases s, auto simp: set_pipe_def wakeup1_def intro!: arg_cong [where f = "kfree p"])+)
qed

section \<open>A writer and a reader\<close>

text \<open>
  A writer with bytes to send and a reader, run by the scheduler in any order: \<open>None\<close> lets the
  writer run until it is done or sleeps on a full pipe, \<open>Some n\<close> is one read of \<open>n\<close> bytes.
  The state is the bytes still to be written, the pipe, and the bytes read so far.
\<close>

fun transfer :: "('a list \<Rightarrow> 'q \<Rightarrow> 'a list \<times> 'q) \<Rightarrow> (nat \<Rightarrow> 'q \<Rightarrow> 'a list \<times> 'q)
    \<Rightarrow> nat option list \<Rightarrow> 'a list \<times> 'q \<times> 'a list \<Rightarrow> 'a list \<times> 'q \<times> 'a list" where
  "transfer send recv [] st = st"
| "transfer send recv (None # sch) (cs, q, out) =
     (let (rest, q) = send cs q in transfer send recv sch (rest, q, out))"
| "transfer send recv (Some n # sch) (cs, q, out) =
     (let (ds, q) = recv n q in transfer send recv sch (cs, q, out @ ds))"

text \<open>The contract of a bounded channel and what a writer and a reader get from it.\<close>

locale channel =
  fixes send :: "'a list \<Rightarrow> 'q \<Rightarrow> 'a list \<times> 'q"
    and recv :: "nat \<Rightarrow> 'q \<Rightarrow> 'a list \<times> 'q"
    and queue :: "'q \<Rightarrow> 'a list"
    and ok :: "'q \<Rightarrow> bool"
    and cap :: nat
  assumes send_law: "ok q \<Longrightarrow> send cs q = (rest, q') \<Longrightarrow>
        ok q' \<and> queue q' = queue q @ take (cap - length (queue q)) cs \<and>
        rest = drop (cap - length (queue q)) cs"
    and recv_law: "ok q \<Longrightarrow> recv n q = (cs, q') \<Longrightarrow>
        ok q' \<and> cs = take n (queue q) \<and> queue q' = drop n (queue q)"
    and queue_cap: "ok q \<Longrightarrow> length (queue q) \<le> cap"
    and cap_pos: "0 < cap"
begin

lemma transfer_fifo:
  assumes "ok q" and "transfer send recv sch (cs, q, out) = (rest, q', out')"
  shows "ok q' \<and> out' @ queue q' @ rest = out @ queue q @ cs"
  using assms
proof (induction sch arbitrary: cs q out)
  case (Cons a sch)
  show ?case
  proof (cases a)
    case None
    obtain cs1 q1 where s1: "send cs q = (cs1, q1)" by fastforce
    note l = send_law [OF Cons.prems(1) s1]
    then have "ok q' \<and> out' @ queue q' @ rest = out @ queue q1 @ cs1"
      using Cons.prems None s1 by (intro Cons.IH) auto
    then show ?thesis using l by simp
  next
    case (Some n)
    obtain ds q1 where r1: "recv n q = (ds, q1)" by fastforce
    note l = recv_law [OF Cons.prems(1) r1]
    then have "ok q' \<and> out' @ queue q' @ rest = (out @ ds) @ queue q1 @ cs"
      using Cons.prems Some r1 by (intro Cons.IH) auto
    then show ?thesis using l by (metis append.assoc append_take_drop_id)
  qed
qed simp

lemma round_trip:
  assumes "ok q" and "queue q = []"
  shows "\<exists>q'. transfer send recv (None # Some cap # sch) (cs, q, out) =
      transfer send recv sch (drop cap cs, q', out @ take cap cs) \<and> ok q' \<and> queue q' = []"
proof -
  obtain cs1 q1 where s1: "send cs q = (cs1, q1)" by fastforce
  obtain ds q2 where r1: "recv cap q1 = (ds, q2)" by fastforce
  note l1 = send_law [OF assms(1) s1]
  then have "ok q1" by blast
  note l2 = recv_law [OF this r1] queue_cap [OF this]
  show ?thesis using l1 l2 s1 r1 assms(2) by (intro exI [of _ q2]) simp
qed

lemma transfer_complete:
  assumes "ok q" and "queue q = []" and "length cs \<le> k * cap"
  shows "\<exists>q'. transfer send recv (concat (replicate k [None, Some cap])) (cs, q, out) = ([], q', out @ cs)"
  using assms
proof (induction k arbitrary: cs q out)
  case (Suc k)
  obtain q' where q': "transfer send recv (None # Some cap # concat (replicate k [None, Some cap])) (cs, q, out) =
      transfer send recv (concat (replicate k [None, Some cap])) (drop cap cs, q', out @ take cap cs)"
    "ok q'" "queue q' = []"
    using round_trip [OF Suc.prems(1,2)] by blast
  have "length (drop cap cs) \<le> k * cap" using Suc.prems by simp
  then obtain r where "transfer send recv (concat (replicate k [None, Some cap])) (drop cap cs, q', out @ take cap cs)
      = ([], r, (out @ take cap cs) @ drop cap cs)"
    using Suc.IH [OF q'(2,3)] by blast
  with q'(1) show ?case by (simp add: replicate_Suc)
qed simp

end

interpretation pq: channel pipe_fill piperead_copy pipe_bytes pipe_ok 512
proof unfold_locales
  fix q :: pipe and cs rest q'
  assume "pipe_ok q" "pipe_fill cs q = (rest, q')"
  then show "pipe_ok q' \<and> pipe_bytes q' = pipe_bytes q @ take (512 - length (pipe_bytes q)) cs \<and>
      rest = drop (512 - length (pipe_bytes q)) cs"
    using pipe_fill_bytes [of q cs rest q'] by simp
next
  fix q :: pipe and n cs q'
  assume "pipe_ok q" "piperead_copy n q = (cs, q')"
  then show "pipe_ok q' \<and> cs = take n (pipe_bytes q) \<and> pipe_bytes q' = drop n (pipe_bytes q)"
    using piperead_copy_bytes [of q n cs q'] by simp
qed (simp_all add: pipe_ok_def)

section \<open>Properties\<close>

text \<open>
  C5. A pipe is a queue: under every interleaving of a writer and a reader, with the 32-bit counters wrapping
  around, the bytes read, then the bytes in the ring buffer, then the bytes the writer still has, are the
  bytes that were to be sent, in order.
\<close>

theorem pipe_fifo:
  assumes "pipe_ok b" and "transfer pipe_fill piperead_copy sch (cs, b, []) = (rest, b', out)"
  shows "pipe_ok b' \<and> out @ pipe_bytes b' @ rest = pipe_bytes b @ cs"
  using pq.transfer_fifo [OF assms] by simp

definition empty_pipe :: pipe where
  "empty_pipe = \<lparr>pdata = replicate 512 0, nread = 0xFFFFFFFF, nwrite = 0xFFFFFFFF, readopen = True, writeopen = True\<rparr>"

lemma empty_pipe_ok: "pipe_ok empty_pipe" "pipe_bytes empty_pipe = []"
  by (simp_all add: empty_pipe_def pipe_ok_def pipe_count_def pipe_bytes_def)

theorem pipe_fifo_witness:
  "\<exists>b' rest out. transfer pipe_fill piperead_copy [None, Some 1, None, Some 5] ([1, 2, 3], empty_pipe, []) = (rest, b', out) \<and>
     out @ pipe_bytes b' @ rest = [1, 2, 3]"
  using pipe_fifo [OF empty_pipe_ok(1), of "[None, Some 1, None, Some 5]" "[1, 2, 3]"] empty_pipe_ok(2)
  by (cases "transfer pipe_fill piperead_copy [None, Some 1, None, Some 5] ([1, 2, 3], empty_pipe, [])") auto



text \<open>
  C10. One call of \<^verbatim>\<open>pipewrite\<close>, every branch: it fills the pipe up to its 512 bytes; if everything fits it wakes the
  readers and returns \<open>n\<close>; if not and the read end is closed it returns -1; otherwise it wakes the readers
  and sleeps on the write channel, with the pipe's lock free.
\<close>

theorem pipewrite_spec:
  assumes "in_kernel s q" and "pipes s p = Some b" and "pipe_ok b"
  shows "\<exists>b'. pipe_ok b' \<and> pipe_bytes b' = pipe_bytes b @ take (512 - pipe_count b) (map addr [0..<nat n]) \<and>
    pipewrite p addr n s =
      (if nat n \<le> 512 - pipe_count b then Ok n (wakeup1 (ChanPipeRead (unat p)) (set_pipe p b' s))
       else if \<not> readopen b then Ok (-1) (set_pipe p b' s)
       else Blocked (sleeping_on (ChanPipeWrite (unat p)) q (PipeLock (unat p))
              (wakeup1 (ChanPipeRead (unat p)) (set_pipe p b' (s\<lparr>ncli := 1\<rparr>)))))"
proof -
  obtain rest b' where f: "pipe_fill (map addr [0..<nat n]) b = (rest, b')" by fastforce
  note p = pipe_fill_bytes [OF assms(3) f]
  have "rest = [] \<longleftrightarrow> nat n \<le> 512 - pipe_count b" using p by simp
  then show ?thesis using pipewrite_exec [OF assms(1,2) f] p by (intro exI [of _ b']) simp
qed

text \<open>
  C11. One call of \<^verbatim>\<open>piperead\<close>, every branch: an empty pipe with an open write end puts the reader to sleep, or
  returns -1 to a killed process; otherwise it returns the first \<open>n\<close> bytes, or as many as there are, and wakes
  the writers. An empty pipe whose write end is closed gives 0.
\<close>

theorem piperead_spec:
  assumes "in_kernel s q" and "pipes s p = Some b" and "pipe_ok b"
  shows "\<exists>b'. pipe_ok b' \<and> pipe_bytes b' = drop (nat n) (pipe_bytes b) \<and>
    piperead p n s =
      (if pipe_bytes b = [] \<and> writeopen b
       then if p_killed (ptable s ! q) then Ok (-1, []) s
            else Blocked (sleeping_on (ChanPipeRead (unat p)) q (PipeLock (unat p)) (s\<lparr>ncli := 1\<rparr>))
       else Ok (int (min (nat n) (pipe_count b)), take (nat n) (pipe_bytes b))
              (wakeup1 (ChanPipeWrite (unat p)) (set_pipe p b' s)))"
proof -
  obtain cs b' where c: "piperead_copy (nat n) b = (cs, b')" by fastforce
  note p = piperead_copy_bytes [OF assms(3) c]
  have "pipe_empty b \<longleftrightarrow> pipe_bytes b = []" by (simp add: pipe_bytes_def pipe_empty_count)
  then show ?thesis
    using piperead_exec [OF assms(1,2) c] p by (intro exI [of _ b']) (auto simp: min_def)
qed

definition pipe_machine :: pipe_state where
  "pipe_machine = \<lparr>irq = False, ncli = 0, intena = False, locks = (\<lambda>_. lk_free), ptable = [ready_proc],
     curproc = Some 0, initproc = None, nextpid = 2, ticks = 0, kmem_mem = (\<lambda>_. 0), freelist = 0, use_lock = True,
     kern_end = 0x80040000, pipes = [0x80080000 \<mapsto> empty_pipe]\<rparr>"

lemma pipe_machine_ok: "in_kernel pipe_machine 0" "pipes pipe_machine 0x80080000 = Some empty_pipe"
  by (simp_all add: pipe_machine_def in_kernel_def quiet_def)

theorem pipewrite_spec_witness:
  "\<exists>t. pipewrite 0x80080000 (\<lambda>i. of_nat i) 3 pipe_machine = Ok 3 t"
  using pipewrite_spec [OF pipe_machine_ok empty_pipe_ok(1), of "\<lambda>i. of_nat i" 3]
  by (auto simp: empty_pipe_def pipe_count_def)

theorem piperead_spec_witness:
  "\<exists>t. piperead 0x80080000 3 pipe_machine = Blocked t \<and> p_state (ptable t ! 0) = SLEEPING"
  using piperead_spec [OF pipe_machine_ok empty_pipe_ok(1), of 3] empty_pipe_ok(2)
  by (auto simp: empty_pipe_def pipe_machine_def ready_proc_def zero_proc_def sleeping_on_def upd_proc_def)

end
