(* ===== verification/Xv6_Bio.thy ===== *)
theory Xv6_Bio
  imports Xv6_Pipe
begin

text \<open>
  \<^verbatim>\<open>kernel/bio.c\<close> and \<^verbatim>\<open>kernel/ide.c\<close>: the buffer cache over the memory disk. The buffers form a
  doubly linked circular list in order of use, threaded through \<^verbatim>\<open>prev\<close> and \<^verbatim>\<open>next\<close>; the node
  numbered \<open>NBUF\<close> is \<^verbatim>\<open>bcache.head\<close>. The theory shows that the pointer surgery keeps a list of
  all buffers, that a block is cached at most once, and that a buffer returned by \<^verbatim>\<open>bread\<close>
  holds the block's current content.
\<close>

section \<open>State and operations\<close>

text \<open>\<^verbatim>\<open>struct buf\<close>, with one field for each bit of \<^verbatim>\<open>flags\<close>.\<close>

record buf =
  b_busy :: bool
  b_valid :: bool
  b_dirty :: bool
  b_dev :: uint
  b_sector :: uint
  b_prev :: nat
  b_next :: nat
  b_data :: "uchar list"

text \<open>
  \<open>memdisk\<close> is the embedded image by blocks of 512 bytes. \<open>writes\<close> is a history of the block
  writes the disk has received, kept for reasoning about crashes; nothing reads it.
\<close>

record bio_state = pipe_state +
  memdisk :: "uint \<Rightarrow> uchar list"
  disksize :: uint
  bufs :: "buf list"
  writes :: "(uint \<times> uchar list) list"

abbreviation bhead :: nat where "bhead \<equiv> NBUF"

definition BSIZE :: nat where "BSIZE = 512"

definition upd_buf :: "nat \<Rightarrow> (buf \<Rightarrow> buf) \<Rightarrow> 'z bio_state_scheme \<Rightarrow> 'z bio_state_scheme" where
  "upd_buf b f s = s\<lparr>bufs := (bufs s)[b := f (bufs s ! b)]\<rparr>"

definition ideinit :: "(uint \<Rightarrow> uchar list) \<Rightarrow> uint \<Rightarrow> 'z bio_state_scheme \<Rightarrow> 'z bio_state_scheme" where
  "ideinit img sz s = s\<lparr>memdisk := img, disksize := sz\<rparr>"

definition iderw :: "nat \<Rightarrow> 'z bio_state_scheme \<Rightarrow> (unit, 'z bio_state_scheme) outcome" where
  "iderw b s =
     (let bp = bufs s ! b
      in if \<not> b_busy bp then Panic ''iderw: buf not busy''
         else if b_valid bp \<and> \<not> b_dirty bp then Panic ''iderw: nothing to do''
         else if b_dev bp \<noteq> 1 then Panic ''iderw: request not for disk 1''
         else if b_sector bp \<ge> disksize s then Panic ''iderw: sector out of range''
         else if b_dirty bp
         then let s = upd_buf b (\<lambda>q. q\<lparr>b_dirty := False\<rparr>) s;
                  s = s\<lparr>memdisk := (memdisk s)(b_sector bp := b_data bp),
                        writes := writes s @ [(b_sector bp, b_data bp)]\<rparr>
              in Ok () (upd_buf b (\<lambda>q. q\<lparr>b_valid := True\<rparr>) s)
         else let s = upd_buf b (\<lambda>q. q\<lparr>b_data := memdisk s (b_sector bp)\<rparr>) s
              in Ok () (upd_buf b (\<lambda>q. q\<lparr>b_valid := True\<rparr>) s))"

text \<open>The insertion of one buffer behind the head, as \<^verbatim>\<open>binit\<close> and \<^verbatim>\<open>brelse\<close> do it.\<close>

definition binit_one :: "nat \<Rightarrow> buf list \<Rightarrow> buf list" where
  "binit_one b bs =
     (let bs = bs[b := (bs ! b)\<lparr>b_next := b_next (bs ! bhead), b_prev := bhead, b_dev := -1\<rparr>];
          h = b_next (bs ! bhead);
          bs = bs[h := (bs ! h)\<lparr>b_prev := b\<rparr>]
      in bs[bhead := (bs ! bhead)\<lparr>b_next := b\<rparr>])"

definition binit :: "'z bio_state_scheme \<Rightarrow> 'z bio_state_scheme" where
  "binit s =
     (let s = initlock BcacheLock s;
          bs = (bufs s)[bhead := (bufs s ! bhead)\<lparr>b_prev := bhead, b_next := bhead\<rparr>]
      in s\<lparr>bufs := fold binit_one [0..<NBUF] bs\<rparr>)"

text \<open>
  The scans of \<^verbatim>\<open>bget\<close> along \<^verbatim>\<open>next\<close> or \<^verbatim>\<open>prev\<close>: the first buffer that satisfies \<open>P\<close>, or
  \<open>Some None\<close> when the scan is back at the head. There are \<open>NBUF + 1\<close> nodes, so a scan that
  has not met the head after that many steps goes in a circle for ever: \<open>None\<close>.
\<close>

fun bscan :: "(buf \<Rightarrow> nat) \<Rightarrow> (buf \<Rightarrow> bool) \<Rightarrow> buf list \<Rightarrow> nat \<Rightarrow> nat \<Rightarrow> nat option option" where
  "bscan link P bs 0 b = None"
| "bscan link P bs (Suc k) b =
     (if b = bhead then Some None
      else if P (bs ! b) then Some (Some b)
      else bscan link P bs k (link (bs ! b)))"

text \<open>\<open>bget_body\<close> is \<^verbatim>\<open>bget\<close> from its label \<^verbatim>\<open>loop\<close>, with the lock held.\<close>

definition bget_body :: "uint \<Rightarrow> uint \<Rightarrow> 'z bio_state_scheme \<Rightarrow> (nat, 'z bio_state_scheme) outcome" where
  "bget_body dev sector s =
     (case bscan b_next (\<lambda>b. b_dev b = dev \<and> b_sector b = sector) (bufs s) (Suc NBUF)
             (b_next (bufs s ! bhead)) of
        None \<Rightarrow> Diverge
      | Some (Some b) \<Rightarrow>
          if \<not> b_busy (bufs s ! b)
          then obind (release BcacheLock (upd_buf b (\<lambda>q. q\<lparr>b_busy := True\<rparr>) s)) (\<lambda>_ s. Ok b s)
          else sleep (ChanBuf b) (Some BcacheLock) s
      | Some None \<Rightarrow>
          (case bscan b_prev (\<lambda>b. \<not> b_busy b \<and> \<not> b_dirty b) (bufs s) (Suc NBUF)
                  (b_prev (bufs s ! bhead)) of
             None \<Rightarrow> Diverge
           | Some (Some b) \<Rightarrow>
               obind (release BcacheLock (upd_buf b (\<lambda>q. q\<lparr>b_dev := dev, b_sector := sector,
                        b_busy := True, b_valid := False, b_dirty := False\<rparr>) s)) (\<lambda>_ s. Ok b s)
           | Some None \<Rightarrow> Panic ''bget: no buffers''))"

definition bget :: "uint \<Rightarrow> uint \<Rightarrow> 'z bio_state_scheme \<Rightarrow> (nat, 'z bio_state_scheme) outcome" where
  "bget dev sector s = obind (acquire BcacheLock s) (\<lambda>_ s. bget_body dev sector s)"

definition bget_resume :: "uint \<Rightarrow> uint \<Rightarrow> 'z bio_state_scheme \<Rightarrow> (nat, 'z bio_state_scheme) outcome" where
  "bget_resume dev sector s = obind (sleep_resume BcacheLock s) (\<lambda>_ s. bget_body dev sector s)"

definition bread :: "uint \<Rightarrow> uint \<Rightarrow> 'z bio_state_scheme \<Rightarrow> (nat, 'z bio_state_scheme) outcome" where
  "bread dev sector s =
     obind (bget dev sector s) (\<lambda>b s.
     if \<not> b_valid (bufs s ! b) then obind (iderw b s) (\<lambda>_ s. Ok b s) else Ok b s)"

definition bwrite :: "nat \<Rightarrow> 'z bio_state_scheme \<Rightarrow> (unit, 'z bio_state_scheme) outcome" where
  "bwrite b s =
     (if \<not> b_busy (bufs s ! b) then Panic ''bwrite''
      else iderw b (upd_buf b (\<lambda>q. q\<lparr>b_dirty := True\<rparr>) s))"

text \<open>The unlinking and relinking of \<^verbatim>\<open>brelse\<close>, statement by statement.\<close>

definition brelse_links :: "nat \<Rightarrow> buf list \<Rightarrow> buf list" where
  "brelse_links b bs =
     (let n = b_next (bs ! b);
          bs = bs[n := (bs ! n)\<lparr>b_prev := b_prev (bs ! b)\<rparr>];
          p = b_prev (bs ! b);
          bs = bs[p := (bs ! p)\<lparr>b_next := b_next (bs ! b)\<rparr>];
          bs = bs[b := (bs ! b)\<lparr>b_next := b_next (bs ! bhead)\<rparr>];
          bs = bs[b := (bs ! b)\<lparr>b_prev := bhead\<rparr>];
          h = b_next (bs ! bhead);
          bs = bs[h := (bs ! h)\<lparr>b_prev := b\<rparr>]
      in bs[bhead := (bs ! bhead)\<lparr>b_next := b\<rparr>])"

definition brelse :: "nat \<Rightarrow> 'z bio_state_scheme \<Rightarrow> (unit, 'z bio_state_scheme) outcome" where
  "brelse b s =
     (if \<not> b_busy (bufs s ! b) then Panic ''brelse''
      else obind (acquire BcacheLock s) (\<lambda>_ s.
           let s = s\<lparr>bufs := brelse_links b (bufs s)\<rparr>;
               s = upd_buf b (\<lambda>q. q\<lparr>b_busy := False\<rparr>) s
           in obind (wakeup (ChanBuf b) s) (\<lambda>_ s. release BcacheLock s)))"

section \<open>The list of buffers\<close>

text \<open>
  \<open>seg nx pv a xs z\<close>: following \<open>nx\<close> from \<open>a\<close> one meets exactly \<open>xs\<close> and then \<open>z\<close>, and \<open>pv\<close> leads
  back the same way.
\<close>

fun seg :: "(nat \<Rightarrow> nat) \<Rightarrow> (nat \<Rightarrow> nat) \<Rightarrow> nat \<Rightarrow> nat list \<Rightarrow> nat \<Rightarrow> bool" where
  "seg nx pv a [] z \<longleftrightarrow> nx a = z \<and> pv z = a"
| "seg nx pv a (x # xs) z \<longleftrightarrow> nx a = x \<and> pv x = a \<and> seg nx pv x xs z"

lemma seg_append: "seg nx pv a (xs @ y # ys) z \<longleftrightarrow> seg nx pv a xs y \<and> seg nx pv y ys z"
  by (induction xs arbitrary: a) auto

lemma seg_cong:
  "(\<And>i. i \<in> set (a # xs) \<Longrightarrow> nx' i = nx i) \<Longrightarrow> (\<And>i. i \<in> set (xs @ [z]) \<Longrightarrow> pv' i = pv i) \<Longrightarrow>
   seg nx' pv' a xs z = seg nx pv a xs z"
  by (induction xs arbitrary: a) auto

text \<open>Moving a node to the front of a circular list, in the order of the assignments of \<^verbatim>\<open>brelse\<close>.\<close>

definition relink_next :: "nat \<Rightarrow> nat \<Rightarrow> (nat \<Rightarrow> nat) \<Rightarrow> (nat \<Rightarrow> nat) \<Rightarrow> nat \<Rightarrow> nat" where
  "relink_next h b nx pv =
     (let nx1 = nx(pv b := nx b); nx2 = nx1(b := nx1 h) in nx2(h := b))"

definition relink_prev :: "nat \<Rightarrow> nat \<Rightarrow> (nat \<Rightarrow> nat) \<Rightarrow> (nat \<Rightarrow> nat) \<Rightarrow> nat \<Rightarrow> nat" where
  "relink_prev h b nx pv =
     (let nx1 = nx(pv b := nx b); pv1 = pv(nx b := pv b); pv2 = pv1(b := h) in pv2(nx1 h := b))"

lemma seg_swap_out:
  assumes "seg nx pv h (ys @ b # zs) h" and "distinct (h # ys @ b # zs)"
  shows "seg (nx(pv b := nx b)) (pv(nx b := pv b)) h (ys @ zs) h"
proof (cases ys rule: rev_cases)
  case Nil
  show ?thesis
  proof (cases zs)
    case Nil
    then show ?thesis using assms \<open>ys = []\<close> by simp
  next
    case (Cons z zs')
    have "seg (nx(h := z)) (pv(z := h)) z zs' h = seg nx pv z zs' h"
      using assms Cons \<open>ys = []\<close> by (intro seg_cong) auto
    then show ?thesis using assms Cons \<open>ys = []\<close> by simp
  qed
next
  case (snoc us u)
  have u: "seg nx pv h us u" "nx u = b" "pv b = u" "seg nx pv b zs h"
    using assms(1) snoc by (simp_all add: seg_append)
  show ?thesis
  proof (cases zs)
    case Nil
    have "seg (nx(u := h)) (pv(h := u)) h us u = seg nx pv h us u"
      using assms snoc by (intro seg_cong) auto
    then show ?thesis using assms u snoc Nil by (simp add: seg_append)
  next
    case (Cons z zs')
    have "seg (nx(u := z)) (pv(z := u)) h us u = seg nx pv h us u"
      using assms Cons snoc by (intro seg_cong) auto
    moreover have "seg (nx(u := z)) (pv(z := u)) z zs' h = seg nx pv z zs' h"
      using assms Cons snoc by (intro seg_cong) auto
    ultimately show ?thesis using u Cons snoc by (simp add: seg_append)
  qed
qed

lemma seg_push_front:
  assumes "seg nx pv h xs h" and "b \<noteq> h" and "b \<notin> set xs" and "distinct (h # xs)"
  shows "seg (nx(b := nx h, h := b)) (pv(b := h, nx h := b)) h (b # xs) h"
proof (cases xs)
  case Nil
  then show ?thesis using assms by auto
next
  case (Cons x xs')
  have "seg (nx(b := x, h := b)) (pv(b := h, x := b)) x xs' h = seg nx pv x xs' h"
    using assms Cons by (intro seg_cong) auto
  then show ?thesis using assms Cons by auto
qed

lemma seg_relink:
  assumes "seg nx pv h (ys @ b # zs) h" and "distinct (h # ys @ b # zs)"
  shows "seg (relink_next h b nx pv) (relink_prev h b nx pv) h (b # ys @ zs) h"
  using seg_push_front [OF seg_swap_out [OF assms], of b] assms(2)
  by (simp add: relink_next_def relink_prev_def)

text \<open>The links of the buffers, and what an assignment to one of them changes.\<close>

definition nxt :: "buf list \<Rightarrow> nat \<Rightarrow> nat" where "nxt bs i = b_next (bs ! i)"
definition prv :: "buf list \<Rightarrow> nat \<Rightarrow> nat" where "prv bs i = b_prev (bs ! i)"

lemma set_next_links:
  assumes "i < length bs"
  shows "nxt (bs[i := (bs ! i)\<lparr>b_next := v\<rparr>]) = (nxt bs)(i := v)" "prv (bs[i := (bs ! i)\<lparr>b_next := v\<rparr>]) = prv bs"
  using assms by (auto simp: nxt_def prv_def fun_eq_iff nth_list_update)

lemma set_prev_links:
  assumes "i < length bs"
  shows "nxt (bs[i := (bs ! i)\<lparr>b_prev := v\<rparr>]) = nxt bs" "prv (bs[i := (bs ! i)\<lparr>b_prev := v\<rparr>]) = (prv bs)(i := v)"
  using assms by (auto simp: nxt_def prv_def fun_eq_iff nth_list_update)

lemma links_keep:
  assumes "\<And>q. b_next (f q) = b_next q" "\<And>q. b_prev (f q) = b_prev q"
  shows "nxt (bs[i := f (bs ! i)]) = nxt bs" "prv (bs[i := f (bs ! i)]) = prv bs"
proof -
  have "bs[i := f (bs ! i)] ! j = (if i = j \<and> i < length bs then f (bs ! i) else bs ! j)" for j
    by (cases "i = j"; cases "i < length bs") (simp_all add: not_less list_update_beyond)
  then show "nxt (bs[i := f (bs ! i)]) = nxt bs" "prv (bs[i := f (bs ! i)]) = prv bs"
    using assms by (auto simp: nxt_def prv_def)
qed

lemma length_brelse_links [simp]: "length (brelse_links b bs) = length bs"
  by (simp add: brelse_links_def Let_def)

lemma brelse_links_relink:
  assumes "b < length bs" "bhead < length bs"
    and "nxt bs b < length bs" "prv bs b < length bs" "nxt bs bhead < length bs" "nxt bs b \<noteq> b"
  shows "nxt (brelse_links b bs) = relink_next bhead b (nxt bs) (prv bs)"
    and "prv (brelse_links b bs) = relink_prev bhead b (nxt bs) (prv bs)"
proof -
  define b1 where "b1 = bs[b_next (bs ! b) := (bs ! b_next (bs ! b))\<lparr>b_prev := b_prev (bs ! b)\<rparr>]"
  define b2 where "b2 = b1[b_prev (b1 ! b) := (b1 ! b_prev (b1 ! b))\<lparr>b_next := b_next (b1 ! b)\<rparr>]"
  define b3 where "b3 = b2[b := (b2 ! b)\<lparr>b_next := b_next (b2 ! bhead)\<rparr>]"
  define b4 where "b4 = b3[b := (b3 ! b)\<lparr>b_prev := bhead\<rparr>]"
  define b5 where "b5 = b4[b_next (b4 ! bhead) := (b4 ! b_next (b4 ! bhead))\<lparr>b_prev := b\<rparr>]"
  have len: "length b1 = length bs" "length b2 = length bs" "length b3 = length bs"
    "length b4 = length bs" "length b5 = length bs"
    by (simp_all add: b1_def b2_def b3_def b4_def b5_def)
  have r: "brelse_links b bs = b5[bhead := (b5 ! bhead)\<lparr>b_next := b\<rparr>]"
    by (simp add: brelse_links_def Let_def b1_def b2_def b3_def b4_def b5_def)
  note fold = nxt_def [symmetric] prv_def [symmetric]
  have 1: "nxt b1 = nxt bs" "prv b1 = (prv bs)(nxt bs b := prv bs b)"
    using assms set_prev_links [of "nxt bs b" bs "prv bs b"] by (simp_all add: b1_def fold)
  have 2: "nxt b2 = (nxt bs)(prv bs b := nxt bs b)" "prv b2 = (prv bs)(nxt bs b := prv bs b)"
    using assms 1 len set_next_links [of "prv bs b" b1 "nxt bs b"] by (simp_all add: b2_def fold)
  have 3: "nxt b3 = (nxt b2)(b := nxt b2 bhead)" "prv b3 = prv b2"
    using assms len set_next_links [of b b2 "nxt b2 bhead"] by (simp_all add: b3_def fold)
  have 4: "nxt b4 = nxt b3" "prv b4 = (prv b3)(b := bhead)"
    using assms len set_prev_links [of b b3 bhead] by (simp_all add: b4_def fold)
  have h: "nxt b4 bhead < length bs" using assms by (auto simp: 2 3 4)
  have 5: "nxt b5 = nxt b4" "prv b5 = (prv b4)(nxt b4 bhead := b)"
    using h len set_prev_links [of "nxt b4 bhead" b4 b] by (simp_all add: b5_def fold)
  have 6: "nxt (brelse_links b bs) = (nxt b5)(bhead := b)" "prv (brelse_links b bs) = prv b5"
    unfolding r using assms len set_next_links [of bhead b5 b] by simp_all
  show "nxt (brelse_links b bs) = relink_next bhead b (nxt bs) (prv bs)"
    by (simp add: 2 3 4 5 6 relink_next_def)
  have "nxt b4 bhead = nxt b2 bhead" using assms by (auto simp: 2 3 4)
  then show "prv (brelse_links b bs) = relink_prev bhead b (nxt bs) (prv bs)"
    by (simp add: 2 3 4 5 6 relink_prev_def)
qed

text \<open>\<open>lru bs xs\<close>: the buffers in order of use, the most recently used first.\<close>

definition lru :: "buf list \<Rightarrow> nat list \<Rightarrow> bool" where
  "lru bs xs \<longleftrightarrow> length bs = Suc NBUF \<and> distinct xs \<and> set xs = {..<NBUF} \<and>
     seg (nxt bs) (prv bs) bhead xs bhead"

lemma lru_length: "lru bs xs \<Longrightarrow> length xs = NBUF"
  using distinct_card [of xs] by (simp add: lru_def)

lemma seg_nx_range: "seg nx pv a ys z \<Longrightarrow> i \<in> set (a # ys) \<Longrightarrow> nx i \<in> set (ys @ [z])"
proof (induction ys arbitrary: a)
  case (Cons y ys)
  then show ?case using Cons.IH [of y] by (cases "i = a") simp_all
qed simp

lemma seg_pv_range: "seg nx pv a ys z \<Longrightarrow> i \<in> set (ys @ [z]) \<Longrightarrow> pv i \<in> set (a # ys)"
proof (induction ys arbitrary: a)
  case (Cons y ys)
  then show ?case using Cons.IH [of y] by (cases "i = y") simp_all
qed simp

lemma lru_range:
  assumes "lru bs xs" "i \<le> NBUF"
  shows "nxt bs i \<le> NBUF" "prv bs i \<le> NBUF"
proof -
  have s: "seg (nxt bs) (prv bs) bhead xs bhead" using assms by (simp add: lru_def)
  have i: "i \<in> set (bhead # xs)" using assms by (cases "i = NBUF") (simp_all add: lru_def)
  have x: "set xs = {..<NBUF}" using assms by (simp add: lru_def)
  show "nxt bs i \<le> NBUF" using seg_nx_range [OF s i] by (auto simp: x)
  show "prv bs i \<le> NBUF" using seg_pv_range [OF s, of i] i by (auto simp: x)
qed

lemma lru_move_front:
  assumes "lru bs xs" "b < NBUF"
  shows "lru (brelse_links b bs) (b # remove1 b xs)"
proof -
  from assms obtain ys zs where xs: "xs = ys @ b # zs"
    using split_list [of b xs] by (auto simp: lru_def)
  have s: "seg (nxt bs) (prv bs) bhead (ys @ b # zs) bhead" and d: "distinct (bhead # ys @ b # zs)"
    using assms xs by (auto simp: lru_def)
  have "nxt bs b \<noteq> b"
    using s d by (cases zs) (auto simp: seg_append)
  then have "nxt (brelse_links b bs) = relink_next bhead b (nxt bs) (prv bs)"
    "prv (brelse_links b bs) = relink_prev bhead b (nxt bs) (prv bs)"
    using brelse_links_relink [of b bs] assms lru_range [OF assms(1)]
    by (simp_all add: lru_def le_imp_less_Suc)
  moreover have "remove1 b xs = ys @ zs" using d xs by (simp add: remove1_append)
  ultimately show ?thesis
    using seg_relink [OF s d] assms(1) xs d by (auto simp: lru_def)
qed

text \<open>The scans of \<^verbatim>\<open>bget\<close> are searches in the list, and in its reverse.\<close>

lemma bscan_next:
  assumes "seg (nxt bs) (prv bs) a xs bhead" and "bhead \<notin> set xs" and "length xs < k"
  shows "bscan b_next P bs k (nxt bs a) = Some (find (\<lambda>i. P (bs ! i)) xs)"
  using assms
proof (induction xs arbitrary: a k)
  case (Cons x xs)
  then show ?case by (cases k) (auto simp: nxt_def [symmetric])
qed (auto simp: gr0_conv_Suc)

lemma seg_rev: "seg nx pv a xs z \<longleftrightarrow> seg pv nx z (rev xs) a"
  by (induction xs arbitrary: a) (auto simp: seg_append)

lemma bscan_prev:
  assumes "seg (prv bs) (nxt bs) a xs bhead" and "bhead \<notin> set xs" and "length xs < k"
  shows "bscan b_prev P bs k (prv bs a) = Some (find (\<lambda>i. P (bs ! i)) xs)"
  using assms
proof (induction xs arbitrary: a k)
  case (Cons x xs)
  then show ?case by (cases k) (auto simp: prv_def [symmetric])
qed (auto simp: gr0_conv_Suc)

lemma bscan_lru:
  assumes "lru bs xs"
  shows "bscan b_next P bs (Suc NBUF) (b_next (bs ! bhead)) = Some (find (\<lambda>i. P (bs ! i)) xs)"
    and "bscan b_prev P bs (Suc NBUF) (b_prev (bs ! bhead)) = Some (find (\<lambda>i. P (bs ! i)) (rev xs))"
proof -
  have s: "seg (nxt bs) (prv bs) bhead xs bhead" "bhead \<notin> set xs" using assms by (auto simp: lru_def)
  show "bscan b_next P bs (Suc NBUF) (b_next (bs ! bhead)) = Some (find (\<lambda>i. P (bs ! i)) xs)"
    using bscan_next [OF s, of "Suc NBUF" P] lru_length [OF assms] by (simp add: nxt_def)
  show "bscan b_prev P bs (Suc NBUF) (b_prev (bs ! bhead)) = Some (find (\<lambda>i. P (bs ! i)) (rev xs))"
    using bscan_prev [of bs bhead "rev xs" "Suc NBUF" P] lru_length [OF assms] s
    by (simp add: prv_def [symmetric] seg_rev [of "nxt bs"])
qed

declare bscan.simps [simp del]

text \<open>\<^verbatim>\<open>binit\<close> builds the list.\<close>

lemma binit_one_links:
  assumes "b < length bs" "bhead < length bs" "nxt bs bhead < length bs" "b \<noteq> bhead"
  shows "nxt (binit_one b bs) = (nxt bs)(b := nxt bs bhead, bhead := b)"
    and "prv (binit_one b bs) = (prv bs)(b := bhead, nxt bs bhead := b)"
proof -
  define b1 where "b1 = bs[b := (bs ! b)\<lparr>b_next := b_next (bs ! bhead), b_prev := bhead, b_dev := -1\<rparr>]"
  define b2 where "b2 = b1[b_next (b1 ! bhead) := (b1 ! b_next (b1 ! bhead))\<lparr>b_prev := b\<rparr>]"
  have len: "length b1 = length bs" "length b2 = length bs" by (simp_all add: b1_def b2_def)
  have r: "binit_one b bs = b2[bhead := (b2 ! bhead)\<lparr>b_next := b\<rparr>]"
    by (simp add: binit_one_def Let_def b1_def b2_def)
  have 1: "nxt b1 = (nxt bs)(b := nxt bs bhead)" "prv b1 = (prv bs)(b := bhead)"
    using assms by (auto simp: b1_def nxt_def prv_def fun_eq_iff nth_list_update)
  have h: "b_next (b1 ! bhead) = nxt bs bhead" using 1(1) assms(4) by (simp add: nxt_def fun_eq_iff)
  have 2: "nxt b2 = nxt b1" "prv b2 = (prv b1)(nxt bs bhead := b)"
    unfolding b2_def h using assms len set_prev_links [of "nxt bs bhead" b1 b] by simp_all
  show "nxt (binit_one b bs) = (nxt bs)(b := nxt bs bhead, bhead := b)"
    "prv (binit_one b bs) = (prv bs)(b := bhead, nxt bs bhead := b)"
    unfolding r using assms len set_next_links [of bhead b2 b] 1 2 by simp_all
qed

lemma length_binit_one [simp]: "length (binit_one b bs) = length bs"
  by (simp add: binit_one_def Let_def)

lemma binit_fold:
  assumes "length bs = Suc NBUF" and "nxt bs bhead = bhead" and "prv bs bhead = bhead" and "k \<le> NBUF"
  shows "length (fold binit_one [0..<k] bs) = Suc NBUF \<and>
    seg (nxt (fold binit_one [0..<k] bs)) (prv (fold binit_one [0..<k] bs)) bhead (rev [0..<k]) bhead"
  using assms(4)
proof (induction k)
  case (Suc k)
  let ?bs = "fold binit_one [0..<k] bs"
  from Suc have s: "seg (nxt ?bs) (prv ?bs) bhead (rev [0..<k]) bhead" and len: "length ?bs = Suc NBUF"
    by auto
  have "nxt ?bs bhead \<in> set (rev [0..<k] @ [bhead])"
    by (rule seg_nx_range [OF s]) simp
  then have "nxt ?bs bhead < length ?bs" using Suc.prems len by auto
  then have "nxt (binit_one k ?bs) = (nxt ?bs)(k := nxt ?bs bhead, bhead := k)"
    "prv (binit_one k ?bs) = (prv ?bs)(k := bhead, nxt ?bs bhead := k)"
    using Suc.prems len by (intro binit_one_links; simp)+
  then show ?case
    using seg_push_front [OF s, of k] Suc.prems len by (simp del: fun_upd_apply seg.simps)
qed (use assms in simp)

lemma binit_lru:
  assumes "length (bufs s) = Suc NBUF"
  shows "lru (bufs (binit s)) (rev [0..<NBUF])"
proof -
  let ?bs = "(bufs s)[bhead := (bufs s ! bhead)\<lparr>b_prev := bhead, b_next := bhead\<rparr>]"
  have "length ?bs = Suc NBUF \<and> nxt ?bs bhead = bhead \<and> prv ?bs bhead = bhead"
    using assms by (simp add: nxt_def prv_def)
  from this binit_fold [of ?bs NBUF] show ?thesis
    by (auto simp: lru_def binit_def initlock_def Let_def atLeast0LessThan)
qed

section \<open>Coherence of the cache\<close>

text \<open>
  What holds of every buffer: a valid one holds a block of the disk; a dirty one is valid;
  one that nobody uses and that is clean agrees with the disk.
\<close>

definition buf_ok :: "'z bio_state_scheme \<Rightarrow> buf \<Rightarrow> bool" where
  "buf_ok s b \<longleftrightarrow>
     (b_valid b \<longrightarrow> b_dev b = 1 \<and> b_sector b < disksize s \<and> length (b_data b) = BSIZE) \<and>
     (b_dirty b \<longrightarrow> b_valid b) \<and>
     (b_valid b \<and> \<not> b_dirty b \<and> \<not> b_busy b \<longrightarrow> b_data b = memdisk s (b_sector b))"

definition same_block :: "buf \<Rightarrow> buf \<Rightarrow> bool" where
  "same_block b c \<longleftrightarrow> b_dev b = b_dev c \<and> b_sector b = b_sector c \<and> b_dev b \<noteq> -1"

definition bcache_ok :: "'z bio_state_scheme \<Rightarrow> bool" where
  "bcache_ok s \<longleftrightarrow> (\<exists>xs. lru (bufs s) xs) \<and>
     (\<forall>i<NBUF. buf_ok s (bufs s ! i)) \<and>
     (\<forall>i<NBUF. \<forall>j<NBUF. same_block (bufs s ! i) (bufs s ! j) \<longrightarrow> i = j) \<and>
     (\<forall>n. length (memdisk s n) = BSIZE)"

text \<open>The current content of a block: that of its buffer, or that of the disk.\<close>

definition blk :: "'z bio_state_scheme \<Rightarrow> uint \<Rightarrow> uchar list" where
  "blk s n = (case find (\<lambda>b. b_valid b \<and> b_dev b = 1 \<and> b_sector b = n) (take NBUF (bufs s)) of
     Some b \<Rightarrow> b_data b | None \<Rightarrow> memdisk s n)"

definition busy_set :: "'z bio_state_scheme \<Rightarrow> nat set" where
  "busy_set s = {i. i < NBUF \<and> b_busy (bufs s ! i)}"

definition dirty_set :: "'z bio_state_scheme \<Rightarrow> nat set" where
  "dirty_set s = {i. i < NBUF \<and> b_dirty (bufs s ! i)}"

lemma bcache_len: "bcache_ok s \<Longrightarrow> length (bufs s) = Suc NBUF"
  by (auto simp: bcache_ok_def lru_def)

lemma bcache_unique:
  assumes "bcache_ok s" "i < NBUF" "j < NBUF" "b_dev (bufs s ! i) = b_dev (bufs s ! j)"
    "b_sector (bufs s ! i) = b_sector (bufs s ! j)" "b_dev (bufs s ! i) \<noteq> -1"
  shows "i = j"
  using assms by (auto simp: bcache_ok_def same_block_def)

lemma blk_cached:
  assumes "bcache_ok s" "i < NBUF" "b_valid (bufs s ! i)"
  shows "blk s (b_sector (bufs s ! i)) = b_data (bufs s ! i)"
proof -
  let ?P = "\<lambda>b. b_valid b \<and> b_dev b = 1 \<and> b_sector b = b_sector (bufs s ! i)"
  have dev: "b_dev (bufs s ! i) = 1" using assms by (simp add: bcache_ok_def buf_ok_def)
  have len: "length (bufs s) = Suc NBUF" using assms by (simp add: bcache_len)
  have "find ?P (take NBUF (bufs s)) \<noteq> None"
    using assms dev len by (auto simp: find_None_iff in_set_conv_nth)
  then obtain b where b: "find ?P (take NBUF (bufs s)) = Some b" by auto
  then obtain j where j: "j < NBUF" "b = bufs s ! j" "?P b"
    using len by (auto simp: find_Some_iff)
  then have "j = i" using bcache_unique [OF assms(1), of j i] assms(2) dev by simp
  then show ?thesis using b j by (simp add: blk_def)
qed

lemma blk_uncached:
  assumes "bcache_ok s" "\<And>i. i < NBUF \<Longrightarrow> b_valid (bufs s ! i) \<Longrightarrow> b_sector (bufs s ! i) \<noteq> n"
  shows "blk s n = memdisk s n"
proof -
  have "find (\<lambda>b. b_valid b \<and> b_dev b = 1 \<and> b_sector b = n) (take NBUF (bufs s)) = None"
    using assms bcache_len [OF assms(1)] by (auto simp: find_None_iff in_set_conv_nth)
  then show ?thesis by (simp add: blk_def)
qed

text \<open>
  An update of one buffer that leaves its links alone, seen by \<open>bcache_ok\<close> and \<open>blk\<close>.
\<close>

lemma lru_upd:
  assumes "lru bs xs" "\<And>q. b_next (f q) = b_next q" "\<And>q. b_prev (f q) = b_prev q"
  shows "lru (bs[i := f (bs ! i)]) xs"
  using assms links_keep [of f bs i] by (simp add: lru_def)

lemma upd_buf_bufs:
  "bcache_ok s \<Longrightarrow> i < NBUF \<Longrightarrow> bufs (upd_buf i f s) ! j = (if j = i then f (bufs s ! i) else bufs s ! j)"
  by (simp add: upd_buf_def bcache_len)

lemma upd_buf_frame [simp]:
  "memdisk (upd_buf i f s) = memdisk s" "disksize (upd_buf i f s) = disksize s"
  "writes (upd_buf i f s) = writes s"
  by (simp_all add: upd_buf_def)

lemma buf_ok_frame: "memdisk t = memdisk s \<Longrightarrow> disksize t = disksize s \<Longrightarrow> buf_ok t b = buf_ok s b"
  by (simp add: buf_ok_def)

lemma bcache_ok_upd:
  assumes "bcache_ok s" "i < NBUF"
    and links: "\<And>q. b_next (f q) = b_next q" "\<And>q. b_prev (f q) = b_prev q"
    and ok: "buf_ok s (f (bufs s ! i))"
    and uniq: "\<And>j. j < NBUF \<Longrightarrow> j \<noteq> i \<Longrightarrow> \<not> same_block (f (bufs s ! i)) (bufs s ! j)"
  shows "bcache_ok (upd_buf i f s)"
proof -
  from assms(1) obtain xs where "lru (bufs s) xs" by (auto simp: bcache_ok_def)
  then have "lru (bufs (upd_buf i f s)) xs" using lru_upd [of "bufs s" xs f] links by (simp add: upd_buf_def)
  moreover have "\<not> same_block (bufs s ! j) (f (bufs s ! i))" if "j < NBUF" "j \<noteq> i" for j
    using uniq [OF that] by (auto simp: same_block_def)
  ultimately show ?thesis
    using assms(1) ok uniq
    by (simp add: bcache_ok_def upd_buf_bufs [OF assms(1,2)] buf_ok_frame [of "upd_buf i f s" s]) blast
qed

lemma no_block_of:
  assumes "lru bs xs" "find (\<lambda>i. P (bs ! i)) xs = None" "i < NBUF"
  shows "\<not> P (bs ! i)"
  using assms by (auto simp: find_None_iff lru_def)

lemma find_lru_Some:
  assumes "lru bs xs" "find (\<lambda>i. P (bs ! i)) xs = Some i"
  shows "i < NBUF" "P (bs ! i)"
  using assms by (auto simp: find_Some_iff lru_def)

lemma find_lru_rev_Some:
  assumes "lru bs xs" "find (\<lambda>i. P (bs ! i)) (rev xs) = Some i"
  shows "i < NBUF" "P (bs ! i)"
proof -
  have "set (rev xs) = {..<NBUF}" using assms(1) by (simp add: lru_def)
  then show "i < NBUF" "P (bs ! i)"
    using assms(2) by (auto simp: find_Some_iff simp del: set_rev)
qed

text \<open>
  \<^verbatim>\<open>bget\<close> in a state with no lock held: the buffer is found, or a clean one is recycled.
\<close>

lemma upd_buf_locks:
  "upd_buf b f (s\<lparr>ncli := n, locks := l\<rparr>) = (upd_buf b f s)\<lparr>ncli := n, locks := l\<rparr>"
  by (simp add: upd_buf_def)

lemma bget_hit:
  assumes "bcache_ok s" "quiet s" "i < NBUF" "b_dev (bufs s ! i) = dev" "b_sector (bufs s ! i) = n"
    and "dev \<noteq> -1" "\<not> b_busy (bufs s ! i)"
  shows "bget dev n s = Ok i (upd_buf i (\<lambda>q. q\<lparr>b_busy := True\<rparr>) s)"
proof -
  from assms(1) obtain xs where xs: "lru (bufs s) xs" by (auto simp: bcache_ok_def)
  let ?P = "\<lambda>b. b_dev b = dev \<and> b_sector b = n"
  obtain j where j: "find (\<lambda>i. ?P (bufs s ! i)) xs = Some j"
    using no_block_of [OF xs, of ?P i] assms by fastforce
  with find_lru_Some [OF xs j] have "j = i"
    using bcache_unique [OF assms(1), of j i] assms by simp
  then show ?thesis
    using assms(2,7) j
    by (simp add: bget_def bget_body_def kexec bscan_lru [OF xs] upd_buf_def)
qed

lemma bget_miss:
  assumes "bcache_ok s" "quiet s" "\<And>i. i < NBUF \<Longrightarrow> b_dev (bufs s ! i) = dev \<Longrightarrow> b_sector (bufs s ! i) \<noteq> n"
    and "k < NBUF" "\<not> b_busy (bufs s ! k)" "\<not> b_dirty (bufs s ! k)"
  shows "\<exists>i<NBUF. \<not> b_busy (bufs s ! i) \<and> \<not> b_dirty (bufs s ! i) \<and>
    bget dev n s = Ok i (upd_buf i (\<lambda>q. q\<lparr>b_dev := dev, b_sector := n,
                        b_busy := True, b_valid := False, b_dirty := False\<rparr>) s)"
proof -
  from assms(1) obtain xs where xs: "lru (bufs s) xs" by (auto simp: bcache_ok_def)
  let ?P = "\<lambda>b. b_dev b = dev \<and> b_sector b = n"
  let ?Q = "\<lambda>b. \<not> b_busy b \<and> \<not> b_dirty b"
  have none: "find (\<lambda>i. ?P (bufs s ! i)) xs = None"
    using assms(3) xs by (auto simp: find_None_iff lru_def)
  have "find (\<lambda>i. ?Q (bufs s ! i)) (rev xs) \<noteq> None"
    using assms(4-6) xs by (auto simp: find_None_iff lru_def)
  then obtain j where j: "find (\<lambda>i. ?Q (bufs s ! i)) (rev xs) = Some j" by auto
  have "bget dev n s = Ok j (upd_buf j (\<lambda>q. q\<lparr>b_dev := dev, b_sector := n,
                        b_busy := True, b_valid := False, b_dirty := False\<rparr>) s)"
    using assms(2) none j
    by (simp add: bget_def bget_body_def kexec bscan_lru [OF xs] upd_buf_def)
  then show ?thesis using find_lru_rev_Some [OF xs j] by blast
qed

text \<open>
  What a caller of \<^verbatim>\<open>bread\<close> gets: a buffer it did not have, marked busy, with the current
  content of the block; every other buffer and the contents of all blocks are unchanged.
\<close>

definition got_buf :: "'z bio_state_scheme \<Rightarrow> uint \<Rightarrow> nat \<Rightarrow> 'z bio_state_scheme \<Rightarrow> bool" where
  "got_buf s n b t \<longleftrightarrow> b < NBUF \<and> bcache_ok t \<and> t = s\<lparr>bufs := bufs t\<rparr> \<and>
     b \<notin> busy_set s \<and> busy_set t = insert b (busy_set s) \<and> dirty_set t = dirty_set s \<and>
     b_valid (bufs t ! b) \<and> b_dev (bufs t ! b) = 1 \<and> b_sector (bufs t ! b) = n \<and>
     b_data (bufs t ! b) = blk s n \<and> blk t = blk s \<and>
     (\<forall>j. j \<noteq> b \<longrightarrow> bufs t ! j = bufs s ! j) \<and>
     (b_dirty (bufs s ! b) \<longrightarrow> b_sector (bufs s ! b) = n) \<and>
     (\<not> b_dirty (bufs t ! b) \<longrightarrow> blk s n = memdisk s n)"

text \<open>Two states with the same valid buffers, but for their flags and links, show the same blocks.\<close>

lemma blk_cong:
  assumes "bcache_ok s" "bcache_ok t" "memdisk t = memdisk s"
    and "\<And>i. i < NBUF \<Longrightarrow> b_valid (bufs s ! i) \<Longrightarrow> b_valid (bufs t ! i) \<and>
      b_sector (bufs t ! i) = b_sector (bufs s ! i) \<and> b_data (bufs t ! i) = b_data (bufs s ! i)"
    and "\<And>i. i < NBUF \<Longrightarrow> b_valid (bufs t ! i) \<Longrightarrow> \<not> b_valid (bufs s ! i) \<Longrightarrow>
      b_data (bufs t ! i) = memdisk s (b_sector (bufs t ! i))"
  shows "blk t = blk s"
proof
  fix n
  show "blk t n = blk s n"
  proof (cases "\<exists>i<NBUF. b_valid (bufs t ! i) \<and> b_sector (bufs t ! i) = n")
    case True
    then obtain i where i: "i < NBUF" "b_valid (bufs t ! i)" "b_sector (bufs t ! i) = n" by auto
    have t: "blk t n = b_data (bufs t ! i)" using blk_cached [OF assms(2) i(1,2)] i(3) by simp
    show ?thesis
    proof (cases "b_valid (bufs s ! i)")
      case True
      then show ?thesis using t i assms(4) [OF i(1) True] blk_cached [OF assms(1) i(1) True] by simp
    next
      case False
      have "blk s n = memdisk s n"
      proof (rule blk_uncached [OF assms(1)])
        fix j assume j: "j < NBUF" "b_valid (bufs s ! j)"
        then have "j \<noteq> i" using False by auto
        moreover have "b_dev (bufs t ! j) = 1" "b_dev (bufs t ! i) = 1"
          using assms(2,4) j i by (auto simp: bcache_ok_def buf_ok_def)
        ultimately have "b_sector (bufs t ! j) \<noteq> b_sector (bufs t ! i)"
          using bcache_unique [OF assms(2) j(1) i(1)] by auto
        then show "b_sector (bufs s ! j) \<noteq> n" using assms(4) [OF j] i(3) by simp
      qed
      then show ?thesis using t assms(5) [OF i(1,2) False] i(3) by simp
    qed
  next
    case False
    then have "blk t n = memdisk t n" by (intro blk_uncached [OF assms(2)]) auto
    moreover have "blk s n = memdisk s n"
      using False assms(4) by (intro blk_uncached [OF assms(1)]) auto
    ultimately show ?thesis using assms(3) by simp
  qed
qed

lemma quiet_frame: "quiet (s\<lparr>bufs := x\<rparr>) = quiet s"
  by (simp add: quiet_def)

lemma upd_buf_upd_buf [simp]: "b < length (bufs s) \<Longrightarrow> upd_buf b f (upd_buf b g s) = upd_buf b (\<lambda>q. f (g q)) s"
  by (simp add: upd_buf_def)

lemma iderw_read:
  assumes "b < length (bufs s)" "b_busy (bufs s ! b)" "\<not> b_valid (bufs s ! b)" "\<not> b_dirty (bufs s ! b)"
    and "b_dev (bufs s ! b) = 1" "b_sector (bufs s ! b) < disksize s"
  shows "iderw b s = Ok () (upd_buf b (\<lambda>q. q\<lparr>b_data := memdisk s (b_sector (bufs s ! b)), b_valid := True\<rparr>) s)"
  using assms by (simp add: iderw_def Let_def not_le)

lemma iderw_write:
  assumes "b < length (bufs s)" "b_busy (bufs s ! b)" "b_dirty (bufs s ! b)"
    and "b_dev (bufs s ! b) = 1" "b_sector (bufs s ! b) < disksize s"
  shows "iderw b s = Ok () (upd_buf b (\<lambda>q. q\<lparr>b_dirty := False, b_valid := True\<rparr>)
    (s\<lparr>memdisk := (memdisk s)(b_sector (bufs s ! b) := b_data (bufs s ! b)),
       writes := writes s @ [(b_sector (bufs s ! b), b_data (bufs s ! b))]\<rparr>))"
  using assms by (simp add: iderw_def Let_def not_le) (simp add: upd_buf_def)

lemma valid_buf:
  assumes "bcache_ok s" "i < NBUF" "b_valid (bufs s ! i)"
  shows "b_dev (bufs s ! i) = 1" "b_sector (bufs s ! i) < disksize s" "length (b_data (bufs s ! i)) = BSIZE"
  using assms by (simp_all add: bcache_ok_def buf_ok_def)

lemma bread_hit:
  assumes "bcache_ok s" "quiet s" "i < NBUF" "b_dev (bufs s ! i) = 1" "b_sector (bufs s ! i) = n"
    and "\<not> b_busy (bufs s ! i)" "n < disksize s"
  shows "\<exists>t. bread 1 n s = Ok i t \<and> got_buf s n i t"
proof -
  let ?s = "upd_buf i (\<lambda>q. q\<lparr>b_busy := True\<rparr>) s"
  have g: "bget 1 n s = Ok i ?s" using assms by (intro bget_hit) auto
  have ok: "bcache_ok ?s"
    using assms bcache_unique [OF assms(1,3)]
    by (intro bcache_ok_upd) (auto simp: bcache_ok_def buf_ok_def same_block_def)
  have bi: "buf_ok s (bufs s ! i)" using assms by (simp add: bcache_ok_def)
  note nth = upd_buf_bufs [OF assms(1,3)]
  show ?thesis
  proof (cases "b_valid (bufs s ! i)")
    case True
    have "blk ?s = blk s" using assms ok by (intro blk_cong) (auto simp: nth)
    moreover have "blk s n = b_data (bufs s ! i)" using blk_cached [OF assms(1,3) True] assms(5) by simp
    ultimately have "got_buf s n i ?s"
      using assms ok True bi
      by (auto simp: got_buf_def nth busy_set_def dirty_set_def buf_ok_def) (simp_all add: upd_buf_def)
    then show ?thesis using g True by (simp add: bread_def nth)
  next
    case False
    let ?f = "\<lambda>q. q\<lparr>b_busy := True, b_data := memdisk s n, b_valid := True\<rparr>"
    let ?t = "upd_buf i ?f s"
    have nd: "\<not> b_dirty (bufs s ! i)" using bi False by (simp add: buf_ok_def)
    have len: "i < length (bufs s)" using assms bcache_len [OF assms(1)] by simp
    then have rw: "iderw i ?s = Ok () ?t"
      using assms False nd iderw_read [of i ?s] by (simp add: nth) (simp add: upd_buf_def)
    have okt: "bcache_ok ?t"
      using assms nd bcache_unique [OF assms(1,3)]
      by (intro bcache_ok_upd) (auto simp: bcache_ok_def buf_ok_def same_block_def)
    have "blk ?t = blk s" using assms okt False by (intro blk_cong) (auto simp: upd_buf_bufs)
    moreover have "blk s n = memdisk s n"
      using False valid_buf(1) [OF assms(1)] bcache_unique [OF assms(1) assms(3)] assms(4,5)
      by (intro blk_uncached [OF assms(1)]) force
    ultimately have "got_buf s n i ?t"
      using assms okt nd
      by (auto simp: got_buf_def upd_buf_bufs busy_set_def dirty_set_def) (simp add: upd_buf_def)
    then show ?thesis using g rw False by (simp add: bread_def nth)
  qed
qed

text \<open>A clean buffer that is given to another block, which was not cached, leaves every content as it was.\<close>

lemma blk_reload:
  assumes "bcache_ok s" "i < NBUF" "\<not> b_busy (bufs s ! i) \<and> \<not> b_dirty (bufs s ! i)" "blk s n = memdisk s n"
  defines "t \<equiv> upd_buf i (\<lambda>q. q\<lparr>b_dev := 1, b_sector := n, b_busy := True, b_dirty := False, b_data := memdisk s n, b_valid := True\<rparr>) s"
  assumes okt: "bcache_ok t"
  shows "blk t m = blk s m"
proof -
  have tb: "bufs t ! j = (if j = i then (bufs s ! i)\<lparr>b_dev := 1, b_sector := n, b_busy := True, b_dirty := False, b_data := memdisk s n, b_valid := True\<rparr>
    else bufs s ! j)" for j using assms(1,2) by (simp add: t_def upd_buf_bufs)
  consider "m = n" | j where "m \<noteq> n" "j < NBUF" "j \<noteq> i" "b_valid (bufs s ! j)" "b_sector (bufs s ! j) = m"
    | "m \<noteq> n" "\<nexists>j. j < NBUF \<and> j \<noteq> i \<and> b_valid (bufs s ! j) \<and> b_sector (bufs s ! j) = m" by blast
  then show ?thesis
  proof cases
    case 1
    then show ?thesis using blk_cached [OF okt, of i] assms(2,4) by (simp add: tb)
  next
    case 2
    then show ?thesis using blk_cached [OF assms(1) 2(2,4)] blk_cached [OF okt 2(2)] by (simp add: tb)
  next
    case 3
    have "blk t m = memdisk t m" using 3 by (intro blk_uncached [OF okt]) (auto simp: tb split: if_splits)
    then have t: "blk t m = memdisk s m" by (simp add: t_def)
    show ?thesis
    proof (cases "b_valid (bufs s ! i) \<and> b_sector (bufs s ! i) = m")
      case True
      then have "blk s m = b_data (bufs s ! i)" using blk_cached [OF assms(1,2)] by auto
      then show ?thesis using t True assms(1-3) by (simp add: bcache_ok_def buf_ok_def)
    next
      case False
      have "blk s m = memdisk s m" using 3 False by (intro blk_uncached [OF assms(1)]) auto
      then show ?thesis using t by simp
    qed
  qed
qed

lemma bread_miss:
  assumes "bcache_ok s" "quiet s" "\<And>i. i < NBUF \<Longrightarrow> b_dev (bufs s ! i) = 1 \<Longrightarrow> b_sector (bufs s ! i) \<noteq> n"
    and "k < NBUF" "\<not> b_busy (bufs s ! k)" "\<not> b_dirty (bufs s ! k)" "n < disksize s"
  shows "\<exists>i t. bread 1 n s = Ok i t \<and> got_buf s n i t"
proof -
  obtain i where i: "i < NBUF" "\<not> b_busy (bufs s ! i)" "\<not> b_dirty (bufs s ! i)"
    "bget 1 n s = Ok i (upd_buf i (\<lambda>q. q\<lparr>b_dev := 1, b_sector := n,
                        b_busy := True, b_valid := False, b_dirty := False\<rparr>) s)"
    using bget_miss [OF assms(1-6)] by blast
  let ?f = "\<lambda>q. q\<lparr>b_dev := 1, b_sector := n, b_busy := True, b_dirty := False,
      b_data := memdisk s n, b_valid := True\<rparr>"
  let ?t = "upd_buf i ?f s"
  have "i < length (bufs s)" using i(1) bcache_len [OF assms(1)] by simp
  then have r: "bread 1 n s = Ok i ?t"
    using assms(7) iderw_read [of i "upd_buf i (\<lambda>q. q\<lparr>b_dev := 1, b_sector := n,
                        b_busy := True, b_valid := False, b_dirty := False\<rparr>) s"]
    by (simp add: bread_def i(4) upd_buf_bufs [OF assms(1) i(1)]) (simp add: upd_buf_def)
  have okt: "bcache_ok ?t"
    using assms i by (intro bcache_ok_upd) (auto simp: bcache_ok_def buf_ok_def same_block_def)
  have un: "blk s n = memdisk s n"
    using assms by (intro blk_uncached) (auto simp: bcache_ok_def buf_ok_def)
  have "blk ?t = blk s" using blk_reload [OF assms(1) i(1) conjI [OF i(2,3)] un okt] by blast
  then have "got_buf s n i ?t"
    using assms(1) i okt un
    by (auto simp: got_buf_def upd_buf_bufs busy_set_def dirty_set_def) (simp add: upd_buf_def)
  then show ?thesis using r by blast
qed

text \<open>
  \<^verbatim>\<open>bread\<close> returns when the caller does not hold the block already and some buffer is neither in
  use nor pinned by the log.
\<close>

lemma bread_ok:
  assumes "bcache_ok s" "quiet s" "n < disksize s" "\<forall>i \<in> busy_set s. b_sector (bufs s ! i) \<noteq> n"
    and "card (busy_set s \<union> dirty_set s) < NBUF"
  shows "\<exists>i t. bread 1 n s = Ok i t \<and> got_buf s n i t"
proof (cases "\<exists>i<NBUF. b_dev (bufs s ! i) = 1 \<and> b_sector (bufs s ! i) = n")
  case True
  then obtain i where "i < NBUF" "b_dev (bufs s ! i) = 1" "b_sector (bufs s ! i) = n" by auto
  then show ?thesis using bread_hit [of s i n] assms by (auto simp: busy_set_def)
next
  case False
  have "\<not> {..<NBUF} \<subseteq> busy_set s \<union> dirty_set s"
  proof
    assume "{..<NBUF} \<subseteq> busy_set s \<union> dirty_set s"
    then have "NBUF \<le> card (busy_set s \<union> dirty_set s)"
      using card_mono [of "busy_set s \<union> dirty_set s" "{..<NBUF}"] by (simp add: busy_set_def dirty_set_def)
    then show False using assms(5) by simp
  qed
  then obtain k where "k < NBUF" "\<not> b_busy (bufs s ! k)" "\<not> b_dirty (bufs s ! k)"
    by (auto simp: busy_set_def dirty_set_def)
  then show ?thesis using bread_miss [of s n k] assms False by auto
qed

text \<open>A block that is pinned can be had whatever the number of the others.\<close>

lemma bread_pinned:
  assumes "bcache_ok s" "quiet s" "n < disksize s" "\<forall>i \<in> busy_set s. b_sector (bufs s ! i) \<noteq> n"
    and "j \<in> dirty_set s" "b_sector (bufs s ! j) = n"
  shows "\<exists>i t. bread 1 n s = Ok i t \<and> got_buf s n i t"
proof -
  have "j < NBUF" "b_valid (bufs s ! j)" using assms(1,5) by (auto simp: dirty_set_def bcache_ok_def buf_ok_def)
  then show ?thesis
    using bread_hit [of s j n] valid_buf(1) [OF assms(1)] assms by (auto simp: busy_set_def)
qed

text \<open>The panic of \<^verbatim>\<open>bget\<close>: every buffer is in use or pinned and the block is not cached.\<close>

lemma bread_no_buffers:
  assumes "bcache_ok s" "quiet s" "\<And>i. i < NBUF \<Longrightarrow> b_dev (bufs s ! i) = dev \<Longrightarrow> b_sector (bufs s ! i) \<noteq> n"
    and "busy_set s \<union> dirty_set s = {..<NBUF}"
  shows "bread dev n s = Panic ''bget: no buffers''"
proof -
  from assms(1) obtain xs where xs: "lru (bufs s) xs" by (auto simp: bcache_ok_def)
  have "find (\<lambda>i. b_dev (bufs s ! i) = dev \<and> b_sector (bufs s ! i) = n) xs = None"
    using assms(3) xs by (auto simp: find_None_iff lru_def)
  moreover have "find (\<lambda>i. \<not> b_busy (bufs s ! i) \<and> \<not> b_dirty (bufs s ! i)) (rev xs) = None"
    using assms(4) xs by (auto simp: find_None_iff lru_def busy_set_def dirty_set_def)
  ultimately show ?thesis
    using assms(2) by (simp add: bread_def bget_def bget_body_def kexec bscan_lru [OF xs])
qed

section \<open>Using and releasing a buffer\<close>

text \<open>A buffer without its links.\<close>

definition b_core :: "buf \<Rightarrow> buf" where
  "b_core q = q\<lparr>b_prev := 0, b_next := 0\<rparr>"

lemma b_core_fields:
  assumes "b_core q = b_core r"
  shows "b_busy q = b_busy r" "b_valid q = b_valid r" "b_dirty q = b_dirty r" "b_dev q = b_dev r"
    "b_sector q = b_sector r" "b_data q = b_data r"
  using assms by (cases q; cases r; simp add: b_core_def)+

lemma b_core_set:
  "b_core (bs[i := (bs ! i)\<lparr>b_next := v\<rparr>] ! j) = b_core (bs ! j)"
  "b_core (bs[i := (bs ! i)\<lparr>b_prev := v\<rparr>] ! j) = b_core (bs ! j)"
  by (cases "i = j"; cases "i < length bs"; simp add: b_core_def list_update_beyond)+

lemma b_core_brelse_links: "b_core (brelse_links b bs ! j) = b_core (bs ! j)"
  unfolding brelse_links_def Let_def by (simp only: b_core_set)

text \<open>
  \<open>only_woken ps qs\<close>: the tables differ at most in processes that were asleep and are now runnable.
  \<open>bio_rel s t\<close>: \<open>t\<close> comes from \<open>s\<close> by operations on the cache and the disk.
\<close>

definition only_woken :: "proc list \<Rightarrow> proc list \<Rightarrow> bool" where
  "only_woken ps qs \<longleftrightarrow> length qs = length ps \<and>
     (\<forall>i<length ps. qs ! i = ps ! i \<or> p_state (ps ! i) = SLEEPING \<and> qs ! i = (ps ! i)\<lparr>p_state := RUNNABLE\<rparr>)"

lemma only_woken_refl [simp]: "only_woken ps ps"
  by (simp add: only_woken_def)

lemma only_woken_trans: "only_woken ps qs \<Longrightarrow> only_woken qs rs \<Longrightarrow> only_woken ps rs"
  unfolding only_woken_def by (metis procstate.distinct(19) proc.select_convs(4) proc.surjective proc.update_convs(4))

lemma only_woken_wakeup1 [simp]: "only_woken (ptable s) (ptable (wakeup1 ch s))"
  by (simp add: only_woken_def wakeup1_def)

definition bio_rel :: "'z bio_state_scheme \<Rightarrow> 'z bio_state_scheme \<Rightarrow> bool" where
  "bio_rel s t \<longleftrightarrow> t = s\<lparr>ptable := ptable t, memdisk := memdisk t, bufs := bufs t, writes := writes t\<rparr> \<and>
     only_woken (ptable s) (ptable t)"

lemma bio_rel_refl [simp]: "bio_rel s s"
  by (simp add: bio_rel_def)

lemma bio_rel_trans [trans]: "bio_rel s t \<Longrightarrow> bio_rel t u \<Longrightarrow> bio_rel s u"
  by (cases s; cases t; cases u) (auto simp: bio_rel_def intro: only_woken_trans)

lemma bio_rel_quiet: "bio_rel s t \<Longrightarrow> quiet t = quiet s"
  by (cases s; cases t) (auto simp: bio_rel_def quiet_def)

lemma bio_rel_disksize: "bio_rel s t \<Longrightarrow> disksize t = disksize s"
  by (cases s; cases t) (auto simp: bio_rel_def)

lemma bio_rel_bufs: "t = s\<lparr>bufs := bufs t\<rparr> \<Longrightarrow> bio_rel s t"
  by (cases s; cases t) (auto simp: bio_rel_def)

lemma bufs_only:
  "t = s\<lparr>bufs := bufs t\<rparr> \<Longrightarrow> memdisk t = memdisk s \<and> writes t = writes s \<and> disksize t = disksize s"
  by (cases s; cases t) auto

lemma got_buf_frame:
  "got_buf s n b t \<Longrightarrow> memdisk t = memdisk s \<and> writes t = writes s \<and> disksize t = disksize s"
  unfolding got_buf_def using bufs_only by blast

lemma got_buf_rel: "got_buf s n b t \<Longrightarrow> bio_rel s t"
  by (auto simp: got_buf_def intro: bio_rel_bufs)

lemma wakeup1_bio [simp]:
  "bufs (wakeup1 ch u) = bufs u" "memdisk (wakeup1 ch u) = memdisk u" "writes (wakeup1 ch u) = writes u"
  "disksize (wakeup1 ch u) = disksize u"
  by (simp_all add: wakeup1_def)

lemma brelse_ok:
  assumes "bcache_ok s" "quiet s" "b \<in> busy_set s"
    and "\<not> b_dirty (bufs s ! b) \<Longrightarrow> b_data (bufs s ! b) = memdisk s (b_sector (bufs s ! b))"
  shows "\<exists>t. brelse b s = Ok () t \<and> bcache_ok t \<and> bio_rel s t \<and> blk t = blk s \<and>
    memdisk t = memdisk s \<and> writes t = writes s \<and>
    busy_set t = busy_set s - {b} \<and> dirty_set t = dirty_set s \<and>
    (\<forall>j. b_core (bufs t ! j) = b_core (if j = b then (bufs s ! b)\<lparr>b_busy := False\<rparr> else bufs s ! j))"
proof -
  have b: "b < NBUF" "b_busy (bufs s ! b)" using assms(3) by (auto simp: busy_set_def)
  let ?f = "\<lambda>q. q\<lparr>b_busy := False\<rparr>"
  let ?l = "brelse_links b (bufs s)"
  define t where "t = wakeup1 (ChanBuf b) (s\<lparr>bufs := ?l[b := ?f (?l ! b)]\<rparr>)"
  have t: "bufs t = ?l[b := ?f (?l ! b)]" "memdisk t = memdisk s" "disksize t = disksize s" "writes t = writes s"
    by (simp_all add: t_def)
  obtain xs where xs: "lru (bufs s) xs" using assms(1) by (auto simp: bcache_ok_def)
  have lru: "lru (bufs t) (b # remove1 b xs)"
    using lru_upd [OF lru_move_front [OF xs b(1)], of ?f b] by (simp add: t)
  have len: "b < length ?l" using b bcache_len [OF assms(1)] by simp
  have core: "b_core (bufs t ! j) = b_core (if j = b then ?f (bufs s ! b) else bufs s ! j)" for j
  proof (cases "j = b")
    case True
    have "b_core (?f q) = ?f (b_core q)" for q by (simp add: b_core_def)
    then show ?thesis using True len b_core_brelse_links [of b "bufs s" b] by (simp add: t)
  qed (simp add: b_core_brelse_links t)
  note cf = b_core_fields [OF core]
  have e: "brelse b s = Ok () t"
    using assms(2) b(2)
    by (simp add: brelse_def kexec Let_def upd_buf_def t_def)
      (cases s, simp add: quiet_def wakeup1_def)
  have "buf_ok t (bufs t ! j)" if "j < NBUF" for j
    using assms(1,4) that by (auto simp: cf t(2-) bcache_ok_def buf_ok_def)
  moreover have "same_block (bufs t ! i) (bufs t ! j) = same_block (bufs s ! i) (bufs s ! j)" for i j
    by (simp add: same_block_def cf)
  ultimately have ok: "bcache_ok t"
    using assms(1) lru by (simp add: bcache_ok_def t(2)) blast
  have "bio_rel s t"
    by (cases s) (simp add: t_def bio_rel_def wakeup1_def only_woken_def)
  moreover have "blk t = blk s"
    by (intro blk_cong [OF assms(1) ok]) (auto simp: t(2-) cf split: if_splits)
  moreover have "busy_set t = busy_set s - {b}" "dirty_set t = dirty_set s"
    by (auto simp: busy_set_def dirty_set_def cf split: if_splits)
  ultimately show ?thesis using e ok core t by auto
qed

text \<open>An assignment to the data of a buffer in use is an assignment to the block.\<close>

abbreviation set_data :: "nat \<Rightarrow> uchar list \<Rightarrow> 'z bio_state_scheme \<Rightarrow> 'z bio_state_scheme" where
  "set_data b d \<equiv> upd_buf b (\<lambda>q. q\<lparr>b_data := d\<rparr>)"

lemma upd_sets:
  assumes "bcache_ok s" "b < NBUF" "\<And>q. b_busy (f q) = b_busy q" "\<And>q. b_dirty (f q) = b_dirty q"
  shows "busy_set (upd_buf b f s) = busy_set s" "dirty_set (upd_buf b f s) = dirty_set s"
  using assms by (auto simp: busy_set_def dirty_set_def upd_buf_bufs)

lemma set_data_ok:
  assumes "bcache_ok s" "b \<in> busy_set s" "b_valid (bufs s ! b)" "length d = BSIZE"
  shows "bcache_ok (set_data b d s)"
    and "blk (set_data b d s) = (blk s)(b_sector (bufs s ! b) := d)"
    and "busy_set (set_data b d s) = busy_set s" "dirty_set (set_data b d s) = dirty_set s"
proof -
  have b: "b < NBUF" "b_busy (bufs s ! b)" using assms(2) by (auto simp: busy_set_def)
  note nth = upd_buf_bufs [OF assms(1) b(1)]
  show ok: "bcache_ok (set_data b d s)"
    using assms b bcache_unique [OF assms(1) b(1)]
    by (intro bcache_ok_upd) (auto simp: bcache_ok_def buf_ok_def same_block_def)
  show "busy_set (set_data b d s) = busy_set s" "dirty_set (set_data b d s) = dirty_set s"
    using upd_sets [OF assms(1) b(1)] by simp_all
  show "blk (set_data b d s) = (blk s)(b_sector (bufs s ! b) := d)"
  proof
    fix n
    show "blk (set_data b d s) n = ((blk s)(b_sector (bufs s ! b) := d)) n"
    proof (cases "\<exists>j<NBUF. b_valid (bufs s ! j) \<and> b_sector (bufs s ! j) = n")
      case True
      then obtain j where j: "j < NBUF" "b_valid (bufs s ! j)" "b_sector (bufs s ! j) = n" by auto
      have "j = b" if "n = b_sector (bufs s ! b)"
        using bcache_unique [OF assms(1) j(1) b(1)] valid_buf(1) [OF assms(1)] j b assms(3) that by auto
      then show ?thesis
        using blk_cached [OF ok j(1)] blk_cached [OF assms(1) j(1,2)] j assms(3)
        by (cases "j = b") (auto simp: nth)
    next
      case False
      then have "blk (set_data b d s) n = memdisk (set_data b d s) n"
        by (intro blk_uncached [OF ok]) (auto simp: nth split: if_splits)
      moreover have "blk s n = memdisk s n" using False by (intro blk_uncached [OF assms(1)]) auto
      ultimately show ?thesis using False b assms(3) by auto
    qed
  qed
qed

lemma bwrite_ok:
  assumes "bcache_ok s" "b \<in> busy_set s" "b_valid (bufs s ! b)"
  shows "\<exists>t. bwrite b s = Ok () t \<and> bcache_ok t \<and> bio_rel s t \<and> blk t = blk s \<and>
    memdisk t = (memdisk s)(b_sector (bufs s ! b) := b_data (bufs s ! b)) \<and>
    writes t = writes s @ [(b_sector (bufs s ! b), b_data (bufs s ! b))] \<and>
    busy_set t = busy_set s \<and> dirty_set t = dirty_set s - {b} \<and>
    (\<forall>j. bufs t ! j = (if j = b then (bufs s ! b)\<lparr>b_dirty := False\<rparr> else bufs s ! j))"
proof -
  have b: "b < NBUF" "b_busy (bufs s ! b)" using assms(2) by (auto simp: busy_set_def)
  have len: "b < length (bufs s)" using b bcache_len [OF assms(1)] by simp
  note v = valid_buf [OF assms(1) b(1) assms(3)]
  let ?n = "b_sector (bufs s ! b)" and ?d = "b_data (bufs s ! b)"
  let ?s = "upd_buf b (\<lambda>q. q\<lparr>b_dirty := True\<rparr>) s"
  define t where "t = s\<lparr>memdisk := (memdisk s)(?n := ?d), writes := writes s @ [(?n, ?d)],
      bufs := (bufs s)[b := (bufs s ! b)\<lparr>b_dirty := False\<rparr>]\<rparr>"
  have t: "memdisk t = (memdisk s)(?n := ?d)" "disksize t = disksize s" "writes t = writes s @ [(?n, ?d)]"
    by (simp_all add: t_def)
  have v1: "(bufs s ! b)\<lparr>b_dirty := False, b_valid := True\<rparr> = (bufs s ! b)\<lparr>b_dirty := False\<rparr>"
    using assms(3) by (cases "bufs s ! b") simp
  have e: "bwrite b s = Ok () t"
    using b v assms(3) len iderw_write [of b ?s]
    by (simp add: bwrite_def upd_buf_bufs [OF assms(1) b(1)]) (simp add: upd_buf_def t_def v1)
  have nth: "bufs t ! j = (if j = b then (bufs s ! b)\<lparr>b_dirty := False\<rparr> else bufs s ! j)" for j
    using len by (simp add: t_def)
  have other: "b_sector (bufs s ! j) \<noteq> ?n" if "j < NBUF" "j \<noteq> b" "b_valid (bufs s ! j)" for j
    using bcache_unique [OF assms(1) that(1) b(1)] valid_buf(1) [OF assms(1) that(1,3)] v(1) that(2) by auto
  obtain xs where xs: "lru (bufs s) xs" using assms(1) by (auto simp: bcache_ok_def)
  have lru: "lru (bufs t) xs" using lru_upd [OF xs, of "\<lambda>q. q\<lparr>b_dirty := False\<rparr>" b] by (simp add: t_def)
  have "buf_ok t (bufs t ! j)" if "j < NBUF" for j
    using assms(1) that other [of j] b v by (auto simp: bcache_ok_def buf_ok_def nth t)
  moreover have "same_block (bufs t ! i) (bufs t ! j) = same_block (bufs s ! i) (bufs s ! j)" for i j
    by (simp add: nth same_block_def)
  ultimately have ok: "bcache_ok t"
    using assms(1) v(3) lru by (simp add: bcache_ok_def t(1)) blast
  have "blk t m = blk s m" for m
  proof (cases "\<exists>j<NBUF. b_valid (bufs s ! j) \<and> b_sector (bufs s ! j) = m")
    case True
    then obtain j where j: "j < NBUF" "b_valid (bufs s ! j)" "b_sector (bufs s ! j) = m" by auto
    then show ?thesis
      using blk_cached [OF ok j(1)] blk_cached [OF assms(1) j(1,2)] nth [of j] by (cases "j = b") auto
  next
    case False
    then have "blk t m = memdisk t m"
      by (intro blk_uncached [OF ok]) (auto simp: nth split: if_splits)
    moreover have "blk s m = memdisk s m" using False by (intro blk_uncached [OF assms(1)]) auto
    ultimately show ?thesis using False b assms(3) by (auto simp: t)
  qed
  then have "blk t = blk s" by blast
  moreover have "busy_set t = busy_set s" "dirty_set t = dirty_set s - {b}"
    using b by (auto simp: busy_set_def dirty_set_def nth split: if_splits)
  moreover have "bio_rel s t" by (cases s) (simp add: bio_rel_def t_def)
  ultimately show ?thesis using e ok nth t by auto
qed

section \<open>The interface of the cache\<close>

text \<open>
  The cache as the log and the file system see it: the current content of every block, the
  disk, the history of its writes, the blocks pinned by the log, and the buffers in the
  caller's hands with the block of each.
\<close>

definition cache_inv :: "'z bio_state_scheme \<Rightarrow> bool" where
  "cache_inv s \<longleftrightarrow> bcache_ok s \<and> quiet s \<and> (\<forall>b \<in> busy_set s. b_valid (bufs s ! b))"

definition pinned :: "'z bio_state_scheme \<Rightarrow> uint set" where
  "pinned s = (\<lambda>i. b_sector (bufs s ! i)) ` dirty_set s"

definition held :: "'z bio_state_scheme \<Rightarrow> nat \<Rightarrow> uint option" where
  "held s b = (if b \<in> busy_set s then Some (b_sector (bufs s ! b)) else None)"

definition buf_data :: "nat \<Rightarrow> 'z bio_state_scheme \<Rightarrow> uchar list" where
  "buf_data b s = b_data (bufs s ! b)"

definition set_dirty :: "nat \<Rightarrow> 'z bio_state_scheme \<Rightarrow> 'z bio_state_scheme" where
  "set_dirty b s = upd_buf b (\<lambda>q. q\<lparr>b_dirty := True\<rparr>) s"

lemma ran_held: "ran (held s) = (\<lambda>i. b_sector (bufs s ! i)) ` busy_set s"
  by (auto simp: ran_def held_def split: if_splits)

lemma dom_held: "dom (held s) = busy_set s"
  by (auto simp: held_def split: if_splits)

lemma finite_busy_dirty [simp]: "finite (busy_set s)" "finite (dirty_set s)"
  by (simp_all add: busy_set_def dirty_set_def)

lemma dirty_valid: "bcache_ok s \<Longrightarrow> i \<in> dirty_set s \<Longrightarrow> i < NBUF \<and> b_valid (bufs s ! i)"
  by (auto simp: dirty_set_def bcache_ok_def buf_ok_def)

lemma card_blocks:
  assumes "cache_inv s"
  shows "card (busy_set s \<union> dirty_set s) = card (ran (held s) \<union> pinned s)"
proof -
  have v: "i < NBUF \<and> b_valid (bufs s ! i)" if "i \<in> busy_set s \<union> dirty_set s" for i
    using assms that by (auto simp: cache_inv_def busy_set_def dest: dirty_valid)
  have "inj_on (\<lambda>i. b_sector (bufs s ! i)) (busy_set s \<union> dirty_set s)"
  proof (rule inj_onI)
    fix i j assume *: "i \<in> busy_set s \<union> dirty_set s" "j \<in> busy_set s \<union> dirty_set s"
      "b_sector (bufs s ! i) = b_sector (bufs s ! j)"
    have ok: "bcache_ok s" using assms by (simp add: cache_inv_def)
    show "i = j"
      using v [OF *(1)] v [OF *(2)] *(3) bcache_unique [OF ok, of i j]
        valid_buf(1) [OF ok, of i] valid_buf(1) [OF ok, of j] by auto
  qed
  then have "card ((\<lambda>i. b_sector (bufs s ! i)) ` (busy_set s \<union> dirty_set s)) = card (busy_set s \<union> dirty_set s)"
    by (rule card_image)
  then show ?thesis by (simp add: ran_held pinned_def image_Un)
qed

lemma got_buf_abs:
  assumes "cache_inv s" "got_buf s n b t"
  shows "cache_inv t" "held s b = None" "held t = (held s)(b \<mapsto> n)" "pinned t = pinned s"
proof -
  note g = assms(2) [unfolded got_buf_def]
  have "quiet t" using assms bio_rel_quiet [OF got_buf_rel [OF assms(2)]] by (simp add: cache_inv_def)
  then show "cache_inv t" using assms(1) g by (auto simp: cache_inv_def)
  show "held s b = None" using g by (simp add: held_def)
  show "held t = (held s)(b \<mapsto> n)" using g by (auto simp: held_def)
  have "b_sector (bufs t ! i) = b_sector (bufs s ! i)" if "i \<in> dirty_set s" for i
  proof (cases "i = b")
    case True
    then show ?thesis using that g by (auto simp: dirty_set_def)
  qed (use g in simp)
  then show "pinned t = pinned s" using g by (simp add: pinned_def)
qed

lemma bread_abs:
  assumes "cache_inv s" "n < disksize s" "n \<notin> ran (held s)"
    and "card (ran (held s) \<union> pinned s) < NBUF \<or> n \<in> pinned s"
  shows "\<exists>b t. bread 1 n s = Ok b t \<and> cache_inv t \<and> held s b = None \<and> held t = (held s)(b \<mapsto> n) \<and>
    pinned t = pinned s \<and> blk t = blk s \<and> memdisk t = memdisk s \<and> writes t = writes s \<and> bio_rel s t"
proof -
  have s: "bcache_ok s" "quiet s" using assms(1) by (auto simp: cache_inv_def)
  have nb: "\<forall>i \<in> busy_set s. b_sector (bufs s ! i) \<noteq> n" using assms(3) by (auto simp: ran_held)
  have "\<exists>b t. bread 1 n s = Ok b t \<and> got_buf s n b t"
  proof (cases "n \<in> pinned s")
    case True
    then obtain j where "j \<in> dirty_set s" "b_sector (bufs s ! j) = n" by (auto simp: pinned_def)
    then show ?thesis using bread_pinned [OF s assms(2) nb] by blast
  next
    case False
    then show ?thesis using bread_ok [OF s assms(2) nb] assms(4) card_blocks [OF assms(1)] by simp
  qed
  then obtain b t where bt: "bread 1 n s = Ok b t" "got_buf s n b t" by blast
  have "blk t = blk s" using bt(2) by (simp add: got_buf_def)
  then show ?thesis
    using bt got_buf_abs [OF assms(1) bt(2)] got_buf_frame [OF bt(2)] got_buf_rel [OF bt(2)] by auto
qed

lemma held_busy: "held s b = Some n \<Longrightarrow> b \<in> busy_set s \<and> b_sector (bufs s ! b) = n"
  by (auto simp: held_def split: if_splits)

lemma held_data:
  assumes "cache_inv s" "held s b = Some n"
  shows "buf_data b s = blk s n" "length (buf_data b s) = BSIZE" "n < disksize s"
proof -
  have b: "b < NBUF" "b_valid (bufs s ! b)" "b_sector (bufs s ! b) = n" "bcache_ok s"
    using assms held_busy [OF assms(2)] by (auto simp: cache_inv_def busy_set_def)
  show "buf_data b s = blk s n" using blk_cached [OF b(4,1,2)] b(3) by (simp add: buf_data_def)
  show "length (buf_data b s) = BSIZE" "n < disksize s"
    using valid_buf [OF b(4,1,2)] b(3) by (simp_all add: buf_data_def)
qed

lemma held_pinned:
  assumes "cache_inv s" "held s b = Some n"
  shows "b_dirty (bufs s ! b) \<longleftrightarrow> n \<in> pinned s"
proof
  have b: "b < NBUF" "b_valid (bufs s ! b)" "b_sector (bufs s ! b) = n" "bcache_ok s"
    using assms held_busy [OF assms(2)] by (auto simp: cache_inv_def busy_set_def)
  show "b_dirty (bufs s ! b) \<Longrightarrow> n \<in> pinned s" using b by (auto simp: pinned_def dirty_set_def)
  assume "n \<in> pinned s"
  then obtain j where j: "j \<in> dirty_set s" "b_sector (bufs s ! j) = n" by (auto simp: pinned_def)
  have "j = b"
    using bcache_unique [OF b(4), of j b] dirty_valid [OF b(4) j(1)] valid_buf(1) [OF b(4)] b j by auto
  then show "b_dirty (bufs s ! b)" using j by (simp add: dirty_set_def)
qed

lemma held_inj:
  assumes "cache_inv s" "held s b = Some n" "held s c = Some n"
  shows "b = c"
proof -
  have b: "b < NBUF" "b_valid (bufs s ! b)" "b_sector (bufs s ! b) = n" "bcache_ok s"
    and c: "c < NBUF" "b_valid (bufs s ! c)" "b_sector (bufs s ! c) = n"
    using assms held_busy [OF assms(2)] held_busy [OF assms(3)] by (auto simp: cache_inv_def busy_set_def)
  show ?thesis
    using bcache_unique [OF b(4,1) c(1)] valid_buf(1) [OF b(4)] b c by auto
qed

lemma brelse_abs:
  assumes "cache_inv s" "held s b = Some n" "n \<in> pinned s \<or> blk s n = memdisk s n"
  shows "\<exists>t. brelse b s = Ok () t \<and> cache_inv t \<and> held t = (held s)(b := None) \<and>
    pinned t = pinned s \<and> blk t = blk s \<and> memdisk t = memdisk s \<and> writes t = writes s \<and> bio_rel s t"
proof -
  have s: "bcache_ok s" "quiet s" using assms(1) by (auto simp: cache_inv_def)
  note b = held_busy [OF assms(2)]
  have "b_data (bufs s ! b) = memdisk s (b_sector (bufs s ! b))" if "\<not> b_dirty (bufs s ! b)"
    using that held_pinned [OF assms(1,2)] held_data(1) [OF assms(1,2)] assms(3) b by (simp add: buf_data_def)
  from brelse_ok [OF s _ this] b obtain t where t: "brelse b s = Ok () t" "bcache_ok t" "bio_rel s t"
    "blk t = blk s" "memdisk t = memdisk s" "writes t = writes s"
    "busy_set t = busy_set s - {b}" "dirty_set t = dirty_set s"
    "\<And>j. b_core (bufs t ! j) = b_core (if j = b then (bufs s ! b)\<lparr>b_busy := False\<rparr> else bufs s ! j)"
    by auto
  note cf = b_core_fields [OF t(9)]
  have "b_sector (bufs t ! j) = b_sector (bufs s ! j)" "b_valid (bufs t ! j) = b_valid (bufs s ! j)" for j
    by (simp_all add: cf)
  then have "cache_inv t" "held t = (held s)(b := None)" "pinned t = pinned s"
    using t s assms(1) bio_rel_quiet [OF t(3)] by (auto simp: cache_inv_def held_def pinned_def)
  then show ?thesis using t by blast
qed

lemma upd_buf_rel: "bio_rel s (upd_buf b f s)"
  by (cases s) (simp add: bio_rel_def upd_buf_def)

lemma quiet_upd_buf [simp]: "quiet (upd_buf b f s) = quiet s"
  by (simp add: quiet_def upd_buf_def)

lemma set_data_abs:
  assumes "cache_inv s" "held s b = Some n" "length d = BSIZE"
  shows "cache_inv (set_data b d s)" "held (set_data b d s) = held s" "pinned (set_data b d s) = pinned s"
    "blk (set_data b d s) = (blk s)(n := d)"
proof -
  have s: "bcache_ok s" "quiet s" using assms(1) by (auto simp: cache_inv_def)
  note b = held_busy [OF assms(2)]
  have v: "b < NBUF" "b_valid (bufs s ! b)" using assms(1) b by (auto simp: cache_inv_def busy_set_def)
  note o = set_data_ok [OF s(1) _ v(2) assms(3)]
  have nth: "b_sector (bufs (set_data b d s) ! j) = b_sector (bufs s ! j)"
    "b_valid (bufs (set_data b d s) ! j) = b_valid (bufs s ! j)" for j
    using upd_buf_bufs [OF s(1) v(1)] by simp_all
  show "cache_inv (set_data b d s)"
    using assms(1) o b by (simp add: cache_inv_def nth)
  show "held (set_data b d s) = held s" "pinned (set_data b d s) = pinned s"
    "blk (set_data b d s) = (blk s)(n := d)"
    using o b by (auto simp: held_def pinned_def nth)
qed

lemma bwrite_abs:
  assumes "cache_inv s" "held s b = Some n"
  shows "\<exists>t. bwrite b s = Ok () t \<and> cache_inv t \<and> held t = held s \<and> pinned t = pinned s - {n} \<and>
    blk t = blk s \<and> memdisk t = (memdisk s)(n := blk s n) \<and> writes t = writes s @ [(n, blk s n)] \<and> bio_rel s t"
proof -
  have s: "bcache_ok s" "quiet s" using assms(1) by (auto simp: cache_inv_def)
  note b = held_busy [OF assms(2)]
  have v: "b < NBUF" "b_valid (bufs s ! b)" using assms(1) b by (auto simp: cache_inv_def busy_set_def)
  have d: "b_data (bufs s ! b) = blk s n" using held_data(1) [OF assms] by (simp add: buf_data_def)
  obtain t where t: "bwrite b s = Ok () t" "bcache_ok t" "bio_rel s t" "blk t = blk s"
    "memdisk t = (memdisk s)(n := blk s n)" "writes t = writes s @ [(n, blk s n)]"
    "busy_set t = busy_set s" "dirty_set t = dirty_set s - {b}"
    "\<And>j. bufs t ! j = (if j = b then (bufs s ! b)\<lparr>b_dirty := False\<rparr> else bufs s ! j)"
    using bwrite_ok [OF s(1) _ v(2)] b d by auto
  have nth: "b_sector (bufs t ! j) = b_sector (bufs s ! j)" "b_valid (bufs t ! j) = b_valid (bufs s ! j)" for j
    by (simp_all add: t(9))
  have "b_sector (bufs s ! j) \<noteq> n" if "j \<in> dirty_set s" "j \<noteq> b" for j
    using bcache_unique [OF s(1), of j b] dirty_valid [OF s(1) that(1)] valid_buf(1) [OF s(1)] v b that(2) by auto
  then have "pinned t = pinned s - {n}" using t(8) b by (auto simp: pinned_def nth)
  moreover have "cache_inv t" "held t = held s"
    using t s assms(1) bio_rel_quiet [OF t(3)] by (auto simp: cache_inv_def held_def nth)
  ultimately show ?thesis using t by blast
qed

lemma set_dirty_abs:
  assumes "cache_inv s" "held s b = Some n"
  shows "cache_inv (set_dirty b s)" "held (set_dirty b s) = held s" "pinned (set_dirty b s) = insert n (pinned s)"
    "blk (set_dirty b s) = blk s"
proof -
  have s: "bcache_ok s" "quiet s" using assms(1) by (auto simp: cache_inv_def)
  note b = held_busy [OF assms(2)]
  have v: "b < NBUF" "b_valid (bufs s ! b)" "b_busy (bufs s ! b)"
    using assms(1) b by (auto simp: cache_inv_def busy_set_def)
  note nth = upd_buf_bufs [OF s(1) v(1)]
  have ok: "bcache_ok (set_dirty b s)"
    unfolding set_dirty_def using s v bcache_unique [OF s(1) v(1)]
    by (intro bcache_ok_upd) (auto simp: bcache_ok_def buf_ok_def same_block_def)
  have sets: "busy_set (set_dirty b s) = busy_set s" "dirty_set (set_dirty b s) = insert b (dirty_set s)"
    using v by (auto simp: set_dirty_def busy_set_def dirty_set_def nth split: if_splits)
  have f: "b_sector (bufs (set_dirty b s) ! j) = b_sector (bufs s ! j)"
    "b_valid (bufs (set_dirty b s) ! j) = b_valid (bufs s ! j)"
    "b_data (bufs (set_dirty b s) ! j) = b_data (bufs s ! j)" for j
    by (simp_all add: set_dirty_def nth)
  show "cache_inv (set_dirty b s)"
    using assms(1) ok sets f by (simp add: cache_inv_def set_dirty_def)
  show "held (set_dirty b s) = held s" "pinned (set_dirty b s) = insert n (pinned s)"
    using sets b by (auto simp: held_def pinned_def f)
  show "blk (set_dirty b s) = blk s"
    by (intro blk_cong [OF s(1) ok]) (simp_all add: f, simp add: set_dirty_def)
qed

text \<open>
  The contract, and the two things its clients do with one block: read it, and change it
  through the log (\<open>lw\<close> stands for the logging of a held buffer).
\<close>

locale block_cache =
  fixes rd :: "uint \<Rightarrow> 's \<Rightarrow> (nat, 's) outcome"
    and rls :: "nat \<Rightarrow> 's \<Rightarrow> (unit, 's) outcome"
    and wr :: "nat \<Rightarrow> 's \<Rightarrow> (unit, 's) outcome"
    and dat :: "nat \<Rightarrow> 's \<Rightarrow> uchar list"
    and put :: "nat \<Rightarrow> uchar list \<Rightarrow> 's \<Rightarrow> 's"
    and inv :: "'s \<Rightarrow> bool"
    and cont :: "'s \<Rightarrow> uint \<Rightarrow> uchar list"
    and disk :: "'s \<Rightarrow> uint \<Rightarrow> uchar list"
    and hist :: "'s \<Rightarrow> (uint \<times> uchar list) list"
    and pins :: "'s \<Rightarrow> uint set"
    and hld :: "'s \<Rightarrow> nat \<Rightarrow> uint option"
    and size :: "'s \<Rightarrow> uint"
    and fr :: "'s \<Rightarrow> 's \<Rightarrow> bool"
    and cap :: nat
  assumes rd_law: "inv s \<Longrightarrow> n < size s \<Longrightarrow> n \<notin> ran (hld s) \<Longrightarrow>
        card (ran (hld s) \<union> pins s) < cap \<or> n \<in> pins s \<Longrightarrow>
        \<exists>b t. rd n s = Ok b t \<and> inv t \<and> hld s b = None \<and> hld t = (hld s)(b \<mapsto> n) \<and>
          pins t = pins s \<and> cont t = cont s \<and> disk t = disk s \<and> hist t = hist s \<and> fr s t"
    and rls_law: "inv s \<Longrightarrow> hld s b = Some n \<Longrightarrow> n \<in> pins s \<or> cont s n = disk s n \<Longrightarrow>
        \<exists>t. rls b s = Ok () t \<and> inv t \<and> hld t = (hld s)(b := None) \<and>
          pins t = pins s \<and> cont t = cont s \<and> disk t = disk s \<and> hist t = hist s \<and> fr s t"
    and wr_law: "inv s \<Longrightarrow> hld s b = Some n \<Longrightarrow>
        \<exists>t. wr b s = Ok () t \<and> inv t \<and> hld t = hld s \<and> pins t = pins s - {n} \<and> cont t = cont s \<and>
          disk t = (disk s)(n := cont s n) \<and> hist t = hist s @ [(n, cont s n)] \<and> fr s t"
    and put_law: "inv s \<Longrightarrow> hld s b = Some n \<Longrightarrow> length d = BSIZE \<Longrightarrow>
        inv (put b d s) \<and> hld (put b d s) = hld s \<and> pins (put b d s) = pins s \<and>
        cont (put b d s) = (cont s)(n := d) \<and> disk (put b d s) = disk s \<and> hist (put b d s) = hist s \<and>
        fr s (put b d s)"
    and dat_law: "inv s \<Longrightarrow> hld s b = Some n \<Longrightarrow> dat b s = cont s n \<and> length (cont s n) = BSIZE \<and> n < size s"
    and clean: "inv s \<Longrightarrow> n \<notin> pins s \<Longrightarrow> n \<notin> ran (hld s) \<Longrightarrow> cont s n = disk s n"
    and fr_trans: "fr s t \<Longrightarrow> fr t u \<Longrightarrow> fr s u"
    and fr_size: "fr s t \<Longrightarrow> size t = size s"
begin

text \<open>Reading a block and giving it back.\<close>

lemma read_block:
  assumes "inv s" "n < size s" "n \<notin> ran (hld s)" "card (ran (hld s) \<union> pins s) < cap \<or> n \<in> pins s"
  shows "\<exists>t. (\<forall>f. obind (rd n s) (\<lambda>b u. obind (rls b u) (\<lambda>_ v. f (dat b u) v)) = f (cont s n) t) \<and>
    inv t \<and> hld t = hld s \<and> pins t = pins s \<and> cont t = cont s \<and> disk t = disk s \<and> hist t = hist s \<and> fr s t"
proof -
  obtain b u where u: "rd n s = Ok b u" "inv u" "hld s b = None" "hld u = (hld s)(b \<mapsto> n)"
    "pins u = pins s" "cont u = cont s" "disk u = disk s" "hist u = hist s" "fr s u"
    using rd_law [OF assms] by blast
  have h: "hld u b = Some n" using u by simp
  have "n \<in> pins u \<or> cont u n = disk u n" using clean [OF assms(1)] assms(3) u by auto
  from rls_law [OF u(2) h this] obtain t where t: "rls b u = Ok () t" "inv t" "hld t = (hld u)(b := None)"
    "pins t = pins u" "cont t = cont u" "disk t = disk u" "hist t = hist u" "fr u t" by blast
  have "hld t = hld s" using t u by auto
  then show ?thesis
    using u t dat_law [OF u(2) h] fr_trans [OF u(9) t(8)] by (intro exI [of _ t]) auto
qed

text \<open>Writing a new content through to the disk.\<close>

lemma write_block:
  assumes "inv s" "n < size s" "n \<notin> ran (hld s)" "card (ran (hld s) \<union> pins s) < cap \<or> n \<in> pins s"
    and "length (g (cont s n)) = BSIZE"
  shows "\<exists>t. (\<forall>f. obind (rd n s) (\<lambda>b u. obind (wr b (put b (g (dat b u)) u)) (\<lambda>_ v.
      obind (rls b v) (\<lambda>_ w. f w))) = f t) \<and>
    inv t \<and> hld t = hld s \<and> pins t = pins s - {n} \<and> cont t = (cont s)(n := g (cont s n)) \<and>
    disk t = (disk s)(n := g (cont s n)) \<and> hist t = hist s @ [(n, g (cont s n))] \<and> fr s t"
proof -
  obtain b u where u: "rd n s = Ok b u" "inv u" "hld s b = None" "hld u = (hld s)(b \<mapsto> n)"
    "pins u = pins s" "cont u = cont s" "disk u = disk s" "hist u = hist s" "fr s u"
    using rd_law [OF assms(1-4)] by blast
  have h: "hld u b = Some n" and d: "dat b u = cont s n" using u dat_law [OF u(2)] by auto
  let ?u = "put b (g (cont s n)) u"
  note p = put_law [OF u(2) h assms(5)]
  then have hp: "inv ?u" "hld ?u b = Some n" using h by auto
  obtain v where v: "wr b ?u = Ok () v" "inv v" "hld v = hld ?u" "pins v = pins ?u - {n}" "cont v = cont ?u"
    "disk v = (disk ?u)(n := cont ?u n)" "hist v = hist ?u @ [(n, cont ?u n)]" "fr ?u v"
    using wr_law [OF hp] by blast
  have hv: "hld v b = Some n" "n \<in> pins v \<or> cont v n = disk v n" using v hp by auto
  obtain t where t: "rls b v = Ok () t" "inv t" "hld t = (hld v)(b := None)"
    "pins t = pins v" "cont t = cont v" "disk t = disk v" "hist t = hist v" "fr v t"
    using rls_law [OF v(2) hv] by blast
  have "hld t = hld s" using t v p u by auto
  moreover have "fr s t" using u(9) p v(8) t(8) fr_trans by blast
  ultimately show ?thesis
    using u v t p d by (intro exI [of _ t]) auto
qed

text \<open>Copying one block over another, on the disk too, with both in hand.\<close>

lemma copy_block:
  assumes "inv s" "l < size s" "m < size s" "l \<noteq> m" "l \<notin> ran (hld s)" "m \<notin> ran (hld s)"
    and "card (ran (hld s) \<union> pins s) < cap" "l \<notin> pins s"
    and "Suc (card (ran (hld s) \<union> pins s)) < cap \<or> m \<in> pins s"
    and "finite (ran (hld s) \<union> pins s)"
  shows "\<exists>t. (\<forall>f. obind (rd l s) (\<lambda>b u. obind (rd m u) (\<lambda>c v. obind (wr c (put c (dat b v) v)) (\<lambda>_ w.
      obind (rls b w) (\<lambda>_ x. obind (rls c x) (\<lambda>_ y. f y))))) = f t) \<and>
    inv t \<and> hld t = hld s \<and> pins t = pins s - {m} \<and> cont t = (cont s)(m := cont s l) \<and>
    disk t = (disk s)(m := cont s l) \<and> hist t = hist s @ [(m, cont s l)] \<and> fr s t"
proof -
  obtain b u where u: "rd l s = Ok b u" "inv u" "hld s b = None" "hld u = (hld s)(b \<mapsto> l)"
    "pins u = pins s" "cont u = cont s" "disk u = disk s" "hist u = hist s" "fr s u"
    using rd_law [OF assms(1,2,5)] assms(7) by blast
  have ru: "ran (hld u) = insert l (ran (hld s))" using u(3,4) by (simp add: ran_map_upd)
  have "card (ran (hld u) \<union> pins u) \<le> Suc (card (ran (hld s) \<union> pins s))"
    using card_insert_if [OF assms(10), of l] by (simp only: ru u(5) Un_insert_left) simp
  then have "card (ran (hld u) \<union> pins u) < cap \<or> m \<in> pins u"
    using assms(9) unfolding u(5) by (meson le_less_trans)
  moreover have "m < size u" "m \<notin> ran (hld u)" using assms fr_size [OF u(9)] ru by auto
  ultimately obtain c v where v: "rd m u = Ok c v" "inv v" "hld u c = None" "hld v = (hld u)(c \<mapsto> m)"
    "pins v = pins u" "cont v = cont u" "disk v = disk u" "hist v = hist u" "fr u v"
    using rd_law [OF u(2)] by blast
  have "b \<noteq> c" using u(4) v(3) by auto
  then have hb: "hld v b = Some l" "hld v c = Some m" "b \<noteq> c" using u(4) v(4) by simp_all
  have d: "dat b v = cont s l" "length (cont s l) = BSIZE" using dat_law [OF v(2) hb(1)] u v by auto
  let ?v = "put c (cont s l) v"
  note p = put_law [OF v(2) hb(2) d(2)]
  then have hp: "inv ?v" "hld ?v c = Some m" using hb by auto
  obtain w where w: "wr c ?v = Ok () w" "inv w" "hld w = hld ?v" "pins w = pins ?v - {m}" "cont w = cont ?v"
    "disk w = (disk ?v)(m := cont ?v m)" "hist w = hist ?v @ [(m, cont ?v m)]" "fr ?v w"
    using wr_law [OF hp] by blast
  have "hld w b = Some l" using w p hb by simp
  moreover have "cont w l = disk w l"
    using clean [OF assms(1,8,5)] w p u v assms(4) by simp
  ultimately obtain x where x: "rls b w = Ok () x" "inv x" "hld x = (hld w)(b := None)"
    "pins x = pins w" "cont x = cont w" "disk x = disk w" "hist x = hist w" "fr w x"
    using rls_law [OF w(2)] by blast
  have "hld x c = Some m" "cont x m = disk x m" using x w p hb by simp_all
  then obtain t where t: "rls c x = Ok () t" "inv t" "hld t = (hld x)(c := None)"
    "pins t = pins x" "cont t = cont x" "disk t = disk x" "hist t = hist x" "fr x t"
    using rls_law [OF x(2)] by blast
  have "hld t = (hld s)(b \<mapsto> l, c \<mapsto> m, b := None, c := None)" using t(3) x(3) w(3) p v(4) u(4) by simp
  also have "\<dots> = hld s" using u(3) v(3) u(4) hb(3) by auto
  finally have "hld t = hld s" .
  moreover have "fr v ?v" using p by blast
  then have "fr s t" using fr_trans u(9) v(9) w(8) x(8) t(8) by metis
  moreover have "pins t = pins s - {m}" "cont t = (cont s)(m := cont s l)" "disk t = (disk s)(m := cont s l)"
    "hist t = hist s @ [(m, cont s l)]"
    using u(5-8) v(5-8) p w(4-7) x(4-7) t(4-7) by simp_all
  ultimately show ?thesis
    using u(1) v(1) w(1) x(1) t(1,2) d(1) by (intro exI [of _ t]) simp
qed

end

lemma bio_clean:
  assumes "cache_inv s" "n \<notin> pinned s" "n \<notin> ran (held s)"
  shows "blk s n = memdisk s n"
proof -
  have ok: "bcache_ok s" using assms by (simp add: cache_inv_def)
  show ?thesis
  proof (cases "\<exists>i<NBUF. b_valid (bufs s ! i) \<and> b_sector (bufs s ! i) = n")
    case True
    then obtain i where i: "i < NBUF" "b_valid (bufs s ! i)" "b_sector (bufs s ! i) = n" by auto
    then have "\<not> b_dirty (bufs s ! i)" "\<not> b_busy (bufs s ! i)"
      using assms by (auto simp: pinned_def dirty_set_def ran_held busy_set_def)
    then show ?thesis using i ok blk_cached [OF ok i(1,2)] by (simp add: bcache_ok_def buf_ok_def)
  next
    case False
    then show ?thesis by (intro blk_uncached [OF ok]) auto
  qed
qed

interpretation bc: block_cache "bread 1" brelse bwrite buf_data set_data cache_inv blk memdisk writes
  pinned held disksize bio_rel NBUF
proof unfold_locales
  fix s :: "'z bio_state_scheme" and b n and d :: "uchar list"
  assume "cache_inv s" "held s b = Some n" "length d = BSIZE"
  then show "cache_inv (set_data b d s) \<and> held (set_data b d s) = held s \<and> pinned (set_data b d s) = pinned s \<and>
      blk (set_data b d s) = (blk s)(n := d) \<and> memdisk (set_data b d s) = memdisk s \<and>
      writes (set_data b d s) = writes s \<and> bio_rel s (set_data b d s)"
    using set_data_abs [of s b n d] upd_buf_rel by auto
next
  fix s :: "'z bio_state_scheme" and b n
  assume "cache_inv s" "held s b = Some n"
  then show "buf_data b s = blk s n \<and> length (blk s n) = BSIZE \<and> n < disksize s"
    using held_data [of s b n] by auto
qed (rule bread_abs brelse_abs bwrite_abs bio_clean bio_rel_trans bio_rel_disksize; assumption)+

text \<open>The reads of a block, with the effect of both calls: nothing that the clients can see.\<close>

definition read_only :: "'z bio_state_scheme \<Rightarrow> 'z bio_state_scheme \<Rightarrow> bool" where
  "read_only s t \<longleftrightarrow> cache_inv t \<and> held t = held s \<and> pinned t = pinned s \<and> blk t = blk s \<and>
     memdisk t = memdisk s \<and> writes t = writes s \<and> bio_rel s t"

lemma read_only_trans [trans]: "read_only s t \<Longrightarrow> read_only t u \<Longrightarrow> read_only s u"
  by (auto simp: read_only_def intro: bio_rel_trans)

lemma read_only_refl: "cache_inv s \<Longrightarrow> read_only s s"
  by (simp add: read_only_def)

definition can_read :: "uint \<Rightarrow> 'z bio_state_scheme \<Rightarrow> bool" where
  "can_read n s \<longleftrightarrow> cache_inv s \<and> n < disksize s \<and> n \<notin> ran (held s) \<and>
     (card (ran (held s) \<union> pinned s) < NBUF \<or> n \<in> pinned s)"

lemma can_read_mono: "read_only s t \<Longrightarrow> can_read n s \<Longrightarrow> can_read n t"
  by (auto simp: can_read_def read_only_def dest: bio_rel_disksize)

lemma bread_brelse:
  assumes "can_read n s"
  shows "\<exists>t. (\<forall>f. obind (bread 1 n s) (\<lambda>b u. obind (brelse b u) (\<lambda>_ v. f (b_data (bufs u ! b)) v)) =
      f (blk s n) t) \<and> read_only s t"
  using bc.read_block [of s n] assms unfolding can_read_def read_only_def buf_data_def by blast

section \<open>The booted cache\<close>

text \<open>\<^verbatim>\<open>binit\<close> leaves a coherent cache: no buffer is valid, so nothing can differ from the disk.\<close>

lemma flags_set:
  "b_busy (bs[i := (bs ! i)\<lparr>b_next := v\<rparr>] ! j) = b_busy (bs ! j)"
  "b_valid (bs[i := (bs ! i)\<lparr>b_next := v\<rparr>] ! j) = b_valid (bs ! j)"
  "b_dirty (bs[i := (bs ! i)\<lparr>b_next := v\<rparr>] ! j) = b_dirty (bs ! j)"
  "b_busy (bs[i := (bs ! i)\<lparr>b_prev := v\<rparr>] ! j) = b_busy (bs ! j)"
  "b_valid (bs[i := (bs ! i)\<lparr>b_prev := v\<rparr>] ! j) = b_valid (bs ! j)"
  "b_dirty (bs[i := (bs ! i)\<lparr>b_prev := v\<rparr>] ! j) = b_dirty (bs ! j)"
  "b_busy (bs[i := (bs ! i)\<lparr>b_next := v, b_prev := w, b_dev := d\<rparr>] ! j) = b_busy (bs ! j)"
  "b_valid (bs[i := (bs ! i)\<lparr>b_next := v, b_prev := w, b_dev := d\<rparr>] ! j) = b_valid (bs ! j)"
  "b_dirty (bs[i := (bs ! i)\<lparr>b_next := v, b_prev := w, b_dev := d\<rparr>] ! j) = b_dirty (bs ! j)"
  by (cases "i = j"; cases "i < length bs"; simp add: list_update_beyond)+

lemma binit_one_flags:
  "b_busy (binit_one b bs ! j) = b_busy (bs ! j)" "b_valid (binit_one b bs ! j) = b_valid (bs ! j)"
  "b_dirty (binit_one b bs ! j) = b_dirty (bs ! j)"
  unfolding binit_one_def Let_def by (simp_all only: flags_set)

lemma binit_fold_flags:
  "b_busy (fold binit_one xs bs ! j) = b_busy (bs ! j) \<and> b_valid (fold binit_one xs bs ! j) = b_valid (bs ! j) \<and>
   b_dirty (fold binit_one xs bs ! j) = b_dirty (bs ! j)"
  by (induction xs arbitrary: bs) (simp_all add: binit_one_flags)

lemma binit_cache_inv:
  assumes "length (bufs s) = Suc NBUF" "quiet (binit s)" "\<And>n. length (memdisk s n) = BSIZE"
    and "\<And>i. i < NBUF \<Longrightarrow> \<not> b_busy (bufs s ! i) \<and> \<not> b_valid (bufs s ! i) \<and> \<not> b_dirty (bufs s ! i)"
    and dev: "\<And>i. i < NBUF \<Longrightarrow> b_dev (bufs (binit s) ! i) = -1"
  shows "cache_inv (binit s)" "held (binit s) = Map.empty" "pinned (binit s) = {}" "blk (binit s) = memdisk s"
proof -
  let ?t = "binit s"
  have t: "memdisk ?t = memdisk s" "disksize ?t = disksize s"
    by (simp_all add: binit_def initlock_def Let_def)
  have fl: "\<not> b_busy (bufs ?t ! i)" "\<not> b_valid (bufs ?t ! i)" "\<not> b_dirty (bufs ?t ! i)" if "i < NBUF" for i
    using assms(1,4) that binit_fold_flags by (simp_all add: binit_def initlock_def Let_def nth_list_update)
  have ok: "bcache_ok ?t"
    using binit_lru [OF assms(1)] fl dev assms(3) by (auto simp: bcache_ok_def buf_ok_def same_block_def t)
  then show "cache_inv ?t" "held ?t = Map.empty" "pinned ?t = {}"
    using fl assms(2) by (auto simp: cache_inv_def busy_set_def held_def pinned_def dirty_set_def)
  show "blk ?t = memdisk s"
  proof
    fix n show "blk ?t n = memdisk s n" using fl by (subst blk_uncached [OF ok]) (auto simp: t)
  qed
qed

definition zero_buf :: buf where
  "zero_buf = \<lparr>b_busy = False, b_valid = False, b_dirty = False, b_dev = 0, b_sector = 0, b_prev = 0, b_next = 0,
     b_data = replicate 512 0\<rparr>"

definition boot_on :: "(uint \<Rightarrow> uchar list) \<Rightarrow> 'z \<Rightarrow> 'z bio_state_scheme" where
  "boot_on D m = binit \<lparr>irq = False, ncli = 0, intena = False, locks = (\<lambda>_. lk_free), ptable = [ready_proc],
     curproc = Some 0, initproc = None, nextpid = 2, ticks = 0, kmem_mem = (\<lambda>_. 0), freelist = 0, use_lock = True,
     kern_end = 0x80040000, pipes = Map.empty, memdisk = D, disksize = 1024,
     bufs = replicate (Suc NBUF) zero_buf, writes = [], \<dots> = m\<rparr>"

definition boot_bio :: "'z \<Rightarrow> 'z bio_state_scheme" where
  "boot_bio m = boot_on (\<lambda>n. replicate 512 (ucast n)) m"

lemma dev_set:
  "b_dev (xs[i := (xs ! i)\<lparr>b_next := v\<rparr>] ! j) = b_dev (xs ! j)"
  "b_dev (xs[i := (xs ! i)\<lparr>b_prev := v\<rparr>] ! j) = b_dev (xs ! j)"
  by (cases "i = j"; cases "i < length xs"; simp add: list_update_beyond)+

lemma binit_one_dev:
  "k < length bs \<Longrightarrow> b_dev (binit_one k bs ! i) = (if i = k then -1 else b_dev (bs ! i))"
  unfolding binit_one_def Let_def dev_set by (simp add: nth_list_update)

lemma binit_dev:
  assumes "length bs = Suc NBUF" "nxt bs bhead = bhead" "prv bs bhead = bhead" "k \<le> NBUF"
  shows "\<forall>i<k. b_dev (fold binit_one [0..<k] bs ! i) = -1"
  using assms(4)
proof (induction k)
  case (Suc k)
  let ?bs = "fold binit_one [0..<k] bs"
  have len: "length ?bs = Suc NBUF" using binit_fold [OF assms(1-3), of k] Suc.prems by simp
  have "b_dev (binit_one k ?bs ! i) = (if i = k then -1 else b_dev (?bs ! i))" for i
    using binit_one_dev [of k ?bs i] len Suc.prems by simp
  then show ?case using Suc by (auto simp: less_Suc_eq)
qed simp

lemma boot_on_ok:
  assumes "\<And>n. length (D n) = 512"
  shows "cache_inv (boot_on D m)" "held (boot_on D m) = Map.empty" "pinned (boot_on D m) = {}" "disksize (boot_on D m) = 1024"
  "blk (boot_on D m) = D" "memdisk (boot_on D m) = D"
  and boot_on_bufs: "\<And>i. i < NBUF \<Longrightarrow> \<not> b_valid (bufs (boot_on D m) ! i) \<and> \<not> b_dirty (bufs (boot_on D m) ! i) \<and> b_dev (bufs (boot_on D m) ! i) = -1"
proof -
  define s where "s = (\<lparr>irq = False, ncli = 0, intena = False, locks = (\<lambda>_. lk_free), ptable = [ready_proc],
     curproc = Some 0, initproc = None, nextpid = 2, ticks = 0, kmem_mem = (\<lambda>_. 0), freelist = 0, use_lock = True,
     kern_end = 0x80040000, pipes = Map.empty, memdisk = D, disksize = 1024,
     bufs = replicate (Suc NBUF) zero_buf, writes = [], \<dots> = m\<rparr>)"
  have b: "(boot_on D m) = binit s" by (simp add: boot_on_def s_def)
  have len: "length (bufs s) = Suc NBUF" by (simp add: s_def)
  have fl: "\<not> b_busy (bufs s ! i) \<and> \<not> b_valid (bufs s ! i) \<and> \<not> b_dirty (bufs s ! i)" if "i < NBUF" for i
    using that by (simp add: s_def zero_buf_def del: replicate_Suc)
  have q: "quiet (binit s)" by (simp add: binit_def initlock_def Let_def s_def quiet_def)
  let ?bs = "(bufs s)[bhead := (bufs s ! bhead)\<lparr>b_prev := bhead, b_next := bhead\<rparr>]"
  have "nxt ?bs bhead = bhead" "prv ?bs bhead = bhead" using len by (simp_all add: nxt_def prv_def)
  then have dev: "b_dev (bufs (binit s) ! i) = -1" if "i < NBUF" for i
    using binit_dev [of ?bs NBUF] len that by (simp add: binit_def initlock_def Let_def)
  have md: "length (memdisk s n) = BSIZE" for n using assms by (simp add: s_def BSIZE_def)
  note r = binit_cache_inv [OF len q md fl dev]
  show "cache_inv (boot_on D m)" "held (boot_on D m) = Map.empty" "pinned (boot_on D m) = {}"
    "blk (boot_on D m) = D"
    using r by (simp_all add: b) (simp add: s_def)
  show "\<not> b_valid (bufs (boot_on D m) ! i) \<and> \<not> b_dirty (bufs (boot_on D m) ! i) \<and> b_dev (bufs (boot_on D m) ! i) = -1" if "i < NBUF" for i
    using dev [OF that] fl [OF that] binit_fold_flags len that by (simp add: b binit_def initlock_def Let_def nth_list_update)
  show "disksize (boot_on D m) = 1024" "memdisk (boot_on D m) = D"
    by (simp_all add: boot_on_def binit_def initlock_def Let_def)
qed

lemma boot_bio_ok:
  "cache_inv (boot_bio m)" "held (boot_bio m) = Map.empty" "pinned (boot_bio m) = {}" "disksize (boot_bio m) = 1024"
  "blk (boot_bio m) = (\<lambda>n. replicate 512 (ucast n))" "memdisk (boot_bio m) = (\<lambda>n. replicate 512 (ucast n))"
  and boot_bio_bufs: "\<And>i. i < NBUF \<Longrightarrow> \<not> b_valid (bufs (boot_bio m) ! i) \<and> \<not> b_dirty (bufs (boot_bio m) ! i) \<and> b_dev (bufs (boot_bio m) ! i) = -1"
  unfolding boot_bio_def by (rule boot_on_ok boot_on_bufs; simp)+

section \<open>Properties\<close>

text \<open>
  C3. \<^verbatim>\<open>bread\<close> returns a buffer the caller did not hold, marked busy, with the current content of the block (the
  cached one if it is newer than the disk); the content of every block, the disk, the pinned blocks and the
  buffers already held are as before, and the cache stays coherent with each block cached at most once.
\<close>

theorem bread_coherent:
  assumes "cache_inv s" "n < disksize s" "n \<notin> ran (held s)"
    and "card (ran (held s) \<union> pinned s) < NBUF \<or> n \<in> pinned s"
  shows "\<exists>b t. bread 1 n s = Ok b t \<and> cache_inv t \<and> b_data (bufs t ! b) = blk s n \<and>
    held s b = None \<and> held t = (held s)(b \<mapsto> n) \<and> pinned t = pinned s \<and> blk t = blk s \<and> memdisk t = memdisk s"
proof -
  obtain b t where t: "bread 1 n s = Ok b t" "cache_inv t" "held s b = None" "held t = (held s)(b \<mapsto> n)"
    "pinned t = pinned s" "blk t = blk s" "memdisk t = memdisk s"
    using bread_abs [OF assms] by blast
  moreover have "b_data (bufs t ! b) = blk s n" using held_data(1) [OF t(2), of b n] t by (simp add: buf_data_def)
  ultimately show ?thesis by blast
qed

theorem bread_coherent_witness:
  "\<exists>b t. bread 1 5 (boot_bio ()) = Ok b t \<and> b_data (bufs t ! b) = replicate 512 5 \<and> held t = [b \<mapsto> 5]"
  using bread_coherent [OF boot_bio_ok(1) [of "()"], of 5] by (auto simp: NBUF_def boot_bio_ok)

text \<open>
  C7. The pointer surgery of \<^verbatim>\<open>binit\<close> and \<^verbatim>\<open>brelse\<close> keeps the doubly linked list of all buffers: \<^verbatim>\<open>brelse\<close> moves the buffer
  to the front and changes no other order, and the scans of \<^verbatim>\<open>bget\<close> end and visit the list forwards (for the
  block) and backwards (for a buffer to recycle, so the least recently used first).
\<close>

theorem lru_list_refinement:
  assumes "lru bs xs" "b < NBUF"
  shows "lru (brelse_links b bs) (b # remove1 b xs) \<and>
    bscan b_next P bs (Suc NBUF) (b_next (bs ! bhead)) = Some (find (\<lambda>i. P (bs ! i)) xs) \<and>
    bscan b_prev P bs (Suc NBUF) (b_prev (bs ! bhead)) = Some (find (\<lambda>i. P (bs ! i)) (rev xs))"
  using lru_move_front [OF assms] bscan_lru [OF assms(1)] by auto

theorem lru_list_refinement_witness:
  "lru (bufs (boot_bio ())) [9, 8, 7, 6, 5, 4, 3, 2, 1, 0] \<and>
   lru (brelse_links 7 (bufs (boot_bio ()))) [7, 9, 8, 6, 5, 4, 3, 2, 1, 0]"
proof -
  have e: "rev [0..<NBUF] = [9, 8, 7, 6, 5, 4, 3, 2, 1, 0]" by (simp add: NBUF_def eval_nat_numeral)
  have l: "lru (bufs (boot_bio ())) (rev [0..<NBUF])"
    unfolding boot_bio_def boot_on_def by (rule binit_lru) simp
  have "lru (brelse_links 7 (bufs (boot_bio ()))) (7 # remove1 7 (rev [0..<NBUF]))"
    using lru_list_refinement [OF l, of 7 "\<lambda>_. True"] by (simp add: NBUF_def)
  then show ?thesis using l by (simp add: e)
qed

text \<open>
  C19. \<^verbatim>\<open>bget\<close> panics instead of recycling a buffer that is in use or holds logged changes not yet installed: when
  every buffer is busy or dirty and the block is not cached, the outcome is the panic.
\<close>

theorem bread_never_evicts_pinned:
  assumes "bcache_ok s" "quiet s" "\<And>i. i < NBUF \<Longrightarrow> b_dev (bufs s ! i) = dev \<Longrightarrow> b_sector (bufs s ! i) \<noteq> n"
    and "busy_set s \<union> dirty_set s = {..<NBUF}"
  shows "bread dev n s = Panic ''bget: no buffers''"
  using assms by (rule bread_no_buffers)

definition full_bio :: bio_state where
  "full_bio = (boot_bio ())\<lparr>bufs := map (\<lambda>q. q\<lparr>b_busy := True\<rparr>) (bufs (boot_bio ()))\<rparr>"

theorem bread_never_evicts_pinned_witness: "bread 1 5 full_bio = Panic ''bget: no buffers''"
proof (rule bread_never_evicts_pinned)
  have ok: "bcache_ok (boot_bio ())" and q: "quiet (boot_bio ())" using boot_bio_ok(1) [of "()"] by (auto simp: cache_inv_def)
  have len: "length (bufs (boot_bio ())) = Suc NBUF" using bcache_len [OF ok] .
  note nb = boot_bio_bufs [of _ "()"]
  obtain xs where xs: "lru (bufs (boot_bio ())) xs" using ok by (auto simp: bcache_ok_def)
  have links: "nxt (bufs full_bio) i = nxt (bufs (boot_bio ())) i" "prv (bufs full_bio) i = prv (bufs (boot_bio ())) i"
    if "i \<le> NBUF" for i
    using that len by (simp_all add: full_bio_def nxt_def prv_def)
  have "seg (nxt (bufs full_bio)) (prv (bufs full_bio)) bhead xs bhead =
      seg (nxt (bufs (boot_bio ()))) (prv (bufs (boot_bio ()))) bhead xs bhead"
  proof (rule seg_cong)
    have x: "set xs = {..<NBUF}" using xs by (simp add: lru_def)
    show "nxt (bufs full_bio) i = nxt (bufs (boot_bio ())) i" if "i \<in> set (bhead # xs)" for i
      using that by (intro links(1)) (auto simp: x)
    show "prv (bufs full_bio) i = prv (bufs (boot_bio ())) i" if "i \<in> set (xs @ [bhead])" for i
      using that by (intro links(2)) (auto simp: x)
  qed
  then have "lru (bufs full_bio) xs" using xs len by (simp add: lru_def full_bio_def)
  then show "bcache_ok full_bio"
    using ok nb len by (auto simp: bcache_ok_def buf_ok_def full_bio_def same_block_def)
  show "quiet full_bio" using q by (simp add: full_bio_def quiet_def)
  show "b_sector (bufs full_bio ! i) \<noteq> 5" if "i < NBUF" "b_dev (bufs full_bio ! i) = 1" for i
    using that nb [OF that(1)] len by (simp add: full_bio_def)
  show "busy_set full_bio \<union> dirty_set full_bio = {..<NBUF}"
    using len by (auto simp: full_bio_def busy_set_def dirty_set_def)
qed

end
