(* ===== verification/Xv6_Bytes.thy ===== *)
theory Xv6_Bytes
  imports Xv6_Prelude
begin

text \<open>
  Byte arrays as the kernel overlays them with structures: slices and splices (what
  \<^verbatim>\<open>memmove\<close> between distinct buffers does), and the little-endian layout of \<^verbatim>\<open>ushort\<close>, \<^verbatim>\<open>uint\<close> and
  of arrays of \<^verbatim>\<open>uint\<close> on ARM.
\<close>

section \<open>Slices\<close>

definition slice :: "nat \<Rightarrow> nat \<Rightarrow> 'a list \<Rightarrow> 'a list" where
  "slice i n d = take n (drop i d)"

definition splice :: "nat \<Rightarrow> 'a list \<Rightarrow> 'a list \<Rightarrow> 'a list" where
  "splice i bs d = take i d @ bs @ drop (i + length bs) d"

lemma length_slice [simp]: "length (slice i n d) = min n (length d - i)"
  by (simp add: slice_def)

lemma length_splice [simp]: "i + length bs \<le> length d \<Longrightarrow> length (splice i bs d) = length d"
  by (simp add: splice_def)

lemma nth_slice: "k < n \<Longrightarrow> i + k < length d \<Longrightarrow> slice i n d ! k = d ! (i + k)"
  by (simp add: slice_def)

lemma nth_splice:
  "i + length bs \<le> length d \<Longrightarrow> k < length d \<Longrightarrow>
   splice i bs d ! k = (if i \<le> k \<and> k < i + length bs then bs ! (k - i) else d ! k)"
  by (auto simp: splice_def nth_append min_def)

lemma slice_splice_same: "i + length bs \<le> length d \<Longrightarrow> slice i (length bs) (splice i bs d) = bs"
  by (simp add: slice_def splice_def)

lemma slice_splice_disjoint:
  assumes "i + length bs \<le> length d" "j + n \<le> length d" "j + n \<le> i \<or> i + length bs \<le> j"
  shows "slice j n (splice i bs d) = slice j n d"
  using assms by (intro nth_equalityI) (auto simp: nth_slice nth_splice)

lemma slice_sub: "k + m \<le> n \<Longrightarrow> slice k m (slice i n d) = slice (i + k) m d"
  by (simp add: slice_def drop_take min_def add.commute)

lemma splice_slice [simp]: "i + n \<le> length d \<Longrightarrow> splice i (slice i n d) d = d"
  by (intro nth_equalityI) (auto simp: nth_slice nth_splice)

lemma slice_0_all: "length d \<le> n \<Longrightarrow> slice 0 n d = d"
  by (simp add: slice_def)

section \<open>Little-endian words\<close>

definition le16 :: "ushort \<Rightarrow> uchar list" where
  "le16 w = [ucast w, ucast (drop_bit 8 w)]"

definition of_le16 :: "uchar list \<Rightarrow> ushort" where
  "of_le16 bs = ucast (bs ! 0) OR push_bit 8 (ucast (bs ! 1))"

definition le32 :: "uint \<Rightarrow> uchar list" where
  "le32 w = [ucast w, ucast (drop_bit 8 w), ucast (drop_bit 16 w), ucast (drop_bit 24 w)]"

definition of_le32 :: "uchar list \<Rightarrow> uint" where
  "of_le32 bs = ucast (bs ! 0) OR push_bit 8 (ucast (bs ! 1)) OR push_bit 16 (ucast (bs ! 2))
     OR push_bit 24 (ucast (bs ! 3))"

lemma length_le [simp]: "length (le16 h) = 2" "length (le32 w) = 4"
  by (simp_all add: le16_def le32_def)

lemma of_le16_le16 [simp]: "of_le16 (le16 w) = w"
proof (rule bit_word_eqI)
  fix n assume "n < LENGTH(16)"
  then show "bit (of_le16 (le16 w)) n = bit w n"
    by (cases "8 \<le> n") (auto simp: of_le16_def le16_def bit_simps not_less)
qed

lemma of_le32_le32 [simp]: "of_le32 (le32 w) = w"
proof (rule bit_word_eqI)
  fix n assume "n < LENGTH(32)"
  then show "bit (of_le32 (le32 w)) n = bit w n"
    by (cases "24 \<le> n"; cases "16 \<le> n"; cases "8 \<le> n")
      (auto simp: of_le32_def le32_def bit_simps not_less)
qed

text \<open>Reading and writing element \<open>k\<close> of an array of \<^verbatim>\<open>uint\<close>.\<close>

definition get_word :: "uchar list \<Rightarrow> nat \<Rightarrow> uint" where
  "get_word d k = of_le32 (slice (4 * k) 4 d)"

definition set_word :: "nat \<Rightarrow> uint \<Rightarrow> uchar list \<Rightarrow> uchar list" where
  "set_word k w d = splice (4 * k) (le32 w) d"

lemma length_set_word [simp]: "4 * k + 4 \<le> length d \<Longrightarrow> length (set_word k w d) = length d"
  by (simp add: set_word_def)

lemma get_set_word:
  assumes "4 * k + 4 \<le> length d" "4 * j + 4 \<le> length d"
  shows "get_word (set_word k w d) j = (if j = k then w else get_word d j)"
proof (cases "j = k")
  case True
  then show ?thesis
    using assms slice_splice_same [of "4 * k" "le32 w" d] by (simp add: get_word_def set_word_def)
next
  case False
  then have "4 * j + 4 \<le> 4 * k \<or> 4 * k + 4 \<le> 4 * j" by linarith
  then show ?thesis
    using False assms by (simp add: get_word_def set_word_def slice_splice_disjoint)
qed

definition words_bytes :: "uint list \<Rightarrow> uchar list" where
  "words_bytes ws = concat (map le32 ws)"

definition bytes_words :: "nat \<Rightarrow> uchar list \<Rightarrow> uint list" where
  "bytes_words n d = map (get_word d) [0..<n]"

lemma length_words_bytes [simp]: "length (words_bytes ws) = 4 * length ws"
  by (induction ws) (simp_all add: words_bytes_def)

lemma get_words_bytes: "k < length ws \<Longrightarrow> get_word (words_bytes ws @ r) k = ws ! k"
proof (induction ws arbitrary: k)
  case (Cons w ws)
  show ?case
  proof (cases k)
    case 0
    have "slice 0 4 (le32 w @ words_bytes ws @ r) = le32 w" by (simp add: slice_def)
    then show ?thesis using 0 by (simp add: get_word_def words_bytes_def)
  next
    case (Suc j)
    have "slice (4 * Suc j) 4 (le32 w @ words_bytes ws @ r) = slice (4 * j) 4 (words_bytes ws @ r)"
      by (simp add: slice_def)
    then show ?thesis using Cons Suc by (simp add: get_word_def words_bytes_def)
  qed
qed simp

lemma bytes_words_bytes [simp]: "bytes_words (length ws) (words_bytes ws) = ws"
  using get_words_bytes [of _ ws "[]"] by (intro nth_equalityI) (auto simp: bytes_words_def)

end
