(* ===== verification/Xv6_Ondisk.thy ===== *)
theory Xv6_Ondisk
  imports Xv6_Bio Xv6_Bytes
begin

text \<open>
  \<^verbatim>\<open>include/fs.h\<close>: the on-disk format. Superblock, disk inodes and directory entries as records
  with their byte layout, the block-number macros, and \<^verbatim>\<open>readsb\<close> of \<^verbatim>\<open>kernel/fs.c\<close>.
\<close>

section \<open>Structures and layout\<close>

definition ROOTINO :: uint where "ROOTINO = 1"
definition NDIRECT :: nat where "NDIRECT = 12"
definition NINDIRECT :: nat where "NINDIRECT = 128"
definition MAXFILE :: nat where "MAXFILE = NDIRECT + NINDIRECT"
definition IPB :: uint where "IPB = 8"
definition BPB :: uint where "BPB = 4096"
definition DIRSIZ :: nat where "DIRSIZ = 14"

definition T_DIR :: ushort where "T_DIR = 1"
definition T_FILE :: ushort where "T_FILE = 2"
definition T_DEV :: ushort where "T_DEV = 3"

record superblock =
  sb_size :: uint
  sb_nblocks :: uint
  sb_ninodes :: uint
  sb_nlog :: uint

record dinode =
  d_type :: ushort
  d_major :: ushort
  d_minor :: ushort
  d_nlink :: ushort
  d_size :: uint
  d_addrs :: "uint list"

record dirent =
  de_inum :: ushort
  de_name :: "uchar list"

definition superblock_of :: "uchar list \<Rightarrow> superblock" where
  "superblock_of d = \<lparr>sb_size = get_word d 0, sb_nblocks = get_word d 1,
     sb_ninodes = get_word d 2, sb_nlog = get_word d 3\<rparr>"

definition dinode_bytes :: "dinode \<Rightarrow> uchar list" where
  "dinode_bytes di = le16 (d_type di) @ le16 (d_major di) @ le16 (d_minor di) @ le16 (d_nlink di) @
     le32 (d_size di) @ words_bytes (d_addrs di)"

definition dinode_of :: "uchar list \<Rightarrow> dinode" where
  "dinode_of d = \<lparr>d_type = of_le16 (slice 0 2 d), d_major = of_le16 (slice 2 2 d),
     d_minor = of_le16 (slice 4 2 d), d_nlink = of_le16 (slice 6 2 d),
     d_size = of_le32 (slice 8 4 d), d_addrs = bytes_words (Suc NDIRECT) (drop 12 d)\<rparr>"

definition dirent_bytes :: "dirent \<Rightarrow> uchar list" where
  "dirent_bytes de = le16 (de_inum de) @ de_name de"

definition dirent_of :: "uchar list \<Rightarrow> dirent" where
  "dirent_of d = \<lparr>de_inum = of_le16 (slice 0 2 d), de_name = slice 2 DIRSIZ d\<rparr>"

definition IBLOCK :: "uint \<Rightarrow> uint" where "IBLOCK i = i div IPB + 2"

definition BBLOCK :: "uint \<Rightarrow> uint \<Rightarrow> uint" where
  "BBLOCK b ninodes = b div BPB + ninodes div IPB + 3"

text \<open>\<^verbatim>\<open>(struct dinode*) bp->data + inum % IPB\<close>: the inode's slot in its block, as a byte offset.\<close>

definition dinode_off :: "uint \<Rightarrow> nat" where
  "dinode_off inum = 64 * unat (inum mod IPB)"

definition readsb :: "uint \<Rightarrow> 'z bio_state_scheme \<Rightarrow> (superblock, 'z bio_state_scheme) outcome" where
  "readsb dev s =
     obind (bread dev 1 s) (\<lambda>bp s.
     let sb = superblock_of (b_data (bufs s ! bp))
     in obind (brelse bp s) (\<lambda>_ s. Ok sb s))"

section \<open>Round trips\<close>

lemma slice_Cons_le16: "slice 0 2 (le16 w @ r) = le16 w"
  by (simp add: slice_def)

lemma slice_append_right: "length a \<le> i \<Longrightarrow> slice i n (a @ b) = slice (i - length a) n b"
  by (simp add: slice_def)

lemma slice_append_left: "n = length a \<Longrightarrow> slice 0 n (a @ b) = a"
  by (simp add: slice_def)

lemma dinode_of_bytes_append:
  assumes "length (d_addrs di) = Suc NDIRECT"
  shows "dinode_of (dinode_bytes di @ r) = di"
proof -
  have "bytes_words (Suc NDIRECT) (words_bytes (d_addrs di) @ r) = d_addrs di"
    using assms by (intro nth_equalityI) (auto simp: bytes_words_def get_words_bytes simp del: upt_Suc)
  then show ?thesis
    by (simp add: dinode_of_def dinode_bytes_def slice_append_right slice_append_left)
qed

lemma length_dinode_bytes [simp]: "length (d_addrs di) = Suc NDIRECT \<Longrightarrow> length (dinode_bytes di) = 64"
  by (simp add: dinode_bytes_def NDIRECT_def)

lemma dirent_of_bytes:
  assumes "length (de_name de) = DIRSIZ"
  shows "dirent_of (dirent_bytes de) = de"
  using assms by (simp add: dirent_of_def dirent_bytes_def slice_append_right slice_append_left slice_0_all)

lemma length_dirent_bytes [simp]: "length (de_name de) = DIRSIZ \<Longrightarrow> length (dirent_bytes de) = 16"
  by (simp add: dirent_bytes_def DIRSIZ_def)

lemma length_dinode_of_addrs [simp]: "length (d_addrs (dinode_of d)) = Suc NDIRECT"
  by (simp add: dinode_of_def bytes_words_def)

lemma dinode_off_range: "dinode_off i + 64 \<le> BSIZE"
proof -
  have "unat (i mod IPB) < 8" by (simp add: unat_mod IPB_def)
  then show ?thesis by (simp add: dinode_off_def BSIZE_def)
qed

lemma readsb_ok:
  assumes "can_read 1 s"
  shows "\<exists>t. readsb 1 s = Ok (superblock_of (blk s 1)) t \<and> read_only s t"
  using bread_brelse [OF assms] by (auto simp: readsb_def Let_def)

end
