(* ===== verification/Xv6_Log.thy ===== *)
theory Xv6_Log
  imports Xv6_Ondisk
begin

text \<open>
  \<^verbatim>\<open>kernel/log.c\<close>: the redo log. A transaction first copies its blocks to the log area, then
  writes the header (the commit point), installs the blocks at their home locations and
  clears the header. The theory shows that every crash during a transaction leaves, after
  recovery, the state before it or the state after it.
\<close>

section \<open>State and operations\<close>

text \<open>\<^verbatim>\<open>struct log\<close> with its in-memory header \<^verbatim>\<open>lh\<close>.\<close>

record log_state = bio_state +
  log_start :: uint
  log_size :: int
  log_busy :: bool
  log_dev :: uint
  lh_n :: int
  lh_sector :: "uint list"

text \<open>\<^verbatim>\<open>log.start + i + 1\<close>, the log block of entry \<open>i\<close>.\<close>

definition log_block :: "'z log_state_scheme \<Rightarrow> nat \<Rightarrow> uint" where
  "log_block s i = log_start s + of_nat i + 1"

text \<open>The loop of \<^verbatim>\<open>install_trans\<close> over the values of \<^verbatim>\<open>tail\<close> still to come.\<close>

fun install_loop :: "nat list \<Rightarrow> 'z log_state_scheme \<Rightarrow> (unit, 'z log_state_scheme) outcome" where
  "install_loop [] s = Ok () s"
| "install_loop (tail # ts) s =
     obind (bread (log_dev s) (log_block s tail) s) (\<lambda>lbuf s.
     if LOGSIZE \<le> tail then ub
     else obind (bread (log_dev s) (lh_sector s ! tail) s) (\<lambda>dbuf s.
          let s = set_data dbuf (b_data (bufs s ! lbuf)) s
          in obind (bwrite dbuf s) (\<lambda>_ s.
             obind (brelse lbuf s) (\<lambda>_ s.
             obind (brelse dbuf s) (\<lambda>_ s. install_loop ts s)))))"

definition install_trans :: "'z log_state_scheme \<Rightarrow> (unit, 'z log_state_scheme) outcome" where
  "install_trans s = install_loop [0..<nat (lh_n s)] s"

definition read_head :: "'z log_state_scheme \<Rightarrow> (unit, 'z log_state_scheme) outcome" where
  "read_head s =
     obind (bread (log_dev s) (log_start s) s) (\<lambda>b s.
     let d = b_data (bufs s ! b);
         n = sint (get_word d 0)
     in if int LOGSIZE < n then ub
        else let s = s\<lparr>lh_n := n, lh_sector := map (\<lambda>i. if int i < n then get_word d (Suc i)
                     else lh_sector s ! i) [0..<LOGSIZE]\<rparr>
             in brelse b s)"

definition head_bytes :: "int \<Rightarrow> uint list \<Rightarrow> uchar list \<Rightarrow> uchar list" where
  "head_bytes n secs d =
     fold (\<lambda>i d. set_word (Suc i) (secs ! i) d) [0..<nat n] (set_word 0 (word_of_int n) d)"

definition write_head :: "'z log_state_scheme \<Rightarrow> (unit, 'z log_state_scheme) outcome" where
  "write_head s =
     obind (bread (log_dev s) (log_start s) s) (\<lambda>b s.
     let s = set_data b (head_bytes (lh_n s) (lh_sector s) (b_data (bufs s ! b))) s
     in obind (bwrite b s) (\<lambda>_ s. brelse b s))"

definition recover_from_log :: "'z log_state_scheme \<Rightarrow> (unit, 'z log_state_scheme) outcome" where
  "recover_from_log s =
     obind (read_head s) (\<lambda>_ s.
     obind (install_trans s) (\<lambda>_ s.
     write_head (s\<lparr>lh_n := 0\<rparr>)))"

text \<open>\<^verbatim>\<open>sizeof(struct logheader)\<close> is 44, below \<^verbatim>\<open>BSIZE\<close>: the first test of \<^verbatim>\<open>initlog\<close> is never true.\<close>

definition initlog :: "'z log_state_scheme \<Rightarrow> (unit, 'z log_state_scheme) outcome" where
  "initlog s =
     (if 4 + 4 * LOGSIZE \<ge> BSIZE then Panic ''initlog: too big logheader''
      else obind (readsb ROOTDEV (initlock LogLock s)) (\<lambda>sb s.
           recover_from_log (s\<lparr>log_start := sb_size sb - sb_nlog sb, log_size := sint (sb_nlog sb),
             log_dev := ROOTDEV\<rparr>)))"

text \<open>\<open>begin_trans_body\<close> is the loop of \<^verbatim>\<open>begin_trans\<close> and its tail, entered with the lock held.\<close>

definition begin_trans_body :: "'z log_state_scheme \<Rightarrow> (unit, 'z log_state_scheme) outcome" where
  "begin_trans_body s =
     (if log_busy s then sleep ChanLog (Some LogLock) s
      else release LogLock (s\<lparr>log_busy := True\<rparr>))"

definition begin_trans :: "'z log_state_scheme \<Rightarrow> (unit, 'z log_state_scheme) outcome" where
  "begin_trans s = obind (acquire LogLock s) (\<lambda>_ s. begin_trans_body s)"

definition begin_trans_resume :: "'z log_state_scheme \<Rightarrow> (unit, 'z log_state_scheme) outcome" where
  "begin_trans_resume s = obind (sleep_resume LogLock s) (\<lambda>_ s. begin_trans_body s)"

definition commit_trans :: "'z log_state_scheme \<Rightarrow> (unit, 'z log_state_scheme) outcome" where
  "commit_trans s =
     obind (if lh_n s > 0
            then obind (write_head s) (\<lambda>_ s.
                 obind (install_trans s) (\<lambda>_ s.
                 write_head (s\<lparr>lh_n := 0\<rparr>)))
            else Ok () s) (\<lambda>_ s.
     obind (acquire LogLock s) (\<lambda>_ s.
     obind (wakeup ChanLog (s\<lparr>log_busy := False\<rparr>)) (\<lambda>_ s.
     release LogLock s)))"

text \<open>The search of \<^verbatim>\<open>log_write\<close>: the entry of the sector, or the first unused one.\<close>

fun log_index :: "uint \<Rightarrow> uint list \<Rightarrow> nat" where
  "log_index n [] = 0"
| "log_index n (x # xs) = (if x = n then 0 else Suc (log_index n xs))"

definition log_write :: "nat \<Rightarrow> 'z log_state_scheme \<Rightarrow> (unit, 'z log_state_scheme) outcome" where
  "log_write b s =
     (if lh_n s \<ge> int LOGSIZE \<or> lh_n s \<ge> log_size s - 1 then Panic ''too big a transaction''
      else if \<not> log_busy s then Panic ''write outside of trans''
      else let bp = bufs s ! b;
               i = log_index (b_sector bp) (take (nat (lh_n s)) (lh_sector s));
               s = s\<lparr>lh_sector := (lh_sector s)[i := b_sector bp]\<rparr>
           in obind (bread (b_dev bp) (log_block s i) s) (\<lambda>lbuf s.
              let s = set_data lbuf (b_data (bufs s ! b)) s
              in obind (bwrite lbuf s) (\<lambda>_ s.
                 obind (brelse lbuf s) (\<lambda>_ s.
                 let s = (if int i = lh_n s then s\<lparr>lh_n := lh_n s + 1\<rparr> else s)
                 in Ok () (set_dirty b s)))))"

section \<open>Geometry of the log\<close>

definition log_geom :: "'z log_state_scheme \<Rightarrow> bool" where
  "log_geom s \<longleftrightarrow> log_dev s = 1 \<and> length (lh_sector s) = LOGSIZE \<and> 1 \<le> log_size s \<and>
     unat (log_start s) + nat (log_size s) \<le> unat (disksize s)"

definition log_area :: "'z log_state_scheme \<Rightarrow> uint set" where
  "log_area s = {n. unat (log_start s) \<le> unat n \<and> unat n < unat (log_start s) + nat (log_size s)}"

text \<open>The sectors recorded in the in-memory header.\<close>

definition logged :: "'z log_state_scheme \<Rightarrow> uint list" where
  "logged s = take (nat (lh_n s)) (lh_sector s)"

lemma log_geomD:
  assumes "log_geom s"
  shows "log_dev s = 1" "length (lh_sector s) = LOGSIZE" "1 \<le> log_size s"
    "unat (log_start s) + nat (log_size s) \<le> unat (disksize s)"
  using assms by (simp_all add: log_geom_def)

lemma log_block_unat:
  assumes "log_geom s" "int i < log_size s - 1"
  shows "unat (log_block s i) = unat (log_start s) + i + 1"
proof -
  have b: "unat (log_start s) + i + 1 < 2 ^ 32"
    using assms(2) log_geomD(3,4) [OF assms(1)] unat_uint_less [of "disksize s"] by linarith
  then have "unat (of_nat (i + 1) :: uint) = i + 1" by (simp only: unat_of_nat) simp
  moreover have "log_block s i = log_start s + of_nat (i + 1)" by (simp add: log_block_def)
  ultimately show ?thesis
    using b by (simp add: unat_add_lem [THEN iffD1])
qed

lemma log_block_range:
  assumes "log_geom s" "int i < log_size s - 1"
  shows "log_block s i \<in> log_area s" "log_block s i < disksize s" "log_block s i \<noteq> log_start s"
proof -
  note u = log_block_unat [OF assms]
  have i: "i + 1 < nat (log_size s)" using assms(2) by linarith
  show "log_block s i \<in> log_area s" using u i by (simp add: log_area_def)
  show "log_block s i < disksize s"
    using u i log_geomD(4) [OF assms(1)] by (simp add: word_less_nat_alt)
  show "log_block s i \<noteq> log_start s" using u by auto
qed

lemma log_block_inj:
  assumes "log_geom s" "int i < log_size s - 1" "int j < log_size s - 1" "log_block s i = log_block s j"
  shows "i = j"
proof -
  have "unat (log_start s) + i + 1 = unat (log_start s) + j + 1"
    by (metis assms log_block_unat)
  then show ?thesis by simp
qed

lemma log_start_range:
  assumes "log_geom s"
  shows "log_start s \<in> log_area s" "log_start s < disksize s"
proof -
  have "0 < nat (log_size s)" using log_geomD(3) [OF assms] by linarith
  then show "log_start s \<in> log_area s" "log_start s < disksize s"
    using log_geomD(4) [OF assms] by (simp_all add: log_area_def word_less_nat_alt)
qed

section \<open>Frames\<close>

text \<open>Continuations of a \<^verbatim>\<open>bread\<close> need only agree on the states it can produce.\<close>

lemma bread_cong:
  assumes "can_read n s"
    and "\<And>b u. bread 1 n s = Ok b u \<Longrightarrow> bio_rel s u \<Longrightarrow> cache_inv u \<Longrightarrow> held s b = None \<Longrightarrow>
      held u = (held s)(b \<mapsto> n) \<Longrightarrow> blk u = blk s \<Longrightarrow> f b u = g b u"
  shows "obind (bread 1 n s) f = obind (bread 1 n s) g"
proof -
  obtain b u where "bread 1 n s = Ok b u" "bio_rel s u" "cache_inv u" "held s b = None"
    "held u = (held s)(b \<mapsto> n)" "blk u = blk s"
    using bread_abs [of s n] assms(1) by (auto simp: can_read_def)
  then show ?thesis using assms(2) by simp
qed

text \<open>The log's fields are untouched by the cache, and conversely.\<close>

lemma bio_rel_log:
  assumes "bio_rel s t"
  shows "log_start t = log_start s" "log_size t = log_size s" "log_busy t = log_busy s"
    "log_dev t = log_dev s" "lh_n t = lh_n s" "lh_sector t = lh_sector s"
  using assms by (cases s; cases t; simp add: bio_rel_def)+

lemma bio_rel_log_derived:
  assumes "bio_rel s t"
  shows "log_geom t = log_geom s" "log_area t = log_area s" "logged t = logged s" "log_block t = log_block s"
  using bio_rel_log [OF assms] bio_rel_disksize [OF assms]
  by (auto simp: log_geom_def log_area_def logged_def log_block_def)

lemma log_fields_bio [simp]:
  "cache_inv (s\<lparr>lh_n := x\<rparr>) = cache_inv s" "cache_inv (s\<lparr>lh_sector := y\<rparr>) = cache_inv s"
  "held (s\<lparr>lh_n := x\<rparr>) = held s" "held (s\<lparr>lh_sector := y\<rparr>) = held s"
  "pinned (s\<lparr>lh_n := x\<rparr>) = pinned s" "pinned (s\<lparr>lh_sector := y\<rparr>) = pinned s"
  "blk (s\<lparr>lh_n := x\<rparr>) = blk s" "blk (s\<lparr>lh_sector := y\<rparr>) = blk s"
  by (auto simp: cache_inv_def bcache_ok_def buf_ok_def quiet_def busy_set_def held_def pinned_def dirty_set_def
      blk_def fun_eq_iff split: option.split)

lemma bio_rel_lh: "bio_rel s t \<Longrightarrow> bio_rel (s\<lparr>lh_n := x\<rparr>) (t\<lparr>lh_n := x\<rparr>)"
  "bio_rel s t \<Longrightarrow> bio_rel (s\<lparr>lh_sector := y\<rparr>) (t\<lparr>lh_sector := y\<rparr>)"
  by (cases s; cases t; auto simp: bio_rel_def)+

lemma log_area_fields [simp]:
  "log_area (s\<lparr>lh_n := x\<rparr>) = log_area s" "log_area (s\<lparr>lh_sector := y\<rparr>) = log_area s"
  "log_block (s\<lparr>lh_n := x\<rparr>) = log_block s" "log_block (s\<lparr>lh_sector := y\<rparr>) = log_block s"
  by (auto simp: log_area_def log_block_def fun_eq_iff)

section \<open>The header block\<close>

lemma head_fold:
  assumes "length d = BSIZE" "k \<le> LOGSIZE"
  shows "length (fold (\<lambda>i d. set_word (Suc i) (secs ! i) d) [0..<k] d) = BSIZE \<and>
    (\<forall>j \<le> LOGSIZE. get_word (fold (\<lambda>i d. set_word (Suc i) (secs ! i) d) [0..<k] d) j =
      (if 0 < j \<and> j \<le> k then secs ! (j - 1) else get_word d j))"
  using assms(2)
proof (induction k)
  case (Suc k)
  then show ?case by (auto simp: get_set_word BSIZE_def LOGSIZE_def)
qed (simp add: assms(1))

lemma head_bytes_ok:
  assumes "length d = BSIZE" "n \<le> int LOGSIZE"
  shows "length (head_bytes n secs d) = BSIZE" "get_word (head_bytes n secs d) 0 = word_of_int n"
    and "i < nat n \<Longrightarrow> get_word (head_bytes n secs d) (Suc i) = secs ! i"
proof -
  let ?d = "set_word 0 (word_of_int n) d"
  have d: "length ?d = BSIZE" using assms by (simp add: BSIZE_def)
  note h = head_fold [OF d, of "nat n" secs]
  show "length (head_bytes n secs d) = BSIZE" using h assms by (simp add: head_bytes_def)
  show "get_word (head_bytes n secs d) 0 = word_of_int n"
    using h assms get_set_word [of 0 d 0 "word_of_int n"] by (simp add: head_bytes_def BSIZE_def)
  show "get_word (head_bytes n secs d) (Suc i) = secs ! i" if "i < nat n"
    using h assms that by (simp add: head_bytes_def)
qed

lemma write_head_ok:
  assumes "cache_inv s" "log_geom s" "held s = Map.empty" "log_start s \<notin> pinned s" "card (pinned s) < NBUF"
    and "lh_n s \<le> int LOGSIZE"
  defines "h \<equiv> head_bytes (lh_n s) (lh_sector s) (memdisk s (log_start s))"
  shows "\<exists>t. write_head s = Ok () t \<and> cache_inv t \<and> held t = Map.empty \<and> pinned t = pinned s \<and>
    blk t = (blk s)(log_start s := h) \<and> memdisk t = (memdisk s)(log_start s := h) \<and>
    writes t = writes s @ [(log_start s, h)] \<and> bio_rel s t"
proof -
  let ?g = "head_bytes (lh_n s) (lh_sector s)"
  have c: "blk s (log_start s) = memdisk s (log_start s)"
    using assms by (intro bc.clean) auto
  have "length (memdisk s (log_start s)) = BSIZE" using assms(1) by (simp add: cache_inv_def bcache_ok_def)
  then have len: "length (?g (blk s (log_start s))) = BSIZE" using c assms(6) head_bytes_ok(1) by simp
  obtain t where t: "\<And>f :: _ \<Rightarrow> (unit, _) outcome. obind (bread 1 (log_start s) s)
      (\<lambda>b u. obind (bwrite b (set_data b (?g (buf_data b u)) u)) (\<lambda>_ v.
      obind (brelse b v) (\<lambda>_ w. f w))) = f t" "cache_inv t" "held t = held s" "pinned t = pinned s - {log_start s}"
    "blk t = (blk s)(log_start s := h)" "memdisk t = (memdisk s)(log_start s := h)"
    "writes t = writes s @ [(log_start s, h)]" "bio_rel s t"
    using bc.write_block [where g = ?g, OF assms(1) log_start_range(2) [OF assms(2)] _ _ len] assms(3-5) c h_def
    by auto
  have "write_head s = obind (bread 1 (log_start s) s) (\<lambda>b u. obind (bwrite b (set_data b (?g (buf_data b u)) u)) (\<lambda>_ v.
      obind (brelse b v) (\<lambda>_ w. Ok () w)))"
    using assms log_start_range(2) [OF assms(2)]
    by (auto simp: write_head_def log_geom_def buf_data_def can_read_def bio_rel_log intro!: bread_cong)
  then have "write_head s = Ok () t" using t(1) [of "Ok ()"] by simp
  then show ?thesis using t assms(3,4) by auto
qed

section \<open>Installing the log\<close>

definition apply_writes :: "(uint \<times> uchar list) list \<Rightarrow> (uint \<Rightarrow> uchar list) \<Rightarrow> uint \<Rightarrow> uchar list" where
  "apply_writes ws D = fold (\<lambda>(n, d) D. D(n := d)) ws D"

lemma apply_writes_simps [simp]:
  "apply_writes [] D = D" "apply_writes ((n, d) # ws) D = apply_writes ws (D(n := d))"
  "apply_writes (us @ vs) D = apply_writes vs (apply_writes us D)"
  by (simp_all add: apply_writes_def)

lemma apply_writes_other: "n \<notin> fst ` set ws \<Longrightarrow> apply_writes ws D n = D n"
  by (induction ws arbitrary: D) auto

lemma apply_writes_cong: "n \<in> fst ` set ws \<Longrightarrow> apply_writes ws D n = apply_writes ws E n"
proof (induction ws arbitrary: D E)
  case (Cons w ws)
  then show ?case
    by (cases w; cases "n \<in> fst ` set ws") (auto simp: apply_writes_other)
qed simp

text \<open>The writes that the installation of the entries \<open>ts\<close> makes, from the log blocks of a disk.\<close>

definition install_writes :: "'z log_state_scheme \<Rightarrow> nat list \<Rightarrow> (uint \<times> uchar list) list" where
  "install_writes s ts = map (\<lambda>i. (lh_sector s ! i, memdisk s (log_block s i))) ts"

definition entries_ok :: "'z log_state_scheme \<Rightarrow> nat list \<Rightarrow> bool" where
  "entries_ok s ts \<longleftrightarrow> (\<forall>i \<in> set ts. i < LOGSIZE \<and> int i < log_size s - 1 \<and>
     lh_sector s ! i < disksize s \<and> lh_sector s ! i \<notin> log_area s)"

lemma install_step:
  assumes "cache_inv s" "log_geom s" "held s = Map.empty" "entries_ok s (i # ts)"
    and "pinned s \<inter> log_area s = {}" "card (pinned s) < NBUF" "finite (pinned s)"
    and "Suc (card (pinned s)) < NBUF \<or> lh_sector s ! i \<in> pinned s"
  defines "m \<equiv> lh_sector s ! i" and "d \<equiv> memdisk s (log_block s i)"
  shows "\<exists>t. install_loop (i # ts) s = install_loop ts t \<and> cache_inv t \<and> held t = Map.empty \<and>
    pinned t = pinned s - {m} \<and> blk t = (blk s)(m := d) \<and> memdisk t = (memdisk s)(m := d) \<and>
    writes t = writes s @ [(m, d)] \<and> bio_rel s t"
proof -
  let ?l = "log_block s i"
  have i: "i < LOGSIZE" "int i < log_size s - 1" "m < disksize s" "m \<notin> log_area s"
    using assms(4) by (auto simp: entries_ok_def m_def)
  note l = log_block_range [OF assms(2) i(2)]
  have nl: "?l \<notin> pinned s" "?l \<noteq> m" using l i assms(5) by auto
  have d: "blk s ?l = d" using nl assms(1,3) by (simp add: d_def bc.clean)
  have fin: "finite (ran (held s) \<union> pinned s)" using assms(3,7) by simp
  obtain t where t: "\<And>f :: _ \<Rightarrow> (unit, _) outcome. obind (bread 1 ?l s) (\<lambda>b u. obind (bread 1 m u) (\<lambda>c v.
      obind (bwrite c (set_data c (buf_data b v) v)) (\<lambda>_ w. obind (brelse b w) (\<lambda>_ x.
      obind (brelse c x) (\<lambda>_ y. f y))))) = f t"
    "cache_inv t" "held t = held s" "pinned t = pinned s - {m}" "blk t = (blk s)(m := d)"
    "memdisk t = (memdisk s)(m := d)" "writes t = writes s @ [(m, d)]" "bio_rel s t"
    using bc.copy_block [OF assms(1) l(2) i(3) nl(2), OF _ _ _ nl(1) _ fin] assms(3,6,8) d m_def by auto
  have "install_loop (i # ts) s = obind (bread 1 ?l s) (\<lambda>b u. obind (bread 1 m u) (\<lambda>c v.
      obind (bwrite c (set_data c (buf_data b v) v)) (\<lambda>_ w. obind (brelse b w) (\<lambda>_ x.
      obind (brelse c x) (\<lambda>_ y. install_loop ts y)))))"
    using assms i l nl
    by (auto simp: log_geomD(1) buf_data_def can_read_def bio_rel_log m_def intro!: bread_cong)
  then have "install_loop (i # ts) s = install_loop ts t" using t(1) by simp
  then show ?thesis using t assms(3) by auto
qed

lemma install_loop_ok:
  assumes "cache_inv s" "log_geom s" "held s = Map.empty" "entries_ok s ts"
    and "pinned s \<inter> log_area s = {}" "card (pinned s) < NBUF" "finite (pinned s)"
    and "Suc (card (pinned s)) < NBUF \<or> (\<forall>i \<in> set ts. lh_sector s ! i \<in> pinned s)"
  shows "\<exists>t. install_loop ts s = Ok () t \<and> cache_inv t \<and> held t = Map.empty \<and>
    pinned t = pinned s - set (map ((!) (lh_sector s)) ts) \<and>
    blk t = apply_writes (install_writes s ts) (blk s) \<and>
    memdisk t = apply_writes (install_writes s ts) (memdisk s) \<and>
    writes t = writes s @ install_writes s ts \<and> bio_rel s t"
  using assms
proof (induction ts arbitrary: s)
  case (Cons i ts)
  let ?m = "lh_sector s ! i" and ?d = "memdisk s (log_block s i)"
  obtain u where u: "install_loop (i # ts) s = install_loop ts u" "cache_inv u" "held u = Map.empty"
    "pinned u = pinned s - {?m}" "blk u = (blk s)(?m := ?d)" "memdisk u = (memdisk s)(?m := ?d)"
    "writes u = writes s @ [(?m, ?d)]" "bio_rel s u"
    using install_step [OF Cons.prems(1-7)] Cons.prems(8) by auto
  note f = bio_rel_log [OF u(8)] bio_rel_log_derived [OF u(8)] bio_rel_disksize [OF u(8)]
  have e: "entries_ok u ts" "entries_ok s ts" using Cons.prems(4) f by (auto simp: entries_ok_def)
  have card: "card (pinned u) \<le> card (pinned s)"
    unfolding u(4) by (rule card_Diff1_le)
  have card1: "?m \<in> pinned s \<Longrightarrow> Suc (card (pinned u)) = card (pinned s)"
    unfolding u(4) using Cons.prems(7) by (rule card_Suc_Diff1)
  have m: "?m \<notin> log_area s" using Cons.prems(4) by (simp add: entries_ok_def)
  have iw: "install_writes u ts = install_writes s ts"
    unfolding install_writes_def
  proof (rule map_cong [OF refl])
    fix j assume "j \<in> set ts"
    then have "log_block s j \<in> log_area s"
      using e(2) log_block_range(1) [OF Cons.prems(2)] by (simp add: entries_ok_def)
    then show "(lh_sector u ! j, memdisk u (log_block u j)) = (lh_sector s ! j, memdisk s (log_block s j))"
      using m by (auto simp: u(6) f(6,10))
  qed
  have "\<exists>t. install_loop ts u = Ok () t \<and> cache_inv t \<and> held t = Map.empty \<and>
    pinned t = pinned u - set (map ((!) (lh_sector u)) ts) \<and>
    blk t = apply_writes (install_writes u ts) (blk u) \<and>
    memdisk t = apply_writes (install_writes u ts) (memdisk u) \<and>
    writes t = writes u @ install_writes u ts \<and> bio_rel u t"
  proof (rule Cons.IH [OF u(2) _ u(3) e(1)])
    show "log_geom u" using Cons.prems(2) f by simp
    show "pinned u \<inter> log_area u = {}" using Cons.prems(5) f(8) u(4) by auto
    show "card (pinned u) < NBUF" using card Cons.prems(6) by simp
    show "finite (pinned u)" using Cons.prems(7) u(4) by simp
    show "Suc (card (pinned u)) < NBUF \<or> (\<forall>i \<in> set ts. lh_sector u ! i \<in> pinned u)"
      using Cons.prems(6,8) card card1 by auto
  qed
  then obtain t where t: "install_loop ts u = Ok () t" "cache_inv t" "held t = Map.empty"
    "pinned t = pinned u - set (map ((!) (lh_sector s)) ts)"
    "blk t = apply_writes (install_writes s ts) (blk u)"
    "memdisk t = apply_writes (install_writes s ts) (memdisk u)"
    "writes t = writes u @ install_writes s ts" "bio_rel u t"
    using iw f by auto
  have "install_writes s (i # ts) = (?m, ?d) # install_writes s ts" by (simp add: install_writes_def)
  then show ?case
    using u t bio_rel_trans [OF u(8) t(8)] by (intro exI [of _ t]) (auto simp del: install_loop.simps)
qed (simp add: install_writes_def)

section \<open>Recovery\<close>

text \<open>What recovery makes of a disk whose log starts at \<open>st\<close>: the specification of \<^verbatim>\<open>recover_from_log\<close>.\<close>

definition disk_n :: "uint \<Rightarrow> (uint \<Rightarrow> uchar list) \<Rightarrow> int" where
  "disk_n st D = sint (get_word (D st) 0)"

definition disk_writes :: "uint \<Rightarrow> (uint \<Rightarrow> uchar list) \<Rightarrow> (uint \<times> uchar list) list" where
  "disk_writes st D =
     map (\<lambda>i. (get_word (D st) (Suc i), D (st + of_nat i + 1))) [0..<nat (disk_n st D)]"

definition rec_disk :: "uint \<Rightarrow> (uint \<Rightarrow> uchar list) \<Rightarrow> uint \<Rightarrow> uchar list" where
  "rec_disk st D = (apply_writes (disk_writes st D) D)(st := set_word 0 0 (D st))"

text \<open>A disk whose header names at most as many blocks as the log holds, none of them in the log.\<close>

definition disk_ok :: "'z log_state_scheme \<Rightarrow> (uint \<Rightarrow> uchar list) \<Rightarrow> bool" where
  "disk_ok s D \<longleftrightarrow> disk_n (log_start s) D \<le> int LOGSIZE \<and> disk_n (log_start s) D \<le> log_size s - 1 \<and>
     (\<forall>i < nat (disk_n (log_start s) D). get_word (D (log_start s)) (Suc i) < disksize s \<and>
        get_word (D (log_start s)) (Suc i) \<notin> log_area s)"

definition with_head :: "int \<Rightarrow> uchar list \<Rightarrow> 'z log_state_scheme \<Rightarrow> 'z log_state_scheme" where
  "with_head n d s = s\<lparr>lh_n := n, lh_sector := map (\<lambda>i. if int i < n then get_word d (Suc i)
     else lh_sector s ! i) [0..<LOGSIZE]\<rparr>"

lemma with_head_frame [simp]:
  "cache_inv (with_head n d s) = cache_inv s" "held (with_head n d s) = held s"
  "pinned (with_head n d s) = pinned s" "blk (with_head n d s) = blk s" "memdisk (with_head n d s) = memdisk s"
  "writes (with_head n d s) = writes s" "log_area (with_head n d s) = log_area s"
  "log_block (with_head n d s) = log_block s" "log_start (with_head n d s) = log_start s"
  "disksize (with_head n d s) = disksize s" "log_size (with_head n d s) = log_size s"
  "lh_n (with_head n d s) = n"
  by (simp_all add: with_head_def)

lemma log_geom_with_head [simp]: "log_geom s \<Longrightarrow> log_geom (with_head n d s)"
  by (simp add: log_geom_def with_head_def)

lemma bio_rel_with_head: "bio_rel s t \<Longrightarrow> bio_rel (with_head n d s) (with_head n d t)"
  using bio_rel_log(6) [of s t] by (simp add: with_head_def bio_rel_lh cong: if_cong)

lemma read_head_ok:
  assumes "cache_inv s" "log_geom s" "held s = Map.empty" "log_start s \<notin> pinned s" "card (pinned s) < NBUF"
    and "disk_n (log_start s) (memdisk s) \<le> int LOGSIZE"
  defines "h \<equiv> with_head (disk_n (log_start s) (memdisk s)) (memdisk s (log_start s)) s"
  shows "\<exists>t. read_head s = Ok () t \<and> read_only h t"
proof -
  let ?st = "log_start s"
  let ?n = "disk_n ?st (memdisk s)"
  have c: "blk s ?st = memdisk s ?st" using assms by (intro bc.clean) auto
  obtain b u where u: "bread 1 ?st s = Ok b u" "cache_inv u" "held u = (held s)(b \<mapsto> ?st)"
    "pinned u = pinned s" "blk u = blk s" "memdisk u = memdisk s" "writes u = writes s" "bio_rel s u"
    using bread_abs [OF assms(1) log_start_range(2) [OF assms(2)]] assms(3-5) by auto
  have d: "b_data (bufs u ! b) = memdisk s ?st"
    using held_data(1) [OF u(2), of b ?st] u c by (simp add: buf_data_def)
  let ?u = "with_head ?n (memdisk s ?st) u"
  have "read_head s = brelse b ?u"
    using u(1) d assms(6) log_geomD(1) [OF assms(2)] by (simp add: read_head_def with_head_def disk_n_def Let_def cong: if_cong)
  moreover obtain t where "brelse b ?u = Ok () t" "cache_inv t" "held t = (held ?u)(b := None)"
    "pinned t = pinned ?u" "blk t = blk ?u" "memdisk t = memdisk ?u" "writes t = writes ?u" "bio_rel ?u t"
    using brelse_abs [of ?u b ?st] u c by auto
  moreover have "bio_rel h ?u" using bio_rel_with_head [OF u(8)] by (simp add: h_def)
  ultimately show ?thesis
    using u assms(3) by (auto simp: read_only_def h_def intro: bio_rel_trans)
qed

text \<open>Recovery of a machine that has just booted: nothing cached is newer than the disk.\<close>

lemma recover_ok:
  assumes "cache_inv s" "log_geom s" "held s = Map.empty" "pinned s = {}" "disk_ok s (memdisk s)"
  shows "\<exists>t. recover_from_log s = Ok () t \<and> cache_inv t \<and> held t = Map.empty \<and> pinned t = {} \<and>
    memdisk t = rec_disk (log_start s) (memdisk s) \<and> blk t = memdisk t \<and> lh_n t = 0 \<and>
    log_geom t \<and> log_start t = log_start s \<and> log_size t = log_size s \<and> log_busy t = log_busy s \<and>
    disksize t = disksize s"
proof -
  let ?st = "log_start s" and ?D = "memdisk s"
  let ?n = "disk_n ?st ?D"
  define h where "h = with_head ?n (?D ?st) s"
  have hs: "cache_inv h" "log_geom h" "held h = Map.empty" "pinned h = {}" "memdisk h = ?D" "lh_n h = ?n"
    "log_start h = ?st" "log_block h = log_block s" "log_area h = log_area s" "disksize h = disksize s"
    "log_size h = log_size s" "log_busy h = log_busy s"
    using assms by (simp_all add: h_def) (simp add: with_head_def)
  have sec: "lh_sector h ! i = get_word (?D ?st) (Suc i)" if "i < nat ?n" for i
  proof -
    have "i < LOGSIZE" using that assms(5) by (simp add: disk_ok_def) linarith
    then show ?thesis using that by (simp add: h_def with_head_def) linarith
  qed
  obtain u where u: "read_head s = Ok () u" "read_only h u"
    using read_head_ok [OF assms(1-3)] assms(4,5) by (auto simp: disk_ok_def NBUF_def h_def)
  note ru = u(2) [unfolded read_only_def]
  then have ur: "bio_rel h u" by blast
  note fu = bio_rel_log [OF ur] bio_rel_log_derived [OF ur] bio_rel_disksize [OF ur]
  have ent: "entries_ok u [0..<nat ?n]"
    using assms(5) sec fu hs by (auto simp: entries_ok_def disk_ok_def)
  have iw: "install_writes u [0..<nat ?n] = disk_writes ?st ?D"
    using sec fu hs ru by (auto simp: install_writes_def disk_writes_def log_block_def)
  obtain v where v: "install_trans u = Ok () v" "cache_inv v" "held v = Map.empty" "pinned v = {}"
    "memdisk v = apply_writes (disk_writes ?st ?D) ?D" "bio_rel u v"
    using install_loop_ok [of u "[0..<nat ?n]"] ru hs fu ent iw
    by (auto simp: install_trans_def NBUF_def)
  note fv = bio_rel_log [OF v(6)] bio_rel_log_derived [OF v(6)] bio_rel_disksize [OF v(6)]
  have st: "apply_writes (disk_writes ?st ?D) ?D ?st = ?D ?st"
  proof (rule apply_writes_other)
    have "?st \<in> log_area s" using log_start_range(1) [OF assms(2)] .
    then show "?st \<notin> fst ` set (disk_writes ?st ?D)"
      using assms(5) by (auto simp: disk_writes_def disk_ok_def)
  qed
  have hb: "head_bytes 0 x d = set_word 0 0 d" for x d by (simp add: head_bytes_def)
  let ?v = "v\<lparr>lh_n := 0\<rparr>"
  have "log_geom ?v" using fv fu hs(2) by (simp add: log_geom_def)
  then obtain t where t: "write_head ?v = Ok () t" "cache_inv t" "held t = Map.empty" "pinned t = {}"
    "memdisk t = (memdisk v)(?st := set_word 0 0 (?D ?st))" "bio_rel ?v t"
    using write_head_ok [of ?v] v fv fu hs st hb by (auto simp: NBUF_def)
  note ft = bio_rel_log [OF t(6)] bio_rel_log_derived [OF t(6)] bio_rel_disksize [OF t(6)]
  have "blk t = memdisk t" using bc.clean [OF t(2)] t(3,4) by auto
  moreover have "recover_from_log s = Ok () t" using u(1) v(1) t(1) by (simp add: recover_from_log_def)
  moreover have "memdisk t = rec_disk ?st ?D" using t(5) v(5) by (simp add: rec_disk_def)
  ultimately show ?thesis
    using t fv fu ft hs \<open>log_geom ?v\<close> by (intro exI [of _ t]) simp
qed

section \<open>Transactions\<close>

text \<open>
  The invariant inside a transaction. The in-memory header lists, without repetition, the blocks
  pinned in the cache; none of them is in the log area; the log block of each entry holds the
  block's current content, except for the blocks \<open>X\<close> that the caller has changed and not logged yet.
\<close>

definition log_inv :: "uint set \<Rightarrow> 'z log_state_scheme \<Rightarrow> bool" where
  "log_inv X s \<longleftrightarrow> cache_inv s \<and> log_geom s \<and> 0 \<le> lh_n s \<and> lh_n s \<le> int LOGSIZE \<and> lh_n s \<le> log_size s - 1 \<and>
     distinct (logged s) \<and> set (logged s) = pinned s \<and>
     (\<forall>m \<in> pinned s. m < disksize s \<and> m \<notin> log_area s) \<and>
     (\<forall>i < nat (lh_n s). lh_sector s ! i \<notin> X \<longrightarrow> memdisk s (log_block s i) = blk s (lh_sector s ! i)) \<and>
     ran (held s) \<inter> log_area s = {} \<and> X \<subseteq> ran (held s) \<and>
     (\<forall>m \<in> ran (held s) - X. m \<in> pinned s \<or> blk s m = memdisk s m)"

text \<open>
  What a transaction changes before it commits: the cache, the in-memory header and the log blocks;
  the header block and the home blocks on the disk stay as they are.
\<close>

definition txn_rel :: "'z log_state_scheme \<Rightarrow> 'z log_state_scheme \<Rightarrow> bool" where
  "txn_rel s t \<longleftrightarrow> t = s\<lparr>ptable := ptable t, memdisk := memdisk t, bufs := bufs t, writes := writes t,
       lh_n := lh_n t, lh_sector := lh_sector t\<rparr> \<and> only_woken (ptable s) (ptable t) \<and>
     (\<forall>m. m \<notin> log_area s \<or> m = log_start s \<longrightarrow> memdisk t m = memdisk s m)"

lemma txn_rel_fields:
  assumes "txn_rel s t"
  shows "log_start t = log_start s" "log_size t = log_size s" "log_busy t = log_busy s"
    "log_dev t = log_dev s" "disksize t = disksize s" "log_area t = log_area s" "log_block t = log_block s"
    "quiet t = quiet s"
  using assms by (cases s; cases t; auto simp: txn_rel_def log_area_def log_block_def fun_eq_iff quiet_def)+

lemma txn_rel_refl [simp]: "txn_rel s s"
  by (simp add: txn_rel_def)

lemma txn_rel_trans [trans]:
  assumes "txn_rel s t" "txn_rel t u"
  shows "txn_rel s u"
proof -
  have "u = s\<lparr>ptable := ptable u, memdisk := memdisk u, bufs := bufs u, writes := writes u,
       lh_n := lh_n u, lh_sector := lh_sector u\<rparr>"
    using assms by (cases s; cases t; cases u) (auto simp: txn_rel_def)
  moreover have "only_woken (ptable s) (ptable u)"
    using assms only_woken_trans by (auto simp: txn_rel_def)
  moreover have "\<forall>m. m \<notin> log_area s \<or> m = log_start s \<longrightarrow> memdisk u m = memdisk s m"
    using assms txn_rel_fields(1,6) [OF assms(1)] by (auto simp: txn_rel_def)
  ultimately show ?thesis by (simp add: txn_rel_def)
qed

lemma bio_rel_txn:
  assumes "bio_rel s t" "\<And>m. m \<notin> log_area s \<or> m = log_start s \<Longrightarrow> memdisk t m = memdisk s m"
  shows "txn_rel s t"
  using assms by (cases s; cases t) (auto simp: bio_rel_def txn_rel_def)

lemma log_index_nth: "n \<in> set xs \<Longrightarrow> log_index n xs < length xs \<and> xs ! log_index n xs = n"
  by (induction xs) auto

lemma log_index_new: "n \<notin> set xs \<Longrightarrow> log_index n xs = length xs"
  by (induction xs) auto

lemma length_logged:
  "log_inv X s \<Longrightarrow> length (logged s) = nat (lh_n s)"
  using log_geomD(2) [of s] by (simp add: log_inv_def logged_def) linarith

lemma nth_logged: "i < nat (lh_n s) \<Longrightarrow> logged s ! i = lh_sector s ! i"
  by (simp add: logged_def)

text \<open>The header after \<^verbatim>\<open>log_write\<close> has recorded a sector: the entry is reused or appended.\<close>

lemma logged_update:
  fixes m :: uint
  assumes "length secs = LOGSIZE" "k < LOGSIZE" "distinct (take k secs)"
  defines "i \<equiv> log_index m (take k secs)"
  defines "k' \<equiv> (if i = k then Suc k else k)"
  shows "i \<le> k" "take k' (secs[i := m]) = (if m \<in> set (take k secs) then take k secs else take k secs @ [m])"
    "i = k \<longleftrightarrow> m \<notin> set (take k secs)" "i < k \<Longrightarrow> secs ! i = m"
proof -
  have len: "length (take k secs) = k" using assms by simp
  have old: "i < k" "secs ! i = m" if "m \<in> set (take k secs)"
    using log_index_nth [OF that] len by (auto simp: i_def)
  have new: "i = k" if "m \<notin> set (take k secs)"
    using log_index_new [OF that] len by (simp add: i_def)
  show "i \<le> k" "i = k \<longleftrightarrow> m \<notin> set (take k secs)" using old new by fastforce+
  show "secs ! i = m" if "i < k" using old new that by fastforce
  show "take k' (secs[i := m]) = (if m \<in> set (take k secs) then take k secs else take k secs @ [m])"
  proof (cases "m \<in> set (take k secs)")
    case True
    moreover have "secs[i := m] = secs" using old(2) [OF True] list_update_id [of secs i] by simp
    ultimately show ?thesis using old(1) [OF True] by (simp add: k'_def)
  next
    case False
    then show ?thesis using new [OF False] assms by (simp add: k'_def take_Suc_conv_app_nth)
  qed
qed

text \<open>The run of \<^verbatim>\<open>log_write\<close>: the entry of the header, the copy of the block to the log, the new count and the mark.\<close>

lemma log_write_exec:
  fixes s :: "'z log_state_scheme"
  assumes "cache_inv s" "log_busy s" "held s b = Some m" "lh_n s < int LOGSIZE" "lh_n s < log_size s - 1"
    and "card (ran (held s) \<union> pinned s) < NBUF"
  defines "i \<equiv> log_index m (logged s)"
  defines "l \<equiv> log_block s i" and "s1 \<equiv> s\<lparr>lh_sector := (lh_sector s)[i := m]\<rparr>"
  assumes "l \<notin> ran (held s)" "l \<notin> pinned s" "l < disksize s"
  shows "\<exists>t. log_write b s = Ok () (set_dirty b (if int i = lh_n s then t\<lparr>lh_n := lh_n s + 1\<rparr> else t)) \<and>
    cache_inv t \<and> held t = held s \<and> pinned t = pinned s \<and> blk t = (blk s)(l := blk s m) \<and>
    memdisk t = (memdisk s)(l := blk s m) \<and> writes t = writes s @ [(l, blk s m)] \<and> bio_rel s1 t"
proof -
  have s1: "cache_inv s1" "held s1 = held s" "pinned s1 = pinned s" "blk s1 = blk s" "disksize s1 = disksize s"
    "memdisk s1 = memdisk s" "writes s1 = writes s" "log_block s1 = log_block s" "lh_n s1 = lh_n s"
    using assms(1) by (simp_all add: s1_def)
  have len: "length ((\<lambda>_. blk s m) (blk s1 l)) = BSIZE" using held_data [OF assms(1,3)] by simp
  obtain t where t: "\<And>f :: _ \<Rightarrow> (unit, _) outcome. obind (bread 1 l s1) (\<lambda>c u.
      obind (bwrite c (set_data c (blk s m) u)) (\<lambda>_ v. obind (brelse c v) (\<lambda>_ w. f w))) = f t"
    "cache_inv t" "held t = held s" "pinned t = pinned s" "blk t = (blk s)(l := blk s m)"
    "memdisk t = (memdisk s)(l := blk s m)" "writes t = writes s @ [(l, blk s m)]" "bio_rel s1 t"
    using bc.write_block [where g = "\<lambda>_. blk s m" and n = l, OF s1(1) _ _ _ len] assms(6,10-12) s1 by auto
  have bf: "b_sector (bufs s ! b) = m" "b_dev (bufs s ! b) = 1"
    using held_busy [OF assms(3)] assms(1) valid_buf(1) [of s b] by (auto simp: cache_inv_def busy_set_def)
  have cr: "can_read l s1" using s1 assms(6,10-12) by (simp add: can_read_def)
  let ?f = "\<lambda>w :: 'z log_state_scheme. Ok () (set_dirty b (if int i = lh_n w then w\<lparr>lh_n := lh_n w + 1\<rparr> else w)) :: (unit, 'z log_state_scheme) outcome"
  have "log_write b s = obind (bread 1 l s1) (\<lambda>c u. obind (bwrite c (set_data c (b_data (bufs u ! b)) u)) (\<lambda>_ v. obind (brelse c v) (\<lambda>_ w. ?f w)))"
    using assms(2,4,5) bf by (simp add: log_write_def Let_def logged_def i_def s1_def l_def)
  also have "\<dots> = obind (bread 1 l s1) (\<lambda>c u. obind (bwrite c (set_data c (blk s m) u)) (\<lambda>_ v. obind (brelse c v) (\<lambda>_ w. ?f w)))"
  proof (rule bread_cong [OF cr])
    fix c and u :: "'z log_state_scheme"
    assume u: "cache_inv u" "held s1 c = None" "held u = (held s1)(c \<mapsto> l)" "blk u = blk s1"
    have "held u b = Some m" using u s1 assms(3) by auto
    then have "b_data (bufs u ! b) = blk s m" using held_data(1) [OF u(1)] u s1 by (simp add: buf_data_def)
    then show "obind (bwrite c (set_data c (b_data (bufs u ! b)) u)) (\<lambda>_ v. obind (brelse c v) (\<lambda>_ w. ?f w)) =
      obind (bwrite c (set_data c (blk s m) u)) (\<lambda>_ v. obind (brelse c v) (\<lambda>_ w. ?f w))" by simp
  qed
  also have "\<dots> = ?f t" by (rule t(1))
  also have "lh_n t = lh_n s" using bio_rel_log [OF t(8)] s1 by simp
  finally show ?thesis using t(2-8) by blast
qed

text \<open>The log keeps the contents of the blocks that its header names.\<close>

lemma log_entries_kept:
  fixes s :: "'z log_state_scheme" and t :: "'z log_state_scheme"
  assumes "log_inv X s" "lh_n s < log_size s - 1" "lh_n s < int LOGSIZE" "m \<notin> log_area s"
  defines "i \<equiv> log_index m (logged s)" and "k \<equiv> nat (lh_n s)"
  assumes "i \<le> k" and "lh_sector t = (lh_sector s)[i := m]" "nat (lh_n t) = (if i = k then Suc k else k)" "log_block t = log_block s"
    and "memdisk t = (memdisk s)(log_block s i := blk s m)" "blk t = (blk s)(log_block s i := blk s m)"
    and "j < nat (lh_n t)" "lh_sector t ! j \<notin> X - {m}"
  shows "memdisk t (log_block t j) = blk t (lh_sector t ! j)"
proof -
  note L = assms(1) [unfolded log_inv_def]
  have geo: "log_geom s" and k: "int k = lh_n s" "k < LOGSIZE" using L assms(3) by (auto simp: k_def)
  have isz: "int i < log_size s - 1" using assms(7) k assms(2) by linarith
  note lr = log_block_range [OF geo isz]
  have jk: "j \<le> k" "j = k \<Longrightarrow> i = k" using assms(13,9) by (auto split: if_splits)
  have jsz: "int j < log_size s - 1" using jk k assms(2) by linarith
  show ?thesis
  proof (cases "j = i")
    case True
    then have "lh_sector t ! j = m" using assms(7,8) k log_geomD(2) [OF geo] by simp
    then show ?thesis using True lr assms(4) by (auto simp: assms(10-12))
  next
    case False
    then have jk': "j < k" using jk by force
    have sj: "lh_sector t ! j = lh_sector s ! j" using False by (simp add: assms(8))
    have pj: "lh_sector s ! j \<in> pinned s"
      using L jk' length_logged [OF assms(1)] nth_logged [of j s] nth_mem [of j "logged s"] by (simp add: k_def)
    have ne: "lh_sector s ! j \<noteq> m" using False jk' L
      by (metis log_index_nth assms(1) i_def k_def length_logged nth_eq_iff_index_eq nth_logged pj)
    have "log_block s j \<noteq> log_block s i" using log_block_inj [OF geo jsz isz] False by auto
    moreover have "lh_sector s ! j \<noteq> log_block s i" using pj lr(1) L by auto
    ultimately show ?thesis using L jk' assms(14) ne sj by (auto simp: assms(10-12) k_def)
  qed
qed

lemma log_write_ok:
  fixes s :: "'z log_state_scheme"
  assumes "log_inv X s" "log_busy s" "held s b = Some m" "lh_n s < int LOGSIZE" "lh_n s < log_size s - 1"
    and "card (ran (held s) \<union> pinned s) < NBUF"
  shows "\<exists>t. log_write b s = Ok () t \<and> log_inv (X - {m}) t \<and> txn_rel s t \<and> held t = held s \<and>
    pinned t = insert m (pinned s) \<and> (\<forall>n. n \<notin> log_area s \<longrightarrow> blk t n = blk s n) \<and>
    lh_n t = (if m \<in> pinned s then lh_n s else lh_n s + 1) \<and> length (writes t) = Suc (length (writes s))"
proof -
  note L = assms(1) [unfolded log_inv_def]
  have ci: "cache_inv s" and geo: "log_geom s" using L by auto
  define k where "k = nat (lh_n s)"
  define i where "i = log_index m (logged s)"
  have k: "k < LOGSIZE" "int k = lh_n s" using L assms(4) by (auto simp: k_def)
  note lu = logged_update [of "lh_sector s" k m, folded logged_def [of s, folded k_def], folded i_def]
  have lu': "i \<le> k" "take (if i = k then Suc k else k) ((lh_sector s)[i := m]) =
      (if m \<in> pinned s then logged s else logged s @ [m])" "i = k \<longleftrightarrow> m \<notin> pinned s"
    using lu L k log_geomD(2) [OF geo] by auto
  define l where "l = log_block s i"
  have isz: "int i < log_size s - 1" using lu'(1) k assms(5) by linarith
  note lr = log_block_range [OF geo isz, folded l_def]
  have m: "m \<notin> log_area s" "m < disksize s" using L assms(3) held_data(3) [OF ci assms(3)] by (auto simp: ran_def)
  have lh: "l \<notin> ran (held s)" "l \<notin> pinned s" using L lr(1) by auto
  obtain t0 where t0: "log_write b s = Ok () (set_dirty b (if int i = lh_n s then t0\<lparr>lh_n := lh_n s + 1\<rparr> else t0))"
    "cache_inv t0" "held t0 = held s" "pinned t0 = pinned s" "blk t0 = (blk s)(l := blk s m)"
    "memdisk t0 = (memdisk s)(l := blk s m)" "writes t0 = writes s @ [(l, blk s m)]" "bio_rel (s\<lparr>lh_sector := (lh_sector s)[i := m]\<rparr>) t0"
    using log_write_exec [OF ci assms(2-6)] lh lr(2) unfolding l_def i_def by blast
  note f0 = bio_rel_log [OF t0(8)] bio_rel_disksize [OF t0(8)]
  define t1 where "t1 = (if int i = lh_n s then t0\<lparr>lh_n := lh_n s + 1\<rparr> else t0)"
  have t1: "cache_inv t1" "held t1 = held s" "pinned t1 = pinned s" "blk t1 = blk t0" "memdisk t1 = memdisk t0"
    "writes t1 = writes t0" "log_start t1 = log_start s" "log_size t1 = log_size s" "disksize t1 = disksize s"
    "lh_sector t1 = (lh_sector s)[i := m]" "nat (lh_n t1) = (if i = k then Suc k else k)"
    "lh_n t1 = (if m \<in> pinned s then lh_n s else lh_n s + 1)"
    using t0 f0 lu'(3) k L by (auto simp: t1_def)
  define t where "t = set_dirty b t1"
  have hb: "held t1 b = Some m" using t1(2) assms(3) by simp
  note sd = set_dirty_abs [OF t1(1) hb, folded t_def]
  have tf: "log_start t = log_start s" "log_size t = log_size s" "disksize t = disksize s" "lh_n t = lh_n t1"
    "lh_sector t = lh_sector t1" "memdisk t = memdisk t1" "writes t = writes t1"
    using t1 by (simp_all add: t_def set_dirty_def upd_buf_def)
  have ta: "log_area t = log_area s" "log_block t = log_block s"
    by (simp_all add: log_area_def log_block_def tf fun_eq_iff)
  have te: "lh_sector t = (lh_sector s)[i := m]" "nat (lh_n t) = (if i = k then Suc k else k)" "memdisk t = (memdisk s)(l := blk s m)"
    "blk t = (blk s)(l := blk s m)" using tf t1 t0 sd by simp_all
  have lg: "logged t = (if m \<in> pinned s then logged s else logged s @ [m])"
    unfolding logged_def [of t] tf(4,5) t1(10,11) by (rule lu'(2))
  have "log_inv (X - {m}) t"
    unfolding log_inv_def
  proof (intro conjI)
    show "cache_inv t" by (rule sd(1))
    show "log_geom t" using geo tf t1 by (simp add: log_geom_def t_def set_dirty_def upd_buf_def)
      (use f0 in \<open>simp add: t1_def\<close>)
    show "0 \<le> lh_n t" "lh_n t \<le> int LOGSIZE" "lh_n t \<le> log_size t - 1"
      using L assms(4,5) by (auto simp: tf t1)
    show "distinct (logged t)" "set (logged t) = pinned t" using lg L sd(3) t1 by auto
    show "\<forall>m \<in> pinned t. m < disksize t \<and> m \<notin> log_area t" using L sd(3) t1 tf ta m by auto
    show "\<forall>i<nat (lh_n t). lh_sector t ! i \<notin> X - {m} \<longrightarrow> memdisk t (log_block t i) = blk t (lh_sector t ! i)"
      using log_entries_kept [OF assms(1,5,4) m(1), folded i_def k_def, folded l_def, OF lu'(1) te(1,2) ta(2) te(3,4)] by blast
    show "ran (held t) \<inter> log_area t = {}" "X - {m} \<subseteq> ran (held t)" using L sd(2) t1 ta by auto
    show "\<forall>n \<in> ran (held t) - (X - {m}). n \<in> pinned t \<or> blk t n = memdisk t n"
      using L sd t1 t0 tf lh by auto
  qed
  moreover have "txn_rel s t"
  proof -
    have "txn_rel (s\<lparr>lh_sector := (lh_sector s)[i := m]\<rparr>) t0" using t0(6,8) lr by (intro bio_rel_txn) auto
    then show ?thesis using f0
      by (cases s; cases t0) (auto simp: txn_rel_def t_def t1_def set_dirty_def upd_buf_def log_area_def)
  qed
  ultimately show ?thesis
    using t0(1) sd t1 t0 tf lr by (intro exI [of _ t]) (auto simp: t_def t1_def)
qed

section \<open>Commit and crashes\<close>

lemma apply_writes_image:
  "apply_writes (map (\<lambda>i. (g i, f (g i))) ts) D m = (if m \<in> g ` set ts then f m else D m)"
proof (induction ts arbitrary: D)
  case (Cons i ts)
  then show ?case by (auto simp: apply_writes_other)
qed simp

text \<open>What the writes of a commit are: the header, the blocks at their homes, the cleared header.\<close>

definition commit_writes :: "'z log_state_scheme \<Rightarrow> (uint \<times> uchar list) list" where
  "commit_writes s =
     (let st = log_start s; h = head_bytes (lh_n s) (lh_sector s) (memdisk s st)
      in [(st, h)] @ map (\<lambda>m. (m, blk s m)) (logged s) @ [(st, set_word 0 0 h)])"

lemma map_logged:
  assumes "log_inv X s"
  shows "map (\<lambda>i. f (lh_sector s ! i)) [0..<nat (lh_n s)] = map f (logged s)"
  using length_logged [OF assms] by (intro nth_equalityI) (auto simp: nth_logged)

lemma sint_small_log: "0 \<le> n \<Longrightarrow> n \<le> int LOGSIZE \<Longrightarrow> sint (word_of_int n :: uint) = n"
  by (simp add: LOGSIZE_def signed_of_int signed_take_bit_int_eq_self)

text \<open>The commit point and the installation: after the header is written, \<^verbatim>\<open>install_trans\<close> brings every logged block home and unpins it.\<close>

lemma commit_install:
  assumes "log_inv {} s" "cache_inv u" "held u = Map.empty" "pinned u = pinned s" "card (pinned s) < NBUF" "bio_rel s u"
    and "memdisk u = (memdisk s)(log_start s := h)"
  shows "\<exists>t. install_trans u = Ok () t \<and> cache_inv t \<and> held t = Map.empty \<and> pinned t = {} \<and>
    memdisk t = apply_writes (map (\<lambda>m. (m, blk s m)) (logged s)) (memdisk u) \<and> writes t = writes u @ map (\<lambda>m. (m, blk s m)) (logged s) \<and> bio_rel u t"
proof -
  note L = assms(1) [unfolded log_inv_def]
  have geo: "log_geom s" using L by auto
  let ?st = "log_start s" and ?n = "nat (lh_n s)"
  let ?iw = "map (\<lambda>m. (m, blk s m)) (logged s)"
  note fu = bio_rel_log [OF assms(6)] bio_rel_log_derived [OF assms(6)] bio_rel_disksize [OF assms(6)]
  have sec: "lh_sector s ! i \<in> pinned s" "i < LOGSIZE" "int i < log_size s - 1" if "i < ?n" for i
  proof -
    show "lh_sector s ! i \<in> pinned s"
      using L that length_logged [OF assms(1)] nth_logged [of i s] nth_mem [of i "logged s"] by simp
    show "i < LOGSIZE" "int i < log_size s - 1" using L that by linarith+
  qed
  have ent: "entries_ok u [0..<?n]" using sec L fu by (auto simp: entries_ok_def)
  have iw: "install_writes u [0..<?n] = ?iw"
  proof -
    have "install_writes u [0..<?n] = map (\<lambda>i. (lh_sector s ! i, blk s (lh_sector s ! i))) [0..<?n]"
      unfolding install_writes_def
    proof (rule map_cong [OF refl])
      fix i assume i: "i \<in> set [0..<?n]"
      then have "log_block s i \<noteq> ?st" "memdisk s (log_block s i) = blk s (lh_sector s ! i)"
        using log_block_range(3) [OF geo] sec L by auto
      then show "(lh_sector u ! i, memdisk u (log_block u i)) = (lh_sector s ! i, blk s (lh_sector s ! i))"
        by (simp add: fu(6,10) assms(7))
    qed
    then show ?thesis using map_logged [OF assms(1), of "\<lambda>m. (m, blk s m)"] by simp
  qed
  have "set (map ((!) (lh_sector u)) [0..<?n]) = pinned s"
    using map_logged [OF assms(1), of "\<lambda>m. m"] L fu(6) by auto
  moreover have "\<exists>t. install_loop [0..<?n] u = Ok () t \<and> cache_inv t \<and> held t = Map.empty \<and>
    pinned t = pinned u - set (map ((!) (lh_sector u)) [0..<?n]) \<and>
    blk t = apply_writes (install_writes u [0..<?n]) (blk u) \<and>
    memdisk t = apply_writes (install_writes u [0..<?n]) (memdisk u) \<and>
    writes t = writes u @ install_writes u [0..<?n] \<and> bio_rel u t"
  proof (rule install_loop_ok [OF assms(2) _ assms(3) ent])
    show "log_geom u" using geo fu by simp
    show "pinned u \<inter> log_area u = {}" using L assms(4) fu(8) by auto
    show "finite (pinned u)" by (simp add: pinned_def)
    show "Suc (card (pinned u)) < NBUF \<or> (\<forall>i \<in> set [0..<?n]. lh_sector u ! i \<in> pinned u)"
      using sec(1) by (simp add: assms(4) fu(6))
  qed (simp add: assms(4,5))
  ultimately show ?thesis using assms(4) iw fu(5) by (auto simp: install_trans_def)
qed

lemma commit_exec:
  assumes "log_inv {} s" "held s = Map.empty" "0 < lh_n s" "card (pinned s) < NBUF"
  shows "\<exists>t. commit_trans s = Ok () t \<and> cache_inv t \<and> held t = Map.empty \<and> pinned t = {} \<and>
    writes t = writes s @ commit_writes s \<and> memdisk t = apply_writes (commit_writes s) (memdisk s) \<and>
    blk t = memdisk t \<and> lh_n t = 0 \<and> \<not> log_busy t \<and> log_geom t \<and> log_start t = log_start s \<and>
    log_size t = log_size s \<and> disksize t = disksize s"
proof -
  note L = assms(1) [unfolded log_inv_def]
  have ci: "cache_inv s" and geo: "log_geom s" using L by auto
  let ?st = "log_start s" and ?n = "nat (lh_n s)"
  let ?h = "head_bytes (lh_n s) (lh_sector s) (memdisk s ?st)"
  let ?iw = "map (\<lambda>m. (m, blk s m)) (logged s)"
  have st: "?st \<in> log_area s" "?st \<notin> pinned s" using log_start_range [OF geo] L by auto
  obtain u where u: "write_head s = Ok () u" "cache_inv u" "held u = Map.empty" "pinned u = pinned s"
    "blk u = (blk s)(?st := ?h)" "memdisk u = (memdisk s)(?st := ?h)" "writes u = writes s @ [(?st, ?h)]" "bio_rel s u"
    using write_head_ok [OF ci geo assms(2) st(2) assms(4)] L by blast
  note fu = bio_rel_log [OF u(8)] bio_rel_log_derived [OF u(8)] bio_rel_disksize [OF u(8)]
  obtain v where v: "install_trans u = Ok () v" "cache_inv v" "held v = Map.empty" "pinned v = {}"
    "memdisk v = apply_writes ?iw (memdisk u)" "writes v = writes u @ ?iw" "bio_rel u v"
    using commit_install [OF assms(1) u(2,3,4) assms(4) u(8,6)] by blast
  note fv = bio_rel_log [OF v(7)] bio_rel_log_derived [OF v(7)] bio_rel_disksize [OF v(7)]
  have vst: "memdisk v ?st = ?h"
    using st L u(6) by (simp add: v(5), subst apply_writes_other) auto
  let ?v = "v\<lparr>lh_n := 0\<rparr>"
  have gv: "log_geom ?v" using geo fu fv by (simp add: log_geom_def)
  have hb: "head_bytes 0 x d = set_word 0 0 d" for x d by (simp add: head_bytes_def)
  obtain w where w: "write_head ?v = Ok () w" "cache_inv w" "held w = Map.empty" "pinned w = {}"
    "memdisk w = (memdisk v)(?st := set_word 0 0 ?h)" "writes w = writes v @ [(?st, set_word 0 0 ?h)]" "bio_rel ?v w"
    using write_head_ok [of ?v] v gv fu fv vst hb by (auto simp: NBUF_def)
  note fw = bio_rel_log [OF w(7)] bio_rel_log_derived [OF w(7)] bio_rel_disksize [OF w(7)]
  define t where "t = wakeup1 ChanLog (w\<lparr>log_busy := False\<rparr>)"
  have "quiet w" using w(2) by (simp add: cache_inv_def)
  then have "obind (acquire LogLock w) (\<lambda>_ s. obind (wakeup ChanLog (s\<lparr>log_busy := False\<rparr>)) (\<lambda>_ s. release LogLock s)) = Ok () t"
    by (simp add: kexec t_def) (cases w, simp add: quiet_def wakeup1_def)
  then have "commit_trans s = Ok () t" using assms(3) u(1) v(1) w(1) by (simp add: commit_trans_def)
  moreover have tb: "cache_inv t = cache_inv w" "held t = held w" "pinned t = pinned w" "blk t = blk w"
    by (auto simp: t_def wakeup1_def cache_inv_def bcache_ok_def buf_ok_def quiet_def busy_set_def held_def
        pinned_def dirty_set_def blk_def fun_eq_iff split: option.split)
  moreover have "blk w = memdisk w" using bc.clean [OF w(2)] w(3,4) by auto
  moreover have "lh_n t = 0" "\<not> log_busy t" "log_start t = ?st" "log_size t = log_size s" "disksize t = disksize s"
    "memdisk t = memdisk w" "writes t = writes w" "log_geom t"
    using fu fv fw gv by (simp_all add: t_def wakeup1_def log_geom_def)
  ultimately show ?thesis
    using w v u by (intro exI [of _ t]) (simp add: commit_writes_def Let_def)
qed

text \<open>
  The disk after \<open>k\<close> of the writes of a commit. Before the first one the header is empty; from then
  on the header names all blocks, and their new contents are in the log; the last write empties
  it again.
\<close>

definition crash_disk :: "nat \<Rightarrow> 'z log_state_scheme \<Rightarrow> uint \<Rightarrow> uchar list" where
  "crash_disk k s = apply_writes (take k (commit_writes s)) (memdisk s)"

lemma take_commit_writes:
  assumes "0 < k" "k \<le> Suc (length (logged s))"
  shows "take k (commit_writes s) = (log_start s, head_bytes (lh_n s) (lh_sector s) (memdisk s (log_start s))) #
    map (\<lambda>m. (m, blk s m)) (take (k - 1) (logged s))"
  using assms by (cases k) (simp_all add: commit_writes_def Let_def take_map)

lemma disk_writes_committed:
  assumes "log_inv {} s" "D (log_start s) = head_bytes (lh_n s) (lh_sector s) d" "length d = BSIZE"
    and "\<And>i. i < nat (lh_n s) \<Longrightarrow> D (log_block s i) = memdisk s (log_block s i)"
  shows "disk_n (log_start s) D = lh_n s" "disk_writes (log_start s) D = map (\<lambda>m. (m, blk s m)) (logged s)"
    and "disk_ok s D"
proof -
  note L = assms(1) [unfolded log_inv_def]
  have n: "lh_n s \<le> int LOGSIZE" using L by simp
  note hb = head_bytes_ok [OF assms(3) n]
  show dn: "disk_n (log_start s) D = lh_n s"
    using L sint_small_log [of "lh_n s"] by (simp add: disk_n_def assms(2) hb(2))
  have "disk_writes (log_start s) D = map (\<lambda>i. (lh_sector s ! i, blk s (lh_sector s ! i))) [0..<nat (lh_n s)]"
    unfolding disk_writes_def dn
  proof (rule map_cong [OF refl])
    fix i assume "i \<in> set [0..<nat (lh_n s)]"
    then have i: "i < nat (lh_n s)" by simp
    then show "(get_word (D (log_start s)) (Suc i), D (log_start s + of_nat i + 1)) =
        (lh_sector s ! i, blk s (lh_sector s ! i))"
      using hb(3) assms(4) [OF i] L by (simp add: assms(2) log_block_def)
  qed
  then show "disk_writes (log_start s) D = map (\<lambda>m. (m, blk s m)) (logged s)"
    using map_logged [OF assms(1), of "\<lambda>m. (m, blk s m)"] by simp
  have "lh_sector s ! i \<in> pinned s" if "i < nat (lh_n s)" for i
    using L that length_logged [OF assms(1)] nth_logged [of i s] nth_mem [of i "logged s"] by simp
  then show "disk_ok s D"
    using L hb(3) by (simp add: disk_ok_def dn assms(2))
qed

text \<open>After a crash between the header and the last write the log is valid, and recovery installs it.\<close>

lemma crash_committed:
  assumes "log_inv {} s" "held s = Map.empty" "0 < k" "k \<le> Suc (length (logged s))"
  shows "disk_ok s (crash_disk k s)" "m \<notin> log_area s \<Longrightarrow> rec_disk (log_start s) (crash_disk k s) m = blk s m"
proof -
  note L = assms(1) [unfolded log_inv_def]
  have ci: "cache_inv s" and geo: "log_geom s" using L by auto
  let ?st = "log_start s" and ?D = "crash_disk k s"
  let ?h = "head_bytes (lh_n s) (lh_sector s) (memdisk s ?st)"
  let ?ws = "map (\<lambda>m. (m, blk s m)) (take (k - 1) (logged s))"
  have len: "length (memdisk s ?st) = BSIZE" using ci by (simp add: cache_inv_def bcache_ok_def)
  have st: "?st \<in> log_area s" using log_start_range(1) [OF geo] .
  have D: "?D = apply_writes ?ws ((memdisk s)(?st := ?h))"
    by (simp add: crash_disk_def take_commit_writes [OF assms(3,4)])
  have out: "?D a = ((memdisk s)(?st := ?h)) a" if "a \<in> log_area s" for a
    unfolding D using that L by (intro apply_writes_other) (auto dest: in_set_takeD)
  have Dst: "?D ?st = ?h" using out [OF st] by simp
  have Dl: "?D (log_block s i) = memdisk s (log_block s i)" if "i < nat (lh_n s)" for i
  proof -
    have "int i < log_size s - 1" using that L by linarith
    then show ?thesis using out log_block_range [OF geo] by simp
  qed
  note dw = disk_writes_committed [OF assms(1) Dst len Dl]
  have "?D m = blk s m" if "m \<notin> log_area s" "m \<notin> set (logged s)"
    using that st bc.clean [OF ci, of m] L assms(2) apply_writes_image [of "\<lambda>m. m" "blk s" "take (k - 1) (logged s)"] by (auto simp: D)
  then show "disk_ok s ?D" "m \<notin> log_area s \<Longrightarrow> rec_disk ?st ?D m = blk s m"
    using dw st apply_writes_image [of "\<lambda>m. m" "blk s" "logged s" ?D m] by (auto simp: rec_disk_def)
qed

lemma crash_finished:
  assumes "log_inv {} s" "held s = Map.empty"
  defines "D \<equiv> crash_disk (length (commit_writes s)) s"
  shows "disk_ok s D" "m \<notin> log_area s \<Longrightarrow> rec_disk (log_start s) D m = blk s m"
proof -
  note L = assms(1) [unfolded log_inv_def]
  have ci: "cache_inv s" and geo: "log_geom s" and n: "lh_n s \<le> int LOGSIZE" using L by auto
  let ?st = "log_start s"
  let ?h = "head_bytes (lh_n s) (lh_sector s) (memdisk s ?st)"
  have len: "length (memdisk s ?st) = BSIZE" using ci by (simp add: cache_inv_def bcache_ok_def)
  have st: "?st \<in> log_area s" using log_start_range(1) [OF geo] .
  have D: "D = (apply_writes (map (\<lambda>m. (m, blk s m)) (logged s)) ((memdisk s)(?st := ?h)))(?st := set_word 0 0 ?h)"
    by (simp add: D_def crash_disk_def commit_writes_def Let_def)
  have "get_word (set_word 0 0 ?h) 0 = 0"
    using head_bytes_ok(1) [OF len n] get_set_word [of 0 ?h 0 0] by (simp add: BSIZE_def)
  then have "disk_n ?st D = 0" by (simp add: disk_n_def D)
  moreover have "D m = blk s m" if "m \<notin> log_area s"
    using apply_writes_image [of "\<lambda>m. m" "blk s" "logged s" "(memdisk s)(?st := ?h)" m] bc.clean [OF ci, of m] L assms(2) st that by (auto simp: D)
  ultimately show "disk_ok s D" "m \<notin> log_area s \<Longrightarrow> rec_disk ?st D m = blk s m"
    using st L by (auto simp: disk_ok_def rec_disk_def disk_writes_def)
qed

lemma crash_recovers:
  assumes "log_inv {} s" "held s = Map.empty" "disk_n (log_start s) (memdisk s) = 0"
    and "k \<le> length (commit_writes s)"
  shows "disk_ok s (crash_disk k s)"
    and "m \<notin> log_area s \<Longrightarrow> rec_disk (log_start s) (crash_disk k s) m = (if k = 0 then memdisk s m else blk s m)"
proof -
  consider "k = 0" | "0 < k" "k \<le> Suc (length (logged s))" | "0 < k" "k = length (commit_writes s)"
    using assms(4) by (fastforce simp: commit_writes_def Let_def)
  then have "disk_ok s (crash_disk k s) \<and> (m \<notin> log_area s \<longrightarrow>
      rec_disk (log_start s) (crash_disk k s) m = (if k = 0 then memdisk s m else blk s m))"
  proof cases
    case 1
    then show ?thesis
      using assms(1,3) log_start_range(1) [of s] by (auto simp: log_inv_def crash_disk_def disk_ok_def rec_disk_def disk_writes_def)
  next
    case 2
    then show ?thesis using crash_committed [OF assms(1,2) 2] by simp
  next
    case 3
    then show ?thesis using crash_finished [OF assms(1,2)] by simp
  qed
  then show "disk_ok s (crash_disk k s)"
    and "m \<notin> log_area s \<Longrightarrow> rec_disk (log_start s) (crash_disk k s) m = (if k = 0 then memdisk s m else blk s m)"
    by blast+
qed

text \<open>The disk when the commit is complete.\<close>

lemma commit_final:
  assumes "log_inv {} s" "held s = Map.empty"
  defines "D \<equiv> crash_disk (length (commit_writes s)) s"
  shows "disk_n (log_start s) D = 0 \<and> (\<forall>m. m \<notin> log_area s \<longrightarrow> D m = blk s m)"
proof -
  note L = assms(1) [unfolded log_inv_def]
  have ci: "cache_inv s" and geo: "log_geom s" using L by auto
  let ?st = "log_start s"
  let ?h = "head_bytes (lh_n s) (lh_sector s) (memdisk s ?st)"
  let ?iw = "map (\<lambda>m. (m, blk s m)) (logged s)"
  have len: "length (memdisk s ?st) = BSIZE" using ci by (simp add: cache_inv_def bcache_ok_def)
  have n: "lh_n s \<le> int LOGSIZE" using L by simp
  have D: "D = (apply_writes ?iw ((memdisk s)(?st := ?h)))(?st := set_word 0 0 ?h)"
    by (simp add: D_def crash_disk_def commit_writes_def Let_def)
  have "get_word (set_word 0 0 ?h) 0 = 0"
    using head_bytes_ok(1) [OF len n] get_set_word [of 0 ?h 0 0] by (simp add: BSIZE_def)
  moreover have "memdisk s m = blk s m" if "m \<notin> set (logged s)" for m
    using bc.clean [OF ci, of m] that L assms(2) by auto
  ultimately show ?thesis
    using apply_writes_image [of "\<lambda>m. m" "blk s" "logged s"] log_start_range(1) [OF geo]
    by (auto simp: D disk_n_def)
qed

section \<open>Inside a transaction\<close>

text \<open>
  \<open>fs_ok A X s\<close>: a transaction is open, and the log and the cache have room for the blocks \<open>A\<close> in
  addition to those already pinned or in hand. \<open>fsb s\<close> is what the file system stores: the current
  content of every block outside the log.
\<close>

definition fits :: "uint set \<Rightarrow> 'z log_state_scheme \<Rightarrow> bool" where
  "fits A s \<longleftrightarrow> finite A \<and> card (ran (held s) \<union> pinned s \<union> A) < NBUF \<and>
     int (card (ran (held s) \<union> pinned s \<union> A)) < log_size s - 1"

definition fs_ok :: "uint set \<Rightarrow> uint set \<Rightarrow> 'z log_state_scheme \<Rightarrow> bool" where
  "fs_ok A X s \<longleftrightarrow> log_inv X s \<and> log_busy s \<and> fits A s"

definition fsb :: "'z log_state_scheme \<Rightarrow> uint \<Rightarrow> uchar list" where
  "fsb s n = (if n \<in> log_area s then [] else blk s n)"

text \<open>A block that the file system may use.\<close>

definition fs_block :: "'z log_state_scheme \<Rightarrow> uint \<Rightarrow> bool" where
  "fs_block s n \<longleftrightarrow> n < disksize s \<and> n \<notin> log_area s"

lemma finite_pinned [simp]: "finite (pinned s)"
  by (simp add: pinned_def)

lemma finite_ran_held [simp]: "finite (ran (held s))"
  by (simp add: ran_held)

lemma lh_n_pinned:
  assumes "log_inv X s"
  shows "lh_n s = int (card (pinned s))"
proof -
  have "card (pinned s) = length (logged s)"
    using assms distinct_card [of "logged s"] by (simp add: log_inv_def)
  then show ?thesis using assms length_logged [OF assms] by (simp add: log_inv_def)
qed

lemma fitsD:
  assumes "fits A s"
  shows "card (ran (held s) \<union> pinned s) < NBUF" "card (pinned s) < NBUF" "int (card (pinned s)) < log_size s - 1"
proof -
  have fin: "finite (ran (held s) \<union> pinned s \<union> A)" using assms by (simp add: fits_def)
  have "card (ran (held s) \<union> pinned s) \<le> card (ran (held s) \<union> pinned s \<union> A)"
    "card (pinned s) \<le> card (ran (held s) \<union> pinned s \<union> A)"
    using fin by (auto intro!: card_mono)
  then show "card (ran (held s) \<union> pinned s) < NBUF" "card (pinned s) < NBUF" "int (card (pinned s)) < log_size s - 1"
    using assms by (auto simp: fits_def)
qed

lemma fits_mono:
  assumes "fits A s" "ran (held t) \<union> pinned t \<union> B \<subseteq> ran (held s) \<union> pinned s \<union> A" "log_size t = log_size s"
  shows "fits B t"
proof -
  have fin: "finite (ran (held s) \<union> pinned s \<union> A)" using assms(1) by (simp add: fits_def)
  moreover have "finite B" using assms(2) fin by (auto intro: finite_subset)
  ultimately show ?thesis
    using card_mono [OF fin assms(2)] assms(1,3) by (auto simp: fits_def)
qed

text \<open>Changes of the cache alone keep the log's invariant.\<close>

lemma log_inv_frame:
  assumes "log_inv X s" "bio_rel s t" "cache_inv t" "pinned t = pinned s" "blk t = blk s" "memdisk t = memdisk s"
    and "ran (held t) \<inter> log_area s = {}" "X \<subseteq> ran (held t)"
    and "\<And>m. m \<in> ran (held t) - X \<Longrightarrow> m \<in> pinned s \<or> blk s m = memdisk s m"
  shows "log_inv X t"
proof -
  note f = bio_rel_log [OF assms(2)] bio_rel_log_derived [OF assms(2)] bio_rel_disksize [OF assms(2)]
  show ?thesis
    using assms unfolding log_inv_def by (simp add: f(2,5-11))
qed

lemma fs_bread:
  assumes "fs_ok A X s" "n \<in> A" "fs_block s n" "n \<notin> ran (held s)"
  shows "\<exists>b t. bread 1 n s = Ok b t \<and> fs_ok A X t \<and> held s b = None \<and> held t = (held s)(b \<mapsto> n) \<and>
    pinned t = pinned s \<and> blk t = blk s \<and> memdisk t = memdisk s \<and> writes t = writes s \<and> txn_rel s t"
proof -
  have li: "log_inv X s" and ft: "fits A s" using assms(1) by (auto simp: fs_ok_def)
  have ci: "cache_inv s" using li by (simp add: log_inv_def)
  obtain b t where t: "bread 1 n s = Ok b t" "cache_inv t" "held s b = None" "held t = (held s)(b \<mapsto> n)"
    "pinned t = pinned s" "blk t = blk s" "memdisk t = memdisk s" "writes t = writes s" "bio_rel s t"
    using bread_abs [OF ci, of n] assms(3,4) fitsD(1) [OF ft] by (auto simp: fs_block_def)
  have ran: "ran (held t) = insert n (ran (held s))" using t(3,4) by (simp add: ran_map_upd)
  have c: "n \<in> pinned s \<or> blk s n = memdisk s n" using bc.clean [OF ci] assms(4) by auto
  have "log_inv X t"
    using li c t ran assms(3) by (intro log_inv_frame [OF li t(9,2,5,6,7)]) (auto simp: log_inv_def fs_block_def)
  moreover have "fits A t"
    using ft t(5) ran assms(2) bio_rel_log(2) [OF t(9)] by (intro fits_mono [OF ft]) auto
  moreover have "txn_rel s t" using t(7,9) by (intro bio_rel_txn) auto
  ultimately show ?thesis
    using t assms(1) bio_rel_log(3) [OF t(9)] by (intro exI [of _ b] exI [of _ t]) (simp add: fs_ok_def)
qed

lemma fs_brelse:
  assumes "fs_ok A X s" "held s b = Some n" "n \<notin> X"
  shows "\<exists>t. brelse b s = Ok () t \<and> fs_ok A X t \<and> held t = (held s)(b := None) \<and>
    pinned t = pinned s \<and> blk t = blk s \<and> memdisk t = memdisk s \<and> writes t = writes s \<and> txn_rel s t"
proof -
  have li: "log_inv X s" and ft: "fits A s" using assms(1) by (auto simp: fs_ok_def)
  have ci: "cache_inv s" using li by (simp add: log_inv_def)
  have nr: "n \<in> ran (held s)" using assms(2) by (auto simp: ran_def)
  then have "n \<in> pinned s \<or> blk s n = memdisk s n" using li assms(3) by (auto simp: log_inv_def)
  then obtain t where t: "brelse b s = Ok () t" "cache_inv t" "held t = (held s)(b := None)"
    "pinned t = pinned s" "blk t = blk s" "memdisk t = memdisk s" "writes t = writes s" "bio_rel s t"
    using brelse_abs [OF ci assms(2)] by auto
  have sub: "ran (held t) \<subseteq> ran (held s)" by (auto simp: t(3) ran_def)
  have "X \<subseteq> ran (held t)"
  proof
    fix m assume m: "m \<in> X"
    then have "m \<in> ran (held s)" using li by (auto simp: log_inv_def)
    then obtain c where c: "held s c = Some m" by (auto simp: ran_def)
    moreover have "c \<noteq> b" using c m assms(2,3) by auto
    ultimately show "m \<in> ran (held t)" by (auto simp: t(3) ran_def)
  qed
  then have "log_inv X t"
    using li sub by (intro log_inv_frame [OF li t(8,2,4,5,6)]) (auto simp: log_inv_def)
  moreover have "fits A t"
    using t(4) sub bio_rel_log(2) [OF t(8)] by (intro fits_mono [OF ft]) auto
  moreover have "txn_rel s t" using t(6,8) by (intro bio_rel_txn) auto
  ultimately show ?thesis
    using t assms(1) bio_rel_log(3) [OF t(8)] by (intro exI [of _ t]) (simp add: fs_ok_def)
qed

lemma fs_set_data:
  assumes "fs_ok A X s" "held s b = Some n" "length d = BSIZE"
  shows "fs_ok A (insert n X) (set_data b d s)" "held (set_data b d s) = held s"
    "pinned (set_data b d s) = pinned s" "blk (set_data b d s) = (blk s)(n := d)" "txn_rel s (set_data b d s)"
proof -
  have li: "log_inv X s" and ft: "fits A s" using assms(1) by (auto simp: fs_ok_def)
  have ci: "cache_inv s" using li by (simp add: log_inv_def)
  note a = set_data_abs [OF ci assms(2,3)]
  have rel: "bio_rel s (set_data b d s)" by (rule upd_buf_rel)
  note f = bio_rel_log [OF rel] bio_rel_log_derived [OF rel] bio_rel_disksize [OF rel]
  have nr: "n \<in> ran (held s)" using assms(2) by (auto simp: ran_def)
  have "log_inv (insert n X) (set_data b d s)"
    using li nr unfolding log_inv_def by (auto simp: a f(2,5-11))
  moreover have "fits A (set_data b d s)"
    using a f(2) by (intro fits_mono [OF ft]) auto
  ultimately show "fs_ok A (insert n X) (set_data b d s)"
    using assms(1) f(3) by (simp add: fs_ok_def)
  show "held (set_data b d s) = held s"
    "pinned (set_data b d s) = pinned s" "blk (set_data b d s) = (blk s)(n := d)" by (rule a)+
  show "txn_rel s (set_data b d s)" by (rule bio_rel_txn [OF rel]) simp
qed

lemma fs_log_write:
  assumes "fs_ok A X s" "held s b = Some n"
  shows "\<exists>t. log_write b s = Ok () t \<and> fs_ok A (X - {n}) t \<and> held t = held s \<and>
    pinned t = insert n (pinned s) \<and> (\<forall>m. m \<notin> log_area s \<longrightarrow> blk t m = blk s m) \<and> txn_rel s t"
proof -
  have li: "log_inv X s" and ft: "fits A s" using assms(1) by (auto simp: fs_ok_def)
  have nr: "n \<in> ran (held s)" using assms(2) by (auto simp: ran_def)
  have "lh_n s < int LOGSIZE" "lh_n s < log_size s - 1"
    using lh_n_pinned [OF li] fitsD [OF ft] by (auto simp: NBUF_def LOGSIZE_def)
  then obtain t where t: "log_write b s = Ok () t" "log_inv (X - {n}) t" "txn_rel s t" "held t = held s"
    "pinned t = insert n (pinned s)" "\<forall>m. m \<notin> log_area s \<longrightarrow> blk t m = blk s m"
    using log_write_ok [OF li _ assms(2)] fitsD(1) [OF ft] assms(1) by (auto simp: fs_ok_def)
  have "fits A t" using t(4,5) nr txn_rel_fields(2) [OF t(3)] by (intro fits_mono [OF ft]) auto
  then show ?thesis
    using t assms(1) txn_rel_fields(3) [OF t(3)] by (intro exI [of _ t]) (simp add: fs_ok_def)
qed

text \<open>Reading a block, and changing one: the two things file system code does with the cache.\<close>

definition fs_same :: "'z log_state_scheme \<Rightarrow> 'z log_state_scheme \<Rightarrow> bool" where
  "fs_same s t \<longleftrightarrow> held t = held s \<and> pinned t = pinned s \<and> fsb t = fsb s \<and> txn_rel s t"

lemma fs_same_refl [simp]: "fs_same s s"
  by (simp add: fs_same_def)

lemma fs_same_trans [trans]: "fs_same s t \<Longrightarrow> fs_same t u \<Longrightarrow> fs_same s u"
  by (auto simp: fs_same_def intro: txn_rel_trans)

lemma fs_block_txn: "txn_rel s t \<Longrightarrow> fs_block t = fs_block s"
  by (simp add: fs_block_def txn_rel_fields fun_eq_iff)

lemma fs_read_only:
  assumes "fs_ok A X s" "read_only s t"
  shows "fs_ok A X t" "fs_same s t"
proof -
  have li: "log_inv X s" and ft: "fits A s" using assms(1) by (auto simp: fs_ok_def)
  note r = assms(2) [unfolded read_only_def]
  then have rel: "bio_rel s t" by blast
  have "log_inv X t" using li r by (intro log_inv_frame [OF li]) (auto simp: log_inv_def)
  moreover have "fits A t" using r bio_rel_log(2) [OF rel] by (intro fits_mono [OF ft]) auto
  ultimately show "fs_ok A X t" using assms(1) bio_rel_log(3) [OF rel] by (simp add: fs_ok_def)
  have "txn_rel s t" using r by (intro bio_rel_txn) auto
  moreover from this have "fsb t = fsb s" using r by (auto simp: fsb_def fun_eq_iff txn_rel_fields)
  ultimately show "fs_same s t" using r by (simp add: fs_same_def)
qed

lemma fs_read:
  fixes s :: "'z log_state_scheme"
  assumes "fs_ok A X s" "fs_block s n" "n \<notin> ran (held s)"
  shows "\<exists>t. (\<forall>f :: _ \<Rightarrow> _ \<Rightarrow> ('r, 'z log_state_scheme) outcome. obind (bread 1 n s) (\<lambda>b u. obind (brelse b u) (\<lambda>_ v. f (b_data (bufs u ! b)) v)) =
      f (fsb s n) t) \<and> fs_ok A X t \<and> fs_same s t"
proof -
  have ci: "cache_inv s" and ft: "fits A s" using assms(1) by (auto simp: fs_ok_def log_inv_def)
  have "can_read n s" using ci assms(2,3) fitsD(1) [OF ft] by (simp add: can_read_def fs_block_def)
  then obtain t where t: "\<forall>f :: _ \<Rightarrow> _ \<Rightarrow> ('r, 'z log_state_scheme) outcome.
      obind (bread 1 n s) (\<lambda>b u. obind (brelse b u) (\<lambda>_ v. f (b_data (bufs u ! b)) v)) =
      f (blk s n) t" "read_only s t" using bread_brelse by blast
  moreover have "fsb s n = blk s n" using assms(2) by (simp add: fsb_def fs_block_def)
  ultimately show ?thesis
    using fs_read_only [OF assms(1) t(2)] by (intro exI [of _ t]) simp
qed

text \<open>\<open>fs_upd s n d t\<close>: \<open>t\<close> differs from \<open>s\<close> in the logged change of block \<open>n\<close> to \<open>d\<close>.\<close>

definition fs_upd :: "'z log_state_scheme \<Rightarrow> uint \<Rightarrow> uchar list \<Rightarrow> 'z log_state_scheme \<Rightarrow> bool" where
  "fs_upd s n d t \<longleftrightarrow> held t = held s \<and> pinned t = insert n (pinned s) \<and> fsb t = (fsb s)(n := d) \<and> txn_rel s t"

lemma fs_write_held:
  assumes "fs_ok A X s" "held s b = Some n" "length d = BSIZE" "n \<notin> X"
  shows "\<exists>t. log_write b (set_data b d s) = Ok () t \<and> fs_ok A X t \<and> fs_upd s n d t"
proof -
  note u = fs_set_data [OF assms(1-3)]
  let ?u = "set_data b d s"
  have hb: "held ?u b = Some n" using u(2) assms(2) by simp
  obtain t where t: "log_write b ?u = Ok () t" "fs_ok A (insert n X - {n}) t" "held t = held ?u"
    "pinned t = insert n (pinned ?u)" "\<forall>m. m \<notin> log_area ?u \<longrightarrow> blk t m = blk ?u m" "txn_rel ?u t"
    using fs_log_write [OF u(1) hb] by blast
  have rel: "txn_rel s t" using u(5) t(6) by (rule txn_rel_trans)
  have na: "n \<notin> log_area s"
    using assms(1,2) by (auto simp: fs_ok_def log_inv_def ran_def)
  have "fsb t = (fsb s)(n := d)"
    using t(5) u(4) na txn_rel_fields(6) [OF rel] txn_rel_fields(6) [OF u(5)] by (auto simp: fsb_def fun_eq_iff)
  moreover have "fs_ok A X t" using t(2) assms(4) by simp
  ultimately show ?thesis using t u rel by (intro exI [of _ t]) (simp add: fs_upd_def)
qed

lemma fs_data:
  assumes "fs_ok A X s" "held s b = Some n"
  shows "b_data (bufs s ! b) = fsb s n" "length (fsb s n) = BSIZE" "fs_block s n"
proof -
  have ci: "cache_inv s" and na: "n \<notin> log_area s"
    using assms by (auto simp: fs_ok_def log_inv_def ran_def)
  show "b_data (bufs s ! b) = fsb s n" "length (fsb s n) = BSIZE" "fs_block s n"
    using held_data [OF ci assms(2)] na by (auto simp: fsb_def fs_block_def buf_data_def)
qed

lemma fs_update:
  assumes "fs_ok A X s" "n \<in> A" "fs_block s n" "n \<notin> ran (held s)"
    and "length (g (fsb s n)) = BSIZE"
  shows "\<exists>t. (\<forall>f. obind (bread 1 n s) (\<lambda>b u. obind (log_write b (set_data b (g (b_data (bufs u ! b))) u)) (\<lambda>_ v.
      obind (brelse b v) (\<lambda>_ w. f w))) = f t) \<and> fs_ok A X t \<and> fs_upd s n (g (fsb s n)) t"
proof -
  obtain b u where u: "bread 1 n s = Ok b u" "fs_ok A X u" "held s b = None" "held u = (held s)(b \<mapsto> n)"
    "pinned u = pinned s" "blk u = blk s" "txn_rel s u"
    using fs_bread [OF assms(1-4)] by blast
  have hb: "held u b = Some n" using u(4) by simp
  have fb: "fsb u = fsb s" using u(6) txn_rel_fields(6) [OF u(7)] by (simp add: fsb_def fun_eq_iff)
  have nX: "n \<notin> X" using assms(1,4) by (auto simp: fs_ok_def log_inv_def)
  obtain v where v: "log_write b (set_data b (g (fsb s n)) u) = Ok () v" "fs_ok A X v" "fs_upd u n (g (fsb s n)) v"
    using fs_write_held [OF u(2) hb assms(5) nX] by blast
  have hv: "held v b = Some n" using v(3) hb by (simp add: fs_upd_def)
  obtain t where t: "brelse b v = Ok () t" "fs_ok A X t" "held t = (held v)(b := None)"
    "pinned t = pinned v" "blk t = blk v" "txn_rel v t"
    using fs_brelse [OF v(2) hv nX] by blast
  have "held t = held s" using t(3) v(3) u(3,4) by (auto simp: fs_upd_def)
  moreover have "fsb t = fsb v" using t(5) txn_rel_fields(6) [OF t(6)] by (simp add: fsb_def fun_eq_iff)
  moreover have "txn_rel s t" using u(7) v(3) t(6) txn_rel_trans unfolding fs_upd_def by blast
  ultimately have "fs_upd s n (g (fsb s n)) t"
    using v(3) t(4) u(5) fb by (simp add: fs_upd_def)
  moreover have "b_data (bufs u ! b) = fsb s n" using fs_data(1) [OF u(2) hb] fb by simp
  ultimately show ?thesis using u(1) v(1) t(1,2) by (intro exI [of _ t]) simp
qed

section \<open>Opening a transaction\<close>

lemma begin_trans_exec:
  assumes "quiet s" "curproc s = Some q" "q < length (ptable s)"
  shows "begin_trans s =
    (if log_busy s then Blocked (sleeping_on ChanLog q LogLock (s\<lparr>ncli := 1\<rparr>))
     else Ok () (s\<lparr>log_busy := True\<rparr>))"
proof (cases "log_busy s")
  case True
  then show ?thesis
    using assms
    by (simp add: begin_trans_def begin_trans_body_def kexec sleep_exec [where p = q])
      (simp add: sleeping_on_def upd_proc_def kexec)
next
  case False
  then show ?thesis
    using assms by (simp add: begin_trans_def begin_trans_body_def kexec)
qed

text \<open>Between transactions nothing is pinned and the header, in memory and on the disk, is empty.\<close>

definition log_idle :: "'z log_state_scheme \<Rightarrow> bool" where
  "log_idle s \<longleftrightarrow> cache_inv s \<and> log_geom s \<and> held s = Map.empty \<and> pinned s = {} \<and> lh_n s = 0 \<and> \<not> log_busy s \<and>
     disk_n (log_start s) (memdisk s) = 0"

lemma log_busy_bio [simp]:
  "cache_inv (s\<lparr>log_busy := x\<rparr>) = cache_inv s" "held (s\<lparr>log_busy := x\<rparr>) = held s"
  "pinned (s\<lparr>log_busy := x\<rparr>) = pinned s" "blk (s\<lparr>log_busy := x\<rparr>) = blk s"
  "log_area (s\<lparr>log_busy := x\<rparr>) = log_area s" "log_geom (s\<lparr>log_busy := x\<rparr>) = log_geom s"
  by (auto simp: cache_inv_def bcache_ok_def buf_ok_def quiet_def busy_set_def held_def pinned_def dirty_set_def
      blk_def fun_eq_iff log_area_def log_geom_def split: option.split)

lemma fsb_busy [simp]: "fsb (s\<lparr>log_busy := x\<rparr>) = fsb s"
  by (simp add: fsb_def fun_eq_iff)

lemma begin_fs_ok:
  assumes "log_idle s" "finite A" "card A < NBUF" "int (card A) < log_size s - 1"
  shows "fs_ok A {} (s\<lparr>log_busy := True\<rparr>)"
  using assms by (auto simp: fs_ok_def log_idle_def log_inv_def fits_def logged_def log_geom_def)

section \<open>Properties\<close>

text \<open>
  C1. Crash atomicity of the log. A transaction that has logged its blocks commits by a sequence of block writes.
  Cut that sequence after any number \<open>k\<close> of writes and boot a machine from the resulting disk: recovery
  returns, and every block outside the log area has the content it had on the disk before the
  transaction (\<open>k = 0\<close>) or the content the transaction gave it (\<open>k > 0\<close>). Without a crash the commit returns with
  exactly these writes done, the new contents at home, nothing pinned and the log empty.
\<close>

theorem commit_crash_atomic:
  assumes "log_inv {} s" "held s = Map.empty" "0 < lh_n s" "card (pinned s) < NBUF"
    and "disk_n (log_start s) (memdisk s) = 0"
  shows "(\<exists>t. commit_trans s = Ok () t \<and> writes t = writes s @ commit_writes s \<and> log_idle t \<and>
      (\<forall>m. m \<notin> log_area s \<longrightarrow> memdisk t m = blk s m)) \<and>
    (\<forall>k \<le> length (commit_writes s). \<forall>b.
      cache_inv b \<longrightarrow> held b = Map.empty \<longrightarrow> pinned b = {} \<longrightarrow> log_geom b \<longrightarrow>
      log_start b = log_start s \<longrightarrow> log_size b = log_size s \<longrightarrow> disksize b = disksize s \<longrightarrow>
      memdisk b = crash_disk k s \<longrightarrow>
      (\<exists>r. recover_from_log b = Ok () r \<and>
        (\<forall>m. m \<notin> log_area s \<longrightarrow> blk r m = (if k = 0 then memdisk s m else blk s m))))"
proof
  have geo: "log_geom s" using assms(1) by (simp add: log_inv_def)
  obtain t where t: "commit_trans s = Ok () t" "cache_inv t" "held t = Map.empty" "pinned t = {}"
    "writes t = writes s @ commit_writes s" "memdisk t = apply_writes (commit_writes s) (memdisk s)"
    "lh_n t = 0" "\<not> log_busy t" "log_geom t" "log_start t = log_start s"
    using commit_exec [OF assms(1-4)] by blast
  have mt: "memdisk t = crash_disk (length (commit_writes s)) s" by (simp add: crash_disk_def t(6))
  have last: "disk_n (log_start s) (memdisk t) = 0 \<and> (\<forall>m. m \<notin> log_area s \<longrightarrow> memdisk t m = blk s m)"
    using commit_final [OF assms(1,2)] by (simp add: mt)
  then show "\<exists>t. commit_trans s = Ok () t \<and> writes t = writes s @ commit_writes s \<and> log_idle t \<and>
      (\<forall>m. m \<notin> log_area s \<longrightarrow> memdisk t m = blk s m)"
    using t by (intro exI [of _ t]) (simp add: log_idle_def)
  show "\<forall>k \<le> length (commit_writes s). \<forall>b.
      cache_inv b \<longrightarrow> held b = Map.empty \<longrightarrow> pinned b = {} \<longrightarrow> log_geom b \<longrightarrow>
      log_start b = log_start s \<longrightarrow> log_size b = log_size s \<longrightarrow> disksize b = disksize s \<longrightarrow>
      memdisk b = crash_disk k s \<longrightarrow>
      (\<exists>r. recover_from_log b = Ok () r \<and>
        (\<forall>m. m \<notin> log_area s \<longrightarrow> blk r m = (if k = 0 then memdisk s m else blk s m)))"
  proof (intro allI impI)
    fix k b
    assume k: "k \<le> length (commit_writes s)"
      and b: "cache_inv b" "held b = Map.empty" "pinned b = {}" "log_geom b" "log_start b = log_start s"
        "log_size b = log_size s" "disksize b = disksize s" "memdisk b = crash_disk k s"
    note c = crash_recovers [OF assms(1,2,5) k]
    have "disk_ok b (memdisk b)"
      using c(1) b by (simp add: disk_ok_def log_area_def)
    then obtain r where "recover_from_log b = Ok () r" "memdisk r = rec_disk (log_start b) (memdisk b)"
      "blk r = memdisk r"
      using recover_ok [OF b(1,4,2,3)] by blast
    then show "\<exists>r. recover_from_log b = Ok () r \<and>
        (\<forall>m. m \<notin> log_area s \<longrightarrow> blk r m = (if k = 0 then memdisk s m else blk s m))"
      using c(2) b by auto
  qed
qed

text \<open>A machine whose log occupies blocks 768 to 787 of a disk of 1024, and a transaction on it.\<close>

definition boot_log_on :: "(uint \<Rightarrow> uchar list) \<Rightarrow> 'z \<Rightarrow> 'z log_state_scheme" where
  "boot_log_on D m = boot_on D (log_state_ext 768 20 False 1 0 (replicate 10 0) m)"

lemma boot_log_on_fields:
  "log_start (boot_log_on D m) = 768" "log_size (boot_log_on D m) = 20" "log_busy (boot_log_on D m) = False"
  "log_dev (boot_log_on D m) = 1" "lh_n (boot_log_on D m) = 0" "lh_sector (boot_log_on D m) = replicate 10 0"
  "curproc (boot_log_on D m) = Some 0" "ptable (boot_log_on D m) = [ready_proc]" "log_state.more (boot_log_on D m) = m"
  by (simp_all add: boot_log_on_def boot_on_def binit_def initlock_def Let_def)

lemma boot_log_on_idle:
  assumes "\<And>n. length (D n) = 512" "disk_n 768 D = 0"
  shows "log_idle (boot_log_on D m)" "fsb (boot_log_on D m) n = (if 768 \<le> unat n \<and> unat n < 788 then [] else D n)"
    "fs_block (boot_log_on D m) n \<longleftrightarrow> unat n < 768 \<or> 788 \<le> unat n \<and> unat n < 1024"
proof -
  note f = boot_log_on_fields [of D m]
    and b = boot_on_ok [OF assms(1), where m = "log_state_ext 768 20 False 1 0 (replicate 10 0) m", folded boot_log_on_def]
  have "log_geom (boot_log_on D m)" by (simp add: log_geom_def f b LOGSIZE_def)
  then show "log_idle (boot_log_on D m)" using assms(2) by (simp add: log_idle_def f b)
  have la: "n \<in> log_area (boot_log_on D m) \<longleftrightarrow> 768 \<le> unat n \<and> unat n < 788" for n
    by (simp add: log_area_def f)
  show "fsb (boot_log_on D m) n = (if 768 \<le> unat n \<and> unat n < 788 then [] else D n)"
    by (simp add: fsb_def la b)
  show "fs_block (boot_log_on D m) n \<longleftrightarrow> unat n < 768 \<or> 788 \<le> unat n \<and> unat n < 1024"
    by (auto simp: fs_block_def la b word_less_nat_alt)
qed

definition boot_log :: log_state where
  "boot_log = boot_log_on (\<lambda>n. replicate 512 (ucast n)) ()"

lemmas boot_log_fields = boot_log_on_fields [of "\<lambda>n. replicate 512 (ucast n)" "()", folded boot_log_def]

lemma boot_log_bio: "boot_log = boot_bio (log_state_ext 768 20 False 1 0 (replicate 10 0) ())"
  by (simp add: boot_log_def boot_log_on_def boot_bio_def)

lemma boot_log_idle: "log_idle boot_log"
  unfolding boot_log_def
  by (rule boot_log_on_idle) (simp_all add: disk_n_def get_word_def slice_def of_le32_def)

lemma boot_log_area: "n \<in> log_area boot_log \<longleftrightarrow> 768 \<le> unat n \<and> unat n < 788"
  by (simp add: log_area_def boot_log_fields)

lemma boot_txn:
  "\<exists>s :: log_state. fs_ok {5} {} s \<and> log_inv {} s \<and> held s = Map.empty \<and> pinned s = {5} \<and> lh_n s = 1 \<and>
    disk_n (log_start s) (memdisk s) = 0 \<and> log_area s = log_area boot_log \<and> log_busy s \<and> blk s 5 = replicate 512 9"
proof -
  let ?s = "boot_log\<lparr>log_busy := True\<rparr>"
  note b = boot_bio_ok [of "log_state_ext 768 20 False 1 0 (replicate 10 0) ()", folded boot_log_bio]
  have ok: "fs_ok {5} {} ?s"
    by (rule begin_fs_ok [OF boot_log_idle]) (simp_all add: boot_log_fields NBUF_def)
  have blk: "fs_block ?s 5" "(5 :: uint) \<notin> ran (held ?s)"
    by (simp_all add: fs_block_def boot_log_area b)
  obtain t :: log_state where t: "fs_ok {5} {} t" "fs_upd ?s 5 (replicate 512 9) t"
    using fs_update [where g = "\<lambda>_. replicate 512 9", OF ok _ blk] by (auto simp: BSIZE_def)
  have li: "log_inv {} t" using t(1) by (simp add: fs_ok_def)
  note u = t(2) [unfolded fs_upd_def]
  have rel: "txn_rel ?s t" using u by blast
  note f = txn_rel_fields [OF rel]
  have p: "pinned t = {5}" "held t = Map.empty" using u b by auto
  have "lh_n t = 1" using lh_n_pinned [OF li] p by simp
  moreover have "memdisk t (log_start t) = memdisk ?s (log_start ?s)"
    using rel f(1) by (simp add: txn_rel_def)
  then have "disk_n (log_start t) (memdisk t) = 0"
    using boot_log_idle f(1) by (simp add: disk_n_def log_idle_def)
  moreover have "blk t 5 = replicate 512 9"
    using u f(6) boot_log_area [of 5] by (auto simp: fsb_def fun_eq_iff split: if_splits dest!: spec [of _ 5])
  ultimately show ?thesis using t(1) li p f by (intro exI [of _ t]) simp
qed

theorem commit_crash_atomic_witness:
  "\<exists>(s :: log_state) t. log_inv {} s \<and> lh_n s = 1 \<and> commit_trans s = Ok () t \<and> memdisk t 5 = replicate 512 9"
proof -
  obtain s :: log_state where s: "log_inv {} s" "held s = Map.empty" "pinned s = {5}" "lh_n s = 1"
    "disk_n (log_start s) (memdisk s) = 0" "log_area s = log_area boot_log" "blk s 5 = replicate 512 9"
    using boot_txn by blast
  have "0 < lh_n s" "card (pinned s) < NBUF" using s by (simp_all add: NBUF_def)
  from commit_crash_atomic [OF s(1,2) this s(5)] obtain t where "commit_trans s = Ok () t"
    "\<forall>m. m \<notin> log_area s \<longrightarrow> memdisk t m = blk s m" by blast
  then show ?thesis using s boot_log_area [of 5] by auto
qed

text \<open>
  C4. \<^verbatim>\<open>log_write\<close> on a buffer in hand, while the log has room: it makes one disk write, into the log area; the block is
  pinned and recorded once (a second write of the same block reuses its entry); the home blocks and the
  header on the disk and the contents of all blocks outside the log are unchanged; the invariant of the log holds again.
\<close>

theorem log_write_records:
  assumes "log_inv X s" "log_busy s" "held s b = Some m" "lh_n s < int LOGSIZE" "lh_n s < log_size s - 1"
    and "card (ran (held s) \<union> pinned s) < NBUF"
  shows "\<exists>t. log_write b s = Ok () t \<and> log_inv (X - {m}) t \<and> txn_rel s t \<and> held t = held s \<and>
    pinned t = insert m (pinned s) \<and> (\<forall>n. n \<notin> log_area s \<longrightarrow> blk t n = blk s n) \<and>
    lh_n t = (if m \<in> pinned s then lh_n s else lh_n s + 1) \<and> length (writes t) = Suc (length (writes s))"
  using assms by (rule log_write_ok)

theorem log_write_records_witness:
  "\<exists>(s :: log_state) b t. held s b = Some 5 \<and> pinned s = {5} \<and> lh_n s = 1 \<and> log_write b s = Ok () t \<and> lh_n t = 1"
proof -
  obtain s :: log_state where s: "fs_ok {5} {} s" "held s = Map.empty" "pinned s = {5}" "lh_n s = 1"
    using boot_txn by blast
  have "fs_block s 5" "(5 :: uint) \<notin> ran (held s)"
    using s by (auto simp: fs_ok_def log_inv_def fs_block_def)
  then obtain b and u :: log_state where u: "fs_ok {5} {} u" "held u = (held s)(b \<mapsto> 5)" "pinned u = {5}"
    using fs_bread [OF s(1), of 5] s(3) by auto
  have li: "log_inv {} u" "log_busy u" "fits {5} u" using u(1) by (auto simp: fs_ok_def)
  have "lh_n u = 1" using lh_n_pinned [OF li(1)] u(3) by simp
  moreover have "1 < log_size u - 1" "card (ran (held u) \<union> pinned u) < NBUF"
    using fitsD [OF li(3)] u(3) by auto
  moreover have "held u b = Some 5" using u(2) by simp
  ultimately show ?thesis
    using log_write_records [OF li(1,2), of b 5] u(3) by (auto simp: LOGSIZE_def)
qed

text \<open>
  C6. Recovery refines its specification on the disk, and is idempotent: on a machine that has just booted from a disk
  whose header is well formed, \<^verbatim>\<open>recover_from_log\<close> returns, the disk is \<open>rec_disk\<close> of the old one, the header is
  empty and the cache shows the disk; recovering once more changes nothing.
\<close>

theorem recovery_refines:
  assumes "cache_inv s" "log_geom s" "held s = Map.empty" "pinned s = {}" "disk_ok s (memdisk s)"
  shows "(\<exists>t. recover_from_log s = Ok () t \<and> memdisk t = rec_disk (log_start s) (memdisk s) \<and> blk t = memdisk t \<and>
      lh_n t = 0 \<and> pinned t = {} \<and> disk_n (log_start s) (memdisk t) = 0) \<and>
    rec_disk (log_start s) (rec_disk (log_start s) (memdisk s)) = rec_disk (log_start s) (memdisk s)"
proof -
  let ?st = "log_start s" and ?D = "memdisk s"
  have len: "length (?D ?st) = BSIZE" using assms(1) by (simp add: cache_inv_def bcache_ok_def)
  have w: "set_word 0 0 (set_word 0 0 (?D ?st)) = set_word 0 0 (?D ?st)"
    using len by (simp add: set_word_def splice_def BSIZE_def)
  have g: "get_word (set_word 0 0 (?D ?st)) 0 = 0"
    using len get_set_word [of 0 "?D ?st" 0 0] by (simp add: BSIZE_def)
  then have n: "disk_n ?st (rec_disk ?st ?D) = 0" by (simp add: disk_n_def rec_disk_def)
  then have "rec_disk ?st (rec_disk ?st ?D) = rec_disk ?st ?D"
    by (simp add: rec_disk_def [of ?st "rec_disk ?st ?D"] disk_writes_def) (simp add: rec_disk_def w fun_eq_iff)
  then show ?thesis using recover_ok [OF assms] n by auto
qed

theorem recovery_refines_witness:
  "\<exists>t. recover_from_log boot_log = Ok () t \<and> memdisk t = rec_disk 768 (memdisk boot_log)"
proof -
  have i: "cache_inv boot_log" "log_geom boot_log" "held boot_log = Map.empty" "pinned boot_log = {}"
    "disk_n 768 (memdisk boot_log) = 0"
    using boot_log_idle by (auto simp: log_idle_def boot_log_fields)
  then have "disk_ok boot_log (memdisk boot_log)" by (simp add: disk_ok_def boot_log_fields)
  from recovery_refines [OF i(1-4) this] show ?thesis by (auto simp: boot_log_fields)
qed

text \<open>
  One transaction at a time: \<^verbatim>\<open>begin_trans\<close> marks the log busy when it is free, and otherwise puts the caller to sleep on
  the log without changing it.
\<close>

theorem begin_trans_exclusive:
  assumes "quiet s" "curproc s = Some q" "q < length (ptable s)"
  shows "begin_trans s =
    (if log_busy s then Blocked (sleeping_on ChanLog q LogLock (s\<lparr>ncli := 1\<rparr>))
     else Ok () (s\<lparr>log_busy := True\<rparr>))"
  using assms by (rule begin_trans_exec)

theorem begin_trans_exclusive_witness:
  "begin_trans boot_log = Ok () (boot_log\<lparr>log_busy := True\<rparr>) \<and>
   (\<exists>t. begin_trans (boot_log\<lparr>log_busy := True\<rparr>) = Blocked t)"
proof -
  have q: "quiet boot_log" using boot_log_idle by (simp add: log_idle_def cache_inv_def)
  then have "quiet (boot_log\<lparr>log_busy := True\<rparr>)" by (simp add: quiet_def)
  from begin_trans_exclusive [OF this, of 0] begin_trans_exclusive [OF q, of 0]
  show ?thesis by (simp add: boot_log_fields)
qed

end
