(* ===== verification/Xv6_Balloc.thy ===== *)
theory Xv6_Balloc
  imports Xv6_Log
begin

text \<open>
  The block allocator of \<^verbatim>\<open>kernel/fs.c\<close>: \<^verbatim>\<open>bzero\<close>, \<^verbatim>\<open>balloc\<close> and \<^verbatim>\<open>bfree\<close> on the free bitmap, through the buffer cache
  and the log. The abstract view is the set of blocks in use; \<^verbatim>\<open>balloc\<close> takes the least block outside it.
\<close>

section \<open>Operations\<close>

definition bzero :: "uint \<Rightarrow> uint \<Rightarrow> 'z log_state_scheme \<Rightarrow> (unit, 'z log_state_scheme) outcome" where
  "bzero dev bno s =
     obind (bread dev bno s) (\<lambda>bp s.
     obind (log_write bp (set_data bp (replicate BSIZE 0) s)) (\<lambda>_ s.
     obind (brelse bp s) (\<lambda>_ s. Ok () s)))"

text \<open>\<^verbatim>\<open>m = 1 << (bi % 8)\<close>; the test, the setting and the clearing of bit \<^verbatim>\<open>bi\<close> of a bitmap block.\<close>

definition bit_mask :: "nat \<Rightarrow> uchar" where
  "bit_mask bi = push_bit (bi mod 8) 1"

definition test_bit :: "uchar list \<Rightarrow> nat \<Rightarrow> bool" where
  "test_bit d bi \<longleftrightarrow> d ! (bi div 8) AND bit_mask bi \<noteq> 0"

definition mark_bit :: "nat \<Rightarrow> uchar list \<Rightarrow> uchar list" where
  "mark_bit bi d = d[bi div 8 := d ! (bi div 8) OR bit_mask bi]"

definition clear_bit :: "nat \<Rightarrow> uchar list \<Rightarrow> uchar list" where
  "clear_bit bi d = d[bi div 8 := d ! (bi div 8) AND NOT (bit_mask bi)]"

text \<open>The inner loop of \<^verbatim>\<open>balloc\<close>: the first clear bit of the bitmap block that starts at block \<^verbatim>\<open>b\<close>.\<close>

definition free_bit :: "uchar list \<Rightarrow> uint \<Rightarrow> uint \<Rightarrow> nat option" where
  "free_bit d b sz =
     find (\<lambda>bi. \<not> test_bit d bi) (takeWhile (\<lambda>bi. b + of_nat bi < sz) [0..<unat BPB])"

text \<open>The values of \<^verbatim>\<open>b\<close> in the outer loop: the multiples of \<^verbatim>\<open>BPB\<close> below the size.\<close>

definition chunks :: "uint \<Rightarrow> uint list" where
  "chunks sz = map (\<lambda>k. of_nat k * BPB) [0..<(unat sz + 4095) div 4096]"

fun balloc_loop :: "uint \<Rightarrow> superblock \<Rightarrow> uint list \<Rightarrow> 'z log_state_scheme \<Rightarrow> (uint, 'z log_state_scheme) outcome" where
  "balloc_loop dev sb [] s = Panic ''balloc: out of blocks''"
| "balloc_loop dev sb (b # bs) s =
     obind (bread dev (BBLOCK b (sb_ninodes sb)) s) (\<lambda>bp s.
     case free_bit (b_data (bufs s ! bp)) b (sb_size sb) of
       Some bi \<Rightarrow>
         obind (log_write bp (set_data bp (mark_bit bi (b_data (bufs s ! bp))) s)) (\<lambda>_ s.
         obind (brelse bp s) (\<lambda>_ s.
         obind (bzero dev (b + of_nat bi) s) (\<lambda>_ s.
         Ok (b + of_nat bi) s)))
     | None \<Rightarrow> obind (brelse bp s) (\<lambda>_ s. balloc_loop dev sb bs s))"

definition balloc :: "uint \<Rightarrow> 'z log_state_scheme \<Rightarrow> (uint, 'z log_state_scheme) outcome" where
  "balloc dev s = obind (readsb dev s) (\<lambda>sb s. balloc_loop dev sb (chunks (sb_size sb)) s)"

definition bfree :: "uint \<Rightarrow> uint \<Rightarrow> 'z log_state_scheme \<Rightarrow> (unit, 'z log_state_scheme) outcome" where
  "bfree dev b s =
     obind (readsb dev s) (\<lambda>sb s.
     obind (bread dev (BBLOCK b (sb_ninodes sb)) s) (\<lambda>bp s.
     let bi = unat (b mod BPB); d = b_data (bufs s ! bp)
     in if \<not> test_bit d bi then Panic ''freeing free block''
        else obind (log_write bp (set_data bp (clear_bit bi d) s)) (\<lambda>_ s.
             obind (brelse bp s) (\<lambda>_ s. Ok () s))))"

section \<open>Bits\<close>

lemma bit_bit_mask: "bit (bit_mask bi) k \<longleftrightarrow> k = bi mod 8"
  by (auto simp: bit_mask_def bit_simps)

lemma test_bit_iff: "test_bit d bi \<longleftrightarrow> bit (d ! (bi div 8)) (bi mod 8)"
proof -
  have "d ! (bi div 8) AND bit_mask bi \<noteq> 0 \<longleftrightarrow> (\<exists>k. bit (d ! (bi div 8) AND bit_mask bi) k)"
    by (metis bit_0_eq bit_word_eqI bot_apply bot_bool_def)
  then show ?thesis by (auto simp: test_bit_def bit_and_iff bit_bit_mask)
qed

lemma length_mark_bit [simp]: "length (mark_bit bi d) = length d" "length (clear_bit bi d) = length d"
  by (simp_all add: mark_bit_def clear_bit_def)

lemma div_mod_8_eq: "bi div 8 = bj div 8 \<Longrightarrow> bi mod 8 = bj mod 8 \<longleftrightarrow> bi = (bj :: nat)"
  by (metis mult_div_mod_eq)

lemma test_mark_bit:
  "bi div 8 < length d \<Longrightarrow> test_bit (mark_bit bi d) bj \<longleftrightarrow> bj = bi \<or> test_bit d bj"
  using div_mod_8_eq [of bj bi]
  by (cases "bi div 8 = bj div 8") (auto simp: test_bit_iff mark_bit_def bit_or_iff bit_bit_mask)

lemma test_clear_bit:
  "bi div 8 < length d \<Longrightarrow> test_bit (clear_bit bi d) bj \<longleftrightarrow> bj \<noteq> bi \<and> test_bit d bj"
  using div_mod_8_eq [of bj bi]
  by (cases "bi div 8 = bj div 8")
    (auto simp: test_bit_iff clear_bit_def bit_and_iff bit_not_iff bit_bit_mask)

section \<open>The bitmap\<close>

text \<open>Block \<open>n\<close> is bit \<open>n mod BPB\<close> of its bitmap block.\<close>

definition fs_sb :: "'z log_state_scheme \<Rightarrow> superblock" where
  "fs_sb s = superblock_of (fsb s 1)"

definition bitmap_block :: "'z log_state_scheme \<Rightarrow> uint \<Rightarrow> uint" where
  "bitmap_block s n = BBLOCK n (sb_ninodes (fs_sb s))"

definition block_used :: "'z log_state_scheme \<Rightarrow> uint \<Rightarrow> bool" where
  "block_used s n \<longleftrightarrow> test_bit (fsb s (bitmap_block s n)) (unat (n mod BPB))"

lemma unat_BPB [simp]: "unat BPB = 4096"
  by (simp add: BPB_def)

lemma unat_mod_BPB: "unat (n mod BPB) = unat n mod 4096"
  by (simp add: unat_mod)

lemma unat_BBLOCK: "unat (BBLOCK b ni) = unat b div 4096 + unat ni div 8 + 3"
proof -
  have a: "unat (b div BPB) = unat b div 4096" "unat (ni div IPB) = unat ni div 8"
    by (simp_all add: unat_div IPB_def)
  have l: "unat b div 4096 + unat ni div 8 + 3 < 2 ^ 32"
    using div_le_mono [OF less_imp_le [OF unat_uint_less' [of b]], of 4096]
      div_le_mono [OF less_imp_le [OF unat_uint_less' [of ni]], of 8] by simp
  then have "unat (b div BPB + ni div IPB) = unat b div 4096 + unat ni div 8"
    using a by (subst unat_add_lem [THEN iffD1]) auto
  then show ?thesis using l by (simp add: BBLOCK_def) (subst unat_add_lem [THEN iffD1], auto)
qed

lemma BBLOCK_eq_iff: "BBLOCK b ni = BBLOCK c ni \<longleftrightarrow> unat b div 4096 = unat c div 4096"
  by (simp add: word_unat_eq_iff unat_BBLOCK)

lemma BBLOCK_not_1: "BBLOCK b ni \<noteq> 1"
proof
  assume "BBLOCK b ni = 1"
  then have "unat (BBLOCK b ni) = 1" by simp
  then show False by (simp add: unat_BBLOCK)
qed


lemma same_bitmap_block:
  assumes "bitmap_block s m = bitmap_block s n"
  shows "m = n \<longleftrightarrow> unat m mod 4096 = unat n mod 4096"
proof -
  have "unat m div 4096 = unat n div 4096" using assms by (simp add: bitmap_block_def BBLOCK_eq_iff)
  then show ?thesis by (metis mult_div_mod_eq word_unat_eq_iff)
qed

text \<open>Marking and clearing the bit of a block changes the use of that block alone.\<close>

lemma block_used_mark:
  assumes "length (fsb s (bitmap_block s n)) = BSIZE"
    and "fsb t 1 = fsb s 1" "fsb t (bitmap_block s m) =
      ((fsb s)(bitmap_block s n := mark_bit (unat (n mod BPB)) (fsb s (bitmap_block s n)))) (bitmap_block s m)"
  shows "block_used t m \<longleftrightarrow> m = n \<or> block_used s m"
proof -
  have b: "bitmap_block t = bitmap_block s"
    by (simp add: assms(2) fs_sb_def bitmap_block_def fun_eq_iff)
  have len: "unat n mod 4096 div 8 < length (fsb s (bitmap_block s n))"
    by (simp add: assms(1) BSIZE_def)
  show ?thesis
  proof (cases "bitmap_block s m = bitmap_block s n")
    case True
    then have "m = n \<longleftrightarrow> unat m mod 4096 = unat n mod 4096" by (rule same_bitmap_block)
    then show ?thesis
      by (simp add: block_used_def b assms(3) [unfolded True] unat_mod_BPB test_mark_bit [OF len] True)
  next
    case False
    then have "m \<noteq> n" by auto
    then show ?thesis using False by (simp add: block_used_def b assms(3))
  qed
qed

lemma block_used_clear:
  assumes "length (fsb s (bitmap_block s n)) = BSIZE"
    and "fsb t 1 = fsb s 1" "fsb t (bitmap_block s m) =
      ((fsb s)(bitmap_block s n := clear_bit (unat (n mod BPB)) (fsb s (bitmap_block s n)))) (bitmap_block s m)"
  shows "block_used t m \<longleftrightarrow> m \<noteq> n \<and> block_used s m"
proof -
  have b: "bitmap_block t = bitmap_block s"
    by (simp add: assms(2) fs_sb_def bitmap_block_def fun_eq_iff)
  have len: "unat n mod 4096 div 8 < length (fsb s (bitmap_block s n))"
    by (simp add: assms(1) BSIZE_def)
  show ?thesis
  proof (cases "bitmap_block s m = bitmap_block s n")
    case True
    then have "m = n \<longleftrightarrow> unat m mod 4096 = unat n mod 4096" by (rule same_bitmap_block)
    then show ?thesis
      by (simp add: block_used_def b assms(3) [unfolded True] unat_mod_BPB test_clear_bit [OF len] True)
  next
    case False
    then have "m \<noteq> n" by auto
    then show ?thesis using False by (simp add: block_used_def b assms(3))
  qed
qed

section \<open>Reading and changing one block\<close>

lemma fs_read_split:
  assumes "fs_ok A X s" "fs_block s n" "n \<notin> ran (held s)"
  shows "\<exists>b u t. bread 1 n s = Ok b u \<and> b_data (bufs u ! b) = fsb s n \<and> brelse b u = Ok () t \<and>
    fs_ok A X t \<and> fs_same s t \<and> bio_rel s u"
proof -
  have ft: "fits A s" and ci: "cache_inv s" using assms(1) by (auto simp: fs_ok_def log_inv_def)
  obtain b u where "bread 1 n s = Ok b u" "bio_rel s u"
    using bread_abs [OF ci, of n] assms(2,3) fitsD(1) [OF ft] by (auto simp: fs_block_def)
  then show ?thesis
    using fs_read [OF assms, where ?'r = "uchar list"] by (auto dest!: spec [where x = Ok])
qed

lemma fs_update_split:
  assumes "fs_ok A X s" "n \<in> A" "fs_block s n" "n \<notin> ran (held s)" "length d = BSIZE"
  shows "\<exists>b u v t. bread 1 n s = Ok b u \<and> b_data (bufs u ! b) = fsb s n \<and> log_write b (set_data b d u) = Ok () v \<and>
    brelse b v = Ok () t \<and> fs_ok A X t \<and> fs_upd s n d t \<and> bio_rel s u"
proof -
  obtain b u where "bread 1 n s = Ok b u" "b_data (bufs u ! b) = fsb s n" "bio_rel s u"
    using fs_read_split [OF assms(1,3,4)] by blast
  then show ?thesis
    using fs_update [OF assms(1-4), of "\<lambda>_. d"] assms(5) by (auto dest!: spec [where x = "Ok ()"])
qed

text \<open>
  \<open>fs_chg s Q D t\<close>: between \<open>s\<close> and \<open>t\<close> the transaction has logged the blocks \<open>Q\<close>, and the file system's blocks
  are now \<open>D\<close>.
\<close>

definition fs_chg :: "'z log_state_scheme \<Rightarrow> uint set \<Rightarrow> (uint \<Rightarrow> uchar list) \<Rightarrow> 'z log_state_scheme \<Rightarrow> bool" where
  "fs_chg s Q D t \<longleftrightarrow> held t = held s \<and> pinned t = Q \<union> pinned s \<and> fsb t = D \<and> txn_rel s t"

lemma fs_chg_same [simp]: "fs_chg s {} (fsb s) t \<longleftrightarrow> fs_same s t"
  by (auto simp: fs_chg_def fs_same_def)

lemma fs_chg_upd: "fs_upd s n d t \<Longrightarrow> fs_chg s {n} ((fsb s)(n := d)) t"
  by (simp add: fs_chg_def fs_upd_def)

lemma fs_same_chg: "fs_same s t \<Longrightarrow> fs_chg s {} (fsb s) t"
  by simp

lemma fs_chg_trans: "fs_chg s Q D t \<Longrightarrow> fs_chg t R E u \<Longrightarrow> P = Q \<union> R \<Longrightarrow> fs_chg s P E u"
  by (auto simp: fs_chg_def intro: txn_rel_trans)

lemma fs_chgD:
  assumes "fs_chg s Q D t"
  shows "held t = held s" "pinned t = Q \<union> pinned s" "fsb t = D" "txn_rel s t" "fs_block t = fs_block s"
  using assms by (auto simp: fs_chg_def fs_block_txn)

lemma length_fsb:
  assumes "fs_ok A X s" "fs_block s n"
  shows "length (fsb s n) = BSIZE"
  using assms unfolding fs_ok_def log_inv_def cache_inv_def bcache_ok_def fs_block_def fsb_def blk_def
  by (auto simp: buf_ok_def find_Some_iff split: option.split)

lemma bzero_ok:
  assumes "fs_ok A X s" "n \<in> A" "fs_block s n" "n \<notin> ran (held s)"
  shows "\<exists>t. bzero 1 n s = Ok () t \<and> fs_ok A X t \<and> fs_chg s {n} ((fsb s)(n := replicate BSIZE 0)) t"
  using fs_update_split [OF assms, of "replicate BSIZE 0"] by (auto simp: bzero_def intro: fs_chg_upd)

lemma readsb_fs:
  assumes "fs_ok A X s" "fs_block s 1" "1 \<notin> ran (held s)"
  shows "\<exists>t. readsb 1 s = Ok (fs_sb s) t \<and> fs_ok A X t \<and> fs_same s t"
  using fs_read_split [OF assms] by (auto simp: readsb_def fs_sb_def)

section \<open>The search for a clear bit\<close>

lemma takeWhile_upt_less: "takeWhile (\<lambda>i. c + i < m) [j..<n] = [j..<min n (m - c)]" for m c :: nat
proof (induction "n - j" arbitrary: j)
  case (Suc d)
  have "j < n" using Suc(2) by simp
  moreover have "c + j < m \<longleftrightarrow> j < m - c" by linarith
  ultimately show ?case
    using Suc upt_conv_Cons [of j n] upt_conv_Cons [of j "min n (m - c)"] by (cases "c + j < m") auto
qed simp

lemma unat_chunk:
  fixes b :: uint
  assumes "unat b mod 4096 = 0" "i < 4096"
  shows "unat (b + of_nat i) = unat b + i"
proof -
  obtain k where "unat b = 4096 * k" using assms(1) by auto
  then have "unat b + i < 2 ^ 32" using assms(2) unat_uint_less' [of b] by simp
  then show ?thesis using assms(2) by (subst unat_add_lem [THEN iffD1]) (auto simp: unat_of_nat)
qed

lemma free_bit_eq:
  assumes "unat b mod 4096 = 0"
  shows "free_bit d b sz = find (\<lambda>bi. \<not> test_bit d bi) [0..<min 4096 (unat sz - unat b)]"
proof -
  have "takeWhile (\<lambda>bi. b + of_nat bi < sz) [0..<4096] = takeWhile (\<lambda>bi. unat b + bi < unat sz) [0..<4096]"
    using unat_chunk [OF assms] by (intro takeWhile_cong) (auto simp: word_less_nat_alt)
  then show ?thesis by (simp add: free_bit_def takeWhile_upt_less)
qed

lemma find_upt_None: "find P [0..<n] = None \<longleftrightarrow> (\<forall>i<n. \<not> P i)"
  by (auto simp: find_None_iff)

lemma find_upt_Some: "find P [0..<n] = Some i \<longleftrightarrow> i < n \<and> P i \<and> (\<forall>j<i. \<not> P j)"
  by (auto simp: find_Some_iff)

text \<open>One bitmap block of the search, in terms of the blocks in use.\<close>

lemma free_bit_used:
  fixes s :: "'z log_state_scheme"
  assumes b: "unat b mod 4096 = 0" and all: "\<forall>m<n. block_used s m" and n: "n < sz"
  defines "d \<equiv> fsb s (bitmap_block s b)"
  shows "unat b + 4096 \<le> unat n \<Longrightarrow> free_bit d b sz = None"
    "unat b \<le> unat n \<Longrightarrow> unat n < unat b + 4096 \<Longrightarrow> \<not> block_used s n \<Longrightarrow>
      free_bit d b sz = Some (unat (n mod BPB)) \<and> b + of_nat (unat (n mod BPB)) = n"
proof -
  have u: "block_used s (b + of_nat i) = test_bit d i" if "i < 4096" for i
  proof -
    obtain k where k: "unat b = 4096 * k" using b by auto
    then have "(unat b + i) div 4096 = unat b div 4096" "(unat b + i) mod 4096 = i" using that by auto
    then show ?thesis
      using that unat_chunk [OF b that] BBLOCK_eq_iff [of "b + of_nat i" _ b]
      by (simp add: block_used_def d_def bitmap_block_def unat_mod_BPB)
  qed
  have t: "test_bit d i" if "i < 4096" "unat b + i < unat n" for i
    using all that u [OF that(1)] unat_chunk [OF b that(1)] by (auto simp: word_less_nat_alt)
  show "free_bit d b sz = None" if "unat b + 4096 \<le> unat n"
    using that t by (simp add: free_bit_eq [OF b] find_upt_None)
  assume a: "unat b \<le> unat n" "unat n < unat b + 4096" "\<not> block_used s n"
  let ?i = "unat n - unat b"
  have i: "?i < 4096" using a by simp
  have bi: "b + of_nat ?i = n" using unat_chunk [OF b i] a by (simp add: word_unat_eq_iff)
  obtain k where k: "unat b = 4096 * k" using b by auto
  then have "unat n mod 4096 = (?i + 4096 * k) mod 4096" using a(1) by simp
  then have "unat (n mod BPB) = ?i" using i by (simp only: mod_mult_self2 unat_mod_BPB mod_less)
  moreover have "free_bit d b sz = Some ?i"
    using a i t u [OF i] bi n by (auto simp: free_bit_eq [OF b] find_upt_Some word_less_nat_alt)
  ultimately show "free_bit d b sz = Some (unat (n mod BPB)) \<and> b + of_nat (unat (n mod BPB)) = n"
    using bi by simp
qed

section \<open>Allocation\<close>

text \<open>The bitmap blocks that a search for \<open>n\<close> reads can be read.\<close>

definition bitmap_ok :: "'z log_state_scheme \<Rightarrow> uint \<Rightarrow> bool" where
  "bitmap_ok s n \<longleftrightarrow> fs_block s 1 \<and> 1 \<notin> ran (held s) \<and>
     (\<forall>m \<le> n. fs_block s (bitmap_block s m) \<and> bitmap_block s m \<notin> ran (held s))"

definition alloc_disk :: "'z log_state_scheme \<Rightarrow> uint \<Rightarrow> uint \<Rightarrow> uchar list" where
  "alloc_disk s n = (fsb s)(bitmap_block s n := mark_bit (unat (n mod BPB)) (fsb s (bitmap_block s n)),
     n := replicate BSIZE 0)"

lemma fs_same_bitmap:
  assumes "fs_same s t"
  shows "fs_sb t = fs_sb s" "bitmap_block t = bitmap_block s" "block_used t = block_used s"
    "bitmap_ok t = bitmap_ok s" "alloc_disk t = alloc_disk s"
  using assms fs_block_txn [of s t]
  by (simp_all add: fs_same_def fs_sb_def bitmap_block_def [abs_def] block_used_def [abs_def] bitmap_ok_def [abs_def]
      alloc_disk_def [abs_def])

lemma balloc_found:
  fixes s :: "'z log_state_scheme"
  assumes ok: "fs_ok A X s" and bm: "bitmap_ok s n" and A: "bitmap_block s n \<in> A" "n \<in> A"
    and n: "fs_block s n" "n \<notin> ran (held s)"
    and b: "bitmap_block s b = bitmap_block s n" "b + of_nat (unat (n mod BPB)) = n"
    and f: "free_bit (fsb s (bitmap_block s n)) b (sb_size (fs_sb s)) = Some (unat (n mod BPB))"
  shows "\<exists>t. balloc_loop 1 (fs_sb s) (b # bs) s = Ok n t \<and> fs_ok A X t \<and>
    fs_chg s {bitmap_block s n, n} (alloc_disk s n) t"
proof -
  let ?m = "bitmap_block s n" and ?d = "mark_bit (unat (n mod BPB)) (fsb s (bitmap_block s n))"
  have m: "fs_block s ?m" "?m \<notin> ran (held s)" using bm by (auto simp: bitmap_ok_def)
  obtain c and u v t :: "'z log_state_scheme" where 1: "bread 1 ?m s = Ok c u" "b_data (bufs u ! c) = fsb s ?m"
    "log_write c (set_data c ?d u) = Ok () v" "brelse c v = Ok () t" "fs_ok A X t" "fs_upd s ?m ?d t"
    using fs_update_split [OF ok A(1) m, of ?d] length_fsb [OF ok m(1)] by auto
  note c1 = fs_chg_upd [OF 1(6)]
  obtain w where 2: "bzero 1 n t = Ok () w" "fs_ok A X w" "fs_chg t {n} ((fsb t)(n := replicate BSIZE 0)) w"
    using bzero_ok [OF 1(5) A(2)] n fs_chgD [OF c1] by auto
  have "fs_chg s {?m, n} (alloc_disk s n) w"
    using fs_chg_trans [OF c1 2(3)] fs_chgD(3) [OF c1] by (simp add: alloc_disk_def insert_commute)
  then show ?thesis
    using 1 2 b f by (intro exI [of _ w]) (simp add: bitmap_block_def)
qed

lemma unat_multiple:
  assumes "4096 * k < 2 ^ 32"
  shows "unat (of_nat k * BPB) = 4096 * k"
proof -
  have "of_nat k * BPB = of_nat (4096 * k)" by (simp add: BPB_def mult.commute)
  then show ?thesis using assms by (simp only: unat_of_nat) simp
qed

lemma balloc_loop_ok:
  fixes s :: "'z log_state_scheme"
  assumes "fs_ok A X s" "bitmap_ok s n" "bitmap_block s n \<in> A" "n \<in> A" "fs_block s n" "n \<notin> ran (held s)"
    and "n < sb_size (fs_sb s)" "\<not> block_used s n" "\<forall>m<n. block_used s m"
    and "k \<le> unat n div 4096" "unat n div 4096 < K" 
  shows "\<exists>t. balloc_loop 1 (fs_sb s) (map (\<lambda>k. of_nat k * BPB) [k..<K]) s = Ok n t \<and> fs_ok A X t \<and>
    fs_chg s {bitmap_block s n, n} (alloc_disk s n) t"
  using assms
proof (induction "unat n div 4096 - k" arbitrary: k s)
  case 0
  let ?b = "of_nat k * BPB"
  have k: "unat n div 4096 = k" using 0 by simp
  then have "4096 * k \<le> unat n" "unat n < 4096 * k + 4096" by auto
  moreover from this have b: "unat ?b = 4096 * k" using unat_uint_less [of n] by (intro unat_multiple) linarith
  ultimately have f: "free_bit (fsb s (bitmap_block s ?b)) ?b (sb_size (fs_sb s)) = Some (unat (n mod BPB))"
    "?b + of_nat (unat (n mod BPB)) = n"
    using free_bit_used(2) [of ?b n s] 0 by auto
  have eq: "bitmap_block s ?b = bitmap_block s n" using k b by (simp add: bitmap_block_def BBLOCK_eq_iff)
  show ?case
    using balloc_found [OF "0.prems"(1-6) eq f(2), of "map (\<lambda>k. of_nat k * BPB) [Suc k..<K]"] f(1) eq 0 k
    by (simp add: upt_conv_Cons)
next
  case (Suc j)
  let ?b = "of_nat k * BPB"
  have k: "k < unat n div 4096" using Suc by simp
  then have "4096 * k + 4096 \<le> unat n" by linarith
  moreover from this have b: "unat ?b = 4096 * k" using unat_uint_less [of n] by (intro unat_multiple) linarith
  ultimately have f: "free_bit (fsb s (bitmap_block s ?b)) ?b (sb_size (fs_sb s)) = None" and bn: "?b \<le> n"
    using free_bit_used(1) [of ?b n s] Suc by (auto simp: word_le_nat_alt)
  have m: "fs_block s (bitmap_block s ?b)" "bitmap_block s ?b \<notin> ran (held s)"
    using Suc.prems(2) bn by (auto simp: bitmap_ok_def)
  obtain c and u t :: "'z log_state_scheme" where 1: "bread 1 (bitmap_block s ?b) s = Ok c u"
    "b_data (bufs u ! c) = fsb s (bitmap_block s ?b)" "brelse c u = Ok () t" "fs_ok A X t" "fs_same s t"
    using fs_read_split [OF Suc.prems(1) m] by blast
  note e = fs_same_bitmap [OF 1(5)] and c = fs_chgD [OF fs_same_chg [OF 1(5)]]
  have "\<exists>w. balloc_loop 1 (fs_sb t) (map (\<lambda>k. of_nat k * BPB) [Suc k..<K]) t = Ok n w \<and> fs_ok A X w \<and>
    fs_chg t {bitmap_block t n, n} (alloc_disk t n) w"
    by (rule Suc.hyps(1)) (use Suc.hyps(2) Suc.prems 1(4) k e c in auto)
  then obtain w where w: "balloc_loop 1 (fs_sb s) (map (\<lambda>k. of_nat k * BPB) [Suc k..<K]) t = Ok n w" "fs_ok A X w"
    "fs_chg t {bitmap_block s n, n} (alloc_disk s n) w" using e by auto
  have "fs_chg s {bitmap_block s n, n} (alloc_disk s n) w"
    using fs_chg_trans [OF fs_same_chg [OF 1(5)] w(3)] by simp
  then show ?case
    using 1 w f Suc.prems(10,11) k by (intro exI [of _ w]) (simp add: upt_conv_Cons bitmap_block_def)
qed

lemma balloc_ok:
  assumes "fs_ok A X s" "bitmap_ok s n" "bitmap_block s n \<in> A" "n \<in> A" "fs_block s n" "n \<notin> ran (held s)"
    and "n < sb_size (fs_sb s)" "\<not> block_used s n" "\<forall>m<n. block_used s m"
  shows "\<exists>t. balloc 1 s = Ok n t \<and> fs_ok A X t \<and> fs_chg s {bitmap_block s n, n} (alloc_disk s n) t"
proof -
  obtain u where u: "readsb 1 s = Ok (fs_sb s) u" "fs_ok A X u" "fs_same s u"
    using readsb_fs [OF assms(1)] assms(2) by (auto simp: bitmap_ok_def)
  note e = fs_same_bitmap [OF u(3)] and c = fs_chgD [OF fs_same_chg [OF u(3)]]
  have "unat n div 4096 < (unat (sb_size (fs_sb s)) + 4095) div 4096"
    using assms(7) by (auto simp: word_less_nat_alt)
  then obtain t where "balloc_loop 1 (fs_sb s) (chunks (sb_size (fs_sb s))) u = Ok n t" "fs_ok A X t"
    "fs_chg u {bitmap_block s n, n} (alloc_disk s n) t"
    using balloc_loop_ok [OF u(2), of n 0 "(unat (sb_size (fs_sb s)) + 4095) div 4096"] assms e c
    by (auto simp: chunks_def)
  then show ?thesis
    using u(1) fs_chg_trans [OF fs_same_chg [OF u(3)]] by (intro exI [of _ t]) (simp add: balloc_def)
qed

text \<open>\<^verbatim>\<open>bfree\<close> clears the bit, and stops the machine when it is clear already.\<close>

lemma bfree_ok:
  fixes s :: "'z log_state_scheme"
  assumes ok: "fs_ok A X s" "fs_block s 1" "1 \<notin> ran (held s)" "fs_block s (bitmap_block s n)"
    "bitmap_block s n \<notin> ran (held s)"
  shows "block_used s n \<Longrightarrow> bitmap_block s n \<in> A \<Longrightarrow> \<exists>t. bfree 1 n s = Ok () t \<and> fs_ok A X t \<and> fs_chg s {bitmap_block s n}
      ((fsb s)(bitmap_block s n := clear_bit (unat (n mod BPB)) (fsb s (bitmap_block s n)))) t"
    "\<not> block_used s n \<Longrightarrow> bfree 1 n s = Panic ''freeing free block''"
proof -
  let ?m = "bitmap_block s n"
  obtain u where u: "readsb 1 s = Ok (fs_sb s) u" "fs_ok A X u" "fs_same s u"
    using readsb_fs [OF ok(1-3)] by blast
  note e = fs_same_bitmap [OF u(3)] and c = fs_chgD [OF fs_same_chg [OF u(3)]]
  have m: "fs_block u ?m" "?m \<notin> ran (held u)" using ok c by auto
  show "bfree 1 n s = Panic ''freeing free block''" if "\<not> block_used s n"
  proof -
    obtain b v where "bread 1 ?m u = Ok b v" "b_data (bufs v ! b) = fsb u ?m"
      using fs_read_split [OF u(2) m] by blast
    then show ?thesis
      using that u(1) c(3) by (simp add: bfree_def bitmap_block_def block_used_def Let_def)
  qed
  assume used: "block_used s n" and A: "?m \<in> A"
  let ?d = "clear_bit (unat (n mod BPB)) (fsb s ?m)"
  obtain b and v w t :: "'z log_state_scheme" where 1: "bread 1 ?m u = Ok b v" "b_data (bufs v ! b) = fsb u ?m"
    "log_write b (set_data b ?d v) = Ok () w" "brelse b w = Ok () t" "fs_ok A X t" "fs_upd u ?m ?d t"
    using fs_update_split [OF u(2) A m, of ?d] length_fsb [OF ok(1,4)] by auto
  have "fs_chg s {?m} ((fsb s)(?m := ?d)) t"
    using fs_chg_trans [OF fs_same_chg [OF u(3)] fs_chg_upd [OF 1(6)]] c(3) by simp
  then show "\<exists>t. bfree 1 n s = Ok () t \<and> fs_ok A X t \<and> fs_chg s {?m} ((fsb s)(?m := ?d)) t"
    using 1 u(1) used c(3) by (intro exI [of _ t]) (simp add: bfree_def bitmap_block_def block_used_def Let_def)
qed

section \<open>A small file system\<close>

text \<open>
  A disk for the concrete instances: 788 blocks of which the last 20 are the log, 200 inodes, the bitmap in
  block 28, the root directory (inode 1, block 29) with an entry \<open>init\<close> for inode 2, whose content is in
  block 30.
\<close>

definition root_dinode :: dinode where
  "root_dinode = \<lparr>d_type = T_DIR, d_major = 0, d_minor = 0, d_nlink = 1, d_size = 64,
     d_addrs = 29 # replicate 12 0\<rparr>"

definition init_dinode :: dinode where
  "init_dinode = \<lparr>d_type = T_FILE, d_major = 0, d_minor = 0, d_nlink = 1, d_size = 5,
     d_addrs = 30 # replicate 12 0\<rparr>"

definition fs_image :: "uint \<Rightarrow> uchar list" where
  "fs_image n =
     (if n = 1 then words_bytes [788, 739, 200, 20] @ replicate 496 0
      else if n = 2 then replicate 64 0 @ dinode_bytes root_dinode @ dinode_bytes init_dinode @ replicate 320 0
      else if n = 28 then [255, 255, 255, 127] @ replicate 508 0
      else if n = 29 then [1, 0, 46] @ replicate 13 0 @ [1, 0, 46, 46] @ replicate 12 0 @
        [2, 0, 105, 110, 105, 116] @ replicate 10 0 @ replicate 464 0
      else if n = 30 then [104, 101, 108, 108, 111] @ replicate 507 0
      else replicate 512 0)"

lemma length_root_dinode [simp]: "length (d_addrs root_dinode) = Suc NDIRECT" "length (d_addrs init_dinode) = Suc NDIRECT"
  by (simp_all add: root_dinode_def init_dinode_def NDIRECT_def)

lemma length_fs_image: "length (fs_image n) = 512"
  by (simp add: fs_image_def)

lemma fs_image_log: "disk_n 768 fs_image = 0"
  by (simp add: disk_n_def fs_image_def get_word_def slice_def of_le32_def)

section \<open>Properties\<close>

text \<open>
  C26. The bitmap allocator. Inside a transaction, \<^verbatim>\<open>balloc\<close> returns the least block that is not in use, zeroed, and marks
  exactly that block; \<^verbatim>\<open>bfree\<close> of it then returns and restores the use of every block; and freeing
  it once more stops the machine.
\<close>

theorem balloc_bfree_bitmap:
  assumes "fs_ok A X s" "bitmap_ok s n" "bitmap_block s n \<in> A" "n \<in> A" "fs_block s n" "n \<notin> ran (held s)"
    and "n < sb_size (fs_sb s)" "\<not> block_used s n" "\<forall>m<n. block_used s m"
    and "n \<noteq> 1" "\<forall>m < sb_size (fs_sb s). bitmap_block s m \<noteq> n"
  shows "\<exists>t u. balloc 1 s = Ok n t \<and> fs_ok A X t \<and> fsb t n = replicate 512 0 \<and>
    (\<forall>m < sb_size (fs_sb s). block_used t m \<longleftrightarrow> m = n \<or> block_used s m) \<and>
    bfree 1 n t = Ok () u \<and> fs_ok A X u \<and> (\<forall>m < sb_size (fs_sb s). block_used u m \<longleftrightarrow> block_used s m) \<and>
    bfree 1 n u = Panic ''freeing free block''"
proof -
  let ?b = "bitmap_block s n"
  obtain t where t: "balloc 1 s = Ok n t" "fs_ok A X t" "fs_chg s {?b, n} (alloc_disk s n) t"
    using balloc_ok [OF assms(1-9)] by blast
  note c = fs_chgD [OF t(3)]
  have b1: "?b \<noteq> 1" by (simp add: bitmap_block_def BBLOCK_not_1)
  have bn: "?b \<noteq> n" using assms(7,11) by blast
  have len: "length (fsb s ?b) = BSIZE" using assms(1,2) by (intro length_fsb) (auto simp: bitmap_ok_def)
  have t1: "fsb t 1 = fsb s 1" using b1 assms(10) c(3) by (simp add: alloc_disk_def)
  have ut: "block_used t m \<longleftrightarrow> m = n \<or> block_used s m" if "m < sb_size (fs_sb s)" for m
    using assms(11) that by (intro block_used_mark [OF len t1]) (auto simp: c(3) alloc_disk_def)
  have bb: "bitmap_block t = bitmap_block s" using t1 by (simp add: bitmap_block_def fs_sb_def fun_eq_iff)
  have pre: "fs_block t 1" "1 \<notin> ran (held t)" "fs_block t (bitmap_block t n)" "bitmap_block t n \<notin> ran (held t)"
    using assms(2) c(1,5) bb by (auto simp: bitmap_ok_def)
  have lt: "length (fsb t ?b) = BSIZE" using length_fsb [OF t(2) pre(3)] bb by simp
  obtain u where u: "bfree 1 n t = Ok () u" "fs_ok A X u"
    "fs_chg t {?b} ((fsb t)(?b := clear_bit (unat (n mod BPB)) (fsb t ?b))) u"
    using bfree_ok(1) [OF t(2) pre] ut [of n] assms(3,7) bb by auto
  note d = fs_chgD [OF u(3)]
  have u1: "fsb u 1 = fsb t 1" using b1 d(3) by simp
  have uu: "block_used u m \<longleftrightarrow> m \<noteq> n \<and> block_used t m" if "m < sb_size (fs_sb s)" for m
    using lt u1 d(3) bb by (intro block_used_clear) simp_all
  have "block_used u m \<longleftrightarrow> block_used s m" if "m < sb_size (fs_sb s)" for m
    using uu [OF that] ut [OF that] assms(8) by auto
  moreover have "bfree 1 n u = Panic ''freeing free block''"
  proof (rule bfree_ok(2) [OF u(2)])
    have ub: "bitmap_block u = bitmap_block s" using u1 t1 by (simp add: bitmap_block_def fs_sb_def fun_eq_iff)
    show "fs_block u 1" "1 \<notin> ran (held u)" "fs_block u (bitmap_block u n)" "bitmap_block u n \<notin> ran (held u)"
      using pre d(1,5) bb ub by auto
    show "\<not> block_used u n" using uu [OF assms(7)] by simp
  qed
  moreover have "fsb t n = replicate 512 0" using c(3) by (simp add: alloc_disk_def BSIZE_def)
  ultimately show ?thesis using t u ut by blast
qed

text \<open>On the small disk the first free block is 31.\<close>

lemma fs_image_sb: "superblock_of (fs_image 1) = \<lparr>sb_size = 788, sb_nblocks = 739, sb_ninodes = 200, sb_nlog = 20\<rparr>"
  by (simp add: superblock_of_def fs_image_def get_words_bytes)

lemma fs_image_bits: "list_all (\<lambda>m. test_bit (fs_image 28) m) [0..<31]" "\<not> test_bit (fs_image 28) 31"
  by (code_simp, simp add: test_bit_iff fs_image_def bit_simps)

theorem balloc_bfree_bitmap_witness:
  "\<exists>t u :: log_state. balloc 1 ((boot_log_on fs_image ())\<lparr>log_busy := True\<rparr>) = Ok 31 t \<and> block_used t 31 \<and>
     bfree 1 31 t = Ok () u \<and> \<not> block_used u 31"
proof -
  let ?s = "(boot_log_on fs_image ())\<lparr>log_busy := True\<rparr> :: log_state"
  note i = boot_log_on_idle [OF length_fs_image fs_image_log, where m = "()"]
  have f: "fs_block ?s n \<longleftrightarrow> unat n < 768 \<or> 788 \<le> unat n \<and> unat n < 1024" for n
    using i(3) [of n] by (simp add: fs_block_def)
  have h: "held ?s = Map.empty" using i(1) by (simp add: log_idle_def)
  have ok: "fs_ok {28, 31} {} ?s"
    by (rule begin_fs_ok [OF i(1)]) (simp_all add: boot_log_on_fields NBUF_def)
  have sb: "fs_sb ?s = \<lparr>sb_size = 788, sb_nblocks = 739, sb_ninodes = 200, sb_nlog = 20\<rparr>"
    by (simp add: fs_sb_def i(2) fs_image_sb)
  have bm: "bitmap_block ?s m = 28" if "m < 4096" for m
    using that by (simp add: bitmap_block_def sb word_unat_eq_iff unat_BBLOCK word_less_nat_alt)
  have used: "block_used ?s m \<longleftrightarrow> test_bit (fs_image 28) (unat m)" if "m < 4096" for m
    using that by (simp add: block_used_def bm i(2) unat_mod_BPB word_less_nat_alt)
  have lt: "m < 4096" if "m < 788" for m :: uint using that by (simp add: word_less_nat_alt)
  have "\<forall>m<31. block_used ?s m"
    using fs_image_bits(1) used by (auto simp: list_all_iff word_less_nat_alt)
  moreover have "\<not> block_used ?s 31" using used [of 31] fs_image_bits(2) by simp
  moreover have "bitmap_ok ?s 31"
    using bm h by (auto simp: bitmap_ok_def f word_le_nat_alt word_less_nat_alt)
  ultimately obtain t u where "balloc 1 ?s = Ok 31 t" "bfree 1 31 t = Ok () u"
    "\<forall>m < 788. block_used t m \<longleftrightarrow> m = 31 \<or> block_used ?s m" "\<forall>m < 788. block_used u m \<longleftrightarrow> block_used ?s m"
    using balloc_bfree_bitmap [OF ok, of 31] bm h lt by (auto simp: sb f)
  then show ?thesis using \<open>\<not> block_used ?s 31\<close> by (intro exI [of _ t] exI [of _ u]) simp
qed

end
