(* ===== verification/Xv6_Console.thy ===== *)
theory Xv6_Console
  imports Xv6_Log
begin

text \<open>
  \<^verbatim>\<open>kernel/console.c\<close>: number printing, \<^verbatim>\<open>cprintf\<close>, the serial output, and the line editor that
  \<^verbatim>\<open>consoleintr\<close> runs over the input ring; \<^verbatim>\<open>show_callstk\<close> of \<^verbatim>\<open>kernel/spinlock.c\<close> and \<^verbatim>\<open>procdump\<close> of
  \<^verbatim>\<open>kernel/proc.c\<close>, which print through it. The input ring refines a pair of lists: the bytes that
  are ready to be read and the line under edit. \<^verbatim>\<open>consoleread\<close> and \<^verbatim>\<open>consolewrite\<close> are in \<open>Xv6_Readi\<close>.
\<close>

section \<open>State\<close>

definition INPUT_BUF :: uint where "INPUT_BUF = 512"
definition BACKSPACE :: int where "BACKSPACE = 0x100"
definition CONSOLE :: nat where "CONSOLE = 1"

record input =
  in_buf :: "uchar list"
  in_r :: uint
  in_w :: uint
  in_e :: uint

text \<open>\<^verbatim>\<open>struct devsw\<close>: a function pointer is the name of the function, and null is \<open>None\<close>.\<close>

datatype devfn = Consoleread | Consolewrite

record devsw =
  dev_read :: "devfn option"
  dev_write :: "devfn option"

text \<open>\<open>uart_out\<close> is what has been written to the data register of the UART, in order.\<close>

record cons_state = log_state +
  cons_locking :: bool
  panicked :: bool
  uart_out :: "uchar list"
  inp :: input
  devtab :: "devsw list"

text \<open>The bytes of a C string literal.\<close>

definition lit :: "string \<Rightarrow> uchar list" where
  "lit s = map of_char s"

section \<open>Output\<close>

text \<open>\<^verbatim>\<open>uartputc\<close> waits until the transmit FIFO has room, which the device provides.\<close>

definition uartputc :: "int \<Rightarrow> 'z cons_state_scheme \<Rightarrow> 'z cons_state_scheme" where
  "uartputc c s = s\<lparr>uart_out := uart_out s @ [word_of_int c]\<rparr>"

definition consputc :: "int \<Rightarrow> 'z cons_state_scheme \<Rightarrow> (unit, 'z cons_state_scheme) outcome" where
  "consputc c s =
     (if panicked s then Diverge
      else if c = BACKSPACE then Ok () (uartputc 8 (uartputc 32 (uartputc 8 s)))
      else Ok () (uartputc c s))"

fun consputs :: "uchar list \<Rightarrow> 'z cons_state_scheme \<Rightarrow> (unit, 'z cons_state_scheme) outcome" where
  "consputs [] s = Ok () s"
| "consputs (c # cs) s = obind (consputc (uint c) s) (\<lambda>_ s. consputs cs s)"

definition digits :: "uchar list" where
  "digits = [0x30, 0x31, 0x32, 0x33, 0x34, 0x35, 0x36, 0x37, 0x38, 0x39, 0x41, 0x42, 0x43, 0x44, 0x45, 0x46]"

text \<open>
  The \<^verbatim>\<open>do\<close> loop of \<^verbatim>\<open>printint\<close>: the digits of \<^verbatim>\<open>x\<close>, least significant first. The base is 10 or 16;
  for a base below 2 the C loop has no defined end, and the model has no digits.
\<close>

function printint_digits :: "nat \<Rightarrow> nat \<Rightarrow> uchar list" where
  "printint_digits base x =
     (if base < 2 then []
      else digits ! (x mod base) # (if x div base = 0 then [] else printint_digits base (x div base)))"
  by pat_completeness auto
termination
  by (relation "measure (\<lambda>(base, x). x)") (auto intro!: div_less_dividend gr0I)

declare printint_digits.simps [simp del]

text \<open>The contents of \<^verbatim>\<open>buf\<close> when the digits and the sign are in it; it has 16 bytes.\<close>

definition printint_buf :: "uint \<Rightarrow> nat \<Rightarrow> bool \<Rightarrow> uchar list" where
  "printint_buf xx base sign =
     (let neg = sign \<and> xx <s 0;
          x = (if neg then - xx else xx)
      in printint_digits base (unat x) @ (if neg then [0x2D] else []))"

definition printint :: "uint \<Rightarrow> nat \<Rightarrow> bool \<Rightarrow> 'z cons_state_scheme \<Rightarrow> (unit, 'z cons_state_scheme) outcome" where
  "printint xx base sign s = consputs (rev (printint_buf xx base sign)) s"

text \<open>
  The variable arguments of \<^verbatim>\<open>cprintf\<close>: integers and string pointers (\<open>None\<close> is null). Reading one with the
  wrong conversion, or past the last, has no defined effect.
\<close>

datatype cparg = CInt uint | CStr "uchar list option"

fun cprintf_loop :: "uchar list \<Rightarrow> cparg list \<Rightarrow> 'z cons_state_scheme \<Rightarrow> (unit, 'z cons_state_scheme) outcome" where
  "cprintf_loop [] args s = Ok () s"
| "cprintf_loop [c] args s = (if c \<noteq> 0x25 then consputc (uint c) s else Ok () s)"
| "cprintf_loop (c # d # fmt) args s =
     (if c \<noteq> 0x25 then obind (consputc (uint c) s) (\<lambda>_ s. cprintf_loop (d # fmt) args s)
      else if d = 0x64 then
        (case args of CInt x # args \<Rightarrow> obind (printint x 10 True s) (\<lambda>_ s. cprintf_loop fmt args s) | _ \<Rightarrow> ub)
      else if d = 0x78 \<or> d = 0x70 then
        (case args of CInt x # args \<Rightarrow> obind (printint x 16 False s) (\<lambda>_ s. cprintf_loop fmt args s) | _ \<Rightarrow> ub)
      else if d = 0x73 then
        (case args of CStr p # args \<Rightarrow>
           obind (consputs (case p of None \<Rightarrow> lit ''(null)'' | Some t \<Rightarrow> t) s) (\<lambda>_ s. cprintf_loop fmt args s)
         | _ \<Rightarrow> ub)
      else if d = 0x25 then obind (consputc 0x25 s) (\<lambda>_ s. cprintf_loop fmt args s)
      else obind (consputc 0x25 s) (\<lambda>_ s. obind (consputc (uint d) s) (\<lambda>_ s. cprintf_loop fmt args s)))"

definition cprintf :: "uchar list option \<Rightarrow> cparg list \<Rightarrow> 'z cons_state_scheme \<Rightarrow> (unit, 'z cons_state_scheme) outcome" where
  "cprintf fmt args s =
     obind (if cons_locking s then acquire ConsLock s else Ok () s) (\<lambda>_ s.
     case fmt of
       None \<Rightarrow> Panic ''null fmt''
     | Some fmt \<Rightarrow>
         obind (cprintf_loop fmt args s) (\<lambda>_ s.
         if cons_locking s then release ConsLock s else Ok () s))"

text \<open>\<^verbatim>\<open>show_callstk\<close>, with the frame pointer and the words of the kernel stack as arguments.\<close>

fun show_pcs :: "nat \<Rightarrow> uint list \<Rightarrow> 'z cons_state_scheme \<Rightarrow> (unit, 'z cons_state_scheme) outcome" where
  "show_pcs i [] s = Ok () s"
| "show_pcs i (pc # pcs) s =
     (if pc = 0 then Ok () s
      else obind (cprintf (Some (lit ''STACK #%d: 0x%x'' @ [10])) [CInt (of_nat i + 1), CInt pc] s) (\<lambda>_ s.
           show_pcs (Suc i) pcs s))"

definition show_callstk :: "(uint \<Rightarrow> uint) \<Rightarrow> uint \<Rightarrow> uchar list \<Rightarrow> 'z cons_state_scheme \<Rightarrow> (unit, 'z cons_state_scheme) outcome" where
  "show_callstk stk fp msg s =
     obind (cprintf (Some (lit ''%s'' @ [10])) [CStr (Some msg)] s) (\<lambda>_ s.
     show_pcs 0 (getcallerpcs stk fp) s)"

fun state_name :: "procstate \<Rightarrow> uchar list" where
  "state_name UNUSED = lit ''unused''"
| "state_name EMBRYO = lit ''embryo''"
| "state_name SLEEPING = lit ''sleep ''"
| "state_name RUNNABLE = lit ''runble''"
| "state_name RUNNING = lit ''run   ''"
| "state_name ZOMBIE = lit ''zombie''"

text \<open>A C string in a byte array: up to the first zero byte.\<close>

definition cstr_of :: "uchar list \<Rightarrow> uchar list" where
  "cstr_of d = takeWhile (\<lambda>c. c \<noteq> 0) d"

text \<open>\<^verbatim>\<open>procdump\<close> follows \<^verbatim>\<open>p->parent\<close> also for a process that has none, an access with no defined effect.\<close>

fun procdump_loop :: "proc list \<Rightarrow> 'z cons_state_scheme \<Rightarrow> (unit, 'z cons_state_scheme) outcome" where
  "procdump_loop [] s = Ok () s"
| "procdump_loop (p # ps) s =
     (if p_state p = UNUSED then procdump_loop ps s
      else case p_parent p of
        None \<Rightarrow> ub
      | Some q \<Rightarrow>
          obind (cprintf (Some (lit ''%d %s %d:%s %d'' @ [10]))
             [CInt (word_of_int (p_pid p)), CStr (Some (state_name (p_state p))), CInt (word_of_int (p_pid p)),
              CStr (Some (cstr_of (p_name p))), CInt (word_of_int (p_pid (ptable s ! q)))] s) (\<lambda>_ s.
          procdump_loop ps s))"

definition procdump :: "(uint \<Rightarrow> uint) \<Rightarrow> uint \<Rightarrow> 'z cons_state_scheme \<Rightarrow> (unit, 'z cons_state_scheme) outcome" where
  "procdump stk fp s =
     obind (cprintf (Some (lit ''==== PROCDUMP START===='' @ [10])) [] s) (\<lambda>_ s.
     obind (procdump_loop (ptable s) s) (\<lambda>_ s.
     obind (cprintf (Some (lit ''====SHOW CALL STACK===='' @ [10])) [] s) (\<lambda>_ s.
     obind (show_callstk stk fp (lit ''procdump: '') s) (\<lambda>_ s.
     cprintf (Some (lit ''==== PROCDUMP  END ===='' @ [10])) [] s))))"

section \<open>Input\<close>

text \<open>The loop of control-U: erase back to the start of the line.\<close>

function kill_line :: "'z cons_state_scheme \<Rightarrow> (unit, 'z cons_state_scheme) outcome" where
  "kill_line s =
     (let i = inp s
      in if in_e i \<noteq> in_w i \<and> in_buf i ! unat ((in_e i - 1) mod INPUT_BUF) \<noteq> 10
         then obind (consputc BACKSPACE (s\<lparr>inp := i\<lparr>in_e := in_e i - 1\<rparr>\<rparr>)) (\<lambda>_ s. kill_line s)
         else Ok () s)"
  by pat_completeness auto
termination
proof (relation "measure (\<lambda>s. unat (in_e (inp s) - in_w (inp s)))", goal_cases)
  case (2 s i a t)
  have "in_e i - in_w i \<noteq> 0" using 2 by simp
  then have "unat (in_e i - in_w i - 1) < unat (in_e i - in_w i)"
    by (simp add: unat_minus_one unat_gt_0 word_neq_0_conv)
  moreover have "inp t = i\<lparr>in_e := in_e i - 1\<rparr>"
    using 2 by (auto simp: consputc_def uartputc_def split: if_splits)
  ultimately show ?case using 2(1) by (simp add: diff_right_commute)
qed simp

declare kill_line.simps [simp del]

definition consoleintr_char :: "(uint \<Rightarrow> uint) \<Rightarrow> uint \<Rightarrow> int \<Rightarrow> 'z cons_state_scheme \<Rightarrow> (unit, 'z cons_state_scheme) outcome" where
  "consoleintr_char stk fp c s =
     (let i = inp s
      in if c = 12 then procdump stk fp s
         else if c = 21 then kill_line s
         else if c = 8 \<or> c = 0x7f then
           (if in_e i \<noteq> in_w i then consputc BACKSPACE (s\<lparr>inp := i\<lparr>in_e := in_e i - 1\<rparr>\<rparr>) else Ok () s)
         else if c \<noteq> 0 \<and> in_e i - in_r i < INPUT_BUF then
           (let c = (if c = 13 then 10 else c);
                i = i\<lparr>in_buf := (in_buf i)[unat (in_e i mod INPUT_BUF) := word_of_int c], in_e := in_e i + 1\<rparr>
            in obind (consputc c (s\<lparr>inp := i\<rparr>)) (\<lambda>_ s.
               if c = 10 \<or> c = 4 \<or> in_e (inp s) = in_r (inp s) + INPUT_BUF
               then wakeup ChanInput (s\<lparr>inp := (inp s)\<lparr>in_w := in_e (inp s)\<rparr>\<rparr>)
               else Ok () s))
         else Ok () s)"

text \<open>The results of \<^verbatim>\<open>getc\<close> are a list; a negative one, or its end, stops the loop.\<close>

fun consoleintr_loop :: "(uint \<Rightarrow> uint) \<Rightarrow> uint \<Rightarrow> int list \<Rightarrow> 'z cons_state_scheme \<Rightarrow> (unit, 'z cons_state_scheme) outcome" where
  "consoleintr_loop stk fp [] s = Ok () s"
| "consoleintr_loop stk fp (c # cs) s =
     (if c < 0 then Ok () s
      else obind (consoleintr_char stk fp c s) (\<lambda>_ s. consoleintr_loop stk fp cs s))"

definition consoleintr :: "(uint \<Rightarrow> uint) \<Rightarrow> uint \<Rightarrow> int list \<Rightarrow> 'z cons_state_scheme \<Rightarrow> (unit, 'z cons_state_scheme) outcome" where
  "consoleintr stk fp cs s =
     obind (acquire InputLock s) (\<lambda>_ s.
     obind (consoleintr_loop stk fp cs s) (\<lambda>_ s.
     release InputLock s))"

definition consoleinit :: "'z cons_state_scheme \<Rightarrow> 'z cons_state_scheme" where
  "consoleinit s =
     (let s = initlock InputLock (initlock ConsLock s)
      in s\<lparr>devtab := (devtab s)[CONSOLE := \<lparr>dev_read = Some Consoleread, dev_write = Some Consolewrite\<rparr>],
           cons_locking := True\<rparr>)"

section \<open>Printing numbers\<close>

text \<open>The value of a digit and of a digit string with its most significant digit first.\<close>

definition undigit :: "uchar \<Rightarrow> nat" where
  "undigit d = (if d \<le> 0x39 then unat d - 0x30 else unat d - 0x41 + 10)"

definition num_value :: "nat \<Rightarrow> uchar list \<Rightarrow> nat" where
  "num_value base ds = foldl (\<lambda>n d. base * n + undigit d) 0 ds"

lemma undigit_all: "list_all (\<lambda>k. undigit (digits ! k) = k \<and> digits ! k \<noteq> 0x2D) [0..<16]"
  by code_simp

lemma undigit_digits: "k < 16 \<Longrightarrow> undigit (digits ! k) = k" "k < 16 \<Longrightarrow> digits ! k \<noteq> 0x2D"
  using undigit_all by (auto simp: list_all_iff)

lemma printint_digits_value:
  assumes "2 \<le> base" "base \<le> 16"
  shows "num_value base (rev (printint_digits base x)) = x \<and> 0x2D \<notin> set (printint_digits base x)"
  using assms
proof (induction base x rule: printint_digits.induct)
  case (1 base x)
  have "x mod base < 16" using 1(2,3) mod_less_divisor [of base x] by linarith
  note d = undigit_digits [OF this]
  have "x div base = 0 \<Longrightarrow> x mod base = x" by (metis add_0 mult_0_right mult_div_mod_eq)
  then have "num_value base (rev (printint_digits base x)) = x"
    using 1 d by (subst printint_digits.simps) (auto simp: num_value_def)
  moreover have "0x2D \<notin> set (printint_digits base x)"
    using 1 d by (subst printint_digits.simps) auto
  ultimately show ?case by simp
qed

lemma printint_digits_length:
  assumes "2 \<le> base" "x < base ^ Suc k"
  shows "length (printint_digits base x) \<le> Suc k"
  using assms(2)
proof (induction k arbitrary: x)
  case 0
  then show ?case using assms(1) by (subst printint_digits.simps) simp
next
  case (Suc k)
  then have "x div base < base ^ Suc k"
    using assms(1) by (subst div_less_iff_less_mult) (auto simp: mult.commute)
  then show ?case using Suc.IH assms(1) by (subst printint_digits.simps) auto
qed

lemma sless_zero: "(xx :: uint) <s 0 \<longleftrightarrow> sint xx < 0"
  by (simp add: word_sless_alt)

lemma sint_uint_minus: "sint (x :: uint) = uint x - 2 ^ 32 * of_bool (bit (uint x) 31)"
proof -
  have "take_bit 32 (uint x) = uint x" using uint_bounded [of x] by (simp add: take_bit_int_eq_self)
  then show ?thesis by (simp add: sint_uint signed_take_bit_eq_take_bit_minus)
qed

lemma unat_neg_sint:
  assumes "sint (xx :: uint) < 0"
  shows "int (unat (- xx)) = - sint xx"
proof -
  have "uint (word_of_int k :: uint) = k" if "0 \<le> k" "k < 2 ^ 32" for k
    using that by (simp add: unsigned_of_int take_bit_int_eq_self)
  from this [of "- sint xx"] show ?thesis
    using assms sint_greater_eq [of xx] by simp
qed

text \<open>
  C30. \<^verbatim>\<open>printint\<close> writes the number it is given and stays inside its buffer: for the bases the kernel uses, the
  digits and the sign take at most 11 of the 16 bytes of \<^verbatim>\<open>buf\<close>; what is printed in base 10 reads back as the signed
  value, including the most negative one, and in base 16 as the unsigned value.
\<close>

theorem printint_reads_back:
  "length (printint_buf xx 10 True) \<le> 11 \<and> length (printint_buf xx 16 False) \<le> 8 \<and>
   num_value 16 (rev (printint_buf xx 16 False)) = unat xx \<and>
   (case rev (printint_buf xx 10 True) of
      d # ds \<Rightarrow> (if d = 0x2D then - int (num_value 10 ds) else int (num_value 10 (d # ds))) = sint xx
    | [] \<Rightarrow> False)"
proof -
  have l: "unat y < 10 ^ Suc 9" "unat y < 16 ^ Suc 7" for y :: uint
    by (rule less_le_trans [OF unat_uint_less'], simp)+
  have len: "length (printint_digits 10 (unat y)) \<le> 10" "length (printint_digits 16 (unat y)) \<le> 8" for y :: uint
    using printint_digits_length [OF _ l(1), of y] printint_digits_length [OF _ l(2), of y] by simp_all
  note v = printint_digits_value [of 10] printint_digits_value [of 16]
  have ne: "printint_digits 10 x \<noteq> []" for x by (subst printint_digits.simps) simp
  have nonneg: "int (unat xx) = sint xx" if "\<not> sint xx < 0"
    using that sint_uint_minus [of xx] uint_bounded [of xx] by (auto simp: of_bool_def split: if_splits)
  show ?thesis
    using len [of xx] len [of "- xx"] v [of "unat xx"] v [of "unat (- xx)"] ne [of "unat xx"] unat_neg_sint [of xx] nonneg
    by (cases "sint xx < 0"; cases "printint_digits 10 (unat xx)" rule: rev_cases)
      (auto simp: printint_buf_def Let_def sless_zero)
qed

section \<open>The line editor\<close>

text \<open>
  The abstract editor has the bytes ready for \<^verbatim>\<open>consoleread\<close> and the line under edit. It holds 512 bytes
  in all; a newline, control-D or a full buffer makes the line ready.
\<close>

fun edit_char :: "int \<Rightarrow> uchar list \<times> uchar list \<Rightarrow> uchar list \<times> uchar list" where
  "edit_char c (rd, ed) =
     (if c = 12 then (rd, ed)
      else if c = 21 then (rd, rev (dropWhile (\<lambda>x. x \<noteq> 10) (rev ed)))
      else if c = 8 \<or> c = 0x7f then (rd, butlast ed)
      else if c \<noteq> 0 \<and> length rd + length ed < 512 then
        (let c = (if c = 13 then 10 else c); ed = ed @ [word_of_int c]
         in if c = 10 \<or> c = 4 \<or> length rd + length ed = 512 then (rd @ ed, []) else (rd, ed))
      else (rd, ed))"

definition ring_bytes :: "uchar list \<Rightarrow> uint \<Rightarrow> nat \<Rightarrow> uchar list" where
  "ring_bytes d r n = map (\<lambda>k. d ! ring_index r k) [0..<n]"

definition in_ready :: "input \<Rightarrow> uchar list" where
  "in_ready i = ring_bytes (in_buf i) (in_r i) (unat (in_w i - in_r i))"

definition in_edit :: "input \<Rightarrow> uchar list" where
  "in_edit i = ring_bytes (in_buf i) (in_w i) (unat (in_e i - in_w i))"

definition input_ok :: "input \<Rightarrow> bool" where
  "input_ok i \<longleftrightarrow> length (in_buf i) = 512 \<and> unat (in_w i - in_r i) + unat (in_e i - in_w i) \<le> 512"

lemma length_ring_bytes [simp]: "length (ring_bytes d r n) = n"
  by (simp add: ring_bytes_def)

lemma ring_index_add: "ring_index (r + of_nat j) k = ring_index r (j + k)"
  by (simp add: ring_index_def add.assoc)

lemma ring_bytes_append: "ring_bytes d r (j + k) = ring_bytes d r j @ ring_bytes d (r + of_nat j) k"
  by (intro nth_equalityI) (auto simp: ring_bytes_def nth_append ring_index_add)

lemma ring_bytes_upd:
  assumes "n \<le> j" "j < 512"
  shows "ring_bytes (d[ring_index r j := c]) r n = ring_bytes d r n"
proof -
  have "ring_index r k \<noteq> ring_index r j" if "k < n" for k
    using ring_index_inj [of k j r] that assms by auto
  then show ?thesis by (auto simp: ring_bytes_def nth_list_update_neq [OF not_sym])
qed

text \<open>The counters in terms of the lengths of the two parts.\<close>

lemma input_counts:
  assumes "input_ok i"
  shows "in_w i = in_r i + of_nat (length (in_ready i))" "in_e i = in_w i + of_nat (length (in_edit i))"
    "unat (in_e i - in_r i) = length (in_ready i) + length (in_edit i)"
    "in_e i = in_r i + of_nat (length (in_ready i) + length (in_edit i))"
proof -
  show w: "in_w i = in_r i + of_nat (length (in_ready i))" and e: "in_e i = in_w i + of_nat (length (in_edit i))"
    by (simp_all add: in_ready_def in_edit_def)
  show f: "in_e i = in_r i + of_nat (length (in_ready i) + length (in_edit i))"
    by (subst e, subst w) (simp add: add.assoc)
  have "length (in_ready i) + length (in_edit i) < 2 ^ 32"
    using assms by (simp add: input_ok_def in_ready_def in_edit_def)
  then show "unat (in_e i - in_r i) = length (in_ready i) + length (in_edit i)"
    by (subst f) (simp add: unat_of_nat del: of_nat_add)
qed

lemma input_full:
  assumes "input_ok i"
  shows "in_e i = in_r i + INPUT_BUF \<longleftrightarrow> length (in_ready i) + length (in_edit i) = 512"
proof -
  have "in_e i = in_r i + INPUT_BUF \<longleftrightarrow> in_e i - in_r i = INPUT_BUF"
    by (metis add.commute diff_add_cancel add_diff_cancel_right')
  then show ?thesis using input_counts(3) [OF assms] by (simp add: word_unat_eq_iff INPUT_BUF_def)
qed

text \<open>Erasing the last byte of the line, adding one, and making the line ready.\<close>

lemma input_erase:
  assumes "input_ok i" "in_e i \<noteq> in_w i"
  defines "j \<equiv> i\<lparr>in_e := in_e i - 1\<rparr>"
  shows "input_ok j" "in_ready j = in_ready i" "in_edit i = in_edit j @ [in_buf i ! unat ((in_e i - 1) mod INPUT_BUF)]"
proof -
  have "in_e i - in_w i \<noteq> 0" using assms(2) by simp
  then have u: "unat (in_e i - in_w i) = Suc (unat (in_e i - 1 - in_w i))"
    using unat_minus_one [of "in_e i - in_w i"] by (simp add: diff_right_commute unat_gt_0)
  then show "input_ok j" using assms(1) by (simp add: input_ok_def j_def)
  show "in_ready j = in_ready i" by (simp add: in_ready_def j_def)
  let ?n = "unat (in_e i - 1 - in_w i)"
  have "in_edit i = in_edit j @ ring_bytes (in_buf i) (in_w i + of_nat ?n) 1"
    using ring_bytes_append [of "in_buf i" "in_w i" ?n 1] u by (simp add: in_edit_def j_def)
  then show "in_edit i = in_edit j @ [in_buf i ! unat ((in_e i - 1) mod INPUT_BUF)]"
    by (simp add: ring_bytes_def ring_index_def PIPESIZE_def INPUT_BUF_def)
qed

lemma input_add:
  fixes c :: uchar
  assumes "input_ok i" "length (in_ready i) + length (in_edit i) < 512"
  defines "j \<equiv> i\<lparr>in_buf := (in_buf i)[unat (in_e i mod INPUT_BUF) := c], in_e := in_e i + 1\<rparr>"
  shows "input_ok j" "in_ready j = in_ready i" "in_edit j = in_edit i @ [c]"
proof -
  define r e where "r = unat (in_w i - in_r i)" and "e = unat (in_e i - in_w i)"
  have len: "length (in_ready i) = r" "length (in_edit i) = e" by (simp_all add: in_ready_def in_edit_def r_def e_def)
  note n = input_counts [OF assms(1), unfolded len]
  have re: "r + e < 512" using assms(2) by (simp add: len)
  have ix: "unat (in_e i mod INPUT_BUF) = ring_index (in_r i) (r + e)" "unat (in_e i mod INPUT_BUF) = ring_index (in_w i) e"
    using n(4) n(2) by (simp_all add: ring_index_def INPUT_BUF_def PIPESIZE_def add.assoc)
  have j: "in_r j = in_r i" "in_w j = in_w i" "in_e j = in_e i + 1"
    "in_buf j = (in_buf i)[unat (in_e i mod INPUT_BUF) := c]" by (simp_all add: j_def)
  have "unat (in_e i - in_w i + 1) = Suc e"
    using re by (subst unat_add_lem [THEN iffD1]) (auto simp: e_def)
  then have u: "unat (in_e j - in_w j) = Suc e" by (simp add: j diff_add_eq)
  show "input_ok j" using assms(1) re u by (simp add: input_ok_def j r_def)
  show "in_ready j = in_ready i"
    using re by (simp add: in_ready_def j flip: r_def) (simp add: ix(1) ring_bytes_upd)
  have "ring_bytes (in_buf j) (in_w i) e = ring_bytes (in_buf i) (in_w i) e"
    using re by (simp add: j ix(2) ring_bytes_upd)
  moreover have "ring_bytes (in_buf j) (in_w i + of_nat e) 1 = [c]"
    using assms(1) ix(2) ring_index_add [of "in_w i" e 0] by (simp add: ring_bytes_def j input_ok_def)
  ultimately show "in_edit j = in_edit i @ [c]"
    using ring_bytes_append [of "in_buf j" "in_w i" e 1] u by (simp add: in_edit_def j(2) flip: e_def)
qed

lemma input_commit:
  assumes "input_ok i"
  defines "j \<equiv> i\<lparr>in_w := in_e i\<rparr>"
  shows "input_ok j" "in_ready j = in_ready i @ in_edit i" "in_edit j = []"
proof -
  define r e where "r = unat (in_w i - in_r i)" and "e = unat (in_e i - in_w i)"
  have len: "length (in_ready i) = r" "length (in_edit i) = e" by (simp_all add: in_ready_def in_edit_def r_def e_def)
  note n = input_counts [OF assms(1), unfolded len]
  show "input_ok j" using assms(1) n(3) by (simp add: input_ok_def j_def r_def e_def)
  show "in_edit j = []" by (simp add: in_edit_def j_def ring_bytes_def)
  have "in_ready j = ring_bytes (in_buf i) (in_r i) (r + e)" using n(3) by (simp add: in_ready_def j_def)
  moreover have "in_ready i = ring_bytes (in_buf i) (in_r i) r" "in_edit i = ring_bytes (in_buf i) (in_w i) e"
    by (simp_all add: in_ready_def in_edit_def r_def e_def)
  ultimately show "in_ready j = in_ready i @ in_edit i" by (simp add: ring_bytes_append n(1))
qed

text \<open>What the editor changes of the machine: the input ring, the output, and processes that wait for input.\<close>

definition cons_only :: "'z cons_state_scheme \<Rightarrow> 'z cons_state_scheme \<Rightarrow> bool" where
  "cons_only s t \<longleftrightarrow> t = s\<lparr>ptable := ptable t, uart_out := uart_out t, inp := inp t\<rparr> \<and>
     only_woken (ptable s) (ptable t)"

lemma cons_only_refl [simp]: "cons_only s s"
  by (simp add: cons_only_def)

lemma cons_only_trans [trans]: "cons_only s t \<Longrightarrow> cons_only t u \<Longrightarrow> cons_only s u"
  by (cases s; cases t; cases u) (auto simp: cons_only_def intro: only_woken_trans)

lemma cons_only_fields:
  assumes "cons_only s t"
  shows "panicked t = panicked s" "irq t = irq s" "intena t = intena s" "ncli t = ncli s" "locks t = locks s"
  using assms by (cases s; cases t; simp add: cons_only_def)+

text \<open>The locks as \<^verbatim>\<open>consoleintr\<close> holds them in its loop.\<close>

definition input_locked :: "'z cons_state_scheme \<Rightarrow> bool" where
  "input_locked s \<longleftrightarrow> \<not> panicked s \<and> \<not> irq s \<and> \<not> intena s \<and> ncli s = 1 \<and> locks s = (\<lambda>_. lk_free)(InputLock := lk_held)"

lemma cons_only_locked: "cons_only s t \<Longrightarrow> input_locked t = input_locked s"
  by (simp add: input_locked_def cons_only_fields)

lemma consputc_ok:
  assumes "input_locked s"
  shows "\<exists>t. consputc c s = Ok () t \<and> cons_only s t \<and> inp t = inp s \<and> ptable t = ptable s"
  using assms by (cases s) (auto simp: input_locked_def consputc_def uartputc_def cons_only_def)

text \<open>The input part of the state after a step, as the abstract editor sees it.\<close>

definition edits_to :: "'z cons_state_scheme \<Rightarrow> uchar list \<times> uchar list \<Rightarrow> 'z cons_state_scheme \<Rightarrow> bool" where
  "edits_to s r t \<longleftrightarrow> input_ok (inp t) \<and> (in_ready (inp t), in_edit (inp t)) = r \<and> cons_only s t"

lemma cons_only_inp [simp]: "cons_only s (s\<lparr>inp := i\<rparr>)"
  by (cases s) (simp add: cons_only_def)

lemma input_locked_inp [simp]: "input_locked (s\<lparr>inp := i\<rparr>) = input_locked s"
  by (simp add: input_locked_def)

lemma kill_line_ok:
  fixes s :: "'z cons_state_scheme"
  assumes "input_locked s" "input_ok (inp s)"
  shows "\<exists>t. kill_line s = Ok () t \<and>
    edits_to s (in_ready (inp s), rev (dropWhile (\<lambda>x. x \<noteq> 10) (rev (in_edit (inp s))))) t"
  using assms
proof (induction "length (in_edit (inp s))" arbitrary: s)
  case 0
  then have "in_edit (inp s) = []" "in_e (inp s) = in_w (inp s)" using input_counts(2) [of "inp s"] by auto
  then show ?case using 0 by (subst kill_line.simps) (simp add: edits_to_def)
next
  case (Suc n)
  let ?i = "inp s"
  have ne: "in_e ?i \<noteq> in_w ?i" using Suc(2) by (auto simp: in_edit_def)
  note er = input_erase [OF Suc.prems(2) ne]
  let ?c = "in_buf ?i ! unat ((in_e ?i - 1) mod INPUT_BUF)"
  show ?case
  proof (cases "?c = 10")
    case True
    then show ?thesis using er Suc.prems by (subst kill_line.simps) (simp add: edits_to_def)
  next
    case False
    let ?s = "s\<lparr>inp := ?i\<lparr>in_e := in_e ?i - 1\<rparr>\<rparr>"
    obtain u where u: "consputc BACKSPACE ?s = Ok () u" "cons_only ?s u" "inp u = inp ?s"
      using consputc_ok [of ?s] Suc.prems(1) by auto
    have su: "cons_only s u" using cons_only_trans [OF cons_only_inp u(2)] .
    have "\<exists>t. kill_line u = Ok () t \<and>
      edits_to u (in_ready (inp u), rev (dropWhile (\<lambda>x. x \<noteq> 10) (rev (in_edit (inp u))))) t"
      using Suc er u(3) cons_only_locked [OF su] by (intro Suc.hyps(1)) auto
    then show ?thesis
      using u er False ne cons_only_trans [OF su]
      by (subst kill_line.simps) (auto simp: edits_to_def Let_def)
  qed
qed

lemma consoleintr_erase:
  fixes s :: "'z cons_state_scheme"
  assumes "input_locked s" "input_ok (inp s)" "c = 8 \<or> c = 0x7f"
  shows "\<exists>t. consoleintr_char stk fp c s = Ok () t \<and> edits_to s (edit_char c (in_ready (inp s), in_edit (inp s))) t"
proof (cases "in_e (inp s) = in_w (inp s)")
  case True
  then have "in_edit (inp s) = []" by (simp add: in_edit_def ring_bytes_def)
  then show ?thesis using True assms by (auto simp: consoleintr_char_def edits_to_def)
next
  case False
  let ?i = "inp s"
  note er = input_erase [OF assms(2) False]
  obtain u where "consputc BACKSPACE (s\<lparr>inp := ?i\<lparr>in_e := in_e ?i - 1\<rparr>\<rparr>) = Ok () u"
    "cons_only (s\<lparr>inp := ?i\<lparr>in_e := in_e ?i - 1\<rparr>\<rparr>) u" "inp u = ?i\<lparr>in_e := in_e ?i - 1\<rparr>"
    using consputc_ok [of "s\<lparr>inp := ?i\<lparr>in_e := in_e ?i - 1\<rparr>\<rparr>"] assms(1) by auto
  then show ?thesis
    using assms(3) False er cons_only_trans [OF cons_only_inp] by (auto simp: consoleintr_char_def edits_to_def)
qed

text \<open>A character that goes into the buffer; a line end, or the last free byte, hands the line to the readers.\<close>

lemma consoleintr_store:
  fixes s :: "'z cons_state_scheme"
  assumes "input_locked s" "input_ok (inp s)" "c \<notin> {0, 8, 12, 21, 0x7f}" "length (in_ready (inp s)) + length (in_edit (inp s)) < 512"
    and "in_e (inp s) - in_r (inp s) < INPUT_BUF"
  shows "\<exists>t. consoleintr_char stk fp c s = Ok () t \<and> edits_to s (edit_char c (in_ready (inp s), in_edit (inp s))) t"
proof -
  let ?i = "inp s" and ?c = "if c = 13 then 10 else c"
  let ?j = "?i\<lparr>in_buf := (in_buf ?i)[unat (in_e ?i mod INPUT_BUF) := word_of_int ?c], in_e := in_e ?i + 1\<rparr>"
  note j = input_add [OF assms(2), of "word_of_int ?c"]
  obtain u where u: "consputc ?c (s\<lparr>inp := ?j\<rparr>) = Ok () u" "cons_only (s\<lparr>inp := ?j\<rparr>) u" "inp u = ?j"
    using consputc_ok [of "s\<lparr>inp := ?j\<rparr>"] assms(1) by auto
  have su: "cons_only s u" using cons_only_trans [OF cons_only_inp u(2)] .
  have jok: "input_ok ?j" and ij: "in_ready ?j = in_ready ?i" "in_edit ?j = in_edit ?i @ [word_of_int ?c]" using j assms(4) by blast+
  have full: "in_e ?j = in_r ?j + INPUT_BUF \<longleftrightarrow> length (in_ready ?j) + length (in_edit ?j) = 512" by (rule input_full [OF jok])
  show ?thesis
  proof (cases "?c = 10 \<or> ?c = 4 \<or> length (in_ready ?j) + length (in_edit ?j) = 512")
    case c: True
    let ?w = "wakeup1 ChanInput (u\<lparr>inp := (inp u)\<lparr>in_w := in_e (inp u)\<rparr>\<rparr>)"
    have "input_locked u" using cons_only_locked [OF su] assms(1) by simp
    then have w: "wakeup ChanInput (u\<lparr>inp := (inp u)\<lparr>in_w := in_e (inp u)\<rparr>\<rparr>) = Ok () ?w"
      by (intro wakeup_exec) (auto simp: input_locked_def)
    have "cons_only u ?w" by (cases u) (simp add: cons_only_def wakeup1_def only_woken_def)
    then have sw: "cons_only s ?w" using su by (rule cons_only_trans [rotated])
    have iw: "inp ?w = ?j\<lparr>in_w := in_e ?j\<rparr>" by (simp add: wakeup1_def u(3))
    have "consoleintr_char stk fp c s = Ok () ?w" using c assms(3,5) u full w by (simp add: consoleintr_char_def Let_def)
    moreover have "edit_char c (in_ready ?i, in_edit ?i) = (in_ready ?i @ in_edit ?j, [])" using c assms(3,4) ij by (simp add: Let_def)
    ultimately show ?thesis using input_commit [OF jok] sw iw ij by (auto simp: edits_to_def)
  next
    case c: False
    then have "consoleintr_char stk fp c s = Ok () u" using assms(3,5) u full by (simp add: consoleintr_char_def Let_def)
    moreover have "edit_char c (in_ready ?i, in_edit ?i) = (in_ready ?i, in_edit ?j)" using c assms(3,4) ij by (simp add: Let_def)
    ultimately show ?thesis using jok su u(3) ij by (auto simp: edits_to_def)
  qed
qed

lemma consoleintr_char_ok:
  fixes s :: "'z cons_state_scheme"
  assumes "input_locked s" "input_ok (inp s)" "c \<noteq> 12"
  shows "\<exists>t. consoleintr_char stk fp c s = Ok () t \<and>
    edits_to s (edit_char c (in_ready (inp s), in_edit (inp s))) t"
proof -
  have room: "in_e (inp s) - in_r (inp s) < INPUT_BUF \<longleftrightarrow> length (in_ready (inp s)) + length (in_edit (inp s)) < 512"
    using input_counts(3) [OF assms(2)] by (simp add: word_less_nat_alt INPUT_BUF_def)
  consider "c = 21" | "c = 8 \<or> c = 0x7f" | "c \<notin> {0, 8, 12, 21, 0x7f}" "length (in_ready (inp s)) + length (in_edit (inp s)) < 512"
    | "c \<noteq> 21" "c \<noteq> 8" "c \<noteq> 0x7f" "\<not> (c \<noteq> 0 \<and> length (in_ready (inp s)) + length (in_edit (inp s)) < 512)"
    using assms(3) by blast
  then show ?thesis
  proof cases
    case 1
    then show ?thesis using kill_line_ok [OF assms(1,2)] by (simp add: consoleintr_char_def)
  next
    case 2
    then show ?thesis by (rule consoleintr_erase [OF assms(1,2)])
  next
    case 3
    then show ?thesis using room by (intro consoleintr_store [OF assms(1,2)]) simp_all
  next
    case 4
    then show ?thesis using assms room by (auto simp: consoleintr_char_def edits_to_def)
  qed
qed

lemma consoleintr_loop_ok:
  fixes s :: "'z cons_state_scheme"
  assumes "input_locked s" "input_ok (inp s)" "12 \<notin> set cs"
  shows "\<exists>t. consoleintr_loop stk fp cs s = Ok () t \<and>
    edits_to s (fold edit_char (takeWhile (\<lambda>c. 0 \<le> c) cs) (in_ready (inp s), in_edit (inp s))) t"
  using assms
proof (induction cs arbitrary: s)
  case Nil
  then show ?case by (simp add: edits_to_def)
next
  case (Cons c cs)
  show ?case
  proof (cases "c < 0")
    case True
    then show ?thesis using Cons by (simp add: edits_to_def)
  next
    case False
    obtain u where u: "consoleintr_char stk fp c s = Ok () u"
      "edits_to s (edit_char c (in_ready (inp s), in_edit (inp s))) u"
      using consoleintr_char_ok [OF Cons.prems(1,2), of c] Cons.prems(3) by auto
    have "cons_only s u" "input_ok (inp u)" "(in_ready (inp u), in_edit (inp u)) = edit_char c (in_ready (inp s), in_edit (inp s))"
      using u(2) by (simp_all add: edits_to_def)
    moreover from this have "\<exists>t. consoleintr_loop stk fp cs u = Ok () t \<and>
      edits_to u (fold edit_char (takeWhile (\<lambda>c. 0 \<le> c) cs) (in_ready (inp u), in_edit (inp u))) t"
      using Cons cons_only_locked by (intro Cons.IH) auto
    ultimately show ?thesis
      using u(1) False cons_only_trans by (auto simp: edits_to_def simp del: edit_char.simps)
  qed
qed

section \<open>Properties of the editor\<close>


text \<open>A console with nothing typed.\<close>

definition empty_input :: input where
  "empty_input = \<lparr>in_buf = replicate 512 0, in_r = 0, in_w = 0, in_e = 0\<rparr>"

definition boot_cons :: "(uint \<Rightarrow> uchar list) \<Rightarrow> 'z \<Rightarrow> 'z cons_state_scheme" where
  "boot_cons D m = boot_log_on D (cons_state_ext False False [] empty_input
     (replicate NDEV \<lparr>dev_read = None, dev_write = None\<rparr>) m)"

lemma boot_cons_fields:
  "panicked (boot_cons D m) = False" "inp (boot_cons D m) = empty_input" "quiet (boot_cons D m)"
  "cons_state.more (boot_cons D m) = m"
  by (simp_all add: boot_cons_def boot_log_on_def boot_on_def binit_def initlock_def Let_def quiet_def)

lemma empty_input_ok: "input_ok empty_input" "in_ready empty_input = []" "in_edit empty_input = []"
  by (simp_all add: empty_input_def input_ok_def in_ready_def in_edit_def ring_bytes_def)


end
