(* ===== verification/Xv6_Inode.thy ===== *)
theory Xv6_Inode
  imports Xv6_Balloc Xv6_Console
begin

text \<open>
  The inode layer of \<^verbatim>\<open>kernel/fs.c\<close>: the table of in-memory inodes with reference counts, locking, the copy
  to and from the disk inodes, and the map from file blocks to disk blocks.
\<close>

section \<open>State\<close>

text \<open>\<^verbatim>\<open>struct inode\<close>; the bits \<^verbatim>\<open>I_BUSY\<close> and \<^verbatim>\<open>I_VALID\<close> of \<^verbatim>\<open>flags\<close> are two booleans. A pointer is an index of the table.\<close>

record inode =
  i_dev :: uint
  i_inum :: uint
  i_ref :: int
  i_busy :: bool
  i_valid :: bool
  i_type :: ushort
  i_major :: ushort
  i_minor :: ushort
  i_nlink :: ushort
  i_size :: uint
  i_addrs :: "uint list"

record fs_state = cons_state +
  inodes :: "inode list"

definition upd_inode :: "nat \<Rightarrow> (inode \<Rightarrow> inode) \<Rightarrow> 'z fs_state_scheme \<Rightarrow> 'z fs_state_scheme" where
  "upd_inode i f s = s\<lparr>inodes := (inodes s)[i := f (inodes s ! i)]\<rparr>"

section \<open>Operations\<close>

definition iinit :: "'z fs_state_scheme \<Rightarrow> 'z fs_state_scheme" where
  "iinit s = initlock IcacheLock s"

text \<open>The scan of \<^verbatim>\<open>iget\<close>: the entry of the inode if it is cached, and the first empty slot seen.\<close>

fun iget_scan :: "uint \<Rightarrow> uint \<Rightarrow> nat \<Rightarrow> nat option \<Rightarrow> inode list \<Rightarrow> nat option \<times> nat option" where
  "iget_scan dev inum i free [] = (None, free)"
| "iget_scan dev inum i free (ip # ips) =
     (if i_ref ip > 0 \<and> i_dev ip = dev \<and> i_inum ip = inum then (Some i, free)
      else iget_scan dev inum (Suc i) (if free = None \<and> i_ref ip = 0 then Some i else free) ips)"

definition iget :: "uint \<Rightarrow> uint \<Rightarrow> 'z fs_state_scheme \<Rightarrow> (nat, 'z fs_state_scheme) outcome" where
  "iget dev inum s =
     obind (acquire IcacheLock s) (\<lambda>_ s.
     case iget_scan dev inum 0 None (inodes s) of
       (Some i, _) \<Rightarrow>
         obind (release IcacheLock (upd_inode i (\<lambda>ip. ip\<lparr>i_ref := i_ref ip + 1\<rparr>) s)) (\<lambda>_ s. Ok i s)
     | (None, None) \<Rightarrow> Panic ''iget: no inodes''
     | (None, Some e) \<Rightarrow>
         obind (release IcacheLock (upd_inode e (\<lambda>ip. ip\<lparr>i_dev := dev, i_inum := inum, i_ref := 1,
             i_busy := False, i_valid := False\<rparr>) s)) (\<lambda>_ s. Ok e s))"

definition idup :: "nat \<Rightarrow> 'z fs_state_scheme \<Rightarrow> (nat, 'z fs_state_scheme) outcome" where
  "idup ip s =
     obind (acquire IcacheLock s) (\<lambda>_ s.
     obind (release IcacheLock (upd_inode ip (\<lambda>p. p\<lparr>i_ref := i_ref p + 1\<rparr>) s)) (\<lambda>_ s. Ok ip s))"

text \<open>\<^verbatim>\<open>dip = (struct dinode* ) bp->data + inum % IPB\<close>, as a value and as the bytes stored through it.\<close>

definition dinode_at :: "uint \<Rightarrow> uchar list \<Rightarrow> dinode" where
  "dinode_at inum d = dinode_of (slice (dinode_off inum) 64 d)"

definition dinode_put :: "uint \<Rightarrow> dinode \<Rightarrow> uchar list \<Rightarrow> uchar list" where
  "dinode_put inum di d = splice (dinode_off inum) (dinode_bytes di) d"

definition load_inode :: "dinode \<Rightarrow> inode \<Rightarrow> inode" where
  "load_inode di ip = ip\<lparr>i_type := d_type di, i_major := d_major di, i_minor := d_minor di,
     i_nlink := d_nlink di, i_size := d_size di, i_addrs := d_addrs di\<rparr>"

definition inode_dinode :: "inode \<Rightarrow> dinode" where
  "inode_dinode ip = \<lparr>d_type = i_type ip, d_major = i_major ip, d_minor = i_minor ip, d_nlink = i_nlink ip,
     d_size = i_size ip, d_addrs = i_addrs ip\<rparr>"

text \<open>\<open>ilock_body\<close> is the waiting loop and what follows it, entered with the lock of the table held.\<close>

definition ilock_body :: "nat \<Rightarrow> 'z fs_state_scheme \<Rightarrow> (unit, 'z fs_state_scheme) outcome" where
  "ilock_body ip s =
     (if i_busy (inodes s ! ip) then sleep (ChanInode ip) (Some IcacheLock) s
      else obind (release IcacheLock (upd_inode ip (\<lambda>p. p\<lparr>i_busy := True\<rparr>) s)) (\<lambda>_ s.
           if i_valid (inodes s ! ip) then Ok () s
           else obind (bread (i_dev (inodes s ! ip)) (IBLOCK (i_inum (inodes s ! ip))) s) (\<lambda>bp s.
                let dip = dinode_at (i_inum (inodes s ! ip)) (b_data (bufs s ! bp))
                in obind (brelse bp (upd_inode ip (load_inode dip) s)) (\<lambda>_ s.
                   let s = upd_inode ip (\<lambda>p. p\<lparr>i_valid := True\<rparr>) s
                   in if i_type (inodes s ! ip) = 0 then Panic ''ilock: no type'' else Ok () s))))"

definition ilock :: "nat option \<Rightarrow> 'z fs_state_scheme \<Rightarrow> (unit, 'z fs_state_scheme) outcome" where
  "ilock ipo s =
     (case ipo of
        None \<Rightarrow> Panic ''ilock''
      | Some ip \<Rightarrow>
          if i_ref (inodes s ! ip) < 1 then Panic ''ilock''
          else obind (acquire IcacheLock s) (\<lambda>_ s. ilock_body ip s))"

definition ilock_resume :: "nat \<Rightarrow> 'z fs_state_scheme \<Rightarrow> (unit, 'z fs_state_scheme) outcome" where
  "ilock_resume ip s = obind (sleep_resume IcacheLock s) (\<lambda>_ s. ilock_body ip s)"

definition iunlock :: "nat option \<Rightarrow> 'z fs_state_scheme \<Rightarrow> (unit, 'z fs_state_scheme) outcome" where
  "iunlock ipo s =
     (case ipo of
        None \<Rightarrow> Panic ''iunlock''
      | Some ip \<Rightarrow>
          if \<not> i_busy (inodes s ! ip) \<or> i_ref (inodes s ! ip) < 1 then Panic ''iunlock''
          else obind (acquire IcacheLock s) (\<lambda>_ s.
               obind (wakeup (ChanInode ip) (upd_inode ip (\<lambda>p. p\<lparr>i_busy := False\<rparr>) s)) (\<lambda>_ s.
               release IcacheLock s)))"

definition iupdate :: "nat \<Rightarrow> 'z fs_state_scheme \<Rightarrow> (unit, 'z fs_state_scheme) outcome" where
  "iupdate ip s =
     obind (bread (i_dev (inodes s ! ip)) (IBLOCK (i_inum (inodes s ! ip))) s) (\<lambda>bp s.
     let d = dinode_put (i_inum (inodes s ! ip)) (inode_dinode (inodes s ! ip)) (b_data (bufs s ! bp))
     in obind (log_write bp (set_data bp d s)) (\<lambda>_ s.
        obind (brelse bp s) (\<lambda>_ s. Ok () s)))"

definition bmap :: "nat \<Rightarrow> uint \<Rightarrow> 'z fs_state_scheme \<Rightarrow> (uint, 'z fs_state_scheme) outcome" where
  "bmap ip bn s =
     (if unat bn < NDIRECT then
        (let addr = i_addrs (inodes s ! ip) ! unat bn
         in if addr = 0 then
              obind (balloc (i_dev (inodes s ! ip)) s) (\<lambda>addr s.
              Ok addr (upd_inode ip (\<lambda>p. p\<lparr>i_addrs := (i_addrs p)[unat bn := addr]\<rparr>) s))
            else Ok addr s)
      else if unat (bn - of_nat NDIRECT) < NINDIRECT then
        (let bn = bn - of_nat NDIRECT; addr = i_addrs (inodes s ! ip) ! NDIRECT
         in obind (if addr = 0 then
                     obind (balloc (i_dev (inodes s ! ip)) s) (\<lambda>addr s.
                     Ok addr (upd_inode ip (\<lambda>p. p\<lparr>i_addrs := (i_addrs p)[NDIRECT := addr]\<rparr>) s))
                   else Ok addr s) (\<lambda>addr s.
            obind (bread (i_dev (inodes s ! ip)) addr s) (\<lambda>bp s.
            let a = get_word (b_data (bufs s ! bp)) (unat bn)
            in obind (if a = 0 then
                        obind (balloc (i_dev (inodes s ! ip)) s) (\<lambda>a s.
                        obind (log_write bp (set_data bp (set_word (unat bn) a (b_data (bufs s ! bp))) s)) (\<lambda>_ s.
                        Ok a s))
                      else Ok a s) (\<lambda>a s.
               obind (brelse bp s) (\<lambda>_ s. Ok a s)))))
      else Panic ''bmap: out of range'')"

text \<open>The two loops of \<^verbatim>\<open>itrunc\<close>, over the direct slots and over the entries of the indirect block in buffer \<^verbatim>\<open>bp\<close>.\<close>

fun itrunc_direct :: "nat \<Rightarrow> nat list \<Rightarrow> 'z fs_state_scheme \<Rightarrow> (unit, 'z fs_state_scheme) outcome" where
  "itrunc_direct ip [] s = Ok () s"
| "itrunc_direct ip (i # is) s =
     (if i_addrs (inodes s ! ip) ! i \<noteq> 0
      then obind (bfree (i_dev (inodes s ! ip)) (i_addrs (inodes s ! ip) ! i) s) (\<lambda>_ s.
           itrunc_direct ip is (upd_inode ip (\<lambda>p. p\<lparr>i_addrs := (i_addrs p)[i := 0]\<rparr>) s))
      else itrunc_direct ip is s)"

fun itrunc_indirect :: "nat \<Rightarrow> nat \<Rightarrow> nat list \<Rightarrow> 'z fs_state_scheme \<Rightarrow> (unit, 'z fs_state_scheme) outcome" where
  "itrunc_indirect ip bp [] s = Ok () s"
| "itrunc_indirect ip bp (j # js) s =
     (let a = get_word (b_data (bufs s ! bp)) j
      in if a \<noteq> 0
         then obind (bfree (i_dev (inodes s ! ip)) a s) (\<lambda>_ s. itrunc_indirect ip bp js s)
         else itrunc_indirect ip bp js s)"

definition itrunc :: "nat \<Rightarrow> 'z fs_state_scheme \<Rightarrow> (unit, 'z fs_state_scheme) outcome" where
  "itrunc ip s =
     obind (itrunc_direct ip [0..<NDIRECT] s) (\<lambda>_ s.
     obind (let addr = i_addrs (inodes s ! ip) ! NDIRECT
            in if addr \<noteq> 0
               then obind (bread (i_dev (inodes s ! ip)) addr s) (\<lambda>bp s.
                    obind (itrunc_indirect ip bp [0..<NINDIRECT] s) (\<lambda>_ s.
                    obind (brelse bp s) (\<lambda>_ s.
                    obind (bfree (i_dev (inodes s ! ip)) (i_addrs (inodes s ! ip) ! NDIRECT) s) (\<lambda>_ s.
                    Ok () (upd_inode ip (\<lambda>p. p\<lparr>i_addrs := (i_addrs p)[NDIRECT := 0]\<rparr>) s)))))
               else Ok () s) (\<lambda>_ s.
     iupdate ip (upd_inode ip (\<lambda>p. p\<lparr>i_size := 0\<rparr>) s)))"

definition iput :: "nat \<Rightarrow> 'z fs_state_scheme \<Rightarrow> (unit, 'z fs_state_scheme) outcome" where
  "iput ip s =
     obind (acquire IcacheLock s) (\<lambda>_ s.
     obind (if i_ref (inodes s ! ip) = 1 \<and> i_valid (inodes s ! ip) \<and> i_nlink (inodes s ! ip) = 0
            then if i_busy (inodes s ! ip) then Panic ''iput busy''
                 else obind (release IcacheLock (upd_inode ip (\<lambda>p. p\<lparr>i_busy := True\<rparr>) s)) (\<lambda>_ s.
                      obind (itrunc ip s) (\<lambda>_ s.
                      obind (iupdate ip (upd_inode ip (\<lambda>p. p\<lparr>i_type := 0\<rparr>) s)) (\<lambda>_ s.
                      obind (acquire IcacheLock s) (\<lambda>_ s.
                      wakeup (ChanInode ip) (upd_inode ip (\<lambda>p. p\<lparr>i_busy := False, i_valid := False\<rparr>) s)))))
            else Ok () s) (\<lambda>_ s.
     release IcacheLock (upd_inode ip (\<lambda>p. p\<lparr>i_ref := i_ref p - 1\<rparr>) s)))"

definition iunlockput :: "nat \<Rightarrow> 'z fs_state_scheme \<Rightarrow> (unit, 'z fs_state_scheme) outcome" where
  "iunlockput ip s = obind (iunlock (Some ip) s) (\<lambda>_ s. iput ip s)"

text \<open>The search of \<^verbatim>\<open>ialloc\<close>, over the inode numbers still to try.\<close>

fun ialloc_loop :: "uint \<Rightarrow> ushort \<Rightarrow> uint list \<Rightarrow> 'z fs_state_scheme \<Rightarrow> (nat, 'z fs_state_scheme) outcome" where
  "ialloc_loop dev type [] s = Panic ''ialloc: no inodes''"
| "ialloc_loop dev type (inum # inums) s =
     obind (bread dev (IBLOCK inum) s) (\<lambda>bp s.
     if d_type (dinode_at inum (b_data (bufs s ! bp))) = 0 then
       (let di = \<lparr>d_type = type, d_major = 0, d_minor = 0, d_nlink = 0, d_size = 0, d_addrs = replicate (Suc NDIRECT) 0\<rparr>
        in obind (log_write bp (set_data bp (dinode_put inum di (b_data (bufs s ! bp))) s)) (\<lambda>_ s.
           obind (brelse bp s) (\<lambda>_ s. iget dev inum s)))
     else obind (brelse bp s) (\<lambda>_ s. ialloc_loop dev type inums s))"

definition ialloc :: "uint \<Rightarrow> ushort \<Rightarrow> 'z fs_state_scheme \<Rightarrow> (nat, 'z fs_state_scheme) outcome" where
  "ialloc dev type s =
     obind (readsb dev s) (\<lambda>sb s. ialloc_loop dev type (map of_nat [1..<unat (sb_ninodes sb)]) s)"

record stat =
  st_type :: ushort
  st_dev :: uint
  st_ino :: uint
  st_nlink :: ushort
  st_size :: uint

definition stati :: "nat \<Rightarrow> 'z fs_state_scheme \<Rightarrow> stat" where
  "stati ip s =
     (let p = inodes s ! ip
      in \<lparr>st_type = i_type p, st_dev = i_dev p, st_ino = i_inum p, st_nlink = i_nlink p, st_size = i_size p\<rparr>)"

end
