(* ===== verification/Xv6_Icache.thy ===== *)
theory Xv6_Icache
  imports Xv6_Inode
begin

text \<open>
  What the inode layer guarantees: the table holds each inode once and counts its references; an inode
  written by \<^verbatim>\<open>iupdate\<close> is the one that \<^verbatim>\<open>ilock\<close> reads back; \<^verbatim>\<open>ialloc\<close> takes the first free disk inode.
\<close>

section \<open>The table\<close>

text \<open>No reference count is negative, and no inode is in two referenced entries.\<close>

definition icache_ok :: "'z fs_state_scheme \<Rightarrow> bool" where
  "icache_ok s \<longleftrightarrow> length (inodes s) = NINODE \<and> (\<forall>i<NINODE. 0 \<le> i_ref (inodes s ! i)) \<and>
     (\<forall>i<NINODE. \<forall>j<NINODE. i_ref (inodes s ! i) > 0 \<and> i_ref (inodes s ! j) > 0 \<and>
        i_dev (inodes s ! i) = i_dev (inodes s ! j) \<and> i_inum (inodes s ! i) = i_inum (inodes s ! j) \<longrightarrow> i = j)"

definition caches :: "uint \<Rightarrow> uint \<Rightarrow> inode \<Rightarrow> bool" where
  "caches dev inum ip \<longleftrightarrow> i_ref ip > 0 \<and> i_dev ip = dev \<and> i_inum ip = inum"

lemma icache_unique:
  assumes "icache_ok s" "i < NINODE" "j < NINODE" "caches dev inum (inodes s ! i)" "caches dev inum (inodes s ! j)"
  shows "i = j"
proof -
  have "\<forall>i<NINODE. \<forall>j<NINODE. i_ref (inodes s ! i) > 0 \<and> i_ref (inodes s ! j) > 0 \<and>
      i_dev (inodes s ! i) = i_dev (inodes s ! j) \<and> i_inum (inodes s ! i) = i_inum (inodes s ! j) \<longrightarrow> i = j"
    using assms(1) by (simp add: icache_ok_def)
  from this [rule_format, OF assms(2,3)] show ?thesis using assms(4,5) by (simp add: caches_def)
qed

lemma icache_ok_upd:
  assumes "icache_ok s" "0 \<le> i_ref ip" "\<And>j. j < NINODE \<Longrightarrow> j \<noteq> i \<Longrightarrow> 0 < i_ref ip \<Longrightarrow> \<not> caches (i_dev ip) (i_inum ip) (inodes s ! j)"
  shows "icache_ok (s\<lparr>inodes := (inodes s)[i := ip]\<rparr>)"
proof -
  let ?n = "(inodes s)[i := ip]"
  note ok = assms(1) [unfolded icache_ok_def]
  have len: "length (inodes s) = NINODE" using ok by blast
  have nn: "?n ! k = (if k = i then ip else inodes s ! k)" if "k < NINODE" for k
    using that len by (simp add: nth_list_update)
  have "j = k" if "j < NINODE" "k < NINODE" "i_ref (?n ! j) > 0" "i_ref (?n ! k) > 0"
    "i_dev (?n ! j) = i_dev (?n ! k)" "i_inum (?n ! j) = i_inum (?n ! k)" for j k
  proof -
    consider "j = i" "k = i" | "j = i" "k \<noteq> i" | "j \<noteq> i" "k = i" | "j \<noteq> i" "k \<noteq> i" by blast
    then show ?thesis
    proof cases
      case 2
      then show ?thesis using assms(3) [of k] that by (simp add: nn caches_def)
    next
      case 3
      then show ?thesis using assms(3) [of j] that by (simp add: nn caches_def)
    next
      case 4
      then show ?thesis using that icache_unique [OF assms(1), of j k] by (simp add: nn caches_def)
    qed simp
  qed
  moreover have "0 \<le> i_ref (?n ! k)" if "k < NINODE" for k
    using that ok assms(2) by (simp add: nn)
  ultimately show ?thesis using len by (simp add: icache_ok_def)
qed

lemma iget_scan_found:
  "iget_scan dev inum k f ips = (Some j, g) \<Longrightarrow> \<exists>i<length ips. j = k + i \<and> caches dev inum (ips ! i)"
proof (induction ips arbitrary: k f)
  case (Cons ip ips)
  show ?case
  proof (cases "caches dev inum ip")
    case True
    then show ?thesis using Cons.prems by (intro exI [of _ 0]) (auto simp: caches_def)
  next
    case False
    then have "iget_scan dev inum (Suc k) (if f = None \<and> i_ref ip = 0 then Some k else f) ips = (Some j, g)"
      using Cons.prems by (simp only: iget_scan.simps if_not_P [OF False [unfolded caches_def]])
    from Cons.IH [OF this] show ?thesis by (auto intro: exI [of _ "Suc i" for i])
  qed
qed simp

lemma iget_scan_none:
  "iget_scan dev inum k f ips = (None, g) \<Longrightarrow>
    (\<forall>ip\<in>set ips. \<not> caches dev inum ip) \<and>
    g = (case f of Some x \<Rightarrow> Some x | None \<Rightarrow> map_option (\<lambda>i. k + i) (find (\<lambda>i. i_ref (ips ! i) = 0) [0..<length ips]))"
proof (induction ips arbitrary: k f)
  case (Cons ip ips)
  have nc: "\<not> caches dev inum ip"
    and r: "iget_scan dev inum (Suc k) (if f = None \<and> i_ref ip = 0 then Some k else f) ips = (None, g)"
    using Cons.prems by (auto simp: caches_def split: if_splits)
  have "find (\<lambda>i. i_ref ((ip # ips) ! i) = 0) [0..<Suc (length ips)] =
      (if i_ref ip = 0 then Some 0 else map_option Suc (find (\<lambda>i. i_ref (ips ! i) = 0) [0..<length ips]))"
    using find_map [of "\<lambda>i. i_ref ((ip # ips) ! i) = 0" Suc "[0..<length ips]"]
    by (simp add: upt_conv_Cons map_Suc_upt del: upt_Suc)
  with Cons.IH [OF r] nc show ?case by (auto split: option.splits if_splits simp del: upt_Suc simp: option.map_comp comp_def intro!: map_option_cong)
qed (simp split: option.split)

lemma map_option_add_0: "map_option ((+) (0 :: nat)) x = x"
  by (cases x) simp_all

lemma quiet_restore [simp]: "quiet s \<Longrightarrow> s\<lparr>ncli := 0, locks := \<lambda>_. lk_free\<rparr> = s"
  by (cases s) (simp add: quiet_def)

lemma upd_inode_lock:
  "(upd_inode i f (s\<lparr>ncli := n, locks := l\<rparr>))\<lparr>ncli := m, locks := k\<rparr> = upd_inode i f (s\<lparr>ncli := m, locks := k\<rparr>)"
  "irq (upd_inode i f s) = irq s" "intena (upd_inode i f s) = intena s" "ncli (upd_inode i f s) = ncli s"
  "locks (upd_inode i f s) = locks s"
  by (simp_all add: upd_inode_def)

lemma iget_exec:
  assumes "quiet s"
  shows "iget dev inum s = (case iget_scan dev inum 0 None (inodes s) of
       (Some i, _) \<Rightarrow> Ok i (upd_inode i (\<lambda>ip. ip\<lparr>i_ref := i_ref ip + 1\<rparr>) s)
     | (None, None) \<Rightarrow> Panic ''iget: no inodes''
     | (None, Some e) \<Rightarrow> Ok e (upd_inode e (\<lambda>ip. ip\<lparr>i_dev := dev, i_inum := inum, i_ref := 1,
             i_busy := False, i_valid := False\<rparr>) s))"
  using assms
  by (simp add: iget_def kexec upd_inode_lock split: option.split prod.split)

lemma idup_exec:
  "quiet s \<Longrightarrow> idup ip s = Ok ip (upd_inode ip (\<lambda>p. p\<lparr>i_ref := i_ref p + 1\<rparr>) s)"
  by (simp add: idup_def kexec upd_inode_lock)

lemma iget_ok:
  assumes "quiet s" "icache_ok s"
  shows "(if (\<exists>i<NINODE. caches dev inum (inodes s ! i)) \<or> (\<exists>i<NINODE. i_ref (inodes s ! i) = 0)
     then \<exists>i ip. iget dev inum s = Ok i (s\<lparr>inodes := (inodes s)[i := ip]\<rparr>) \<and> i < NINODE \<and> caches dev inum ip \<and>
       i_ref ip = i_ref (inodes s ! i) + 1 \<and> icache_ok (s\<lparr>inodes := (inodes s)[i := ip]\<rparr>) \<and>
       (\<forall>j<NINODE. caches dev inum (inodes s ! j) \<longrightarrow> j = i \<and> ip = (inodes s ! j)\<lparr>i_ref := i_ref ip\<rparr>)
     else iget dev inum s = Panic ''iget: no inodes'')"
proof -
  have len: "length (inodes s) = NINODE" using assms(2) by (simp add: icache_ok_def)
  obtain a g where sc: "iget_scan dev inum 0 None (inodes s) = (a, g)" by fastforce
  show ?thesis
  proof (cases a)
    case (Some i)
    then have i: "i < NINODE" "caches dev inum (inodes s ! i)"
      using iget_scan_found [of dev inum 0 None "inodes s" i g] sc len by auto
    let ?ip = "(inodes s ! i)\<lparr>i_ref := i_ref (inodes s ! i) + 1\<rparr>"
    have "iget dev inum s = Ok i (s\<lparr>inodes := (inodes s)[i := ?ip]\<rparr>)"
      using sc Some by (simp add: iget_exec [OF assms(1)] upd_inode_def)
    moreover have j: "j = i" if "j < NINODE" "caches dev inum (inodes s ! j)" for j
      using icache_unique [OF assms(2)] that i by blast
    moreover have "icache_ok (s\<lparr>inodes := (inodes s)[i := ?ip]\<rparr>)"
    proof (rule icache_ok_upd [OF assms(2)])
      show "0 \<le> i_ref ?ip" using i by (simp add: caches_def)
      show "\<not> caches (i_dev ?ip) (i_inum ?ip) (inodes s ! k)" if "k < NINODE" "k \<noteq> i" for k
        using j [of k] that i by (auto simp: caches_def)
    qed
    moreover have "caches dev inum ?ip" using i(2) by (simp add: caches_def)
    moreover have "(\<exists>i<NINODE. caches dev inum (inodes s ! i)) \<or> (\<exists>i<NINODE. i_ref (inodes s ! i) = 0)" using i by blast
    ultimately show ?thesis using i(1) by (simp only: if_P) (intro exI [of _ i] exI [of _ ?ip] conjI; simp)
  next
    case None
    have nc: "\<not> caches dev inum (inodes s ! i)" if "i < NINODE" for i
      using iget_scan_none [of dev inum 0 None "inodes s" g] sc None len that by auto
    have g: "g = find (\<lambda>i. i_ref (inodes s ! i) = 0) [0..<NINODE]"
      using iget_scan_none [of dev inum 0 None "inodes s" g] sc None by (simp add: map_option_add_0 len)
    show ?thesis
    proof (cases g)
      case None': None
      then have "find (\<lambda>i. i_ref (inodes s ! i) = 0) [0..<NINODE] = None" using g by simp
      then have "\<forall>i<NINODE. i_ref (inodes s ! i) \<noteq> 0" unfolding find_upt_None .
      moreover have "iget dev inum s = Panic ''iget: no inodes''"
        using sc None None' by (simp add: iget_exec [OF assms(1)])
      ultimately show ?thesis using nc by simp
    next
      case (Some e)
      then have "find (\<lambda>i. i_ref (inodes s ! i) = 0) [0..<NINODE] = Some e" using g by simp
      then have e: "e < NINODE" "i_ref (inodes s ! e) = 0" unfolding find_upt_Some by blast+
      let ?ip = "(inodes s ! e)\<lparr>i_dev := dev, i_inum := inum, i_ref := 1, i_busy := False, i_valid := False\<rparr>"
      have "iget dev inum s = Ok e (s\<lparr>inodes := (inodes s)[e := ?ip]\<rparr>)"
        using sc None Some by (simp add: iget_exec [OF assms(1)] upd_inode_def)
      moreover have "icache_ok (s\<lparr>inodes := (inodes s)[e := ?ip]\<rparr>)"
        using nc by (intro icache_ok_upd [OF assms(2)]) auto
      moreover have "caches dev inum ?ip" by (simp add: caches_def)
      moreover have "(\<exists>i<NINODE. caches dev inum (inodes s ! i)) \<or> (\<exists>i<NINODE. i_ref (inodes s ! i) = 0)" using e by blast
      ultimately show ?thesis using e nc by (simp only: if_P) (intro exI [of _ e] exI [of _ ?ip] conjI; simp)
    qed
  qed
qed

text \<open>
  C28. \<^verbatim>\<open>iget\<close> keeps one entry per inode. On a well-formed table it returns an entry for the inode asked for,
  whose count is one higher than before (one, when the entry was free) and which is the entry the inode
  had if it was cached; no other entry changes and the table stays well formed. It stops the machine exactly
  when the inode is not cached and no entry is free.
\<close>

theorem iget_one_entry:
  assumes "quiet s" "icache_ok s"
  shows "(if (\<exists>i<NINODE. caches dev inum (inodes s ! i)) \<or> (\<exists>i<NINODE. i_ref (inodes s ! i) = 0)
     then \<exists>i ip. iget dev inum s = Ok i (s\<lparr>inodes := (inodes s)[i := ip]\<rparr>) \<and> i < NINODE \<and> caches dev inum ip \<and>
       i_ref ip = i_ref (inodes s ! i) + 1 \<and> icache_ok (s\<lparr>inodes := (inodes s)[i := ip]\<rparr>) \<and>
       (\<forall>j<NINODE. caches dev inum (inodes s ! j) \<longrightarrow> j = i \<and> ip = (inodes s ! j)\<lparr>i_ref := i_ref ip\<rparr>)
     else iget dev inum s = Panic ''iget: no inodes'')"
  using assms by (rule iget_ok)

section \<open>Disk inodes\<close>

text \<open>The table of inodes is no part of what the lower layers see.\<close>

lemma inodes_below [simp]:
  "cache_inv (s\<lparr>inodes := x\<rparr>) = cache_inv s" "held (s\<lparr>inodes := x\<rparr>) = held s" "pinned (s\<lparr>inodes := x\<rparr>) = pinned s"
  "blk (s\<lparr>inodes := x\<rparr>) = blk s" "log_area (s\<lparr>inodes := x\<rparr>) = log_area s" "log_geom (s\<lparr>inodes := x\<rparr>) = log_geom s"
  by (auto simp: cache_inv_def bcache_ok_def buf_ok_def quiet_def busy_set_def held_def pinned_def dirty_set_def
      blk_def fun_eq_iff log_area_def log_geom_def split: option.split)

lemma inodes_log [simp]:
  "fsb (s\<lparr>inodes := x\<rparr>) = fsb s" "fs_block (s\<lparr>inodes := x\<rparr>) = fs_block s" "fs_ok A X (s\<lparr>inodes := x\<rparr>) = fs_ok A X s"
  by (simp_all add: fsb_def fs_block_def fs_ok_def log_inv_def fits_def logged_def log_block_def fun_eq_iff)

lemma inodes_txn: "txn_rel s t \<Longrightarrow> inodes t = inodes s" "bio_rel s t \<Longrightarrow> inodes t = inodes s"
  by (cases s; cases t; simp add: txn_rel_def bio_rel_def)+

lemma inodes_chg: "fs_chg s Q D t \<Longrightarrow> inodes t = inodes s" "fs_same s t \<Longrightarrow> inodes t = inodes s"
  by (auto simp: fs_chg_def fs_same_def intro: inodes_txn)

lemma txn_rel_inodes:
  assumes "txn_rel s v"
  shows "txn_rel (s\<lparr>inodes := y\<rparr>) (v\<lparr>inodes := y\<rparr>)"
proof -
  have "v\<lparr>inodes := y\<rparr> = s\<lparr>inodes := y, ptable := ptable v, memdisk := memdisk v, bufs := bufs v, writes := writes v,
       lh_n := lh_n v, lh_sector := lh_sector v\<rparr>"
    using assms by (cases s; cases v) (simp add: txn_rel_def)
  then show ?thesis using assms by (simp add: txn_rel_def)
qed

lemma fs_same_inodes: "fs_same s v \<Longrightarrow> fs_same (s\<lparr>inodes := y\<rparr>) (v\<lparr>inodes := y\<rparr>)"
  by (simp add: fs_same_def txn_rel_inodes)

lemma fs_chg_inodes: "fs_chg s Q D v \<Longrightarrow> fs_chg (s\<lparr>inodes := y\<rparr>) Q D (v\<lparr>inodes := y\<rparr>)"
  by (simp add: fs_chg_def txn_rel_inodes)

lemma fs_ok_quiet: "fs_ok A X s \<Longrightarrow> quiet s"
  by (simp add: fs_ok_def log_inv_def cache_inv_def)

text \<open>Writing a disk inode leaves the others of its block alone.\<close>

lemma unat_IBLOCK: "unat (IBLOCK i) = unat i div 8 + 2"
proof -
  have "unat (i div IPB) = unat i div 8" by (simp add: unat_div IPB_def)
  moreover have "unat i div 8 + 2 < 2 ^ 32"
    using div_le_mono [OF less_imp_le [OF unat_uint_less' [of i]], of 8] by simp
  ultimately show ?thesis by (simp add: IBLOCK_def) (subst unat_add_lem [THEN iffD1], auto)
qed

lemma dinode_off_disjoint:
  assumes "IBLOCK i = IBLOCK j" "i \<noteq> j"
  shows "dinode_off i + 64 \<le> dinode_off j \<or> dinode_off j + 64 \<le> dinode_off i"
proof -
  have "unat i div 8 = unat j div 8" using assms(1) by (simp add: word_unat_eq_iff unat_IBLOCK)
  then have "unat i mod 8 \<noteq> unat j mod 8" using assms(2) by (metis mult_div_mod_eq word_unat_eq_iff)
  then show ?thesis by (auto simp: dinode_off_def unat_mod IPB_def)
qed

lemma length_dinode_put [simp]:
  "length (d_addrs di) = Suc NDIRECT \<Longrightarrow> length d = BSIZE \<Longrightarrow> length (dinode_put i di d) = BSIZE"
  using dinode_off_range [of i] by (simp add: dinode_put_def)

lemma dinode_at_put:
  assumes "length (d_addrs di) = Suc NDIRECT" "length d = BSIZE"
  shows "dinode_at i (dinode_put i di d) = di"
    "IBLOCK j = IBLOCK i \<Longrightarrow> j \<noteq> i \<Longrightarrow> dinode_at j (dinode_put i di d) = dinode_at j d"
proof -
  have len: "dinode_off i + length (dinode_bytes di) \<le> length d" using dinode_off_range assms by simp
  show "dinode_at i (dinode_put i di d) = di"
    using slice_splice_same [OF len] dinode_of_bytes_append [OF assms(1), of "[]"] assms(1)
    by (simp add: dinode_at_def dinode_put_def)
  show "dinode_at j (dinode_put i di d) = dinode_at j d" if "IBLOCK j = IBLOCK i" "j \<noteq> i"
    using dinode_off_disjoint [OF that] slice_splice_disjoint [OF len, of "dinode_off j" 64] dinode_off_range [of j] assms
    by (auto simp: dinode_at_def dinode_put_def)
qed

lemma iupdate_ok:
  fixes s :: "'z fs_state_scheme"
  assumes "fs_ok A X s" "i_dev (inodes s ! ip) = 1" "length (i_addrs (inodes s ! ip)) = Suc NDIRECT"
  defines "inum \<equiv> i_inum (inodes s ! ip)"
  assumes "IBLOCK inum \<in> A" "fs_block s (IBLOCK inum)" "IBLOCK inum \<notin> ran (held s)"
  shows "\<exists>t. iupdate ip s = Ok () t \<and> fs_ok A X t \<and>
    fs_chg s {IBLOCK inum} ((fsb s)(IBLOCK inum := dinode_put inum (inode_dinode (inodes s ! ip)) (fsb s (IBLOCK inum)))) t"
proof -
  let ?n = "IBLOCK inum" and ?d = "dinode_put inum (inode_dinode (inodes s ! ip)) (fsb s (IBLOCK inum))"
  have "length ?d = BSIZE" using length_fsb [OF assms(1,6)] assms(3) by (simp add: inode_dinode_def)
  then obtain b and u v t :: "'z fs_state_scheme" where 1: "bread 1 ?n s = Ok b u" "b_data (bufs u ! b) = fsb s ?n"
    "log_write b (set_data b ?d u) = Ok () v" "brelse b v = Ok () t" "fs_ok A X t" "fs_upd s ?n ?d t" "bio_rel s u"
    using fs_update_split [OF assms(1,5,6,7), of ?d] by blast
  then show ?thesis
    using fs_chg_upd [OF 1(6)] assms(2) inodes_txn(2) [OF 1(7)]
    by (intro exI [of _ t]) (simp add: iupdate_def inum_def)
qed

text \<open>\<^verbatim>\<open>ilock\<close> of an entry that nobody has locked: a valid entry is only marked, another one is read from the disk.\<close>

lemma ilock_valid:
  assumes "quiet s" "0 < i_ref (inodes s ! ip)" "\<not> i_busy (inodes s ! ip)" "i_valid (inodes s ! ip)" "ip < length (inodes s)"
  shows "ilock (Some ip) s = Ok () (upd_inode ip (\<lambda>p. p\<lparr>i_busy := True\<rparr>) s)"
  using assms
  by (simp add: ilock_def ilock_body_def kexec upd_inode_lock) (simp add: upd_inode_def)

lemma fs_read_mod:
  fixes s :: "'z fs_state_scheme"
  assumes "fs_ok A X s" "fs_block s n" "n \<notin> ran (held s)"
  shows "\<exists>b u t. bread 1 n s = Ok b u \<and> b_data (bufs u ! b) = fsb s n \<and> inodes u = inodes s \<and>
    brelse b (u\<lparr>inodes := x\<rparr>) = Ok () t \<and> fs_ok A X t \<and> fs_same (s\<lparr>inodes := x\<rparr>) t"
proof -
  have ft: "fits A s" and ci: "cache_inv s" using assms(1) by (auto simp: fs_ok_def log_inv_def)
  obtain b u where u: "bread 1 n s = Ok b u" "cache_inv u" "held s b = None" "held u = (held s)(b \<mapsto> n)" "pinned u = pinned s"
    "blk u = blk s" "memdisk u = memdisk s" "writes u = writes s" "bio_rel s u"
    using bread_abs [OF ci, of n] assms(2,3) fitsD(1) [OF ft] by (auto simp: fs_block_def)
  let ?s = "s\<lparr>inodes := x\<rparr>" and ?u = "u\<lparr>inodes := x\<rparr>"
  have cu: "cache_inv ?u" "held ?u b = Some n" using u by simp_all
  have "n \<in> pinned s \<or> blk s n = memdisk s n" using bc.clean [OF ci] assms(3) by auto
  then obtain t where t: "brelse b ?u = Ok () t" "cache_inv t" "held t = (held ?u)(b := None)"
    "pinned t = pinned ?u" "blk t = blk ?u" "memdisk t = memdisk ?u" "writes t = writes ?u" "bio_rel ?u t"
    using brelse_abs [OF cu] u by auto
  have "bio_rel ?s ?u" using u(9) by (cases s; cases u) (auto simp: bio_rel_def)
  then have "bio_rel ?s t" using t(8) by (rule bio_rel_trans)
  moreover have "held t = held ?s" using t(3) u(3,4) by auto
  ultimately have "read_only ?s t" using t u by (simp add: read_only_def)
  moreover have "fs_ok A X ?s" using assms(1) by simp
  ultimately have "fs_ok A X t" "fs_same ?s t" using fs_read_only by blast+
  moreover have "b_data (bufs u ! b) = fsb s n"
    using held_data(1) [OF u(2), of b n] u(4,6) assms(2) by (simp add: buf_data_def fsb_def fs_block_def)
  ultimately show ?thesis using u(1) t(1) inodes_txn(2) [OF u(9)] by blast
qed

lemma load_inode_busy:
  "(load_inode di (p\<lparr>i_busy := True\<rparr>))\<lparr>i_valid := True\<rparr> = (load_inode di p)\<lparr>i_busy := True, i_valid := True\<rparr>"
  by (cases p) (simp add: load_inode_def)

lemma ilock_load:
  fixes s :: "'z fs_state_scheme"
  assumes "fs_ok A X s" "ip < length (inodes s)"
  defines "p \<equiv> inodes s ! ip"
  defines "di \<equiv> dinode_at (i_inum p) (fsb s (IBLOCK (i_inum p)))"
  assumes p: "0 < i_ref p" "\<not> i_busy p" "\<not> i_valid p" "i_dev p = 1" "fs_block s (IBLOCK (i_inum p))"
    "IBLOCK (i_inum p) \<notin> ran (held s)"
  shows "if d_type di = 0 then ilock (Some ip) s = Panic ''ilock: no type''
    else \<exists>t. ilock (Some ip) s = Ok () t \<and> fs_ok A X t \<and>
      fs_same (s\<lparr>inodes := (inodes s)[ip := (load_inode di p)\<lparr>i_busy := True, i_valid := True\<rparr>]\<rparr>) t"
proof -
  let ?n = "IBLOCK (i_inum p)" and ?s = "s\<lparr>inodes := (inodes s)[ip := p\<lparr>i_busy := True\<rparr>]\<rparr>"
  let ?x = "(inodes s)[ip := load_inode di (p\<lparr>i_busy := True\<rparr>)]"
  let ?l = "s\<lparr>ncli := 1, locks := (\<lambda>_. lk_free)(IcacheLock := lk_held)\<rparr>"
  have q: "quiet s" by (rule fs_ok_quiet [OF assms(1)])
  have si: "fs_ok A X ?s" "fs_block ?s ?n" "?n \<notin> ran (held ?s)" using assms by simp_all
  obtain b and u v :: "'z fs_state_scheme" where 1: "bread 1 ?n ?s = Ok b u" "b_data (bufs u ! b) = fsb ?s ?n" "inodes u = inodes ?s"
    "brelse b (u\<lparr>inodes := ?x\<rparr>) = Ok () v" "fs_ok A X v" "fs_same (?s\<lparr>inodes := ?x\<rparr>) v"
    using fs_read_mod [OF si] by blast
  have iv: "inodes v = ?x" using inodes_chg(2) [OF 1(6)] by simp
  let ?t = "v\<lparr>inodes := ?x[ip := (load_inode di p)\<lparr>i_busy := True, i_valid := True\<rparr>]\<rparr>"
  have "ilock (Some ip) s = (if d_type di = 0 then Panic ''ilock: no type'' else Ok () ?t)"
  proof -
    have a: "acquire IcacheLock s = Ok () ?l" using q by (simp add: kexec)
    have il: "inodes ?l = inodes s" by simp
    have r: "release IcacheLock (upd_inode ip (\<lambda>p. p\<lparr>i_busy := True\<rparr>) ?l) = Ok () ?s"
      using q by (simp add: kexec upd_inode_lock) (simp add: upd_inode_def p_def)
    have ix: "inodes ?s ! ip = p\<lparr>i_busy := True\<rparr>" using assms(2) by simp
    have load: "upd_inode ip (load_inode di) u = u\<lparr>inodes := ?x\<rparr>"
      using assms(2) by (simp add: upd_inode_def 1(3))
    have d: "dinode_at (i_inum p) (b_data (bufs u ! b)) = di" using 1(2) by (simp add: di_def)
    have last: "upd_inode ip (\<lambda>p. p\<lparr>i_valid := True\<rparr>) v = ?t" "i_type (inodes ?t ! ip) = d_type di"
      using assms(2) by (simp_all add: upd_inode_def iv load_inode_busy) (simp add: load_inode_def)
    show ?thesis
      using p(1-4) assms(2) last by (simp add: ilock_def ilock_body_def a il r 1(1,3,4) load d Let_def flip: p_def)
  qed
  moreover have "fs_same (s\<lparr>inodes := (inodes s)[ip := (load_inode di p)\<lparr>i_busy := True, i_valid := True\<rparr>]\<rparr>) ?t"
    using fs_same_inodes [OF 1(6), of "(inodes s)[ip := (load_inode di p)\<lparr>i_busy := True, i_valid := True\<rparr>]"] by simp
  ultimately show ?thesis using 1(5) by auto
qed

text \<open>
  C27. Inode round trip through the disk. Inside a transaction, \<^verbatim>\<open>iupdate\<close> of an in-memory inode logs one
  block, in which no other disk inode changes. Whatever the table of inodes is afterwards, \<^verbatim>\<open>ilock\<close> of a fresh
  entry for the same inode then loads exactly the type, numbers, link count, size and block addresses
  that were written, and leaves the entry locked and valid.
\<close>

theorem iupdate_ilock_roundtrip:
  fixes s :: "'z fs_state_scheme"
  assumes "fs_ok A X s" "i_dev (inodes s ! ip) = 1" "length (i_addrs (inodes s ! ip)) = Suc NDIRECT"
    and "IBLOCK (i_inum (inodes s ! ip)) \<in> A" "fs_block s (IBLOCK (i_inum (inodes s ! ip)))"
    and "IBLOCK (i_inum (inodes s ! ip)) \<notin> ran (held s)" "i_type (inodes s ! ip) \<noteq> 0"
  shows "\<exists>t. iupdate ip s = Ok () t \<and> fs_ok A X t \<and>
    (\<forall>j. j \<noteq> i_inum (inodes s ! ip) \<longrightarrow> dinode_at j (fsb t (IBLOCK j)) = dinode_at j (fsb s (IBLOCK j))) \<and>
    (\<forall>x e. e < length x \<longrightarrow> caches 1 (i_inum (inodes s ! ip)) (x ! e) \<longrightarrow> \<not> i_busy (x ! e) \<longrightarrow> \<not> i_valid (x ! e) \<longrightarrow>
      (\<exists>u. ilock (Some e) (t\<lparr>inodes := x\<rparr>) = Ok () u \<and> fs_ok A X u \<and> fsb u = fsb t \<and>
        inode_dinode (inodes u ! e) = inode_dinode (inodes s ! ip) \<and> i_busy (inodes u ! e) \<and> i_valid (inodes u ! e)))"
proof -
  let ?p = "inodes s ! ip" and ?n = "IBLOCK (i_inum (inodes s ! ip))"
  have len: "length (fsb s ?n) = BSIZE" "length (d_addrs (inode_dinode ?p)) = Suc NDIRECT"
    using length_fsb [OF assms(1,5)] assms(3) by (simp_all add: inode_dinode_def)
  obtain t where t: "iupdate ip s = Ok () t" "fs_ok A X t"
    "fs_chg s {?n} ((fsb s)(?n := dinode_put (i_inum ?p) (inode_dinode ?p) (fsb s ?n))) t"
    using iupdate_ok [OF assms(1-6)] by blast
  note c = fs_chgD [OF t(3)]
  have di: "dinode_at (i_inum ?p) (fsb t ?n) = inode_dinode ?p" using dinode_at_put(1) [OF len(2,1)] c(3) by simp
  have oth: "dinode_at j (fsb t (IBLOCK j)) = dinode_at j (fsb s (IBLOCK j))" if "j \<noteq> i_inum ?p" for j
    using dinode_at_put(2) [OF len(2,1) _ that] c(3) by auto
  have "\<exists>u. ilock (Some e) (t\<lparr>inodes := x\<rparr>) = Ok () u \<and> fs_ok A X u \<and> fsb u = fsb t \<and>
      inode_dinode (inodes u ! e) = inode_dinode ?p \<and> i_busy (inodes u ! e) \<and> i_valid (inodes u ! e)"
    if e: "e < length x" "caches 1 (i_inum ?p) (x ! e)" "\<not> i_busy (x ! e)" "\<not> i_valid (x ! e)" for x e
  proof -
    let ?t = "t\<lparr>inodes := x\<rparr>"
    let ?x = "x[e := (load_inode (inode_dinode ?p) (x ! e))\<lparr>i_busy := True, i_valid := True\<rparr>]"
    have te: "inodes ?t ! e = x ! e" "i_inum (x ! e) = i_inum ?p" "fsb ?t = fsb t" using e by (simp_all add: caches_def)
    have ok: "fs_ok A X ?t" using t(2) by simp
    have nz: "d_type (inode_dinode ?p) \<noteq> 0" using assms(7) by (simp add: inode_dinode_def)
    from ilock_load [OF ok, of e, unfolded te di] obtain u where u: "ilock (Some e) ?t = Ok () u" "fs_ok A X u"
      "fs_same (t\<lparr>inodes := ?x\<rparr>) u"
      using e c(1,5) assms(5,6) nz by (auto simp: caches_def)
    then have "inodes u ! e = (load_inode (inode_dinode ?p) (x ! e))\<lparr>i_busy := True, i_valid := True\<rparr>"
      using inodes_chg(2) [OF u(3)] e(1) by simp
    then show ?thesis using u by (auto simp: inode_dinode_def load_inode_def fs_same_def)
  qed
  then show ?thesis using t oth by blast
qed

section \<open>A machine with a small file system\<close>

text \<open>The machine of the concrete instances has booted from the disk \<^const>\<open>fs_image\<close> and opened a transaction.\<close>

definition zero_inode :: inode where
  "zero_inode = \<lparr>i_dev = 0, i_inum = 0, i_ref = 0, i_busy = False, i_valid = False, i_type = 0, i_major = 0,
     i_minor = 0, i_nlink = 0, i_size = 0, i_addrs = replicate 13 0\<rparr>"

definition txn_fs :: "inode list \<Rightarrow> fs_state" where
  "txn_fs x = (boot_cons fs_image (fs_state_ext x ()))\<lparr>log_busy := True\<rparr>"

lemma txn_fs_fields:
  "inodes (txn_fs x) = x" "held (txn_fs x) = Map.empty" "pinned (txn_fs x) = {}"
  "quiet (txn_fs x)" "curproc (txn_fs x) = Some 0" "ptable (txn_fs x) = [ready_proc]"
  and fsb_txn_fs: "fsb (txn_fs x) n = (if 768 \<le> unat n \<and> unat n < 788 then [] else fs_image n)"
  and fs_block_txn_fs: "fs_block (txn_fs x) n \<longleftrightarrow> unat n < 768 \<or> 788 \<le> unat n \<and> unat n < 1024"
  and txn_fs_ok: "finite A \<Longrightarrow> card A < 10 \<Longrightarrow> fs_ok A {} (txn_fs x)"
proof -
  let ?b = "boot_cons fs_image (fs_state_ext x ())"
  have idle: "log_idle ?b" and f: "fsb ?b n = (if 768 \<le> unat n \<and> unat n < 788 then [] else fs_image n)"
    and b: "fs_block ?b n \<longleftrightarrow> unat n < 768 \<or> 788 \<le> unat n \<and> unat n < 1024" for n
    unfolding boot_cons_def by (rule boot_log_on_idle [OF length_fs_image fs_image_log])+
  show "held (txn_fs x) = Map.empty" "pinned (txn_fs x) = {}"
    using idle by (simp_all add: txn_fs_def log_idle_def)
  show "fsb (txn_fs x) n = (if 768 \<le> unat n \<and> unat n < 788 then [] else fs_image n)"
    "fs_block (txn_fs x) n \<longleftrightarrow> unat n < 768 \<or> 788 \<le> unat n \<and> unat n < 1024"
    using f [of n] b [of n] by (simp_all add: txn_fs_def fs_block_def)
  have "log_size ?b = 20" by (simp add: boot_cons_def boot_log_on_fields)
  then show "fs_ok A {} (txn_fs x)" if "finite A" "card A < 10"
    using begin_fs_ok [OF idle that(1)] that(2) by (simp add: txn_fs_def NBUF_def)
  show "inodes (txn_fs x) = x" "quiet (txn_fs x)" "curproc (txn_fs x) = Some 0" "ptable (txn_fs x) = [ready_proc]"
    by (simp_all add: txn_fs_def boot_cons_def boot_log_on_def boot_on_def binit_def initlock_def Let_def quiet_def)
qed

definition table_with :: "inode \<Rightarrow> inode list" where
  "table_with ip = ip # replicate 49 zero_inode"

theorem iget_one_entry_witness:
  "icache_ok (txn_fs (table_with (zero_inode\<lparr>i_dev := 1, i_inum := 7, i_ref := 3\<rparr>))) \<and>
   (\<exists>t. iget 1 7 (txn_fs (table_with (zero_inode\<lparr>i_dev := 1, i_inum := 7, i_ref := 3\<rparr>))) = Ok 0 t \<and> i_ref (inodes t ! 0) = 4)"
proof -
  let ?p = "zero_inode\<lparr>i_dev := 1, i_inum := 7, i_ref := 3\<rparr>"
  let ?s = "txn_fs (table_with ?p)"
  have n: "table_with ?p ! i = (if i = 0 then ?p else zero_inode)" if "i < NINODE" for i
    using that by (cases i) (simp_all add: table_with_def NINODE_def)
  have ok: "icache_ok ?s"
  proof -
    have "i_ref (table_with ?p ! i) = (if i = 0 then 3 else 0)" if "i < NINODE" for i
      using n [OF that] by (simp add: zero_inode_def)
    moreover have "length (table_with ?p) = NINODE" by (simp add: table_with_def NINODE_def)
    ultimately show ?thesis by (simp add: icache_ok_def txn_fs_fields split: if_splits)
  qed
  have c: "caches 1 7 (inodes ?s ! 0)" "0 < NINODE" by (simp_all add: caches_def txn_fs_fields n NINODE_def)
  then have "(\<exists>i<NINODE. caches 1 7 (inodes ?s ! i)) \<or> (\<exists>i<NINODE. i_ref (inodes ?s ! i) = 0)" by blast
  from iget_one_entry [OF txn_fs_fields(4) ok, of 1 7, unfolded if_P [OF this]] c obtain i ip where
    i: "iget 1 7 ?s = Ok i (?s\<lparr>inodes := (inodes ?s)[i := ip]\<rparr>)" "i_ref ip = i_ref (inodes ?s ! i) + 1" "0 = i" "i < NINODE"
    by blast
  then show ?thesis using ok by (simp add: txn_fs_fields table_with_def zero_inode_def)
qed


theorem iupdate_ilock_roundtrip_witness:
  "\<exists>t u. iupdate 0 (txn_fs (table_with (zero_inode\<lparr>i_dev := 1, i_inum := 2, i_ref := 1, i_busy := True, i_type := T_FILE, i_size := 77\<rparr>))) =
     Ok () t \<and> ilock (Some 0) (t\<lparr>inodes := table_with (zero_inode\<lparr>i_dev := 1, i_inum := 2, i_ref := 1\<rparr>)\<rparr>) = Ok () u \<and>
     i_size (inodes u ! 0) = 77 \<and> i_type (inodes u ! 0) = T_FILE"
proof -
  let ?p = "zero_inode\<lparr>i_dev := 1, i_inum := 2, i_ref := 1, i_busy := True, i_type := T_FILE, i_size := 77\<rparr>"
  let ?x = "table_with (zero_inode\<lparr>i_dev := 1, i_inum := 2, i_ref := 1\<rparr>)"
  let ?s = "txn_fs (table_with ?p)"
  have p: "inodes ?s ! 0 = ?p" by (simp add: txn_fs_fields table_with_def)
  have ib: "IBLOCK 2 = 2" by (simp add: IBLOCK_def IPB_def)
  have x: "0 < length ?x" "caches 1 2 (?x ! 0)" "\<not> i_busy (?x ! 0)" "\<not> i_valid (?x ! 0)"
    by (simp_all add: table_with_def caches_def zero_inode_def)
  have ok: "fs_ok {2} {} ?s" by (rule txn_fs_ok) simp_all
  obtain t where t: "iupdate 0 ?s = Ok () t"
    "\<forall>x e. e < length x \<longrightarrow> caches 1 2 (x ! e) \<longrightarrow> \<not> i_busy (x ! e) \<longrightarrow> \<not> i_valid (x ! e) \<longrightarrow>
      (\<exists>u. ilock (Some e) (t\<lparr>inodes := x\<rparr>) = Ok () u \<and> fs_ok {2} {} u \<and> fsb u = fsb t \<and>
        inode_dinode (inodes u ! e) = inode_dinode ?p \<and> i_busy (inodes u ! e) \<and> i_valid (inodes u ! e))"
    using iupdate_ilock_roundtrip [OF ok, of 0, unfolded p]
    by (auto simp: zero_inode_def NDIRECT_def ib fs_block_txn_fs txn_fs_fields T_FILE_def)
  from t(2) [rule_format, OF x] obtain u where "ilock (Some 0) (t\<lparr>inodes := ?x\<rparr>) = Ok () u"
    "inode_dinode (inodes u ! 0) = inode_dinode ?p" by blast
  then show ?thesis using t(1) by (auto simp: inode_dinode_def)
qed

end
