(* ===== verification/Xv6_Readi.thy ===== *)
theory Xv6_Readi
  imports Xv6_Icache
begin

text \<open>
  The content of inodes: \<^verbatim>\<open>readi\<close> and \<^verbatim>\<open>writei\<close> of \<^verbatim>\<open>kernel/fs.c\<close>, and the console as the device behind them
  (\<^verbatim>\<open>consoleread\<close>, \<^verbatim>\<open>consolewrite\<close> of \<^verbatim>\<open>kernel/console.c\<close>). The content of a file is the concatenation of its
  blocks; reading returns a slice of it and writing replaces one.
\<close>

section \<open>The console as a device\<close>

text \<open>
  The loop of \<^verbatim>\<open>consoleread\<close> with \<open>n\<close> bytes to go and the bytes delivered so far; a process that sleeps
  on an empty input continues in \<open>consoleread_resume\<close>.
\<close>

definition consoleread_done :: "nat \<Rightarrow> int \<Rightarrow> uchar list \<Rightarrow> 'z fs_state_scheme \<Rightarrow> (int \<times> uchar list, 'z fs_state_scheme) outcome" where
  "consoleread_done ip r acc s =
     obind (release InputLock s) (\<lambda>_ s.
     obind (ilock (Some ip) s) (\<lambda>_ s. Ok (r, acc) s))"

fun consoleread_loop :: "nat \<Rightarrow> nat \<Rightarrow> nat \<Rightarrow> uchar list \<Rightarrow> 'z fs_state_scheme \<Rightarrow> (int \<times> uchar list, 'z fs_state_scheme) outcome" where
  "consoleread_loop ip target 0 acc s = consoleread_done ip (int target) acc s"
| "consoleread_loop ip target (Suc n) acc s =
     (let i = inp s
      in if in_r i = in_w i then
           (case curproc s of
              None \<Rightarrow> kfault
            | Some q \<Rightarrow>
                if p_killed (ptable s ! q) then consoleread_done ip (-1) acc s
                else sleep ChanInput (Some InputLock) s)
         else
           (let c = in_buf i ! unat (in_r i mod INPUT_BUF); s' = s\<lparr>inp := i\<lparr>in_r := in_r i + 1\<rparr>\<rparr>
            in if c = 4 then consoleread_done ip (int target - int (Suc n)) acc (if Suc n < target then s else s')
               else if c = 10 then consoleread_done ip (int target - int n) (acc @ [c]) s'
               else consoleread_loop ip target n (acc @ [c]) s'))"

definition consoleread :: "nat \<Rightarrow> int \<Rightarrow> 'z fs_state_scheme \<Rightarrow> (int \<times> uchar list, 'z fs_state_scheme) outcome" where
  "consoleread ip n s =
     obind (iunlock (Some ip) s) (\<lambda>_ s.
     obind (acquire InputLock s) (\<lambda>_ s. consoleread_loop ip (nat n) (nat n) [] s))"

definition consoleread_resume :: "nat \<Rightarrow> nat \<Rightarrow> nat \<Rightarrow> uchar list \<Rightarrow> 'z fs_state_scheme \<Rightarrow> (int \<times> uchar list, 'z fs_state_scheme) outcome" where
  "consoleread_resume ip target n acc s =
     obind (sleep_resume InputLock s) (\<lambda>_ s. consoleread_loop ip target n acc s)"

definition consolewrite :: "nat \<Rightarrow> uchar list \<Rightarrow> int \<Rightarrow> 'z fs_state_scheme \<Rightarrow> (int, 'z fs_state_scheme) outcome" where
  "consolewrite ip buf n s =
     (if length buf < nat n then ub
      else obind (iunlock (Some ip) s) (\<lambda>_ s.
           obind (acquire ConsLock s) (\<lambda>_ s.
           obind (consputs (take (nat n) buf) s) (\<lambda>_ s.
           obind (release ConsLock s) (\<lambda>_ s.
           obind (ilock (Some ip) s) (\<lambda>_ s. Ok n s))))))"

section \<open>Reading and writing\<close>

text \<open>
  The loop of \<^verbatim>\<open>readi\<close>; \<open>left\<close> is \<^verbatim>\<open>n - tot\<close>. The bytes copied to \<^verbatim>\<open>dst\<close> are returned.
\<close>

definition block_part :: "uint \<Rightarrow> uint \<Rightarrow> uint" where
  "block_part left off = min left (of_nat BSIZE - off mod of_nat BSIZE)"

lemma unat_BSIZE: "unat (of_nat BSIZE :: uint) = 512" "(of_nat BSIZE :: uint) = 512"
  by (simp_all add: BSIZE_def)

lemma unat_block_part: "unat (block_part left off) = min (unat left) (512 - unat off mod 512)"
proof -
  have "off mod 512 \<le> 512" by (simp add: word_le_nat_alt unat_mod)
  then have "unat (512 - off mod 512) = 512 - unat off mod 512" by (simp add: unat_sub unat_mod)
  moreover have "unat (min x y) = min (unat x) (unat y)" for x y :: uint
    by (simp add: min_def word_le_nat_alt)
  ultimately show ?thesis by (simp add: block_part_def unat_BSIZE)
qed

lemma block_part_pos: "left \<noteq> 0 \<Longrightarrow> 0 < unat (block_part left off) \<and> unat (block_part left off) \<le> unat left"
  by (simp add: unat_block_part unat_gt_0)

lemma unat_left: "left \<noteq> 0 \<Longrightarrow> unat (left - block_part left off) = unat left - unat (block_part left off)"
  using block_part_pos [of left off] by (intro unat_sub) (simp add: word_le_nat_alt)

lemma block_part_facts:
  assumes "left \<noteq> 0"
  shows "0 < unat (block_part left off)" "unat (block_part left off) \<le> unat left"
    "unat off mod 512 + unat (block_part left off) \<le> 512"
    "unat (left - block_part left off) = unat left - unat (block_part left off)"
proof -
  have "unat off mod 512 < 512" by simp
  then show "unat off mod 512 + unat (block_part left off) \<le> 512"
    unfolding unat_block_part by linarith
qed (use block_part_pos [OF assms, of off] unat_left [OF assms, of off] in auto)

function readi_loop :: "nat \<Rightarrow> uint \<Rightarrow> uint \<Rightarrow> 'z fs_state_scheme \<Rightarrow> (uchar list, 'z fs_state_scheme) outcome" where
  "readi_loop ip off left s =
     (if left = 0 then Ok [] s
      else obind (bmap ip (off div of_nat BSIZE) s) (\<lambda>addr s.
           obind (bread (i_dev (inodes s ! ip)) addr s) (\<lambda>bp s.
           let m = block_part left off;
               d = slice (unat (off mod of_nat BSIZE)) (unat m) (b_data (bufs s ! bp))
           in obind (brelse bp s) (\<lambda>_ s.
              obind (readi_loop ip (off + m) (left - m) s) (\<lambda>r s. Ok (d @ r) s)))))"
  by pat_completeness auto
termination
proof (relation "measure (\<lambda>(ip, off, left, s). unat left)", goal_cases)
  case (2 ip off left s a b c d e f m r)
  then show ?case using unat_left [of left off] block_part_pos [of left off] by simp
qed simp

declare readi_loop.simps [simp del]

definition readi :: "nat \<Rightarrow> uint \<Rightarrow> uint \<Rightarrow> 'z fs_state_scheme \<Rightarrow> (int \<times> uchar list, 'z fs_state_scheme) outcome" where
  "readi ip off n s =
     (let p = inodes s ! ip
      in if i_type p = T_DEV then
           (let major = sint (i_major p)
            in if major < 0 \<or> major \<ge> int NDEV then Ok (-1, []) s
               else case dev_read (devtab s ! nat major) of
                      None \<Rightarrow> Ok (-1, []) s
                    | Some Consoleread \<Rightarrow> consoleread ip (sint n) s
                    | Some Consolewrite \<Rightarrow> ub)
         else if off > i_size p \<or> off + n < off then Ok (-1, []) s
         else let n = (if off + n > i_size p then i_size p - off else n)
              in obind (readi_loop ip off n s) (\<lambda>d s. Ok (sint n, d) s))"

text \<open>
  The loop of \<^verbatim>\<open>writei\<close>, which returns the final \<^verbatim>\<open>off\<close>. \<open>src\<close> are the bytes at \<^verbatim>\<open>src\<close>; reading past them has no
  defined effect.
\<close>

function writei_loop :: "nat \<Rightarrow> uchar list \<Rightarrow> uint \<Rightarrow> uint \<Rightarrow> 'z fs_state_scheme \<Rightarrow> (uint, 'z fs_state_scheme) outcome" where
  "writei_loop ip src off left s =
     (if left = 0 then Ok off s
      else obind (bmap ip (off div of_nat BSIZE) s) (\<lambda>addr s.
           obind (bread (i_dev (inodes s ! ip)) addr s) (\<lambda>bp s.
           let m = block_part left off
           in if length src < unat m then ub
              else obind (log_write bp (set_data bp
                     (splice (unat (off mod of_nat BSIZE)) (take (unat m) src) (b_data (bufs s ! bp))) s)) (\<lambda>_ s.
                   obind (brelse bp s) (\<lambda>_ s.
                   writei_loop ip (drop (unat m) src) (off + m) (left - m) s)))))"
  by pat_completeness auto
termination
proof (relation "measure (\<lambda>(ip, src, off, left, s). unat left)", goal_cases)
  case (2 ip src off left s a b c d m e f g h)
  then show ?case using unat_left [of left off] block_part_pos [of left off] by simp
qed simp

declare writei_loop.simps [simp del]

definition writei :: "nat \<Rightarrow> uchar list \<Rightarrow> uint \<Rightarrow> uint \<Rightarrow> 'z fs_state_scheme \<Rightarrow> (int, 'z fs_state_scheme) outcome" where
  "writei ip src off n s =
     (let p = inodes s ! ip
      in if i_type p = T_DEV then
           (let major = sint (i_major p)
            in if major < 0 \<or> major \<ge> int NDEV then Ok (-1) s
               else case dev_write (devtab s ! nat major) of
                      None \<Rightarrow> Ok (-1) s
                    | Some Consolewrite \<Rightarrow> consolewrite ip src (sint n) s
                    | Some Consoleread \<Rightarrow> ub)
         else if off > i_size p \<or> off + n < off then Ok (-1) s
         else if off + n > of_nat (MAXFILE * BSIZE) then Ok (-1) s
         else obind (writei_loop ip src off n s) (\<lambda>off s.
              if n > 0 \<and> off > i_size (inodes s ! ip)
              then obind (iupdate ip (upd_inode ip (\<lambda>p. p\<lparr>i_size := off\<rparr>) s)) (\<lambda>_ s. Ok (sint n) s)
              else Ok (sint n) s))"

section \<open>The content of a file\<close>

lemma length_concat_blocks:
  "(\<And>k. k < N \<Longrightarrow> length (f k) = 512) \<Longrightarrow> length (concat (map f [0..<N])) = 512 * N"
  by (induction N) auto

lemma nth_concat_blocks:
  assumes "\<And>k. k < N \<Longrightarrow> length (f k) = 512" "i < 512 * N"
  shows "concat (map f [0..<N]) ! i = f (i div 512) ! (i mod 512)"
  using assms
proof (induction N)
  case (Suc N)
  have l: "length (concat (map f [0..<N])) = 512 * N" using Suc.prems(1) by (intro length_concat_blocks) auto
  show ?case
  proof (cases "i < 512 * N")
    case True
    then show ?thesis using Suc l by (simp add: nth_append)
  next
    case False
    then obtain j where "i = 512 * N + j" "j < 512" using Suc.prems(2) by (auto simp: not_less le_iff_add)
    then have "i div 512 = N" "i mod 512 = i - 512 * N" by auto
    then show ?thesis using False l by (simp add: nth_append)
  qed
qed simp

lemma slice_concat_blocks:
  assumes "\<And>k. k < N \<Longrightarrow> length (f k) = 512" "off mod 512 + m \<le> 512" "off div 512 < N"
  shows "slice off m (concat (map f [0..<N])) = slice (off mod 512) m (f (off div 512))"
proof -
  have o: "off + m \<le> 512 * N" using assms(2,3) div_mult_mod_eq [of off 512] by linarith
  have l: "length (concat (map f [0..<N])) = 512 * N" "length (f (off div 512)) = 512"
    using assms by (auto intro: length_concat_blocks)
  show ?thesis
  proof (rule nth_equalityI)
    show len: "length (slice off m (concat (map f [0..<N]))) = length (slice (off mod 512) m (f (off div 512)))"
      using o l assms(2) by simp
    fix i assume "i < length (slice off m (concat (map f [0..<N])))"
    then have i: "i < m" by simp
    then have "off mod 512 + i < 512" using assms(2) by simp
    then have d: "(off + i) div 512 = off div 512" "(off + i) mod 512 = off mod 512 + i"
      using div_mult_mod_eq [of off 512] div_mult_self3 [of 512 "off div 512" "off mod 512 + i"]
        mod_mult_self3 [of "off div 512" 512 "off mod 512 + i"] by (simp_all add: add.assoc)
    then show "slice off m (concat (map f [0..<N])) ! i = slice (off mod 512) m (f (off div 512)) ! i"
      using i o l assms(2) nth_concat_blocks [where N = N and f = f and i = "off + i", OF assms(1)]
      by (simp add: nth_slice)
  qed
qed

lemma slice_add: "slice off (m + r) xs = slice off m xs @ slice (off + m) r xs"
  by (simp add: slice_def take_add add.commute)

text \<open>The disk block of the \<open>k\<close>-th block of a file, and what it means that the file has that block.\<close>

definition file_addr :: "'z fs_state_scheme \<Rightarrow> nat \<Rightarrow> nat \<Rightarrow> uint" where
  "file_addr s ip k =
     (if k < NDIRECT then i_addrs (inodes s ! ip) ! k
      else get_word (fsb s (i_addrs (inodes s ! ip) ! NDIRECT)) (k - NDIRECT))"

definition has_block :: "'z fs_state_scheme \<Rightarrow> nat \<Rightarrow> nat \<Rightarrow> bool" where
  "has_block s ip k \<longleftrightarrow> k < MAXFILE \<and> file_addr s ip k \<noteq> 0 \<and> fs_block s (file_addr s ip k) \<and>
     file_addr s ip k \<notin> ran (held s) \<and>
     (NDIRECT \<le> k \<longrightarrow> (let a = i_addrs (inodes s ! ip) ! NDIRECT in a \<noteq> 0 \<and> fs_block s a \<and> a \<notin> ran (held s)))"

definition file_blocks :: "'z fs_state_scheme \<Rightarrow> nat \<Rightarrow> nat \<Rightarrow> uchar list" where
  "file_blocks s ip N = concat (map (\<lambda>k. fsb s (file_addr s ip k)) [0..<N])"

lemma fs_same_file:
  assumes "fs_same s t"
  shows "file_addr t = file_addr s" "has_block t = has_block s" "file_blocks t = file_blocks s" "inodes t = inodes s"
proof -
  have i: "inodes t = inodes s" by (rule inodes_chg(2) [OF assms])
  have f: "fsb t = fsb s" "held t = held s" "fs_block t = fs_block s"
    using assms by (auto simp: fs_same_def fs_block_txn)
  show a: "file_addr t = file_addr s" by (intro ext) (simp add: file_addr_def i f)
  show "has_block t = has_block s" "file_blocks t = file_blocks s" "inodes t = inodes s"
    by (intro ext; simp add: has_block_def file_blocks_def i f a)+ (rule i)
qed

text \<open>\<^verbatim>\<open>bmap\<close> of a block that the file has finds it, and allocates nothing.\<close>

lemma unat_minus_NDIRECT: "NDIRECT \<le> unat bn \<Longrightarrow> unat (bn - of_nat NDIRECT) = unat bn - NDIRECT" for bn :: uint
  using unat_sub [of 12 bn] by (simp add: NDIRECT_def word_le_nat_alt)

lemma bmap_lookup:
  fixes s :: "'z fs_state_scheme"
  assumes "fs_ok A X s" "i_dev (inodes s ! ip) = 1" "has_block s ip (unat bn)"
  shows "\<exists>t. bmap ip bn s = Ok (file_addr s ip (unat bn)) t \<and> fs_ok A X t \<and> fs_same s t"
proof (cases "unat bn < NDIRECT")
  case True
  then show ?thesis using assms by (simp add: bmap_def has_block_def file_addr_def)
next
  case False
  note h = assms(3) [unfolded has_block_def Let_def]
  let ?a = "i_addrs (inodes s ! ip) ! NDIRECT"
  have a: "?a \<noteq> 0" "fs_block s ?a" "?a \<notin> ran (held s)" using h False by auto
  obtain b and u t :: "'z fs_state_scheme" where 1: "bread 1 ?a s = Ok b u" "b_data (bufs u ! b) = fsb s ?a"
    "brelse b u = Ok () t" "fs_ok A X t" "fs_same s t"
    using fs_read_split [OF assms(1) a(2,3)] by blast
  have n: "unat (bn - of_nat NDIRECT) = unat bn - NDIRECT" using False by (simp add: unat_minus_NDIRECT)
  have "unat bn - NDIRECT < NINDIRECT" using h False unfolding MAXFILE_def by linarith
  then show ?thesis
    using 1 a(1) False h assms(2) by (intro exI [of _ t]) (simp add: bmap_def n file_addr_def)
qed

lemma readi_loop_ok:
  fixes s :: "'z fs_state_scheme"
  assumes "fs_ok A X s" "i_dev (inodes s ! ip) = 1" "unat off + unat left \<le> 512 * N" "N \<le> MAXFILE"
    and "\<And>k. k < N \<Longrightarrow> has_block s ip k"
  shows "\<exists>t. readi_loop ip off left s = Ok (slice (unat off) (unat left) (file_blocks s ip N)) t \<and> fs_ok A X t \<and> fs_same s t"
  using assms
proof (induction "unat left" arbitrary: off left s rule: less_induct)
  case less
  show ?case
  proof (cases "left = 0")
    case True
    then show ?thesis using less.prems(1) by (simp add: readi_loop.simps [of ip off 0] slice_def)
  next
    case False
    define m where "m = block_part left off"
    let ?k = "unat off div 512"
    have kb: "unat (off div of_nat BSIZE) = ?k" "unat (off mod of_nat BSIZE) = unat off mod 512"
      by (simp_all add: unat_BSIZE unat_div unat_mod)
    note m = block_part_facts [OF False, of off, folded m_def]
    have "512 * N \<le> 512 * MAXFILE" using less.prems(4) by simp
    then have om: "unat (off + m) = unat off + unat m"
      using m less.prems(3) by (intro unat_add_lem [THEN iffD1]) (simp add: MAXFILE_def NDIRECT_def NINDIRECT_def)
    have kN: "?k < N" using m less.prems(3) by (simp add: div_less_iff_less_mult)
    have hb: "has_block s ip ?k" using less.prems(5) kN by blast
    obtain t where t: "bmap ip (off div of_nat BSIZE) s = Ok (file_addr s ip ?k) t" "fs_ok A X t" "fs_same s t"
      using bmap_lookup [OF less.prems(1,2), of "off div of_nat BSIZE"] hb kb by auto
    note e = fs_same_file [OF t(3)] and c = fs_chgD [OF fs_same_chg [OF t(3)]]
    have fb: "fs_block t (file_addr s ip ?k)" "file_addr s ip ?k \<notin> ran (held t)"
      using hb c by (auto simp: has_block_def)
    obtain b and u v :: "'z fs_state_scheme" where 1: "bread 1 (file_addr s ip ?k) t = Ok b u"
      "b_data (bufs u ! b) = fsb t (file_addr s ip ?k)" "brelse b u = Ok () v" "fs_ok A X v" "fs_same t v"
      using fs_read_split [OF t(2) fb] by blast
    have sv: "fs_same s v" using t(3) 1(5) by (rule fs_same_trans)
    note ev = fs_same_file [OF sv]
    have "\<exists>w. readi_loop ip (off + m) (left - m) v = Ok (slice (unat (off + m)) (unat (left - m)) (file_blocks v ip N)) w \<and>
      fs_ok A X w \<and> fs_same v w"
      by (rule less.hyps) (use m less.prems 1(4) ev om in auto)
    then obtain w where w: "readi_loop ip (off + m) (left - m) v =
        Ok (slice (unat off + unat m) (unat left - unat m) (file_blocks s ip N)) w" "fs_ok A X w" "fs_same v w"
      using ev om m by auto
    have len: "length (fsb s (file_addr s ip k)) = 512" if "k < N" for k
      using less.prems(5) [OF that] length_fsb [OF less.prems(1)] by (simp add: has_block_def BSIZE_def)
    have "slice (unat off) (unat m) (file_blocks s ip N) = slice (unat off mod 512) (unat m) (fsb s (file_addr s ip ?k))"
      unfolding file_blocks_def using m kN len by (intro slice_concat_blocks) auto
    then have "slice (unat off) (unat left) (file_blocks s ip N) =
        slice (unat off mod 512) (unat m) (fsb s (file_addr s ip ?k)) @
        slice (unat off + unat m) (unat left - unat m) (file_blocks s ip N)"
      using slice_add [of "unat off" "unat m" "unat left - unat m" "file_blocks s ip N"] m by simp
    then show ?thesis
      using False t(1) 1 w less.prems(2) e c(3) fs_same_trans [OF sv w(3)] kb(2)
      by (intro exI [of _ w]) (subst readi_loop.simps, simp add: Let_def flip: m_def)
  qed
qed

section \<open>Overwriting\<close>

lemma concat_blocks_upd:
  assumes "\<And>k. k < N \<Longrightarrow> length (f k) = 512" "j < N" "i + length bs \<le> 512"
  shows "concat (map (f(j := splice i bs (f j))) [0..<N]) = splice (512 * j + i) bs (concat (map f [0..<N]))"
proof -
  let ?g = "f(j := splice i bs (f j))"
  have lj: "length (f j) = 512" using assms(1,2) by simp
  have lg: "\<And>k. k < N \<Longrightarrow> length (?g k) = 512" using assms(1,3) lj by simp
  have lf: "length (concat (map f [0..<N])) = 512 * N" "length (concat (map ?g [0..<N])) = 512 * N"
    by (rule length_concat_blocks, rule assms(1), assumption) (rule length_concat_blocks, rule lg, assumption)
  have "512 * Suc j \<le> 512 * N" using assms(2) by (intro mult_le_mono) auto
  then have fit: "512 * j + i + length bs \<le> length (concat (map f [0..<N]))" using assms(3) lf by simp
  show ?thesis
  proof (rule nth_equalityI)
    show "length (concat (map ?g [0..<N])) = length (splice (512 * j + i) bs (concat (map f [0..<N])))"
      using fit lf by simp
    fix x assume "x < length (concat (map ?g [0..<N]))"
    then have x: "x < 512 * N" using lf by simp
    have eq: "x = 512 * (x div 512) + x mod 512" "x mod 512 < 512" by simp_all
    have ng: "concat (map ?g [0..<N]) ! x = ?g (x div 512) ! (x mod 512)"
      by (rule nth_concat_blocks [OF _ x]) (rule lg)
    have nf: "concat (map f [0..<N]) ! x = f (x div 512) ! (x mod 512)"
      by (rule nth_concat_blocks [OF _ x]) (rule assms(1))
    show "concat (map ?g [0..<N]) ! x = splice (512 * j + i) bs (concat (map f [0..<N])) ! x"
    proof (cases "x div 512 = j")
      case True
      then have "512 * j + i \<le> x \<and> x < 512 * j + i + length bs \<longleftrightarrow> i \<le> x mod 512 \<and> x mod 512 < i + length bs"
        "x - (512 * j + i) = x mod 512 - i"
        using eq by linarith+
      then show ?thesis
        using True x fit lf lj assms(3) unfolding ng by (simp add: nth_splice nf)
    next
      case False
      have "\<not> (512 * j + i \<le> x \<and> x < 512 * j + i + length bs)"
      proof
        assume "512 * j + i \<le> x \<and> x < 512 * j + i + length bs"
        then have "512 * j \<le> x" "x < 512 * Suc j" using assms(3) by simp_all
        then show False using False by (simp add: div_nat_eqI)
      qed
      then show ?thesis
        using False x fit lf unfolding ng by (auto simp: nth_splice nf)
    qed
  qed
qed

lemma splice_splice:
  assumes "m \<le> length src" "off + length src \<le> length xs"
  shows "splice (off + m) (drop m src) (splice off (take m src) xs) = splice off src xs"
proof (rule nth_equalityI)
  have l: "length (splice off (take m src) xs) = length xs" using assms by simp
  show "length (splice (off + m) (drop m src) (splice off (take m src) xs)) = length (splice off src xs)"
    using assms l by simp
  fix i assume "i < length (splice (off + m) (drop m src) (splice off (take m src) xs))"
  then have "i < length xs" using assms l by simp
  then show "splice (off + m) (drop m src) (splice off (take m src) xs) ! i = splice off src xs ! i"
    using assms l by (auto simp: nth_splice)
qed

text \<open>A file with its first \<open>N\<close> blocks, all different, and none of them the indirect block.\<close>

definition has_file :: "'z fs_state_scheme \<Rightarrow> nat \<Rightarrow> nat \<Rightarrow> bool" where
  "has_file s ip N \<longleftrightarrow> i_dev (inodes s ! ip) = 1 \<and> N \<le> MAXFILE \<and> (\<forall>k<N. has_block s ip k) \<and>
     inj_on (file_addr s ip) {..<N} \<and> (NDIRECT < N \<longrightarrow> i_addrs (inodes s ! ip) ! NDIRECT \<notin> file_addr s ip ` {..<N})"

lemma length_file_block:
  "fs_ok A X s \<Longrightarrow> has_file s ip N \<Longrightarrow> k < N \<Longrightarrow> length (fsb s (file_addr s ip k)) = 512"
  using length_fsb [of A X s "file_addr s ip k"] by (simp add: has_file_def has_block_def BSIZE_def)

lemma length_file_blocks: "fs_ok A X s \<Longrightarrow> has_file s ip N \<Longrightarrow> length (file_blocks s ip N) = 512 * N"
  unfolding file_blocks_def by (rule length_concat_blocks) (rule length_file_block)

text \<open>Changing part of one block of a file.\<close>

lemma file_upd:
  assumes "fs_ok A X s" "has_file s ip N" "j < N" "i + length bs \<le> 512"
    and "fs_chg s Q ((fsb s)(file_addr s ip j := splice i bs (fsb s (file_addr s ip j)))) t"
  shows "has_file t ip N" "\<forall>k<N. file_addr t ip k = file_addr s ip k"
    "file_blocks t ip N = splice (512 * j + i) bs (file_blocks s ip N)" "inodes t = inodes s"
proof -
  note c = fs_chgD [OF assms(5)] and h = assms(2) [unfolded has_file_def]
  show it: "inodes t = inodes s" by (rule inodes_chg(1) [OF assms(5)])
  have ind: "fsb t (i_addrs (inodes s ! ip) ! NDIRECT) = fsb s (i_addrs (inodes s ! ip) ! NDIRECT)" if "NDIRECT < N"
    using h that assms(3) c(3) by auto
  show fa: "\<forall>k<N. file_addr t ip k = file_addr s ip k"
    using ind by (auto simp: file_addr_def it)
  have "\<forall>k<N. has_block t ip k"
    using h fa c(1,5) by (auto simp: has_block_def it Let_def)
  moreover have "inj_on (file_addr t ip) {..<N} = inj_on (file_addr s ip) {..<N}" using fa by (intro inj_on_cong) auto
  moreover have "file_addr t ip ` {..<N} = file_addr s ip ` {..<N}" using fa by (intro image_cong) auto
  ultimately show "has_file t ip N" using h by (simp add: has_file_def it)
  have "fsb t (file_addr t ip k) = ((\<lambda>k. fsb s (file_addr s ip k))(j := splice i bs (fsb s (file_addr s ip j)))) k" if "k < N" for k
    using that fa h assms(3) c(3) by (auto simp: inj_on_def)
  then have "file_blocks t ip N = concat (map ((\<lambda>k. fsb s (file_addr s ip k))(j := splice i bs (fsb s (file_addr s ip j)))) [0..<N])"
    by (auto simp: file_blocks_def intro!: arg_cong [of _ _ concat] map_cong)
  then show "file_blocks t ip N = splice (512 * j + i) bs (file_blocks s ip N)"
    using concat_blocks_upd [OF length_file_block [OF assms(1,2)] assms(3,4)] by (simp add: file_blocks_def)
qed

text \<open>One round of the loop of \<^verbatim>\<open>writei\<close>: the part of a block is spliced into the file.\<close>

lemma writei_round:
  fixes s :: "'z fs_state_scheme"
  assumes "fs_ok A X s" "has_file s ip N" "unat off + unat left \<le> 512 * N" "length src = unat left"
    and "file_addr s ip ` {..<N} \<subseteq> A" "left \<noteq> 0"
  defines "m \<equiv> block_part left off" and "a \<equiv> file_addr s ip (unat off div 512)"
  shows "\<exists>w D. writei_loop ip src off left s = writei_loop ip (drop (unat m) src) (off + m) (left - m) w \<and> fs_ok A X w \<and> has_file w ip N \<and>
    file_blocks w ip N = splice (unat off) (take (unat m) src) (file_blocks s ip N) \<and> inodes w = inodes s \<and>
    file_addr w ip ` {..<N} = file_addr s ip ` {..<N} \<and> unat (off + m) = unat off + unat m \<and>
    fs_chg s {a} D w \<and> (\<forall>n. n \<notin> file_addr s ip ` {..<N} \<longrightarrow> D n = fsb s n)"
proof -
  let ?k = "unat off div 512" and ?i = "unat off mod 512"
  note m = block_part_facts [OF assms(6), of off, folded m_def]
  note h = assms(2) [unfolded has_file_def]
  have kb: "unat (off div of_nat BSIZE) = ?k" "unat (off mod of_nat BSIZE) = ?i"
    by (simp_all add: unat_BSIZE unat_div unat_mod)
  have "512 * N \<le> 512 * MAXFILE" using h by simp
  then have om: "unat (off + m) = unat off + unat m"
    using m assms(3) by (intro unat_add_lem [THEN iffD1]) (simp add: MAXFILE_def NDIRECT_def NINDIRECT_def)
  have kN: "?k < N" using m assms(3) by (simp add: div_less_iff_less_mult)
  have hb: "has_block s ip ?k" and dev: "i_dev (inodes s ! ip) = 1" using h kN by blast+
  let ?d = "splice ?i (take (unat m) src) (fsb s a)"
  obtain t where t: "bmap ip (off div of_nat BSIZE) s = Ok a t" "fs_ok A X t" "fs_same s t"
    using bmap_lookup [OF assms(1) dev, of "off div of_nat BSIZE"] hb kb by (auto simp: a_def)
  note e = fs_same_file [OF t(3)] and c = fs_chgD [OF fs_same_chg [OF t(3)]]
  have fb: "a \<in> A" "fs_block t a" "a \<notin> ran (held t)" using hb c assms(5) kN by (auto simp: has_block_def a_def)
  have lb: "length (fsb s a) = 512" unfolding a_def using length_file_block [OF assms(1,2) kN] .
  have lm: "length (take (unat m) src) = unat m" using assms(4) m by simp
  obtain b and u v w :: "'z fs_state_scheme" where 1: "bread 1 a t = Ok b u"
    "b_data (bufs u ! b) = fsb t a" "log_write b (set_data b ?d u) = Ok () v" "brelse b v = Ok () w" "fs_ok A X w" "fs_upd t a ?d w"
    using fs_update_split [OF t(2) fb, of ?d] lb lm m by (auto simp: BSIZE_def)
  have cw: "fs_chg s {a} ((fsb s)(a := ?d)) w"
    using fs_chg_trans [OF fs_same_chg [OF t(3)] fs_chg_upd [OF 1(6)]] c(3) by simp
  have fits: "?i + length (take (unat m) src) \<le> 512" using lm m by simp
  note fu = file_upd [OF assms(1,2) kN fits cw [unfolded a_def]]
  have "file_addr w ip ` {..<N} = file_addr s ip ` {..<N}" using fu(2) by (intro image_cong) auto
  moreover have "writei_loop ip src off left s = writei_loop ip (drop (unat m) src) (off + m) (left - m) w"
    using assms(4,6) t(1) 1 dev e c(3) kb(2) m by (subst writei_loop.simps) (simp add: Let_def flip: m_def)
  moreover have "((fsb s)(a := ?d)) n = fsb s n" if "n \<notin> file_addr s ip ` {..<N}" for n using that kN by (auto simp: a_def)
  ultimately show ?thesis
    using 1(5) fu om cw by (intro exI [of _ w] exI [of _ "(fsb s)(a := ?d)"]) simp
qed

lemma writei_loop_ok:
  fixes s :: "'z fs_state_scheme"
  assumes "fs_ok A X s" "has_file s ip N" "unat off + unat left \<le> 512 * N" "length src = unat left"
    and "file_addr s ip ` {..<N} \<subseteq> A"
  shows "\<exists>t Q D. writei_loop ip src off left s = Ok (off + left) t \<and> fs_ok A X t \<and> has_file t ip N \<and>
    file_blocks t ip N = splice (unat off) src (file_blocks s ip N) \<and> inodes t = inodes s \<and>
    fs_chg s Q D t \<and> (\<forall>a. a \<notin> file_addr s ip ` {..<N} \<longrightarrow> D a = fsb s a)"
  using assms
proof (induction "unat left" arbitrary: off left src s rule: less_induct)
  case less
  show ?case
  proof (cases "left = 0")
    case True
    have "fs_chg s {} (fsb s) s" by simp
    then show ?thesis
      using True less.prems by (intro exI [of _ s] exI [of _ "{}"] exI [of _ "fsb s"])
        (simp add: writei_loop.simps [of ip "[]" off 0] splice_def)
  next
    case False
    define m where "m = block_part left off"
    note m = block_part_facts [OF False, of off, folded m_def]
    obtain w D0 where w: "writei_loop ip src off left s = writei_loop ip (drop (unat m) src) (off + m) (left - m) w" "fs_ok A X w" "has_file w ip N"
      "file_blocks w ip N = splice (unat off) (take (unat m) src) (file_blocks s ip N)" "inodes w = inodes s"
      "file_addr w ip ` {..<N} = file_addr s ip ` {..<N}" "unat (off + m) = unat off + unat m"
      "fs_chg s {file_addr s ip (unat off div 512)} D0 w" "\<forall>n. n \<notin> file_addr s ip ` {..<N} \<longrightarrow> D0 n = fsb s n"
      using writei_round [OF less.prems False] unfolding m_def by blast
    have "\<exists>y Q D. writei_loop ip (drop (unat m) src) (off + m) (left - m) w = Ok (off + m + (left - m)) y \<and> fs_ok A X y \<and>
      has_file y ip N \<and> file_blocks y ip N = splice (unat (off + m)) (drop (unat m) src) (file_blocks w ip N) \<and>
      inodes y = inodes w \<and> fs_chg w Q D y \<and> (\<forall>a. a \<notin> file_addr w ip ` {..<N} \<longrightarrow> D a = fsb w a)"
      by (rule less.hyps) (use m less.prems w in auto)
    then obtain y Q D where y: "writei_loop ip src off left s = Ok (off + left) y" "fs_ok A X y"
      "has_file y ip N" "file_blocks y ip N = splice (unat off + unat m) (drop (unat m) src) (file_blocks w ip N)"
      "inodes y = inodes s" "fs_chg w Q D y" "\<forall>a. a \<notin> file_addr s ip ` {..<N} \<longrightarrow> D a = fsb w a"
      using w by auto
    have "file_blocks y ip N = splice (unat off) src (file_blocks s ip N)"
      using y(4) w(4) length_file_blocks [OF less.prems(1,2)] less.prems(3,4) m
        splice_splice [of "unat m" src "unat off" "file_blocks s ip N"] by simp
    moreover have "fs_chg s ({file_addr s ip (unat off div 512)} \<union> Q) D y" using fs_chg_trans [OF w(8) y(6)] by simp
    moreover have "D a = fsb s a" if "a \<notin> file_addr s ip ` {..<N}" for a
      using y(7) w(9) that fs_chgD(3) [OF w(8)] by auto
    ultimately show ?thesis using y by blast
  qed
qed

section \<open>Properties\<close>

lemma sint_small:
  fixes n :: uint
  assumes "unat n < 2 ^ 31"
  shows "sint n = int (unat n)"
proof -
  have u: "uint n < 2 ^ 31" using assms by (metis of_nat_less_iff of_nat_numeral of_nat_power uint_nat)
  then have "uint n div 2 ^ 31 = 0" by (intro div_pos_pos_trivial) simp_all
  then have "\<not> bit (uint n) 31" by (simp add: bit_iff_odd)
  then show ?thesis using sint_uint_minus [of n] by simp
qed

lemma readi_ok:
  fixes s :: "'z fs_state_scheme"
  assumes "fs_ok A X s" "has_file s ip N" "i_type (inodes s ! ip) \<noteq> T_DEV" "unat (i_size (inodes s ! ip)) \<le> 512 * N"
  shows "if i_size (inodes s ! ip) < off \<or> off + n < off then readi ip off n s = Ok (-1, []) s
    else \<exists>t. readi ip off n s = Ok (int (min (unat n) (unat (i_size (inodes s ! ip)) - unat off)),
        slice (unat off) (min (unat n) (unat (i_size (inodes s ! ip)) - unat off)) (file_blocks s ip N)) t \<and>
      fs_ok A X t \<and> fs_same s t"
proof (cases "i_size (inodes s ! ip) < off \<or> off + n < off")
  case True
  then show ?thesis using assms(3) by (auto simp: readi_def)
next
  case False
  let ?sz = "i_size (inodes s ! ip)"
  let ?n = "if off + n > ?sz then ?sz - off else n"
  note h = assms(2) [unfolded has_file_def]
  have big: "512 * N \<le> 71680" using h by (simp add: MAXFILE_def NDIRECT_def NINDIRECT_def)
  have os: "unat off \<le> unat ?sz" "off \<le> ?sz" using False by (simp_all add: word_le_nat_alt word_less_nat_alt)
  have "\<not> off + n < off" using False by blast
  then have "unat (off + n) = unat off + unat n" by (simp add: unat_plus_simple [symmetric] not_less)
  then have un: "unat ?n = min (unat n) (unat ?sz - unat off)"
    using os unat_sub [OF os(2)] by (auto simp: word_less_nat_alt min_def)
  then have "unat off + unat ?n \<le> 512 * N" using os assms(4) by simp
  then obtain t where t: "readi_loop ip off ?n s = Ok (slice (unat off) (unat ?n) (file_blocks s ip N)) t"
    "fs_ok A X t" "fs_same s t"
    using readi_loop_ok [OF assms(1), of ip off ?n N] h by blast
  have "sint ?n = int (unat ?n)" by (rule sint_small) (use un os assms(4) big in simp)
  then have "readi ip off n s = Ok (int (unat ?n), slice (unat off) (unat ?n) (file_blocks s ip N)) t"
    using False assms(3) t(1) by (simp only: readi_def Let_def if_False) simp
  then show ?thesis using False t un by (simp only: if_False) blast
qed

text \<open>
  \<^verbatim>\<open>readi\<close> on a file whose blocks are allocated: it returns -1 and reads nothing when the offset is beyond
  the size or offset and count wrap around; otherwise it returns the number of bytes between the offset and
  the smaller of offset plus count and the size, and the bytes are those of the file's blocks, direct and
  indirect, at that place. The blocks and the inode are unchanged.
\<close>

theorem readi_content:
  fixes s :: "'z fs_state_scheme"
  assumes "fs_ok A X s" "has_file s ip N" "i_type (inodes s ! ip) \<noteq> T_DEV" "unat (i_size (inodes s ! ip)) \<le> 512 * N"
  shows "if i_size (inodes s ! ip) < off \<or> off + n < off then readi ip off n s = Ok (-1, []) s
    else \<exists>t. readi ip off n s = Ok (int (min (unat n) (unat (i_size (inodes s ! ip)) - unat off)),
        slice (unat off) (min (unat n) (unat (i_size (inodes s ! ip)) - unat off)) (file_blocks s ip N)) t \<and>
      fs_ok A X t \<and> fs_same s t"
  using assms by (rule readi_ok)


text \<open>The file \<open>init\<close> of the small disk, locked in entry 0: its content is \<open>hello\<close>.\<close>

definition init_inode :: inode where
  "init_inode = load_inode init_dinode (zero_inode\<lparr>i_dev := 1, i_inum := 2, i_ref := 1, i_busy := True, i_valid := True\<rparr>)"

lemma init_file:
  defines "s \<equiv> txn_fs (table_with init_inode)"
  shows "has_file s 0 1" "i_type (inodes s ! 0) \<noteq> T_DEV" "i_size (inodes s ! 0) = 5"
    "file_blocks s 0 1 = [104, 101, 108, 108, 111] @ replicate 507 0" "file_addr s 0 ` {..<1} = {30}"
proof -
  have i: "inodes s ! 0 = init_inode" by (simp add: s_def txn_fs_fields table_with_def)
  have f: "i_dev init_inode = 1" "i_addrs init_inode = 30 # replicate 12 0" "i_type init_inode = T_FILE" "i_size init_inode = 5"
    by (simp_all add: init_inode_def load_inode_def init_dinode_def)
  have fa: "file_addr s 0 0 = 30" by (simp add: file_addr_def i f NDIRECT_def)
  have "has_block s 0 0"
    using fs_block_txn_fs [of "table_with init_inode" 30]
    by (simp add: has_block_def fa MAXFILE_def NDIRECT_def) (simp add: s_def txn_fs_fields)
  moreover have "inj_on (file_addr s 0) {..<1}" by (simp add: inj_on_def)
  ultimately show "has_file s 0 1" by (simp add: has_file_def i f MAXFILE_def NDIRECT_def)
  show "i_type (inodes s ! 0) \<noteq> T_DEV" "i_size (inodes s ! 0) = 5" by (simp_all add: i f T_FILE_def T_DEV_def)
  have "fsb s 30 = fs_image 30" by (simp add: s_def fsb_txn_fs)
  then show "file_blocks s 0 1 = [104, 101, 108, 108, 111] @ replicate 507 0"
    by (simp add: file_blocks_def fa fs_image_def)
  show "file_addr s 0 ` {..<1} = {30}" using fa by (auto simp: lessThan_Suc)
qed

theorem readi_content_witness:
  "\<exists>t. readi 0 1 100 (txn_fs (table_with init_inode)) = Ok (4, [101, 108, 108, 111]) t"
  using readi_content [OF txn_fs_ok [of "{}"] init_file(1,2), of 1 100]
  by (auto simp: init_file(3,4) slice_def word_less_nat_alt drop_Cons' simp del: One_nat_def)


end
