(* ===== verification/Xv6_Vm.thy ===== *)
theory Xv6_Vm
  imports Xv6_Readi
begin

text \<open>
  \<^verbatim>\<open>kernel/vm.c\<close>: the two-level page tables of user processes, held in pages of the allocator, and the operations
  that build, copy, shrink and free an address space. A page directory is known by its kernel address; its
  entries and those of the page tables are words of the kernel's memory. The abstraction of a page directory is
  the function from virtual addresses to page-table entries that the hardware computes.
\<close>

section \<open>Operations\<close>

text \<open>Storing a byte list at an address, as \<^verbatim>\<open>readi\<close> and \<^verbatim>\<open>memmove\<close> do with bytes that come from elsewhere.\<close>

definition put_bytes :: "uint \<Rightarrow> uchar list \<Rightarrow> mem \<Rightarrow> mem" where
  "put_bytes p bs m = (\<lambda>a. if unat (a - p) < length bs then bs ! unat (a - p) else m a)"

definition setupvm :: "'z kmem_state_scheme \<Rightarrow> (uint, 'z kmem_state_scheme) outcome" where
  "setupvm s = kalloc s"

definition walkpgdir :: "uint \<Rightarrow> uint \<Rightarrow> bool \<Rightarrow> 'z kmem_state_scheme \<Rightarrow> (uint, 'z kmem_state_scheme) outcome" where
  "walkpgdir pgdir va alloc s =
     (let pde = pgdir + 4 * PDE_IDX va; e = load32 (kmem_mem s) pde
      in if e AND PDE_TYPES \<noteq> 0 then Ok (P2V (PTE_ADDR e) + 4 * PTE_IDX va) s
         else if \<not> alloc then Ok 0 s
         else obind (setupvm s) (\<lambda>pgtab s.
              if pgtab = 0 then Ok 0 s
              else let s = s\<lparr>kmem_mem := memset pgtab 0 PGSIZE (kmem_mem s)\<rparr>;
                       s = s\<lparr>kmem_mem := store32 pde (V2P pgtab OR PDE_COARSE) (kmem_mem s)\<rparr>
                   in Ok (pgtab + 4 * PTE_IDX va) s))"

text \<open>
  The loop of \<^verbatim>\<open>mappages\<close> over the page addresses still to map. It starts at \<^verbatim>\<open>a\<close> and ends when \<^verbatim>\<open>a == last\<close>: both are page
  aligned, so it reaches \<^verbatim>\<open>last\<close> after \<^verbatim>\<open>(last - a) / PTE_SZ\<close> steps, modulo the address space.
\<close>

fun mappages_loop :: "uint \<Rightarrow> uint \<Rightarrow> uint \<Rightarrow> uint list \<Rightarrow> 'z kmem_state_scheme \<Rightarrow> (int, 'z kmem_state_scheme) outcome" where
  "mappages_loop pgdir pa ap [] s = Ok 0 s"
| "mappages_loop pgdir pa ap (a # as) s =
     obind (walkpgdir pgdir a True s) (\<lambda>pte s.
     if pte = 0 then Ok (-1) s
     else if load32 (kmem_mem s) pte AND PTE_TYPES \<noteq> 0 then Panic ''remap''
     else mappages_loop pgdir (pa + PTE_SZ) ap as
       (s\<lparr>kmem_mem := store32 pte (pa OR push_bit 4 (ap AND 3) OR PTE_CACHE OR PTE_BUF OR PTE_SMALL) (kmem_mem s)\<rparr>))"

definition pages_to :: "uint \<Rightarrow> uint \<Rightarrow> uint list" where
  "pages_to a l = map (\<lambda>k. a + of_nat k * PTE_SZ) [0..<Suc (unat (l - a) div 4096)]"

definition mappages :: "uint \<Rightarrow> uint \<Rightarrow> uint \<Rightarrow> uint \<Rightarrow> uint \<Rightarrow> 'z kmem_state_scheme \<Rightarrow> (int, 'z kmem_state_scheme) outcome" where
  "mappages pgdir va sz pa ap s =
     mappages_loop pgdir pa ap (pages_to (ALIGNDOWN va PTE_SZ) (ALIGNDOWN (va + sz - 1) PTE_SZ)) s"

definition inituvm :: "uint \<Rightarrow> uchar list \<Rightarrow> 'z kmem_state_scheme \<Rightarrow> (unit, 'z kmem_state_scheme) outcome" where
  "inituvm pgdir init s =
     (if of_nat (length init) \<ge> PTE_SZ then Panic ''inituvm: more than a page''
      else obind (kalloc s) (\<lambda>mem s.
           if mem = 0 then ub
           else let s = s\<lparr>kmem_mem := memset mem 0 PTE_SZ (kmem_mem s)\<rparr>
                in obind (mappages pgdir 0 PTE_SZ (V2P mem) AP_KU s) (\<lambda>_ s.
                   Ok () (s\<lparr>kmem_mem := put_bytes mem init (kmem_mem s)\<rparr>))))"

text \<open>The page addresses \<^verbatim>\<open>a, a + PTE_SZ, ...\<close> below a limit, which the loops of \<^verbatim>\<open>loaduvm\<close>, \<^verbatim>\<open>allocuvm\<close> and \<^verbatim>\<open>copyuvm\<close> run through.\<close>

definition pages_below :: "uint \<Rightarrow> uint \<Rightarrow> uint list" where
  "pages_below a l = map (\<lambda>k. a + of_nat k * PTE_SZ) [0..<(unat l - unat a + 4095) div 4096]"

fun loaduvm_loop :: "uint \<Rightarrow> uint \<Rightarrow> nat \<Rightarrow> uint \<Rightarrow> uint \<Rightarrow> uint list \<Rightarrow> 'z fs_state_scheme \<Rightarrow> (int, 'z fs_state_scheme) outcome" where
  "loaduvm_loop pgdir addr ip offset sz [] s = Ok 0 s"
| "loaduvm_loop pgdir addr ip offset sz (i # is) s =
     obind (walkpgdir pgdir (addr + i) False s) (\<lambda>pte s.
     if pte = 0 then Panic ''loaduvm: address should exist''
     else let pa = PTE_ADDR (load32 (kmem_mem s) pte);
              n = (if sz - i < PTE_SZ then sz - i else PTE_SZ)
          in obind (readi ip (offset + i) n s) (\<lambda>(r, bs) s.
             let s = s\<lparr>kmem_mem := put_bytes (P2V pa) bs (kmem_mem s)\<rparr>
             in if r \<noteq> int (unat n) then Ok (-1) s else loaduvm_loop pgdir addr ip offset sz is s))"

definition loaduvm :: "uint \<Rightarrow> uint \<Rightarrow> nat \<Rightarrow> uint \<Rightarrow> uint \<Rightarrow> 'z fs_state_scheme \<Rightarrow> (int, 'z fs_state_scheme) outcome" where
  "loaduvm pgdir addr ip offset sz s =
     (if addr mod PTE_SZ \<noteq> 0 then Panic ''loaduvm: addr must be page aligned''
      else loaduvm_loop pgdir addr ip offset sz (pages_below 0 sz) s)"

text \<open>
  The loop of \<^verbatim>\<open>deallocuvm\<close>. Where a page table is missing it moves to the next megabyte boundary and then still adds
  \<^verbatim>\<open>PTE_SZ\<close>. Sizes are at most \<^verbatim>\<open>UADDR_SZ\<close>, so the counter does not wrap around; a loop that wrapped would
  start over and not end.
\<close>

function deallocuvm_loop :: "uint \<Rightarrow> uint \<Rightarrow> uint \<Rightarrow> 'z kmem_state_scheme \<Rightarrow> (unit, 'z kmem_state_scheme) outcome" where
  "deallocuvm_loop pgdir oldsz a s =
     (if \<not> a < oldsz then Ok () s
      else obind (walkpgdir pgdir a False s) (\<lambda>pte s.
           if pte = 0 then
             (let a' = ALIGNUP a PDE_SZ + PTE_SZ
              in if a' \<le> a then Diverge else deallocuvm_loop pgdir oldsz a' s)
           else let e = load32 (kmem_mem s) pte; a' = a + PTE_SZ
                in obind (if e AND PTE_TYPES \<noteq> 0
                          then if PTE_ADDR e = 0 then Panic ''deallocuvm''
                               else obind (kfree (P2V (PTE_ADDR e)) s) (\<lambda>_ s.
                                    Ok () (s\<lparr>kmem_mem := store32 pte 0 (kmem_mem s)\<rparr>))
                          else Ok () s) (\<lambda>_ s.
                   if a' \<le> a then Diverge else deallocuvm_loop pgdir oldsz a' s)))"
  by pat_completeness auto
termination
  by (relation "measure (\<lambda>(pgdir, oldsz, a, s). unat oldsz - unat a)")
     (auto simp: word_less_nat_alt word_le_nat_alt not_le)

definition deallocuvm :: "uint \<Rightarrow> uint \<Rightarrow> uint \<Rightarrow> 'z kmem_state_scheme \<Rightarrow> (uint, 'z kmem_state_scheme) outcome" where
  "deallocuvm pgdir oldsz newsz s =
     (if newsz \<ge> oldsz then Ok oldsz s
      else obind (deallocuvm_loop pgdir oldsz (ALIGNUP newsz PTE_SZ) s) (\<lambda>_ s. Ok newsz s))"

text \<open>\<^verbatim>\<open>allocuvm\<close> ignores what \<^verbatim>\<open>mappages\<close> returns.\<close>

fun allocuvm_loop :: "uint \<Rightarrow> uint \<Rightarrow> uint \<Rightarrow> uint list \<Rightarrow> 'z cons_state_scheme \<Rightarrow> (uint, 'z cons_state_scheme) outcome" where
  "allocuvm_loop pgdir oldsz newsz [] s = Ok newsz s"
| "allocuvm_loop pgdir oldsz newsz (a # as) s =
     obind (kalloc s) (\<lambda>mem s.
     if mem = 0
     then obind (cprintf (Some (lit ''allocuvm out of memory\<newline>'')) [] s) (\<lambda>_ s.
          obind (deallocuvm pgdir newsz oldsz s) (\<lambda>_ s. Ok 0 s))
     else let s = s\<lparr>kmem_mem := memset mem 0 PTE_SZ (kmem_mem s)\<rparr>
          in obind (mappages pgdir a PTE_SZ (V2P mem) AP_KU s) (\<lambda>_ s.
             allocuvm_loop pgdir oldsz newsz as s))"

definition allocuvm :: "uint \<Rightarrow> uint \<Rightarrow> uint \<Rightarrow> 'z cons_state_scheme \<Rightarrow> (uint, 'z cons_state_scheme) outcome" where
  "allocuvm pgdir oldsz newsz s =
     (if newsz \<ge> UADDR_SZ then Ok 0 s
      else if newsz < oldsz then Ok oldsz s
      else allocuvm_loop pgdir oldsz newsz (pages_below (ALIGNUP oldsz PTE_SZ) newsz) s)"

fun freevm_tables :: "uint \<Rightarrow> nat list \<Rightarrow> 'z kmem_state_scheme \<Rightarrow> (unit, 'z kmem_state_scheme) outcome" where
  "freevm_tables pgdir [] s = Ok () s"
| "freevm_tables pgdir (i # is) s =
     (let e = load32 (kmem_mem s) (pgdir + 4 * of_nat i)
      in if e AND PDE_TYPES \<noteq> 0
         then obind (kfree (P2V (PTE_ADDR e)) s) (\<lambda>_ s. freevm_tables pgdir is s)
         else freevm_tables pgdir is s)"

definition freevm :: "uint \<Rightarrow> 'z kmem_state_scheme \<Rightarrow> (unit, 'z kmem_state_scheme) outcome" where
  "freevm pgdir s =
     (if pgdir = 0 then Panic ''freevm: no pgdir''
      else obind (deallocuvm pgdir UADDR_SZ 0 s) (\<lambda>_ s.
           obind (freevm_tables pgdir [0..<NUM_UPDE] s) (\<lambda>_ s. kfree pgdir s)))"

definition clearpteu :: "uint \<Rightarrow> uint \<Rightarrow> 'z kmem_state_scheme \<Rightarrow> (unit, 'z kmem_state_scheme) outcome" where
  "clearpteu pgdir uva s =
     obind (walkpgdir pgdir uva False s) (\<lambda>pte s.
     if pte = 0 then Panic ''clearpteu''
     else Ok () (s\<lparr>kmem_mem := store32 pte ((load32 (kmem_mem s) pte AND NOT (push_bit 4 3)) OR push_bit 4 AP_KO) (kmem_mem s)\<rparr>))"

fun copyuvm_loop :: "uint \<Rightarrow> uint \<Rightarrow> uint list \<Rightarrow> 'z kmem_state_scheme \<Rightarrow> (uint, 'z kmem_state_scheme) outcome" where
  "copyuvm_loop pgdir d [] s = Ok d s"
| "copyuvm_loop pgdir d (i # is) s =
     obind (walkpgdir pgdir i False s) (\<lambda>pte s.
     if pte = 0 then Panic ''copyuvm: pte should exist''
     else let e = load32 (kmem_mem s) pte
          in if e AND PTE_TYPES = 0 then Panic ''copyuvm: page not present''
             else obind (kalloc s) (\<lambda>mem s.
                  if mem = 0 then obind (freevm d s) (\<lambda>_ s. Ok 0 s)
                  else let s = s\<lparr>kmem_mem := memmove mem (P2V (PTE_ADDR e)) PTE_SZ (kmem_mem s)\<rparr>
                       in obind (mappages d i PTE_SZ (V2P mem) (PTE_AP e) s) (\<lambda>r s.
                          if r < 0 then obind (freevm d s) (\<lambda>_ s. Ok 0 s)
                          else copyuvm_loop pgdir d is s)))"

definition copyuvm :: "uint \<Rightarrow> uint \<Rightarrow> 'z kmem_state_scheme \<Rightarrow> (uint, 'z kmem_state_scheme) outcome" where
  "copyuvm pgdir sz s =
     obind (setupvm s) (\<lambda>d s. if d = 0 then Ok 0 s else copyuvm_loop pgdir d (pages_below 0 sz) s)"

text \<open>\<^verbatim>\<open>uva2ka\<close> reads through the pointer that \<^verbatim>\<open>walkpgdir\<close> returns without testing it.\<close>

definition uva2ka :: "uint \<Rightarrow> uint \<Rightarrow> 'z kmem_state_scheme \<Rightarrow> (uint, 'z kmem_state_scheme) outcome" where
  "uva2ka pgdir uva s =
     obind (walkpgdir pgdir uva False s) (\<lambda>pte s.
     if pte = 0 then ub
     else let e = load32 (kmem_mem s) pte
          in if e AND PTE_TYPES = 0 then Ok 0 s
             else if PTE_AP e \<noteq> AP_KU then Ok 0 s
             else Ok (P2V (PTE_ADDR e)) s)"

text \<open>The part of a copy of \<open>len\<close> bytes at \<open>va\<close> that falls into the page of \<open>va\<close>.\<close>

definition page_part :: "uint \<Rightarrow> nat \<Rightarrow> nat" where
  "page_part va len = min (4096 - unat (va - ALIGNDOWN va PTE_SZ)) len"

lemma page_offset: "unat (va - ALIGNDOWN va PTE_SZ) = unat va mod 4096"
proof -
  have d: "unat (ALIGNDOWN va PTE_SZ) = unat va div 4096 * 4096"
    using unat_ALIGNDOWN [of PTE_SZ 12] by (simp add: PTE_SZ_def)
  then have "ALIGNDOWN va PTE_SZ \<le> va" by (simp add: word_le_nat_alt)
  then show ?thesis by (simp add: unat_sub d minus_div_mult_eq_mod)
qed

lemma page_part_pos: "0 < len \<Longrightarrow> 0 < page_part va len"
  by (simp add: page_part_def page_offset)

function copyout_loop :: "uint \<Rightarrow> uint \<Rightarrow> uchar list \<Rightarrow> 'z kmem_state_scheme \<Rightarrow> (int, 'z kmem_state_scheme) outcome" where
  "copyout_loop pgdir va bs s =
     (if bs = [] then Ok 0 s
      else let va0 = ALIGNDOWN va PTE_SZ; n = page_part va (length bs)
           in obind (uva2ka pgdir va0 s) (\<lambda>pa0 s.
              if pa0 = 0 then Ok (-1) s
              else copyout_loop pgdir (va0 + PTE_SZ) (drop n bs)
                (s\<lparr>kmem_mem := put_bytes (pa0 + (va - va0)) (take n bs) (kmem_mem s)\<rparr>)))"
  by pat_completeness auto
termination
  by (relation "measure (\<lambda>(pgdir, va, bs, s). length bs)") (auto simp: page_part_pos)

text \<open>\<^verbatim>\<open>copyout\<close> with the \<^verbatim>\<open>len\<close> bytes at \<^verbatim>\<open>p\<close> as a list.\<close>

definition copyout :: "uint \<Rightarrow> uint \<Rightarrow> uchar list \<Rightarrow> 'z kmem_state_scheme \<Rightarrow> (int, 'z kmem_state_scheme) outcome" where
  "copyout pgdir va bs s = copyout_loop pgdir va bs s"

section \<open>Words of page tables\<close>

text \<open>The word \<open>i\<close> of a page: no two of them overlap.\<close>

lemma unat_page_word:
  assumes "v mod KPAGE = 0" "unat i < 65536"
  shows "unat (v + 4 * i) = unat v + 4 * unat i" "unat v mod 0x40000 = 0" "unat v + 4 * unat i + 3 < 2 ^ 32"
    "unat (v + 4 * i) div 0x40000 = unat v div 0x40000"
proof -
  have i4: "unat (4 * i) = 4 * unat i" using assms(2) by (simp add: unat_word_ariths)
  show al: "unat v mod 0x40000 = 0" using assms(1) by (rule aligned_unat)
  then obtain k where k: "unat v = 0x40000 * k" by (auto simp: mod_eq_0_iff_dvd dvd_def)
  have "unat v < 2 ^ 32" by (rule unat_uint_less)
  then have "k < 0x4000" using k by simp
  then show b: "unat v + 4 * unat i + 3 < 2 ^ 32" using k assms(2) by simp
  then show u: "unat (v + 4 * i) = unat v + 4 * unat i" by (simp add: unat_word_ariths i4)
  show "unat (v + 4 * i) div 0x40000 = unat v div 0x40000" using k assms(2) by (simp add: u)
qed

lemma page_word_eq:
  assumes "v mod KPAGE = 0" "w mod KPAGE = 0" "unat i < 65536" "unat j < 65536"
  shows "v + 4 * i = w + 4 * j \<longleftrightarrow> v = w \<and> i = j"
proof
  assume e: "v + 4 * i = w + 4 * j"
  have "unat v div 0x40000 = unat w div 0x40000"
    using unat_page_word(4) [OF assms(1,3)] unat_page_word(4) [OF assms(2,4)] e by simp
  then have vw: "v = w" by (rule same_page_eq [OF assms(1,2)])
  then show "v = w \<and> i = j"
    using unat_page_word(1) [OF assms(1,3)] unat_page_word(1) [OF assms(2,4)] e by (simp add: word_unat_eq_iff)
qed simp

lemma unat_add_small: "unat (a :: uint) + n < 2 ^ 32 \<Longrightarrow> unat (a + of_nat n) = unat a + n"
  by (simp add: unat_word_ariths unat_of_nat)

lemma word_bytes:
  assumes "unat a mod 4 = 0" "unat b mod 4 = 0" "unat a + 3 < 2 ^ 32" "unat b + 3 < 2 ^ 32" "a \<noteq> b" "i < 4"
  shows "store32 a w m (b + of_nat i) = m (b + of_nat i)"
proof (rule store32_other)
  have ne: "unat a \<noteq> unat b" using assms(5) by (simp add: word_unat_eq_iff)
  have bi: "unat (b + of_nat i) = unat b + i" using assms(4,6) by (intro unat_add_small) simp
  show "4 \<le> b + of_nat i - a"
  proof (cases "unat a < unat b")
    case True
    then have "unat a + 4 \<le> unat b" using assms(1,2) by presburger
    then show ?thesis using bi by (simp add: word_le_nat_alt unat_sub_if' )
  next
    case False
    then have "unat b + 4 \<le> unat a" using assms(1,2) ne by presburger
    then have "\<not> a \<le> b + of_nat i" "unat b + i < unat a" using bi assms(6) by (simp_all add: word_le_nat_alt)
    moreover have "unat a < 2 ^ 32" by (rule unat_uint_less)
    ultimately show ?thesis using bi assms(3) \<open>unat b + 4 \<le> unat a\<close> by (simp add: word_le_nat_alt unat_sub_if')
  qed
qed

lemma load32_store32_aligned:
  assumes "unat a mod 4 = 0" "unat b mod 4 = 0" "unat a + 3 < 2 ^ 32" "unat b + 3 < 2 ^ 32"
  shows "load32 (store32 a w m) b = (if a = b then w else load32 m b)"
  using word_bytes [OF assms, of 0] word_bytes [OF assms, of 1] word_bytes [OF assms, of 2] word_bytes [OF assms, of 3]
  by (auto simp: load32_store32 intro!: load32_cong)

lemma load32_page_store:
  assumes "v mod KPAGE = 0" "w mod KPAGE = 0" "unat i < 65536" "unat j < 65536"
  shows "load32 (store32 (v + 4 * i) x m) (w + 4 * j) = (if v = w \<and> i = j then x else load32 m (w + 4 * j))"
proof -
  note u = unat_page_word [OF assms(1,3)] unat_page_word [OF assms(2,4)]
  have "(4 :: nat) dvd 0x40000" by simp
  then have "unat v mod 4 = 0" "unat w mod 4 = 0" using u(2,6) by (meson dvd_trans mod_eq_0_iff_dvd)+
  then have "unat (v + 4 * i) mod 4 = 0" "unat (w + 4 * j) mod 4 = 0" by (simp_all add: u(1,5) mod_add_eq [symmetric])
  then show ?thesis
    using load32_store32_aligned [of "v + 4 * i" "w + 4 * j" x m] u(1,3,5,7) page_word_eq [OF assms] by simp
qed

lemma load32_page_fill:
  assumes "v mod KPAGE = 0" "w mod KPAGE = 0" "unat j < 4096"
  shows "load32 (mem_fill v PGSIZE 0 m) (w + 4 * j) = (if v = w then 0 else load32 m (w + 4 * j))"
proof -
  have j: "unat j < 65536" using assms(3) by simp
  note u = unat_page_word [OF assms(2) j]
  have k: "unat (w + 4 * j + of_nat n) = unat w + 4 * unat j + n" if "n < 4" for n
    using unat_add_small [of "w + 4 * j" n] u(1,3) that by simp
  have off: "unat (w + 4 * j + of_nat n - w) = 4 * unat j + n" if "n < 4" for n
    using assms(3) that by (simp add: unat_word_ariths unat_of_nat)
  have pg: "unat (w + 4 * j + of_nat n) div 0x40000 = unat w div 0x40000" if "n < 4" for n
  proof -
    obtain q where q: "unat w = 0x40000 * q" using u(2) by (auto simp: mod_eq_0_iff_dvd dvd_def)
    show ?thesis using k [OF that] q assms(3) that by simp
  qed
  have *: "mem_fill v PGSIZE 0 m (w + 4 * j + of_nat n) = (if v = w then 0 else m (w + 4 * j + of_nat n))" if "n < 4" for n
  proof (cases "v = w")
    case True
    then show ?thesis using off [OF that] assms(3) that by (simp add: mem_fill_def word_less_nat_alt PGSIZE_def)
  next
    case False
    then have "unat v div 0x40000 \<noteq> unat w div 0x40000" using same_page_eq [OF assms(1,2)] by blast
    then have "\<not> w + 4 * j + of_nat n - v < KPAGE" using in_page [OF assms(1)] pg [OF that] by simp
    then have "\<not> w + 4 * j + of_nat n - v < PGSIZE" by (simp add: word_less_nat_alt PGSIZE_def)
    then show ?thesis using False by (simp add: mem_fill_def)
  qed
  show ?thesis using * [of 0] * [of 1] * [of 2] * [of 3] by (simp add: load32_def)
qed

lemma unat_IDX:
  "unat (PDE_IDX va) = unat va div 2 ^ 20" "unat (PTE_IDX va) = unat va div 2 ^ 12 mod 2 ^ 8"
proof -
  show "unat (PDE_IDX va) = unat va div 2 ^ 20" by (simp add: PDE_IDX_def drop_bit_eq_div unat_div)
  have "PTE_IDX va = take_bit 8 (drop_bit 12 va)"
    by (simp add: PTE_IDX_def NUM_PTE_def take_bit_eq_mask mask_eq_exp_minus_1)
  then show "unat (PTE_IDX va) = unat va div 2 ^ 12 mod 2 ^ 8"
    by (simp add: drop_bit_eq_div take_bit_eq_mod unat_div unat_mod)
qed

lemma PDE_IDX_less: "unat (PDE_IDX va) < 4096"
  using unat_uint_less [of va] by (simp add: unat_IDX less_mult_imp_div_less)

lemma PTE_IDX_less: "unat (PTE_IDX va) < 256"
  by (simp add: unat_IDX)

text \<open>Two addresses have the same entry exactly when they lie in the same page.\<close>

definition same_upage :: "uint \<Rightarrow> uint \<Rightarrow> bool" where
  "same_upage a b \<longleftrightarrow> unat a div 4096 = unat b div 4096"

lemma same_upage_idx: "same_upage a b \<longleftrightarrow> PDE_IDX a = PDE_IDX b \<and> PTE_IDX a = PTE_IDX b"
proof -
  have d: "unat x div 2 ^ 20 = unat x div 4096 div 256" for x :: uint by (simp add: div_mult2_eq [symmetric])
  show ?thesis
    unfolding same_upage_def word_unat_eq_iff unat_IDX d
    by simp (metis div_mult_mod_eq)
qed

section \<open>The address space behind a page directory\<close>

definition pde_of :: "mem \<Rightarrow> uint \<Rightarrow> uint \<Rightarrow> uint" where
  "pde_of m pgdir i = load32 m (pgdir + 4 * i)"

definition table_of :: "mem \<Rightarrow> uint \<Rightarrow> uint \<Rightarrow> uint" where
  "table_of m pgdir i = P2V (PTE_ADDR (pde_of m pgdir i))"

definition has_table :: "mem \<Rightarrow> uint \<Rightarrow> uint \<Rightarrow> bool" where
  "has_table m pgdir i \<longleftrightarrow> pde_of m pgdir i AND PDE_TYPES \<noteq> 0"

text \<open>The entry that the hardware finds for an address, 0 where it finds no table.\<close>

definition vm_pte :: "mem \<Rightarrow> uint \<Rightarrow> uint \<Rightarrow> uint" where
  "vm_pte m pgdir va =
     (if has_table m pgdir (PDE_IDX va) then load32 m (table_of m pgdir (PDE_IDX va) + 4 * PTE_IDX va) else 0)"

text \<open>
  A well-formed address space: the directory and its tables are different pages of the allocator, none of them
  is free, and no two directory entries share a table.
\<close>

definition vm_ok :: "uint \<Rightarrow> mem \<Rightarrow> uint \<Rightarrow> uint list \<Rightarrow> bool" where
  "vm_ok ke m pgdir ps \<longleftrightarrow> page_ok ke pgdir \<and> pgdir \<notin> set ps \<and>
     (\<forall>i. unat i < 4096 \<longrightarrow> has_table m pgdir i \<longrightarrow>
        page_ok ke (table_of m pgdir i) \<and> table_of m pgdir i \<noteq> pgdir \<and> table_of m pgdir i \<notin> set ps) \<and>
     (\<forall>i j. unat i < 4096 \<longrightarrow> unat j < 4096 \<longrightarrow> has_table m pgdir i \<longrightarrow> has_table m pgdir j \<longrightarrow>
        table_of m pgdir i = table_of m pgdir j \<longrightarrow> i = j)"

lemma vm_okD:
  assumes "vm_ok ke m pgdir ps"
  shows "page_ok ke pgdir" "pgdir \<notin> set ps" "pgdir mod KPAGE = 0"
    "unat i < 4096 \<Longrightarrow> has_table m pgdir i \<Longrightarrow> page_ok ke (table_of m pgdir i)"
    "unat i < 4096 \<Longrightarrow> has_table m pgdir i \<Longrightarrow> table_of m pgdir i \<noteq> pgdir"
    "unat i < 4096 \<Longrightarrow> has_table m pgdir i \<Longrightarrow> table_of m pgdir i \<notin> set ps"
    "unat i < 4096 \<Longrightarrow> has_table m pgdir i \<Longrightarrow> table_of m pgdir i mod KPAGE = 0"
    "unat i < 4096 \<Longrightarrow> unat j < 4096 \<Longrightarrow> has_table m pgdir i \<Longrightarrow> has_table m pgdir j \<Longrightarrow>
       table_of m pgdir i = table_of m pgdir j \<Longrightarrow> i = j"
  using assms by (auto simp: vm_ok_def page_ok_def)

text \<open>Storing an entry of a table changes that entry and nothing else of the address space.\<close>

lemma pde_store_table:
  assumes "vm_ok ke m pgdir ps" "unat i < 4096" "has_table m pgdir i" "unat k < 256" "unat j < 4096"
  shows "pde_of (store32 (table_of m pgdir i + 4 * k) x m) pgdir j = pde_of m pgdir j"
proof -
  note d = vm_okD [OF assms(1)]
  show ?thesis
    unfolding pde_of_def [of _ pgdir j]
    using load32_page_store [OF d(7) [OF assms(2,3)] d(3), of k j x m] d(5) [OF assms(2,3)] assms(4,5) by simp
qed

lemma vm_store_table:
  fixes x :: uint
  assumes "vm_ok ke m pgdir ps" "has_table m pgdir (PDE_IDX va)"
  defines "m' \<equiv> store32 (table_of m pgdir (PDE_IDX va) + 4 * PTE_IDX va) x m"
  shows "vm_ok ke m' pgdir ps" "vm_pte m' pgdir b = (if same_upage b va then x else vm_pte m pgdir b)"
    "has_table m' pgdir (PDE_IDX b) = has_table m pgdir (PDE_IDX b)" "unat j < 4096 \<Longrightarrow> table_of m' pgdir j = table_of m pgdir j"
    "unat j < 4096 \<Longrightarrow> has_table m' pgdir j = has_table m pgdir j"
proof -
  note d = vm_okD [OF assms(1)]
  have p: "pde_of m' pgdir j = pde_of m pgdir j" if "unat j < 4096" for j
    unfolding m'_def by (rule pde_store_table [OF assms(1) PDE_IDX_less assms(2) PTE_IDX_less that])
  then show t: "unat j < 4096 \<Longrightarrow> table_of m' pgdir j = table_of m pgdir j"
    and h: "unat j < 4096 \<Longrightarrow> has_table m' pgdir j = has_table m pgdir j" for j
    by (simp_all add: table_of_def has_table_def)
  then show "vm_ok ke m' pgdir ps" using assms(1) by (auto simp: vm_ok_def)
  show hb: "has_table m' pgdir (PDE_IDX b) = has_table m pgdir (PDE_IDX b)" by (rule h) (rule PDE_IDX_less)
  show "vm_pte m' pgdir b = (if same_upage b va then x else vm_pte m pgdir b)"
  proof (cases "has_table m pgdir (PDE_IDX b)")
    case True
    have i: "unat (PTE_IDX va) < 65536" "unat (PTE_IDX b) < 65536" using PTE_IDX_less [of va] PTE_IDX_less [of b] by simp_all
    have "table_of m pgdir (PDE_IDX va) = table_of m pgdir (PDE_IDX b) \<longleftrightarrow> PDE_IDX va = PDE_IDX b"
      using d(8) [OF PDE_IDX_less PDE_IDX_less assms(2) True] by auto
    then show ?thesis
      using True hb t [OF PDE_IDX_less] load32_page_store [OF d(7) [OF PDE_IDX_less assms(2)] d(7) [OF PDE_IDX_less True] i, of x m]
      by (simp add: vm_pte_def m'_def same_upage_idx)
  next
    case False
    then have "\<not> same_upage b va" using assms(2) by (auto simp: same_upage_idx)
    then show ?thesis using False hb by (simp add: vm_pte_def)
  qed
qed

section \<open>Entries\<close>

lemma PTE_ADDR_or:
  assumes "take_bit 12 x = 0" "take_bit 12 y = y"
  shows "PTE_ADDR (x OR y) = x"
proof (rule bit_word_eqI)
  fix n assume "n < LENGTH(32)"
  have x: "\<not> bit x k" if "k < 12" for k using arg_cong [OF assms(1), of "\<lambda>w. bit w k"] that by (simp add: bit_simps)
  have y: "\<not> bit y k" if "\<not> k < 12" for k using arg_cong [OF assms(2), of "\<lambda>w. bit w k"] that by (simp add: bit_simps)
  have "PTE_ADDR (x OR y) = (x OR y) AND NOT (mask 12)" by (simp add: PTE_ADDR_def ALIGNDOWN_def PTE_SZ_def mask_eq_exp_minus_1)
  then show "bit (PTE_ADDR (x OR y)) n = bit x n"
    using x [of n] y [of n] \<open>n < LENGTH(32)\<close> by (auto simp: bit_simps)
qed

lemma page_ok_V2P:
  assumes "page_ok ke p"
  shows "take_bit 12 (V2P p) = 0"
proof -
  have "unat (V2P p) < 0x08000000" using assms by (simp add: page_ok_def PHYSTOP_def word_less_nat_alt)
  moreover have "unat p mod 0x40000 = 0" using assms by (intro aligned_unat) (simp add: page_ok_def)
  moreover have "unat p = (unat (V2P p) + 0x80000000) mod 2 ^ 32"
    using arg_cong [OF P2V_V2P(1), of unat p] by (simp add: P2V_def KERNBASE_def unat_word_ariths)
  ultimately have "(unat (V2P p) + 0x80000000) mod 0x40000 = 0" by simp
  moreover have "(unat (V2P p) + 0x80000000) mod 0x40000 = unat (V2P p) mod 0x40000"
    using mod_mult_self1 [of "unat (V2P p)" "0x2000" "0x40000"] by simp
  ultimately have "unat (V2P p) mod 0x40000 = 0" by simp
  then have "unat (V2P p) mod 4096 = 0" by (auto simp: mod_eq_0_iff_dvd intro: dvd_trans [of 4096 "0x40000"])
  then have "unat (take_bit 12 (V2P p)) = 0" by (simp add: take_bit_eq_mod unat_mod)
  then show ?thesis by (simp only: unat_eq_zero)
qed

lemma pde_entry:
  assumes "page_ok ke p"
  shows "PTE_ADDR (V2P p OR PDE_COARSE) = V2P p" "(x OR PDE_COARSE) AND PDE_TYPES \<noteq> 0"
proof -
  show "PTE_ADDR (V2P p OR PDE_COARSE) = V2P p"
    by (rule PTE_ADDR_or [OF page_ok_V2P [OF assms]]) (simp add: PDE_COARSE_def take_bit_eq_mod)
  have "bit ((x OR PDE_COARSE) AND PDE_TYPES) 0" by (simp add: bit_simps PDE_COARSE_def PDE_TYPES_def)
  then show "(x OR PDE_COARSE) AND PDE_TYPES \<noteq> 0" by fastforce
qed

section \<open>Frames\<close>

text \<open>Memory that changes only inside the given pages.\<close>

definition chg_in :: "uint set \<Rightarrow> mem \<Rightarrow> mem \<Rightarrow> bool" where
  "chg_in P m m' \<longleftrightarrow> (\<forall>a. (\<forall>v\<in>P. unat a div 0x40000 \<noteq> unat v div 0x40000) \<longrightarrow> m' a = m a)"

lemma chg_in_refl [simp]: "chg_in P m m"
  by (simp add: chg_in_def)

lemma chg_in_mono: "chg_in P m m' \<Longrightarrow> P \<subseteq> Q \<Longrightarrow> chg_in Q m m'"
  by (auto simp: chg_in_def)

lemma chg_in_trans: "chg_in P m m' \<Longrightarrow> chg_in Q m' m'' \<Longrightarrow> P \<subseteq> R \<Longrightarrow> Q \<subseteq> R \<Longrightarrow> chg_in R m m''"
  by (simp add: chg_in_def) (metis subsetD)

lemma store32_page:
  assumes "v mod KPAGE = 0" "unat i < 65536"
  shows "chg_in {v} m (store32 (v + 4 * i) x m)"
  unfolding chg_in_def
proof (intro allI impI)
  fix a :: uint assume a: "\<forall>w\<in>{v}. unat a div 0x40000 \<noteq> unat w div 0x40000"
  note u = unat_page_word [OF assms]
  obtain k where k: "unat v = 0x40000 * k" using u(2) by (auto simp: mod_eq_0_iff_dvd dvd_def)
  have "unat (v + 4 * i + of_nat n) div 0x40000 = unat v div 0x40000" if "n < 4" for n
    using unat_add_small [of "v + 4 * i" n] u(1,3) that k assms(2) by simp
  then have "a \<noteq> v + 4 * i + of_nat n" if "n < 4" for n using a that by auto
  from this [of 0] this [of 1] this [of 2] this [of 3] show "store32 (v + 4 * i) x m a = m a"
    by (simp add: store32_def add.assoc)
qed

lemma fill_page:
  assumes "v mod KPAGE = 0" "n \<le> KPAGE"
  shows "chg_in {v} m (mem_fill v n c m)"
proof -
  have "\<not> a - v < n" if "unat a div 0x40000 \<noteq> unat v div 0x40000" for a
    using in_page [OF assms(1), of a] that assms(2) by (metis less_le_trans)
  then show ?thesis by (simp add: chg_in_def mem_fill_def)
qed

lemma load32_chg:
  assumes "chg_in P m m'" "v mod KPAGE = 0" "\<forall>w\<in>P. w mod KPAGE = 0" "v \<notin> P" "unat i < 65536"
  shows "load32 m' (v + 4 * i) = load32 m (v + 4 * i)"
proof -
  note u = unat_page_word [OF assms(2,5)]
  obtain k where k: "unat v = 0x40000 * k" using u(2) by (auto simp: mod_eq_0_iff_dvd dvd_def)
  have "unat (v + 4 * i + of_nat n) div 0x40000 = unat v div 0x40000" if "n < 4" for n
    using unat_add_small [of "v + 4 * i" n] u(1,3) that k assms(5) by simp
  moreover have "unat v div 0x40000 \<noteq> unat w div 0x40000" if "w \<in> P" for w
    using same_page_eq [OF assms(2)] assms(3,4) that by blast
  ultimately have "m' (v + 4 * i + of_nat n) = m (v + 4 * i + of_nat n)" if "n < 4" for n
    using assms(1) that by (simp add: chg_in_def)
  from this [of 0] this [of 1] this [of 2] this [of 3] show ?thesis by (intro load32_cong) simp_all
qed

lemma flist_chg:
  assumes "chg_in P m m'" "\<forall>w\<in>P. w mod KPAGE = 0" "\<forall>v\<in>set ps. v mod KPAGE = 0" "P \<inter> set ps = {}"
  shows "flist m' q ps = flist m q ps"
  using assms(3,4)
proof (induction ps arbitrary: q)
  case (Cons v ps)
  then have "load32 m' v = load32 m v" using load32_chg [OF assms(1) _ assms(2), of v 0] by simp
  then show ?case using Cons by auto
qed simp

text \<open>Only the memory and the free list change.\<close>

definition kmem_only :: "'z kmem_state_scheme \<Rightarrow> 'z kmem_state_scheme \<Rightarrow> bool" where
  "kmem_only s t \<longleftrightarrow> t = s\<lparr>kmem_mem := kmem_mem t, freelist := freelist t\<rparr>"

lemma kmem_only_refl [simp]: "kmem_only s s"
  by (simp add: kmem_only_def)

lemma kmem_only_trans: "kmem_only s t \<Longrightarrow> kmem_only t u \<Longrightarrow> kmem_only s u"
  unfolding kmem_only_def by (cases s; cases t; cases u) simp

lemma kmem_onlyD:
  assumes "kmem_only s t"
  shows "kern_end t = kern_end s" "kmem_idle t = kmem_idle s" "use_lock t = use_lock s"
  using assms unfolding kmem_only_def by (cases s; cases t; simp add: kmem_idle_def)+

section \<open>Walking and mapping\<close>

lemma walkpgdir_present:
  assumes "has_table (kmem_mem s) pgdir (PDE_IDX va)"
  shows "walkpgdir pgdir va alloc s = Ok (table_of (kmem_mem s) pgdir (PDE_IDX va) + 4 * PTE_IDX va) s"
  using assms by (simp add: walkpgdir_def has_table_def table_of_def pde_of_def Let_def)

lemma walkpgdir_absent:
  assumes "\<not> has_table (kmem_mem s) pgdir (PDE_IDX va)"
  shows "walkpgdir pgdir va False s = Ok 0 s"
  using assms by (simp add: walkpgdir_def has_table_def pde_of_def Let_def)

text \<open>A fresh table: the directory entry points to it and it has no entry.\<close>

lemma new_table:
  assumes v: "vm_ok ke m pgdir (p # ps)" and p: "page_ok ke p" "p \<notin> set ps" and h: "\<not> has_table m pgdir (PDE_IDX va)"
  defines "m' \<equiv> store32 (pgdir + 4 * PDE_IDX va) (V2P p OR PDE_COARSE) (mem_fill p PGSIZE 0 m)"
  shows "vm_ok ke m' pgdir ps" "has_table m' pgdir (PDE_IDX va)" "table_of m' pgdir (PDE_IDX va) = p"
    "vm_pte m' pgdir b = vm_pte m pgdir b" "chg_in {pgdir, p} m m'"
    "unat i < 4096 \<Longrightarrow> has_table m' pgdir i \<Longrightarrow> table_of m' pgdir i = p \<or> has_table m pgdir i \<and> table_of m' pgdir i = table_of m pgdir i"
proof -
  note d = vm_okD [OF v]
  have pk: "p mod KPAGE = 0" using p by (simp add: page_ok_def)
  have ne: "p \<noteq> pgdir" using d(2) by auto
  let ?k = "PDE_IDX va" and ?e = "V2P p OR PDE_COARSE"
  have k: "unat ?k < 65536" using PDE_IDX_less [of va] by simp
  have pde: "pde_of m' pgdir i = (if i = ?k then ?e else pde_of m pgdir i)" if "unat i < 4096" for i
    using load32_page_store [OF d(3) d(3) k, of i ?e] load32_page_fill [OF pk d(3) that, of m] that ne
    by (auto simp: pde_of_def m'_def)
  have tab: "table_of m' pgdir i = (if i = ?k then p else table_of m pgdir i)" if "unat i < 4096" for i
    using pde [OF that] pde_entry [OF p(1)] by (simp add: table_of_def)
  have has: "has_table m' pgdir i \<longleftrightarrow> i = ?k \<or> has_table m pgdir i" if "unat i < 4096" for i
    using pde [OF that] pde_entry(2) [OF p(1)] by (simp add: has_table_def)
  show "has_table m' pgdir ?k" "table_of m' pgdir ?k = p" using has tab PDE_IDX_less [of va] by simp_all
  show "unat i < 4096 \<Longrightarrow> has_table m' pgdir i \<Longrightarrow> table_of m' pgdir i = p \<or> has_table m pgdir i \<and> table_of m' pgdir i = table_of m pgdir i"
    using has tab by auto
  have pt: "table_of m pgdir i \<noteq> p" if "unat i < 4096" "has_table m pgdir i" for i using d(6) [OF that] by auto
  show "vm_ok ke m' pgdir ps"
    unfolding vm_ok_def using d(1-6) p ne has tab by (auto simp: h dest: pt d(8))
  show "chg_in {pgdir, p} m m'"
    unfolding m'_def
    by (rule chg_in_trans [OF fill_page [OF pk] store32_page [OF d(3) k]]) (simp_all add: word_le_nat_alt PGSIZE_def)
  show "vm_pte m' pgdir b = vm_pte m pgdir b"
  proof (cases "has_table m pgdir (PDE_IDX b)")
    case True
    let ?t = "table_of m pgdir (PDE_IDX b)"
    have i: "unat (PTE_IDX b) < 65536" "unat (PTE_IDX b) < 4096" using PTE_IDX_less [of b] by simp_all
    have "?t mod KPAGE = 0" "?t \<noteq> pgdir" "?t \<noteq> p" "PDE_IDX b \<noteq> ?k"
      using d(5,7) [OF PDE_IDX_less True] pt [OF PDE_IDX_less True] True h by auto
    then show ?thesis
      using True has [OF PDE_IDX_less] tab [OF PDE_IDX_less] load32_page_store [OF d(3) \<open>?t mod KPAGE = 0\<close> k i(1)]
        load32_page_fill [OF pk \<open>?t mod KPAGE = 0\<close> i(2)] by (simp add: vm_pte_def m'_def)
  next
    case False
    show ?thesis
    proof (cases "PDE_IDX b = ?k")
      case True
      have i: "unat (PTE_IDX b) < 65536" "unat (PTE_IDX b) < 4096" using PTE_IDX_less [of b] by simp_all
      have "load32 m' (p + 4 * PTE_IDX b) = 0"
        using load32_page_store [OF d(3) pk k i(1), of ?e] load32_page_fill [OF pk pk i(2), of m] ne by (simp add: m'_def)
      then show ?thesis using True False has [OF PDE_IDX_less, of b] tab [OF PDE_IDX_less, of b] by (simp add: vm_pte_def)
    next
      case F: False
      then show ?thesis using False has [OF PDE_IDX_less, of b] by (simp add: vm_pte_def)
    qed
  qed
qed

text \<open>The pages of an address space, and what a step of the operations keeps of it.\<close>

definition vm_pages :: "mem \<Rightarrow> uint \<Rightarrow> uint set" where
  "vm_pages m pgdir = insert pgdir (table_of m pgdir ` {i. unat i < 4096 \<and> has_table m pgdir i})"

definition vm_step :: "uint \<Rightarrow> uint list \<Rightarrow> uint list \<Rightarrow> 'z kmem_state_scheme \<Rightarrow> 'z kmem_state_scheme \<Rightarrow> bool" where
  "vm_step pgdir ps qs s t \<longleftrightarrow> kmem_only s t \<and> kmem_idle t \<and> free_pages t qs \<and>
     vm_ok (kern_end t) (kmem_mem t) pgdir qs \<and> (\<exists>us. ps = us @ qs) \<and>
     vm_pages (kmem_mem t) pgdir \<subseteq> vm_pages (kmem_mem s) pgdir \<union> (set ps - set qs) \<and>
     chg_in (vm_pages (kmem_mem s) pgdir \<union> (set ps - set qs)) (kmem_mem s) (kmem_mem t)"

lemma vm_step_trans:
  assumes "vm_step pgdir ps qs s t" "vm_step pgdir qs rs t u"
  shows "vm_step pgdir ps rs s u"
proof -
  note a = assms [unfolded vm_step_def]
  obtain us ws where us: "ps = us @ qs" "qs = ws @ rs" using a by blast
  have p: "vm_pages (kmem_mem t) pgdir \<union> (set qs - set rs) \<subseteq> vm_pages (kmem_mem s) pgdir \<union> (set ps - set rs)"
    using a(1) us by auto
  have q: "vm_pages (kmem_mem s) pgdir \<union> (set ps - set qs) \<subseteq> vm_pages (kmem_mem s) pgdir \<union> (set ps - set rs)"
    using us by auto
  have "chg_in (vm_pages (kmem_mem s) pgdir \<union> (set ps - set rs)) (kmem_mem s) (kmem_mem u)"
    using chg_in_trans [OF _ _ q p] a by blast
  moreover have "vm_pages (kmem_mem u) pgdir \<subseteq> vm_pages (kmem_mem s) pgdir \<union> (set ps - set rs)" using a(2) p by blast
  moreover have "kmem_only s u" using a kmem_only_trans by blast
  moreover have "\<exists>us. ps = us @ rs" using us by (metis append.assoc)
  ultimately show ?thesis using a(2) by (simp add: vm_step_def)
qed

lemma vm_pages_aligned:
  assumes "vm_ok ke m pgdir ps" "w \<in> vm_pages m pgdir"
  shows "w mod KPAGE = 0" "w \<notin> set ps" "page_ok ke w"
proof -
  show "page_ok ke w" "w \<notin> set ps" using assms(2) vm_okD(1,2,4,6) [OF assms(1)] by (auto simp: vm_pages_def)
  then show "w mod KPAGE = 0" by (simp add: page_ok_def)
qed

lemma walkpgdir_alloc:
  assumes "kmem_idle s" "free_pages s ps" "vm_ok (kern_end s) (kmem_mem s) pgdir ps"
    and "ps \<noteq> [] \<or> has_table (kmem_mem s) pgdir (PDE_IDX va)"
  shows "\<exists>t qs. walkpgdir pgdir va True s = Ok (table_of (kmem_mem t) pgdir (PDE_IDX va) + 4 * PTE_IDX va) t \<and>
    has_table (kmem_mem t) pgdir (PDE_IDX va) \<and> vm_step pgdir ps qs s t \<and> length ps \<le> Suc (length qs) \<and>
    (\<forall>b. vm_pte (kmem_mem t) pgdir b = vm_pte (kmem_mem s) pgdir b)"
proof (cases "has_table (kmem_mem s) pgdir (PDE_IDX va)")
  case True
  then show ?thesis
    using walkpgdir_present [OF True, of True] assms(1-3) by (intro exI [of _ s] exI [of _ ps]) (simp add: vm_step_def)
next
  case False
  then obtain p qs where ps: "ps = p # qs" using assms(4) by (cases ps) auto
  let ?m = "kmem_mem s"
  let ?m' = "store32 (pgdir + 4 * PDE_IDX va) (V2P p OR PDE_COARSE) (mem_fill p PGSIZE 0 ?m)"
  let ?t = "s\<lparr>kmem_mem := ?m', freelist := load32 ?m p\<rparr>"
  have fp: "freelist s = p" "flist ?m (load32 ?m p) qs" "distinct (p # qs)" "\<forall>q\<in>set (p # qs). page_ok (kern_end s) q" "p \<noteq> 0"
    using assms(2) ps by (auto simp: free_pages_def)
  note v = assms(3) [unfolded ps]
  note d = vm_okD [OF v]
  have pk: "page_ok (kern_end s) p" "p \<notin> set qs" using fp by simp_all
  note n = new_table [OF v pk False]
  have w: "walkpgdir pgdir va True s = Ok (table_of ?m' pgdir (PDE_IDX va) + 4 * PTE_IDX va) ?t"
    using False fp(1,5) n(3) kalloc_exec [OF assms(1)]
    by (simp add: walkpgdir_def has_table_def pde_of_def setupvm_def Let_def memset_fills)
  have al: "\<forall>w\<in>{pgdir, p}. w mod KPAGE = 0" "\<forall>q\<in>set qs. q mod KPAGE = 0" using d(3) fp(4) by (auto simp: page_ok_def)
  have "{pgdir, p} \<inter> set qs = {}" using d(2) pk(2) by auto
  then have "free_pages ?t qs" using flist_chg [OF n(5) al] fp by (simp add: free_pages_def)
  moreover have "vm_pages ?m' pgdir \<subseteq> vm_pages ?m pgdir \<union> (set ps - set qs)"
  proof
    fix w assume w: "w \<in> vm_pages ?m' pgdir"
    show "w \<in> vm_pages ?m pgdir \<union> (set ps - set qs)"
    proof (cases "w = pgdir")
      case False
      then obtain i where i: "w = table_of ?m' pgdir i" "unat i < 4096" "has_table ?m' pgdir i"
        using w by (auto simp: vm_pages_def)
      then show ?thesis using n(6) [OF i(2,3)] pk(2) by (auto simp: vm_pages_def ps)
    qed (simp add: vm_pages_def)
  qed
  moreover have "chg_in (vm_pages ?m pgdir \<union> (set ps - set qs)) ?m ?m'"
    using n(5) by (rule chg_in_mono) (use pk(2) in \<open>auto simp: vm_pages_def ps\<close>)
  ultimately have "vm_step pgdir ps qs s ?t"
    using n(1) assms(1) by (simp add: vm_step_def kmem_only_def kmem_idle_def ps)
  then show ?thesis using w n(2,4) ps by (intro exI [of _ ?t] exI [of _ qs]) simp
qed

text \<open>The entry that \<^verbatim>\<open>mappages\<close> stores.\<close>

definition pte_entry :: "uint \<Rightarrow> uint \<Rightarrow> uint" where
  "pte_entry pa ap = pa OR push_bit 4 (ap AND 3) OR PTE_CACHE OR PTE_BUF OR PTE_SMALL"

lemma pte_entry_fields:
  assumes "take_bit 12 pa = 0"
  shows "PTE_ADDR (pte_entry pa ap) = pa" "PTE_AP (pte_entry pa ap) = ap AND 3" "pte_entry pa ap AND PTE_TYPES \<noteq> 0"
proof -
  let ?y = "push_bit 4 (ap AND 3) OR 14"
  have e: "pte_entry pa ap = pa OR ?y" by (simp add: pte_entry_def PTE_CACHE_def PTE_BUF_def PTE_SMALL_def or.assoc)
  have three: "bit (3 :: uint) n \<longleftrightarrow> n < 2" for n using bit_mask_iff [of 2 n, where 'a = "32 word"] by (auto simp: mask_eq_exp_minus_1)
  have b14: "bit (14 :: uint) n \<longleftrightarrow> n \<in> {1, 2, 3}" for n
    by (cases "n < 5") (auto simp: less_Suc_eq numeral_eq_Suc bit_simps)
  have three': "bit (3 :: int) n \<longleftrightarrow> n < 2" for n using bit_mask_iff [of 2 n, where 'a = int] by (auto simp: mask_eq_exp_minus_1)
  have b48: "n < 12" if "bit (48 :: int) n" for n
  proof -
    have "(48 :: int) = push_bit 4 (mask 2)" by (simp add: mask_eq_exp_minus_1)
    then have "bit (push_bit 4 (mask 2 :: int)) n" using that by metis
    then show "n < 12" by (simp only: bit_push_bit_iff bit_mask_iff) linarith
  qed
  have pa: "\<not> bit pa k" if "k < 12" for k using arg_cong [OF assms, of "\<lambda>w. bit w k"] that by (simp add: bit_simps)
  have "take_bit 12 ?y = ?y" by (rule bit_word_eqI) (auto simp: bit_simps three b14 dest: b48)
  then show "PTE_ADDR (pte_entry pa ap) = pa" unfolding e by (rule PTE_ADDR_or [OF assms])
  show "PTE_AP (pte_entry pa ap) = ap AND 3"
    unfolding e PTE_AP_def by (rule bit_word_eqI) (auto simp: bit_simps three three' b14 pa)
  have "bit (pte_entry pa ap AND PTE_TYPES) 1" by (simp add: e bit_simps PTE_TYPES_def three b14)
  then show "pte_entry pa ap AND PTE_TYPES \<noteq> 0" by fastforce
qed

lemma pages_to_one:
  assumes "unat va mod 4096 = 0"
  shows "pages_to (ALIGNDOWN va PTE_SZ) (ALIGNDOWN (va + PTE_SZ - 1) PTE_SZ) = [va]"
proof -
  obtain k where k: "unat va = 4096 * k" using assms by (auto simp: mod_eq_0_iff_dvd dvd_def)
  have "unat va < 2 ^ 32" by (rule unat_uint_less)
  then have "unat va + 4095 < 2 ^ 32" using k by simp
  then have u: "unat (va + 4095) = 4096 * k + 4095" using unat_add_small [of va 4095] k by simp
  have d: "unat (ALIGNDOWN x PTE_SZ) = unat x div 4096 * 4096" for x
    using unat_ALIGNDOWN [of PTE_SZ 12 x] by (simp add: PTE_SZ_def)
  have "ALIGNDOWN va PTE_SZ = va" "ALIGNDOWN (va + 4095) PTE_SZ = va" using d k u by (simp_all add: word_unat_eq_iff)
  moreover have "va + PTE_SZ - 1 = va + 4095" by (simp add: PTE_SZ_def)
  ultimately show ?thesis by (simp only: pages_to_def) simp
qed

lemma vm_slot_nonzero:
  assumes "vm_ok ke m pgdir ps" "has_table m pgdir (PDE_IDX va)"
  shows "table_of m pgdir (PDE_IDX va) + 4 * PTE_IDX va \<noteq> 0"
proof -
  have "table_of m pgdir (PDE_IDX va) \<noteq> 0" using page_nonzero vm_okD(4) [OF assms(1) PDE_IDX_less assms(2)] by blast
  then have "0 < unat (table_of m pgdir (PDE_IDX va))" by (simp add: unat_gt_0)
  then have "0 < unat (table_of m pgdir (PDE_IDX va) + 4 * PTE_IDX va)"
    using unat_page_word(1) [OF vm_okD(7) [OF assms(1) PDE_IDX_less assms(2)], of "PTE_IDX va"] PTE_IDX_less [of va] by simp
  then show ?thesis by (metis unat_0 less_irrefl)
qed

lemma mappages_one:
  assumes "kmem_idle s" "free_pages s ps" "vm_ok (kern_end s) (kmem_mem s) pgdir ps" "ps \<noteq> [] \<or> has_table (kmem_mem s) pgdir (PDE_IDX va)"
    and "unat va mod 4096 = 0" "vm_pte (kmem_mem s) pgdir va AND PTE_TYPES = 0"
  shows "\<exists>t qs. mappages pgdir va PTE_SZ pa ap s = Ok 0 t \<and> vm_step pgdir ps qs s t \<and> length ps \<le> Suc (length qs) \<and>
    (\<forall>b. vm_pte (kmem_mem t) pgdir b = (if same_upage b va then pte_entry pa ap else vm_pte (kmem_mem s) pgdir b))"
proof -
  obtain t qs where t: "walkpgdir pgdir va True s = Ok (table_of (kmem_mem t) pgdir (PDE_IDX va) + 4 * PTE_IDX va) t"
    "has_table (kmem_mem t) pgdir (PDE_IDX va)" "vm_step pgdir ps qs s t" "length ps \<le> Suc (length qs)"
    "\<forall>b. vm_pte (kmem_mem t) pgdir b = vm_pte (kmem_mem s) pgdir b"
    using walkpgdir_alloc [OF assms(1-4)] by blast
  let ?slot = "table_of (kmem_mem t) pgdir (PDE_IDX va) + 4 * PTE_IDX va"
  let ?m = "store32 ?slot (pte_entry pa ap) (kmem_mem t)" and ?P = "vm_pages (kmem_mem t) pgdir"
  let ?u = "t\<lparr>kmem_mem := ?m\<rparr>"
  have v: "vm_ok (kern_end t) (kmem_mem t) pgdir qs" and fp: "free_pages t qs" and ki: "kmem_idle t" using t(3) by (simp_all add: vm_step_def)
  note st = vm_store_table [OF v t(2), where x = "pte_entry pa ap"]
  have l: "load32 (kmem_mem t) ?slot = vm_pte (kmem_mem s) pgdir va" using t(2) t(5) [rule_format, of va] by (simp add: vm_pte_def)
  have m: "mappages pgdir va PTE_SZ pa ap s = Ok 0 ?u"
    using t(1) l assms(6) vm_slot_nonzero [OF v t(2)]
    by (simp add: mappages_def pages_to_one [OF assms(5)] pte_entry_def)
  have tab: "table_of (kmem_mem t) pgdir (PDE_IDX va) \<in> ?P" using t(2) PDE_IDX_less by (auto simp: vm_pages_def)
  have ch: "chg_in ?P (kmem_mem t) ?m"
    by (rule chg_in_mono [OF store32_page [OF vm_okD(7) [OF v PDE_IDX_less t(2)]]]) (use tab PTE_IDX_less [of va] in simp_all)
  have "flist ?m (freelist t) qs = flist (kmem_mem t) (freelist t) qs"
    using vm_pages_aligned [OF v] fp by (intro flist_chg [OF ch]) (auto simp: free_pages_def page_ok_def)
  then have "free_pages ?u qs" using fp by (simp add: free_pages_def)
  moreover have "vm_pages ?m pgdir = ?P"
    unfolding vm_pages_def by (rule arg_cong [of _ _ "insert pgdir"], rule image_cong) (use st(4,5) in auto)
  ultimately have "vm_step pgdir qs qs t ?u"
    using st(1) ki ch by (simp add: vm_step_def kmem_only_def kmem_idle_def)
  with t(3) have "vm_step pgdir ps qs s ?u" by (rule vm_step_trans)
  then show ?thesis using m st(2) t(4,5) by (intro exI [of _ ?u] exI [of _ qs]) simp
qed

lemma vm_step_vm_ok:
  assumes "vm_step pgdir ps qs s t"
  shows "kmem_idle t" "free_pages t qs" "vm_ok (kern_end t) (kmem_mem t) pgdir qs" "set qs \<subseteq> set ps" "kmem_only s t"
    "chg_in (vm_pages (kmem_mem s) pgdir \<union> (set ps - set qs)) (kmem_mem s) (kmem_mem t)"
  using assms by (auto simp: vm_step_def)

text \<open>The kernel address of a mapped user page.\<close>

lemma uva2ka_user:
  assumes "page_ok ke p" "vm_pte (kmem_mem s) pgdir va = pte_entry (V2P p) AP_KU" "vm_ok ke' (kmem_mem s) pgdir ps"
  shows "uva2ka pgdir va s = Ok p s"
proof -
  note f = pte_entry_fields [OF page_ok_V2P [OF assms(1)], of AP_KU]
  have h: "has_table (kmem_mem s) pgdir (PDE_IDX va)" using assms(2) f(3) by (auto simp: vm_pte_def split: if_splits)
  then show ?thesis
    using assms(2) walkpgdir_present [OF h, of False] vm_slot_nonzero [OF assms(3) h] f
    by (simp add: uva2ka_def vm_pte_def AP_KU_def)
qed

text \<open>An address space that a change of memory does not touch.\<close>

lemma vm_chg:
  assumes "vm_ok ke m pgdir ps" "chg_in P m m'" "\<forall>w\<in>P. w mod KPAGE = 0" "vm_pages m pgdir \<inter> P = {}" "set qs \<subseteq> set ps"
  shows "vm_pages m' pgdir = vm_pages m pgdir" "vm_pte m' pgdir b = vm_pte m pgdir b" "vm_ok ke m' pgdir qs"
proof -
  have L: "load32 m' (w + 4 * i) = load32 m (w + 4 * i)" if "w \<in> vm_pages m pgdir" "unat i < 4096" for w i
    using load32_chg [OF assms(2), of w i] vm_pages_aligned(1) [OF assms(1) that(1)] assms(3,4) that by (simp add: disjoint_iff)
  have pg: "pgdir \<in> vm_pages m pgdir" by (simp add: vm_pages_def)
  have ht: "has_table m' pgdir i = has_table m pgdir i" "table_of m' pgdir i = table_of m pgdir i" if "unat i < 4096" for i
    using L [OF pg that] by (simp_all add: has_table_def table_of_def pde_of_def)
  then show "vm_pages m' pgdir = vm_pages m pgdir"
    unfolding vm_pages_def by (intro arg_cong [of _ _ "insert pgdir"] image_cong) auto
  have "load32 m' (table_of m pgdir (PDE_IDX b) + 4 * PTE_IDX b) = load32 m (table_of m pgdir (PDE_IDX b) + 4 * PTE_IDX b)"
    if "has_table m pgdir (PDE_IDX b)"
    by (rule L) (use that PDE_IDX_less [of b] PTE_IDX_less [of b] in \<open>auto simp: vm_pages_def\<close>)
  then show "vm_pte m' pgdir b = vm_pte m pgdir b" using ht [OF PDE_IDX_less, of b] by (simp add: vm_pte_def)
  show "vm_ok ke m' pgdir qs" using assms(1,5) ht by (auto simp: vm_ok_def)
qed

text \<open>A page taken from the free list and filled in some way.\<close>

lemma vm_take_page:
  assumes "kmem_idle s" "free_pages s (p # qs)" "vm_ok (kern_end s) (kmem_mem s) pgdir (p # qs)" "chg_in {p} (kmem_mem s) m'"
  defines "u \<equiv> s\<lparr>kmem_mem := m', freelist := load32 (kmem_mem s) p\<rparr>"
  shows "kalloc s = Ok p (s\<lparr>freelist := load32 (kmem_mem s) p\<rparr>)" "vm_step pgdir (p # qs) qs s u"
    "vm_pte (kmem_mem u) pgdir b = vm_pte (kmem_mem s) pgdir b" "page_ok (kern_end s) p" "p \<notin> vm_pages (kmem_mem u) pgdir"
proof -
  let ?m = "kmem_mem s"
  have m: "kmem_mem u = m'" by (simp add: u_def)
  have fp: "freelist s = p" "flist ?m (load32 ?m p) qs" "distinct (p # qs)" "\<forall>q\<in>set (p # qs). page_ok (kern_end s) q" "p \<noteq> 0"
    using assms(2) by (auto simp: free_pages_def)
  show pk: "page_ok (kern_end s) p" using fp(4) by simp
  then have pa: "p mod KPAGE = 0" by (simp add: page_ok_def)
  show "kalloc s = Ok p (s\<lparr>freelist := load32 ?m p\<rparr>)" using kalloc_exec [OF assms(1)] fp by simp
  have np: "p \<notin> vm_pages ?m pgdir" using vm_pages_aligned(2) [OF assms(3)] by auto
  have "vm_pages ?m pgdir \<inter> {p} = {}" "set qs \<subseteq> set (p # qs)" "\<forall>w\<in>{p}. w mod KPAGE = 0" using np pa by auto
  note c = vm_chg [OF assms(3,4) this(3,1,2)]
  show "p \<notin> vm_pages (kmem_mem u) pgdir" "vm_pte (kmem_mem u) pgdir b = vm_pte ?m pgdir b" using np c by (simp_all add: m)
  have "flist m' (load32 ?m p) qs" using flist_chg [OF assms(4), of qs] pa fp by (auto simp: page_ok_def)
  then have "free_pages u qs" using fp by (simp add: free_pages_def u_def)
  moreover have "chg_in (vm_pages ?m pgdir \<union> (set (p # qs) - set qs)) ?m m'" using assms(4) by (rule chg_in_mono) (use fp(3) in auto)
  ultimately show "vm_step pgdir (p # qs) qs s u"
    using c assms(1) by (simp add: vm_step_def kmem_only_def kmem_idle_def u_def)
qed

text \<open>The bytes of a user page.\<close>

definition page_data :: "mem \<Rightarrow> uint \<Rightarrow> uchar list" where
  "page_data m p = map (\<lambda>i. m (p + of_nat i)) [0..<4096]"

lemma page_data_chg:
  assumes "chg_in P m m'" "p mod KPAGE = 0" "\<forall>w\<in>P. w mod KPAGE = 0" "p \<notin> P"
  shows "page_data m' p = page_data m p"
proof -
  have "m' (p + of_nat i) = m (p + of_nat i)" if i: "i < 4096" for i
  proof -
    have "p + of_nat i - p < KPAGE" using i by (simp add: word_less_nat_alt unat_of_nat)
    then have "unat (p + of_nat i) div 0x40000 = unat p div 0x40000" using in_page [OF assms(2)] by blast
    moreover have "unat p div 0x40000 \<noteq> unat w div 0x40000" if "w \<in> P" for w
      using same_page_eq [OF assms(2)] assms(3,4) that by blast
    ultimately show ?thesis using assms(1) by (simp add: chg_in_def)
  qed
  then show ?thesis by (simp add: page_data_def)
qed

text \<open>A data page for a user: taken from the free list and cleared.\<close>

definition zero_page :: "mem \<Rightarrow> uint \<Rightarrow> bool" where
  "zero_page m p \<longleftrightarrow> (\<forall>i<4096. m (p + of_nat i) = 0)"

lemma zero_page_chg:
  assumes "zero_page m p" "chg_in P m m'" "p mod KPAGE = 0" "\<forall>w\<in>P. w mod KPAGE = 0" "p \<notin> P"
  shows "zero_page m' p"
  using page_data_chg [OF assms(2-5)] assms(1) by (auto simp: zero_page_def page_data_def)

lemma clear_page:
  assumes "page_ok ke p"
  shows "chg_in {p} m (memset p 0 PTE_SZ m)" "zero_page (memset p 0 PTE_SZ m) p"
  using fill_page [of p PTE_SZ m 0] assms
  by (simp_all add: page_ok_def memset_fills zero_page_def mem_fill_def word_less_nat_alt word_le_nat_alt PTE_SZ_def unat_of_nat)

section \<open>Growing an address space\<close>

lemma free_pages_aligned: "free_pages s ps \<Longrightarrow> w \<in> set ps \<Longrightarrow> w mod KPAGE = 0"
  by (simp add: free_pages_def page_ok_def)

lemma allocuvm_step:
  fixes s :: "'z cons_state_scheme"
  assumes "kmem_idle s" "free_pages s (p # q # ps)" "vm_ok (kern_end s) (kmem_mem s) pgdir (p # q # ps)"
    and "unat a mod 4096 = 0" "vm_pte (kmem_mem s) pgdir a AND PTE_TYPES = 0"
  shows "\<exists>t qs. allocuvm_loop pgdir oldsz newsz (a # as) s = allocuvm_loop pgdir oldsz newsz as t \<and>
    vm_step pgdir (p # q # ps) qs s t \<and> length ps \<le> length qs \<and> p \<notin> set qs \<and> page_ok (kern_end s) p \<and>
    p \<notin> vm_pages (kmem_mem t) pgdir \<and> zero_page (kmem_mem t) p \<and>
    (\<forall>b. vm_pte (kmem_mem t) pgdir b = (if same_upage b a then pte_entry (V2P p) AP_KU else vm_pte (kmem_mem s) pgdir b))"
proof -
  have pk: "page_ok (kern_end s) p" using assms(2) by (simp add: free_pages_def)
  note z = clear_page [OF pk, of "kmem_mem s"]
  note d = vm_take_page [OF assms(1-3) z(1)]
  let ?u = "s\<lparr>kmem_mem := memset p 0 PTE_SZ (kmem_mem s), freelist := load32 (kmem_mem s) p\<rparr>"
  note o = vm_step_vm_ok [OF d(2)]
  have "vm_pte (kmem_mem ?u) pgdir a AND PTE_TYPES = 0" using d(3) assms(5) by simp
  then obtain t qs where t: "mappages pgdir a PTE_SZ (V2P p) AP_KU ?u = Ok 0 t" "vm_step pgdir (q # ps) qs ?u t"
    "length (q # ps) \<le> Suc (length qs)"
    "\<forall>b. vm_pte (kmem_mem t) pgdir b = (if same_upage b a then pte_entry (V2P p) AP_KU else vm_pte (kmem_mem ?u) pgdir b)"
    using mappages_one [OF o(1-3) _ assms(4), of "V2P p" AP_KU] by blast
  have dist: "distinct (p # q # ps)" using assms(2) by (simp add: free_pages_def)
  note o2 = vm_step_vm_ok [OF t(2)]
  have pa: "p mod KPAGE = 0" using pk by (simp add: page_ok_def)
  have np: "p \<notin> vm_pages (kmem_mem ?u) pgdir \<union> (set (q # ps) - set qs)" using d(5) dist by auto
  have al: "\<forall>w\<in>vm_pages (kmem_mem ?u) pgdir \<union> (set (q # ps) - set qs). w mod KPAGE = 0"
    using vm_pages_aligned(1) [OF o(3)] free_pages_aligned [OF o(2)] by blast
  have "zero_page (kmem_mem t) p" using zero_page_chg [OF _ o2(6) pa al np] z(2) by simp
  moreover have "vm_pages (kmem_mem t) pgdir \<subseteq> vm_pages (kmem_mem ?u) pgdir \<union> (set (q # ps) - set qs)"
    using t(2) by (simp only: vm_step_def)
  then have "p \<notin> vm_pages (kmem_mem t) pgdir" using np by blast
  moreover have "p \<notin> set qs" using o2(4) dist by auto
  moreover have "allocuvm_loop pgdir oldsz newsz (a # as) s = allocuvm_loop pgdir oldsz newsz as t"
  proof -
    have "s\<lparr>freelist := load32 (kmem_mem s) p, kmem_mem := memset p 0 PTE_SZ (kmem_mem s)\<rparr> = ?u" by simp
    then have "mappages pgdir a PTE_SZ (V2P p) AP_KU (s\<lparr>freelist := load32 (kmem_mem s) p, kmem_mem := memset p 0 PTE_SZ (kmem_mem s)\<rparr>) = Ok 0 t"
      using t(1) by (simp only:)
    then show ?thesis using d(1) page_nonzero [OF pk] by simp
  qed
  ultimately show ?thesis
    using vm_step_trans [OF d(2) t(2)] t(3,4) d(3) pk by (intro exI [of _ t] exI [of _ qs]) simp
qed

lemma allocuvm_loop_ok:
  fixes s :: "'z cons_state_scheme"
  assumes "kmem_idle s" "free_pages s ps" "vm_ok (kern_end s) (kmem_mem s) pgdir ps" "2 * length as \<le> length ps"
    and "distinct (map (\<lambda>a. unat a div 4096) as)"
    and "\<forall>a\<in>set as. unat a mod 4096 = 0 \<and> vm_pte (kmem_mem s) pgdir a AND PTE_TYPES = 0"
  shows "\<exists>t qs pg. allocuvm_loop pgdir oldsz newsz as s = Ok newsz t \<and> vm_step pgdir ps qs s t \<and>
    distinct pg \<and> set pg \<subseteq> set ps - set qs \<and>
    list_all2 (\<lambda>a p. vm_pte (kmem_mem t) pgdir a = pte_entry (V2P p) AP_KU \<and> zero_page (kmem_mem t) p) as pg \<and>
    (\<forall>b. (\<forall>a\<in>set as. \<not> same_upage b a) \<longrightarrow> vm_pte (kmem_mem t) pgdir b = vm_pte (kmem_mem s) pgdir b)"
  using assms
proof (induction as arbitrary: s ps)
  case Nil
  then show ?case by (intro exI [of _ s] exI [of _ ps] exI [of _ "[]"]) (simp add: vm_step_def)
next
  case (Cons a as)
  obtain p q ps' where ps: "ps = p # q # ps'" using Cons.prems(4) by (cases ps; cases "tl ps") auto
  note pr = Cons.prems(1-3) [unfolded ps]
  obtain u us where u: "allocuvm_loop pgdir oldsz newsz (a # as) s = allocuvm_loop pgdir oldsz newsz as u"
    "vm_step pgdir (p # q # ps') us s u" "length ps' \<le> length us" "p \<notin> set us" "page_ok (kern_end s) p"
    "p \<notin> vm_pages (kmem_mem u) pgdir" "zero_page (kmem_mem u) p"
    "\<forall>b. vm_pte (kmem_mem u) pgdir b = (if same_upage b a then pte_entry (V2P p) AP_KU else vm_pte (kmem_mem s) pgdir b)"
    using allocuvm_step [OF pr, of a oldsz newsz as] Cons.prems(6) by auto
  note o = vm_step_vm_ok [OF u(2)]
  have ns: "\<not> same_upage b a" "\<not> same_upage a b" if "b \<in> set as" for b
    using Cons.prems(5) that by (auto simp: same_upage_def image_iff)
  have "\<forall>b\<in>set as. unat b mod 4096 = 0 \<and> vm_pte (kmem_mem u) pgdir b AND PTE_TYPES = 0"
    using Cons.prems(6) u(8) ns by simp
  then obtain t qs pg where t: "allocuvm_loop pgdir oldsz newsz as u = Ok newsz t" "vm_step pgdir us qs u t"
    "distinct pg" "set pg \<subseteq> set us - set qs"
    "list_all2 (\<lambda>a p. vm_pte (kmem_mem t) pgdir a = pte_entry (V2P p) AP_KU \<and> zero_page (kmem_mem t) p) as pg"
    "\<forall>b. (\<forall>a\<in>set as. \<not> same_upage b a) \<longrightarrow> vm_pte (kmem_mem t) pgdir b = vm_pte (kmem_mem u) pgdir b"
    using Cons.IH [OF o(1-3)] Cons.prems(4,5) u(3) by (auto simp: ps)
  note o2 = vm_step_vm_ok [OF t(2)]
  have np: "p \<notin> vm_pages (kmem_mem u) pgdir \<union> (set us - set qs)" using u(4,6) by auto
  have al: "\<forall>w\<in>vm_pages (kmem_mem u) pgdir \<union> (set us - set qs). w mod KPAGE = 0"
    using vm_pages_aligned(1) [OF o(3)] free_pages_aligned [OF o(2)] by blast
  have pk: "p mod KPAGE = 0" using u(5) by (simp add: page_ok_def)
  have "zero_page (kmem_mem t) p" by (rule zero_page_chg [OF u(7) o2(6) pk al np])
  moreover have "vm_pte (kmem_mem t) pgdir a = pte_entry (V2P p) AP_KU"
    using t(6) u(8) ns(2) by (simp add: same_upage_def)
  moreover have "vm_step pgdir ps qs s t" using vm_step_trans [OF u(2) t(2)] by (simp add: ps)
  moreover have "distinct (p # pg)" "set (p # pg) \<subseteq> set ps - set qs" using t(3,4) u(4) o(4) o2(4) by (auto simp: ps)
  ultimately show ?case
    using u(1,8) t(1,5,6) by (intro exI [of _ t] exI [of _ qs] exI [of _ "p # pg"]) simp
qed

lemma unat_ALIGNUP_PTE: "unat x + 4096 \<le> 2 ^ 32 \<Longrightarrow> unat (ALIGNUP x PTE_SZ) = (unat x + 4095) div 4096 * 4096"
  using unat_ALIGNUP [of PTE_SZ 12 x] by (simp add: PTE_SZ_def)

lemma unat_page_addr: "unat a + k * 4096 < 2 ^ 32 \<Longrightarrow> unat (a + of_nat k * PTE_SZ) = unat a + k * 4096"
  using unat_add_small [of a "k * 4096"] by (simp add: PTE_SZ_def)

lemma pages_below_props:
  assumes "unat a mod 4096 = 0" "unat l < 2 ^ 28"
  shows "length (pages_below a l) = (unat l - unat a + 4095) div 4096"
    "k < length (pages_below a l) \<Longrightarrow> unat (pages_below a l ! k) = unat a + k * 4096"
    "distinct (map (\<lambda>a. unat a div 4096) (pages_below a l))"
    "x \<in> set (pages_below a l) \<Longrightarrow> unat x mod 4096 = 0 \<and> a \<le> x \<and> x < l"
proof -
  let ?n = "(unat l - unat a + 4095) div 4096"
  show n: "length (pages_below a l) = ?n" by (simp add: pages_below_def)
  obtain q where q: "unat a = 4096 * q" using assms(1) by (auto simp: mod_eq_0_iff_dvd dvd_def)
  have lim: "unat a + k * 4096 < unat l" if "k < ?n" for k
  proof -
    have "(k + 1) * 4096 \<le> ?n * 4096" using that by (intro mult_right_mono) simp_all
    also have "\<dots> \<le> unat l - unat a + 4095" by (rule div_times_less_eq_dividend)
    finally show ?thesis using that by simp
  qed
  have el: "unat (pages_below a l ! k) = unat a + k * 4096" if "k < ?n" for k
    using lim [OF that] that assms(2) by (simp add: pages_below_def unat_page_addr)
  then show "k < length (pages_below a l) \<Longrightarrow> unat (pages_below a l ! k) = unat a + k * 4096" by (simp add: n)
  show "distinct (map (\<lambda>a. unat a div 4096) (pages_below a l))"
    unfolding distinct_conv_nth using el q by (auto simp: n)
  assume "x \<in> set (pages_below a l)"
  then obtain k where "k < ?n" "x = pages_below a l ! k" by (auto simp: in_set_conv_nth n)
  then show "unat x mod 4096 = 0 \<and> a \<le> x \<and> x < l"
    using el [of k] lim [of k] q by (simp add: word_le_nat_alt word_less_nat_alt)
qed

text \<open>The page of an address of the range.\<close>

lemma pages_below_index:
  assumes "unat a mod 4096 = 0" "unat l < 2 ^ 28" "a \<le> x" "x < l"
  shows "(unat x - unat a) div 4096 < length (pages_below a l)"
    "same_upage x (pages_below a l ! ((unat x - unat a) div 4096))"
proof -
  obtain q where q: "unat a = 4096 * q" using assms(1) by (auto simp: mod_eq_0_iff_dvd dvd_def)
  have le: "unat a \<le> unat x" "unat x < unat l" using assms(3,4) by (simp_all add: word_le_nat_alt word_less_nat_alt)
  then have "unat x - unat a < unat l - unat a" by simp
  then have "(unat x - unat a) div 4096 < (unat l - unat a + 4095) div 4096" by (simp add: div_less_iff_less_mult)
  then show i: "(unat x - unat a) div 4096 < length (pages_below a l)" by (simp add: pages_below_props(1) [OF assms(1,2)])
  obtain r where r: "unat x = unat a + r" using le(1) by (metis le_iff_add)
  show "same_upage x (pages_below a l ! ((unat x - unat a) div 4096))"
    using pages_below_props(2) [OF assms(1,2) i] by (simp add: same_upage_def q r)
qed

text \<open>Different pages of the range have different places in a list without repetitions, and an address outside has no page there.\<close>

lemma pages_below_places:
  assumes "unat a mod 4096 = 0" "unat l < 2 ^ 28" "distinct pg" "length pg = length (pages_below a l)" "a \<le> x" "x < l" "a \<le> y" "y < l"
  shows "pg ! ((unat x - unat a) div 4096) = pg ! ((unat y - unat a) div 4096) \<longleftrightarrow> same_upage x y"
proof -
  note ix = pages_below_index(1) [OF assms(1,2)]
  obtain q where q: "unat a = 4096 * q" using assms(1) by (auto simp: mod_eq_0_iff_dvd dvd_def)
  have "unat z div 4096 = q + (unat z - unat a) div 4096" if "a \<le> z" for z
    using that q by (metis word_le_nat_alt le_add_diff_inverse div_mult_self4 zero_neq_numeral)
  then show ?thesis
    using ix [OF assms(5,6)] ix [OF assms(7,8)] assms(3-8) by (simp add: nth_eq_iff_index_eq same_upage_def)
qed

lemma pages_below_outside:
  assumes "unat a mod 4096 = 0" "unat l < 2 ^ 28" "x < a \<or> ALIGNUP l PTE_SZ \<le> x" "y \<in> set (pages_below a l)"
  shows "\<not> same_upage x y"
proof -
  have nu: "unat (ALIGNUP l PTE_SZ) = (unat l + 4095) div 4096 * 4096" using unat_ALIGNUP_PTE [of l] assms(2) by simp
  have y: "unat a \<le> unat y" "unat y < unat l" using pages_below_props(4) [OF assms(1,2,4)] by (auto simp: word_le_nat_alt word_less_nat_alt)
  have hi: "unat y div 4096 < (unat l + 4095) div 4096" using y(2) by (simp add: div_less_iff_less_mult)
  obtain q where q: "unat a = 4096 * q" using assms(1) by (auto simp: mod_eq_0_iff_dvd dvd_def)
  have lo: "q \<le> unat y div 4096" using y(1) q by (simp add: less_eq_div_iff_mult_less_eq)
  from assms(3) show ?thesis
  proof
    assume "x < a"
    then have "unat x div 4096 < q" using q by (simp add: word_less_nat_alt div_less_iff_less_mult)
    then show ?thesis using lo by (simp add: same_upage_def)
  next
    assume "ALIGNUP l PTE_SZ \<le> x"
    then have "(unat l + 4095) div 4096 \<le> unat x div 4096" using nu by (simp add: word_le_nat_alt less_eq_div_iff_mult_less_eq)
    then show ?thesis using hi by (simp add: same_upage_def)
  qed
qed

lemma vm_pte_upage: "same_upage x y \<Longrightarrow> vm_pte m pgdir x = vm_pte m pgdir y"
  by (simp add: same_upage_idx vm_pte_def)

section \<open>Properties\<close>

text \<open>
  Mapping one page. In a well-formed address space, \<^verbatim>\<open>mappages\<close> of a page that is not mapped returns 0; afterwards
  \<^verbatim>\<open>uva2ka\<close> finds the page at every user address of it, the entries of all other addresses are what they were
  (a page table it had to add is empty), and the address space and the free list are well formed.
\<close>

theorem mappages_uva2ka:
  fixes s :: "'z kmem_state_scheme"
  assumes "kmem_idle s" "free_pages s ps" "vm_ok (kern_end s) (kmem_mem s) pgdir ps"
    and "ps \<noteq> [] \<or> has_table (kmem_mem s) pgdir (PDE_IDX va)"
    and "unat va mod 4096 = 0" "vm_pte (kmem_mem s) pgdir va AND PTE_TYPES = 0" "page_ok (kern_end s) p"
  shows "\<exists>t qs. mappages pgdir va PTE_SZ (V2P p) AP_KU s = Ok 0 t \<and>
    (\<forall>x. same_upage x va \<longrightarrow> uva2ka pgdir x t = Ok p t) \<and>
    (\<forall>x. \<not> same_upage x va \<longrightarrow> vm_pte (kmem_mem t) pgdir x = vm_pte (kmem_mem s) pgdir x) \<and>
    free_pages t qs \<and> vm_ok (kern_end t) (kmem_mem t) pgdir qs \<and> set qs \<subseteq> set ps"
proof -
  obtain t qs where t: "mappages pgdir va PTE_SZ (V2P p) AP_KU s = Ok 0 t" "vm_step pgdir ps qs s t"
    "\<forall>b. vm_pte (kmem_mem t) pgdir b = (if same_upage b va then pte_entry (V2P p) AP_KU else vm_pte (kmem_mem s) pgdir b)"
    using mappages_one [OF assms(1-6), of "V2P p" AP_KU] by blast
  note o = vm_step_vm_ok [OF t(2)]
  have "uva2ka pgdir x t = Ok p t" if "same_upage x va" for x using uva2ka_user [OF assms(7) _ o(3), of x] t(3) that by simp
  then show ?thesis using t(1,3) o by (intro exI [of _ t] exI [of _ qs]) simp
qed

text \<open>
  C36. Growing an address space. When two free pages per new page are there (one may be needed for a page table), \<^verbatim>\<open>allocuvm\<close>
  returns the new size; every address between the old size, rounded up, and the new size is then a user address
  of a page that was free and is all zero, two addresses share a page exactly when they are on the same user
  page, all other entries are what they were, and the address space stays well formed.
\<close>

theorem allocuvm_maps:
  fixes s :: "'z cons_state_scheme"
  assumes "kmem_idle s" "free_pages s ps" "vm_ok (kern_end s) (kmem_mem s) pgdir ps"
    and "oldsz \<le> newsz" "newsz < UADDR_SZ"
    and "\<forall>x. ALIGNUP oldsz PTE_SZ \<le> x \<and> x < newsz \<longrightarrow> vm_pte (kmem_mem s) pgdir x AND PTE_TYPES = 0"
    and "2 * length (pages_below (ALIGNUP oldsz PTE_SZ) newsz) \<le> length ps"
  shows "\<exists>t qs g. allocuvm pgdir oldsz newsz s = Ok newsz t \<and>
    (\<forall>x. ALIGNUP oldsz PTE_SZ \<le> x \<and> x < newsz \<longrightarrow>
       uva2ka pgdir x t = Ok (g x) t \<and> g x \<in> set ps - set qs \<and> zero_page (kmem_mem t) (g x)) \<and>
    (\<forall>x y. ALIGNUP oldsz PTE_SZ \<le> x \<and> x < newsz \<longrightarrow> ALIGNUP oldsz PTE_SZ \<le> y \<and> y < newsz \<longrightarrow> (g x = g y \<longleftrightarrow> same_upage x y)) \<and>
    (\<forall>x. x < ALIGNUP oldsz PTE_SZ \<or> ALIGNUP newsz PTE_SZ \<le> x \<longrightarrow> vm_pte (kmem_mem t) pgdir x = vm_pte (kmem_mem s) pgdir x) \<and>
    free_pages t qs \<and> vm_ok (kern_end t) (kmem_mem t) pgdir qs"
proof -
  let ?a = "ALIGNUP oldsz PTE_SZ" let ?as = "pages_below ?a newsz"
  have n: "unat newsz < 2 ^ 28" using assms(5) by (simp add: word_less_nat_alt UADDR_SZ_def)
  then have o: "unat oldsz < 2 ^ 28" using assms(4) by (simp add: word_le_nat_alt)
  have a: "unat ?a mod 4096 = 0" using unat_ALIGNUP_PTE [of oldsz] o by simp
  note pb = pages_below_props [OF a n] and ix = pages_below_index [OF a n]
  have "\<forall>x\<in>set ?as. unat x mod 4096 = 0 \<and> vm_pte (kmem_mem s) pgdir x AND PTE_TYPES = 0" using pb(4) assms(6) by blast
  then obtain t qs pg where t: "allocuvm_loop pgdir oldsz newsz ?as s = Ok newsz t" "vm_step pgdir ps qs s t"
    "distinct pg" "set pg \<subseteq> set ps - set qs"
    "list_all2 (\<lambda>a p. vm_pte (kmem_mem t) pgdir a = pte_entry (V2P p) AP_KU \<and> zero_page (kmem_mem t) p) ?as pg"
    "\<forall>b. (\<forall>a\<in>set ?as. \<not> same_upage b a) \<longrightarrow> vm_pte (kmem_mem t) pgdir b = vm_pte (kmem_mem s) pgdir b"
    using allocuvm_loop_ok [OF assms(1-3,7) pb(3)] by blast
  note v = vm_step_vm_ok [OF t(2)]
  have len: "length pg = length ?as" using t(5) by (simp add: list_all2_lengthD)
  let ?i = "\<lambda>x. (unat x - unat ?a) div 4096"
  let ?g = "\<lambda>x. pg ! ?i x"
  have al: "allocuvm pgdir oldsz newsz s = Ok newsz t" using t(1) leD [OF assms(4)] not_le [THEN iffD2, OF assms(5)] by (simp add: allocuvm_def)
  have one: "uva2ka pgdir x t = Ok (?g x) t \<and> ?g x \<in> set ps - set qs \<and> zero_page (kmem_mem t) (?g x)" if "?a \<le> x" "x < newsz" for x
  proof -
    have g: "?g x \<in> set ps - set qs" using ix(1) [OF that] len t(4) by (metis nth_mem subsetD)
    have e: "vm_pte (kmem_mem t) pgdir (?as ! ?i x) = pte_entry (V2P (?g x)) AP_KU" "zero_page (kmem_mem t) (?g x)"
      using list_all2_nthD [OF t(5) ix(1) [OF that]] by simp_all
    have "vm_pte (kmem_mem t) pgdir x = vm_pte (kmem_mem t) pgdir (?as ! ?i x)" using ix(2) [OF that] by (rule vm_pte_upage)
    moreover have "page_ok (kern_end s) (?g x)" using g assms(2) by (simp add: free_pages_def)
    ultimately show ?thesis using uva2ka_user [OF _ _ v(3), of "kern_end s" "?g x" x] e g by simp
  qed
  have inj: "?g x = ?g y \<longleftrightarrow> same_upage x y" if "?a \<le> x" "x < newsz" "?a \<le> y" "y < newsz" for x y
    using pages_below_places [OF a n t(3) len] that by simp
  have out: "vm_pte (kmem_mem t) pgdir x = vm_pte (kmem_mem s) pgdir x" if "x < ?a \<or> ALIGNUP newsz PTE_SZ \<le> x" for x
    using t(6) pages_below_outside [OF a n that] by blast
  show ?thesis
    using al one inj out v(2,3) by (intro exI [of _ t] exI [of _ qs] exI [of _ ?g]) blast
qed

text \<open>An empty page directory at \<open>0x80080000\<close> and two free pages.\<close>

definition vm_boot :: cons_state where
  "vm_boot = (boot_cons (\<lambda>_. []) ())\<lparr>kmem_mem := store32 0x800C0000 0x80100000 (\<lambda>_. 0), freelist := 0x800C0000,
     kern_end := 0x80040000\<rparr>"

lemma vm_boot_page: "page_ok 0x80040000 0x80080000" "page_ok 0x80040000 0x800C0000" "page_ok 0x80040000 0x80100000"
  by (simp_all add: page_ok_def KPAGE_def PGSIZE_def V2P_def KERNBASE_def PHYSTOP_def)

lemma vm_boot_entry: "unat i < 4096 \<Longrightarrow> \<not> has_table (kmem_mem vm_boot) 0x80080000 i"
  using load32_page_store [where v = "0x800C0000" and w = "0x80080000" and i = 0 and j = i] vm_boot_page
  by (simp add: has_table_def pde_of_def vm_boot_def page_ok_def) (simp add: load32_def)

lemma vm_boot_ok:
  "kmem_idle vm_boot" "free_pages vm_boot [0x800C0000, 0x80100000]"
  "vm_ok (kern_end vm_boot) (kmem_mem vm_boot) 0x80080000 [0x800C0000, 0x80100000]"
  "vm_pte (kmem_mem vm_boot) 0x80080000 x = 0" "kern_end vm_boot = 0x80040000"
proof -
  show "kmem_idle vm_boot"
    using quiet_kmem_idle [OF boot_cons_fields(3)] by (simp add: vm_boot_def kmem_idle_def)
  have "load32 (store32 0x800C0000 0x80100000 (\<lambda>_. 0)) 0x80100000 = 0"
    using load32_page_store [where v = "0x800C0000" and w = "0x80100000" and i = 0 and j = 0] vm_boot_page by (simp add: page_ok_def) (simp add: load32_def)
  then show "free_pages vm_boot [0x800C0000, 0x80100000]"
    using vm_boot_page by (simp add: free_pages_def vm_boot_def load32_store32)
  show "kern_end vm_boot = 0x80040000" by (simp add: vm_boot_def)
  then show "vm_ok (kern_end vm_boot) (kmem_mem vm_boot) 0x80080000 [0x800C0000, 0x80100000]"
    using vm_boot_entry vm_boot_page by (simp add: vm_ok_def)
  show "vm_pte (kmem_mem vm_boot) 0x80080000 x = 0" using vm_boot_entry [OF PDE_IDX_less] by (simp add: vm_pte_def)
qed

theorem mappages_uva2ka_witness:
  "\<exists>t. mappages 0x80080000 0x5000 PTE_SZ (V2P 0x80140000) AP_KU vm_boot = Ok 0 t \<and> uva2ka 0x80080000 0x5123 t = Ok 0x80140000 t"
proof -
  have "page_ok (kern_end vm_boot) 0x80140000"
    by (simp add: vm_boot_ok(5) page_ok_def KPAGE_def PGSIZE_def V2P_def KERNBASE_def PHYSTOP_def)
  from mappages_uva2ka [where va = "0x5000" and p = "0x80140000", OF vm_boot_ok(1-3) _ _ _ this] show ?thesis
    using vm_boot_ok(4) by (auto simp: same_upage_def)
qed

theorem allocuvm_maps_witness:
  "\<exists>t p. allocuvm 0x80080000 0x1000 0x1800 vm_boot = Ok 0x1800 t \<and> uva2ka 0x80080000 0x17FF t = Ok p t \<and>
     zero_page (kmem_mem t) p"
proof -
  have a: "ALIGNUP 0x1000 PTE_SZ = 0x1000" by (simp add: ALIGNUP_def PTE_SZ_def)
  have l: "length (pages_below 0x1000 0x1800) = 1" by (simp add: pages_below_def)
  show ?thesis
    using allocuvm_maps [where oldsz = "0x1000" and newsz = "0x1800", OF vm_boot_ok(1-3)] a l vm_boot_ok(4) by (auto simp: UADDR_SZ_def)
qed

end
