(* ===== verification/Xv6_Dir.thy ===== *)
theory Xv6_Dir
  imports Xv6_Readi
begin

text \<open>
  Directories and path names of \<^verbatim>\<open>kernel/fs.c\<close>: \<^verbatim>\<open>dirlookup\<close> and \<^verbatim>\<open>dirlink\<close> over the entries of a directory, \<^verbatim>\<open>skipelem\<close>
  on paths, and the walk of \<^verbatim>\<open>namex\<close>.
\<close>

section \<open>Operations\<close>

text \<open>A byte list as the string a pointer reads: its bytes, followed by zeros.\<close>

definition view_of :: "uchar list \<Rightarrow> view" where
  "view_of d i = (if i < length d then d ! i else 0)"

definition namecmp :: "view \<Rightarrow> view \<Rightarrow> int" where
  "namecmp s t = strncmp s t DIRSIZ"

text \<open>
  The values of \<^verbatim>\<open>off\<close> in the loops over a directory: the multiples of \<^verbatim>\<open>sizeof(de)\<close> below the size, which the
  loops do not change.
\<close>

definition dir_offsets :: "uint \<Rightarrow> uint list" where
  "dir_offsets sz = map (\<lambda>k. of_nat (16 * k)) [0..<(unat sz + 15) div 16]"

text \<open>\<^verbatim>\<open>dirlookup\<close> returns the inode and the offset of the entry, when there is one.\<close>

fun dirlookup_loop :: "nat \<Rightarrow> view \<Rightarrow> uint list \<Rightarrow> 'z fs_state_scheme \<Rightarrow> ((nat \<times> uint) option, 'z fs_state_scheme) outcome" where
  "dirlookup_loop dp name [] s = Ok None s"
| "dirlookup_loop dp name (off # offs) s =
     obind (readi dp off 16 s) (\<lambda>(r, d) s.
     if r \<noteq> 16 then Panic ''dirlink read''
     else let de = dirent_of d
          in if de_inum de = 0 then dirlookup_loop dp name offs s
             else if namecmp name (view_of (de_name de)) = 0
             then obind (iget (i_dev (inodes s ! dp)) (ucast (de_inum de)) s) (\<lambda>ip s. Ok (Some (ip, off)) s)
             else dirlookup_loop dp name offs s)"

definition dirlookup :: "nat \<Rightarrow> view \<Rightarrow> 'z fs_state_scheme \<Rightarrow> ((nat \<times> uint) option, 'z fs_state_scheme) outcome" where
  "dirlookup dp name s =
     (if i_type (inodes s ! dp) \<noteq> T_DIR then Panic ''dirlookup not DIR''
      else dirlookup_loop dp name (dir_offsets (i_size (inodes s ! dp))) s)"

text \<open>The search for an empty entry: the offset where the loop stops.\<close>

fun dirlink_loop :: "nat \<Rightarrow> uint \<Rightarrow> uint list \<Rightarrow> 'z fs_state_scheme \<Rightarrow> (uint, 'z fs_state_scheme) outcome" where
  "dirlink_loop dp end_off [] s = Ok end_off s"
| "dirlink_loop dp end_off (off # offs) s =
     obind (readi dp off 16 s) (\<lambda>(r, d) s.
     if r \<noteq> 16 then Panic ''dirlink read''
     else if de_inum (dirent_of d) = 0 then Ok off s
     else dirlink_loop dp end_off offs s)"

text \<open>\<^verbatim>\<open>strncpy\<close> sets all bytes of \<^verbatim>\<open>de.name\<close>, so what the loop left in \<^verbatim>\<open>de\<close> does not matter.\<close>

definition dirlink :: "nat \<Rightarrow> view \<Rightarrow> uint \<Rightarrow> 'z fs_state_scheme \<Rightarrow> (int, 'z fs_state_scheme) outcome" where
  "dirlink dp name inum s =
     obind (dirlookup dp name s) (\<lambda>r s.
     case r of
       Some (ip, _) \<Rightarrow> obind (iput ip s) (\<lambda>_ s. Ok (-1) s)
     | None \<Rightarrow>
         (let offs = dir_offsets (i_size (inodes s ! dp))
          in obind (dirlink_loop dp (of_nat (16 * length offs)) offs s) (\<lambda>off s.
             let de = \<lparr>de_inum = ucast inum, de_name = strncpy (replicate DIRSIZ 0) name (int DIRSIZ)\<rparr>
             in obind (writei dp (dirent_bytes de) off 16 s) (\<lambda>r s.
                if r \<noteq> 16 then Panic ''dirlink'' else Ok 0 s))))"

text \<open>
  A path is the bytes of the string up to its terminator. \<open>skipelem path name\<close> is the rest of the path and
  the new contents of the buffer \<open>name\<close> of \<^verbatim>\<open>DIRSIZ\<close> bytes; \<open>None\<close> is the null pointer.
\<close>

definition skipelem :: "uchar list \<Rightarrow> uchar list \<Rightarrow> (uchar list \<times> uchar list) option" where
  "skipelem path name =
     (let path = dropWhile (\<lambda>c. c = 0x2F) path
      in if path = [] then None
         else let elem = takeWhile (\<lambda>c. c \<noteq> 0x2F) path;
                  path = dropWhile (\<lambda>c. c \<noteq> 0x2F) path;
                  len = length elem;
                  name = (if len \<ge> DIRSIZ then splice 0 (take DIRSIZ elem) name
                          else (splice 0 elem name)[len := 0])
              in Some (dropWhile (\<lambda>c. c = 0x2F) path, name))"

declare dropWhile_eq_Nil_conv [simp del]

lemma length_dropWhile_less: "xs \<noteq> [] \<Longrightarrow> P (hd xs) \<Longrightarrow> length (dropWhile P xs) < length xs"
  by (cases xs) (auto simp: le_imp_less_Suc length_dropWhile_le)

lemma skipelem_shorter:
  assumes "skipelem path name = Some (path', name')"
  shows "length path' < length path"
proof -
  let ?p = "dropWhile (\<lambda>c. c = 0x2F) path"
  have ne: "?p \<noteq> []" using assms by (auto simp: skipelem_def Let_def split: if_splits)
  then have "hd ?p \<noteq> 0x2F" using hd_dropWhile by blast
  then have "length (dropWhile (\<lambda>c. c \<noteq> 0x2F) ?p) < length ?p" using ne by (intro length_dropWhile_less)
  moreover have "path' = dropWhile (\<lambda>c. c = 0x2F) (dropWhile (\<lambda>c. c \<noteq> 0x2F) ?p)"
    using assms ne by (simp add: skipelem_def Let_def)
  ultimately show ?thesis
    using length_dropWhile_le [of "\<lambda>c. c = 0x2F" path] length_dropWhile_le [of "\<lambda>c. c = 0x2F" "dropWhile (\<lambda>c. c \<noteq> 0x2F) ?p"]
    by simp
qed

text \<open>
  The loop of \<^verbatim>\<open>namex\<close> from inode \<open>ip\<close>: the inode found, and the contents of \<open>name\<close>, which \<^verbatim>\<open>nameiparent\<close> leaves to
  its caller.
\<close>

function namex_loop :: "nat \<Rightarrow> uchar list \<Rightarrow> bool \<Rightarrow> uchar list \<Rightarrow> 'z fs_state_scheme \<Rightarrow>
    (nat option \<times> uchar list, 'z fs_state_scheme) outcome" where
  "namex_loop ip path parent name s =
     (case skipelem path name of
        None \<Rightarrow> if parent then obind (iput ip s) (\<lambda>_ s. Ok (None, name) s) else Ok (Some ip, name) s
      | Some (path, name) \<Rightarrow>
          obind (ilock (Some ip) s) (\<lambda>_ s.
          if i_type (inodes s ! ip) \<noteq> T_DIR then obind (iunlockput ip s) (\<lambda>_ s. Ok (None, name) s)
          else if parent \<and> path = [] then obind (iunlock (Some ip) s) (\<lambda>_ s. Ok (Some ip, name) s)
          else obind (dirlookup ip (view_of name) s) (\<lambda>next s.
               case next of
                 None \<Rightarrow> obind (iunlockput ip s) (\<lambda>_ s. Ok (None, name) s)
               | Some (nip, _) \<Rightarrow> obind (iunlockput ip s) (\<lambda>_ s. namex_loop nip path parent name s))))"
  by pat_completeness auto
termination
  by (relation "measure (\<lambda>(ip, path, parent, name, s). length path)") (auto dest: skipelem_shorter)

declare namex_loop.simps [simp del]

definition namex :: "uchar list \<Rightarrow> bool \<Rightarrow> uchar list \<Rightarrow> 'z fs_state_scheme \<Rightarrow> (nat option \<times> uchar list, 'z fs_state_scheme) outcome" where
  "namex path parent name s =
     obind (if path \<noteq> [] \<and> hd path = 0x2F then iget ROOTDEV ROOTINO s
            else case curproc s of
              None \<Rightarrow> kfault
            | Some q \<Rightarrow> (case p_cwd (ptable s ! q) of None \<Rightarrow> kfault | Some cwd \<Rightarrow> idup cwd s)) (\<lambda>ip s.
     namex_loop ip path parent name s)"

text \<open>The local array of \<^verbatim>\<open>namei\<close> starts with unknown bytes, which nothing reads before they are set.\<close>

definition namei :: "uchar list \<Rightarrow> 'z fs_state_scheme \<Rightarrow> (nat option, 'z fs_state_scheme) outcome" where
  "namei path s = obind (namex path False (replicate DIRSIZ 0) s) (\<lambda>(ip, _) s. Ok ip s)"

definition nameiparent :: "uchar list \<Rightarrow> uchar list \<Rightarrow> 'z fs_state_scheme \<Rightarrow> (nat option \<times> uchar list, 'z fs_state_scheme) outcome" where
  "nameiparent path name s = namex path True name s"

section \<open>Paths\<close>

text \<open>The elements of a path: what stands between slashes, empty ones left out.\<close>

function path_elems :: "uchar list \<Rightarrow> uchar list list" where
  "path_elems p =
     (let p = dropWhile (\<lambda>c. c = 0x2F) p
      in if p = [] then []
         else takeWhile (\<lambda>c. c \<noteq> 0x2F) p # path_elems (dropWhile (\<lambda>c. c \<noteq> 0x2F) p))"
  by pat_completeness auto
termination
proof (relation "measure length", goal_cases)
  case (2 p q)
  have "hd q \<noteq> 0x2F" using 2 hd_dropWhile by blast
  then have "length (dropWhile (\<lambda>c. c \<noteq> 0x2F) q) < length q" using 2 by (intro length_dropWhile_less)
  then show ?case using 2 length_dropWhile_le [of "\<lambda>c. c = 0x2F" p] by simp
qed simp

declare path_elems.simps [simp del]

lemma path_elems_skip: "path_elems (dropWhile (\<lambda>c. c = 0x2F) p) = path_elems p"
  by (simp add: path_elems.simps [of p] path_elems.simps [of "dropWhile (\<lambda>c. c = 0x2F) p"] dropWhile_idem)

lemma cstr_view: "length d = k \<Longrightarrow> cstr k (view_of d) = takeWhile (\<lambda>c. c \<noteq> 0) d"
proof -
  assume "length d = k"
  then have "map (view_of d) [0..<k] = d" by (intro nth_equalityI) (auto simp: view_of_def)
  then show ?thesis by (simp add: cstr_def)
qed

lemma skipelem_name:
  assumes "length name = DIRSIZ" "0 \<notin> set elem"
  defines "name' \<equiv> (if length elem \<ge> DIRSIZ then splice 0 (take DIRSIZ elem) name else (splice 0 elem name)[length elem := 0])"
  shows "length name' = DIRSIZ" "cstr DIRSIZ (view_of name') = take DIRSIZ elem"
proof -
  show len: "length name' = DIRSIZ" using assms by (simp add: name'_def)
  show "cstr DIRSIZ (view_of name') = take DIRSIZ elem"
  proof (cases "length elem \<ge> DIRSIZ")
    case True
    then have n: "name' = take DIRSIZ elem" using assms(1) by (simp add: name'_def splice_def min_def)
    moreover have "takeWhile (\<lambda>c. c \<noteq> 0) (take DIRSIZ elem) = take DIRSIZ elem"
      using assms(2) by (subst takeWhile_eq_all_conv) (auto dest: in_set_takeD)
    ultimately show ?thesis using len by (simp add: cstr_view)
  next
    case False
    then have n: "name' = elem @ 0 # drop (Suc (length elem)) name"
      using assms(1) by (simp add: name'_def splice_def list_update_append Cons_nth_drop_Suc [symmetric])
    have "takeWhile (\<lambda>c. c \<noteq> 0) name' = elem" 
      unfolding n using assms(2) by (subst takeWhile_append2) auto
    then show ?thesis using len False by (simp add: cstr_view)
  qed
qed

text \<open>
  C35. \<^verbatim>\<open>skipelem\<close> takes a path apart: on a path without elements it returns null; otherwise the rest it returns has
  exactly the remaining elements and is shorter, so the walk over a path ends; and \<^verbatim>\<open>name\<close> holds the first
  element cut to \<^verbatim>\<open>DIRSIZ\<close> bytes, terminated when it is shorter, within the \<^verbatim>\<open>DIRSIZ\<close> bytes of the buffer.
\<close>

theorem skipelem_elements:
  assumes "length name = DIRSIZ" "0 \<notin> set path"
  shows "case path_elems path of
      [] \<Rightarrow> skipelem path name = None
    | e # es \<Rightarrow> (\<exists>path' name'. skipelem path name = Some (path', name') \<and> path_elems path' = es \<and>
        length path' < length path \<and> length name' = DIRSIZ \<and> cstr DIRSIZ (view_of name') = take DIRSIZ e \<and> (path' \<noteq> [] \<longleftrightarrow> es \<noteq> []))"
proof -
  let ?p = "dropWhile (\<lambda>c. c = 0x2F) path"
  let ?e = "takeWhile (\<lambda>c. c \<noteq> 0x2F) ?p" and ?r = "dropWhile (\<lambda>c. c \<noteq> 0x2F) ?p"
  show ?thesis
  proof (cases "?p = []")
    case True
    then show ?thesis by (simp add: path_elems.simps [of path] skipelem_def)
  next
    case False
    have pe: "path_elems path = ?e # path_elems ?r" using False by (simp add: path_elems.simps [of path] Let_def)
    have z: "0 \<notin> set ?e" using assms(2) by (auto dest: set_takeWhileD set_dropWhileD)
    let ?n = "if length ?e \<ge> DIRSIZ then splice 0 (take DIRSIZ ?e) name else (splice 0 ?e name)[length ?e := 0]"
    let ?p' = "dropWhile (\<lambda>c. c = 0x2F) ?r"
    have sk: "skipelem path name = Some (?p', ?n)" using False by (simp add: skipelem_def Let_def)
    have "?p' \<noteq> [] \<longleftrightarrow> path_elems ?r \<noteq> []" by (simp add: path_elems.simps [of ?r] Let_def)
    then show ?thesis
      using sk pe skipelem_name [OF assms(1) z] skipelem_shorter [OF sk] path_elems_skip [of ?r] by simp
  qed
qed

text \<open>The path \<open>a//bb\<close>.\<close>

theorem skipelem_elements_witness:
  "path_elems [97, 0x2F, 0x2F, 98, 98] = [[97], [98, 98]] \<and>
   (\<exists>path' name'. skipelem [97, 0x2F, 0x2F, 98, 98] (replicate DIRSIZ 1) = Some (path', name') \<and>
     path_elems path' = [[98, 98]] \<and> cstr DIRSIZ (view_of name') = [97])"
proof -
  have e: "path_elems [97, 0x2F, 0x2F, 98, 98] = [[97], [98, 98]]" by (simp add: path_elems.simps)
  from skipelem_elements [of "replicate DIRSIZ 1" "[97, 0x2F, 0x2F, 98, 98]"] show ?thesis
    by (simp add: e DIRSIZ_def) blast
qed

section \<open>Directory entries\<close>

text \<open>The \<open>k\<close>-th entry of a directory, and the test of the lookup.\<close>

definition dir_entry :: "'z fs_state_scheme \<Rightarrow> nat \<Rightarrow> nat \<Rightarrow> nat \<Rightarrow> dirent" where
  "dir_entry s dp N k = dirent_of (slice (16 * k) 16 (file_blocks s dp N))"

definition entry_named :: "view \<Rightarrow> dirent \<Rightarrow> bool" where
  "entry_named name de \<longleftrightarrow> de_inum de \<noteq> 0 \<and> cstr DIRSIZ name = cstr DIRSIZ (view_of (de_name de))"

text \<open>A directory of \<open>M\<close> entries in \<open>N\<close> blocks.\<close>

definition is_dir :: "'z fs_state_scheme \<Rightarrow> nat \<Rightarrow> nat \<Rightarrow> nat \<Rightarrow> bool" where
  "is_dir s dp N M \<longleftrightarrow> has_file s dp N \<and> i_type (inodes s ! dp) = T_DIR \<and> unat (i_size (inodes s ! dp)) = 16 * M \<and>
     16 * M \<le> 512 * N"

lemma fs_same_dir:
  assumes "fs_same s t"
  shows "is_dir t = is_dir s" "dir_entry t = dir_entry s"
  by (intro ext; simp add: is_dir_def has_file_def dir_entry_def fs_same_file [OF assms])+

lemma dir_bounds:
  assumes "is_dir s dp N M" "k < M"
  shows "unat (of_nat (16 * k) :: uint) = 16 * k" "16 * k + 16 \<le> 512 * N"
proof -
  have "N \<le> 140" using assms(1) by (simp add: is_dir_def has_file_def MAXFILE_def NDIRECT_def NINDIRECT_def)
  then have "16 * k < 2 ^ 32" using assms by (simp add: is_dir_def)
  then show "unat (of_nat (16 * k) :: uint) = 16 * k" by (simp only: unat_of_nat) simp
  show "16 * k + 16 \<le> 512 * N" using assms by (simp add: is_dir_def)
qed

lemma readi_entry:
  fixes s :: "'z fs_state_scheme"
  assumes "fs_ok A X s" "is_dir s dp N M" "k < M"
  shows "\<exists>t. readi dp (of_nat (16 * k)) 16 s = Ok (16, slice (16 * k) 16 (file_blocks s dp N)) t \<and> fs_ok A X t \<and> fs_same s t"
proof -
  note d = assms(2) [unfolded is_dir_def]
  let ?o = "of_nat (16 * k) :: uint"
  have o: "unat ?o = 16 * k" by (rule dir_bounds(1) [OF assms(2,3)])
  have hf: "has_file s dp N" "i_type (inodes s ! dp) \<noteq> T_DEV" "unat (i_size (inodes s ! dp)) \<le> 512 * N"
    using d by (auto simp: T_DIR_def T_DEV_def)
  have "N \<le> 140" using hf by (simp add: has_file_def MAXFILE_def NDIRECT_def NINDIRECT_def)
  then have s16: "unat (?o + 16) = 16 * k + 16"
    using o dir_bounds(2) [OF assms(2,3)] by (subst unat_add_lem [THEN iffD1]) auto
  have c: "\<not> (i_size (inodes s ! dp) < ?o \<or> ?o + 16 < ?o)"
    using d assms(3) unfolding word_less_nat_alt s16 o by simp
  have mn: "min 16 (unat (i_size (inodes s ! dp)) - 16 * k) = 16" using d assms(3) by simp
  show ?thesis using readi_ok [OF assms(1) hf, of ?o 16] unfolding if_not_P [OF c] o by (simp add: mn)
qed

lemma find_upt_Cons: "j < M \<Longrightarrow> find P [j..<M] = (if P j then Some j else find P [Suc j..<M])"
  by (simp add: upt_conv_Cons)

lemma dirlookup_loop_ok:
  fixes s :: "'z fs_state_scheme"
  assumes "fs_ok A X s" "is_dir s dp N M" "j \<le> M"
  shows "\<exists>t. fs_ok A X t \<and> fs_same s t \<and> dirlookup_loop dp name (map (\<lambda>k. of_nat (16 * k)) [j..<M]) s =
    (case find (\<lambda>k. entry_named name (dir_entry s dp N k)) [j..<M] of
       None \<Rightarrow> Ok None t
     | Some k \<Rightarrow> obind (iget 1 (ucast (de_inum (dir_entry s dp N k))) t) (\<lambda>ip u. Ok (Some (ip, of_nat (16 * k))) u))"
  using assms
proof (induction "M - j" arbitrary: j s)
  case 0
  then have "[j..<M] = []" by simp
  then show ?case using 0 by (intro exI [of _ s]) (simp del: upt_eq_Nil_conv)
next
  case (Suc x)
  have jM: "j < M" and x: "x = M - Suc j" "Suc j \<le> M" using Suc(2) by simp_all
  obtain t where t: "readi dp (of_nat (16 * j)) 16 s = Ok (16, slice (16 * j) 16 (file_blocks s dp N)) t" "fs_ok A X t" "fs_same s t"
    using readi_entry [OF Suc.prems(1,2) jM] by blast
  note e = fs_same_dir [OF t(3)]
  have dt: "is_dir t dp N M" using Suc.prems(2) e by simp
  have dev: "i_dev (inodes t ! dp) = 1"
    using Suc.prems(2) fs_same_file(4) [OF t(3)] by (simp add: is_dir_def has_file_def)
  let ?E = "dir_entry s dp N j"
  have nm: "namecmp name (view_of (de_name ?E)) = 0 \<and> de_inum ?E \<noteq> 0 \<longleftrightarrow> entry_named name ?E"
    by (auto simp: namecmp_def strncmp_eq_0 entry_named_def)
  have step: "dirlookup_loop dp name (map (\<lambda>k. of_nat (16 * k)) [j..<M]) s =
    (if entry_named name ?E then obind (iget 1 (ucast (de_inum ?E)) t) (\<lambda>ip u. Ok (Some (ip, of_nat (16 * j))) u)
     else dirlookup_loop dp name (map (\<lambda>k. of_nat (16 * k)) [Suc j..<M]) t)"
    using t(1) dev jM by (auto simp: upt_conv_Cons Let_def nm [symmetric] simp flip: dir_entry_def)
  show ?case
  proof (cases "entry_named name ?E")
    case True
    then show ?thesis using step t jM by (intro exI [of _ t]) (simp add: find_upt_Cons)
  next
    case False
    obtain u where "fs_ok A X u" "fs_same t u" "dirlookup_loop dp name (map (\<lambda>k. of_nat (16 * k)) [Suc j..<M]) t =
      (case find (\<lambda>k. entry_named name (dir_entry s dp N k)) [Suc j..<M] of
         None \<Rightarrow> Ok None u
       | Some k \<Rightarrow> obind (iget 1 (ucast (de_inum (dir_entry s dp N k))) u) (\<lambda>ip v. Ok (Some (ip, of_nat (16 * k))) v))"
      using Suc.hyps(1) [OF x(1) t(2) dt x(2), unfolded e] by blast
    then show ?thesis using step False jM fs_same_trans [OF t(3)] by (intro exI [of _ u]) (simp add: find_upt_Cons)
  qed
qed

lemma dir_offsets_eq: "is_dir s dp N M \<Longrightarrow> dir_offsets (i_size (inodes s ! dp)) = map (\<lambda>k. of_nat (16 * k)) [0..<M]"
  by (simp add: dir_offsets_def is_dir_def)

lemma dirlookup_ok:
  fixes s :: "'z fs_state_scheme"
  assumes "fs_ok A X s" "is_dir s dp N M"
  shows "\<exists>t. fs_ok A X t \<and> fs_same s t \<and> dirlookup dp name s =
    (case find (\<lambda>k. entry_named name (dir_entry s dp N k)) [0..<M] of
       None \<Rightarrow> Ok None t
     | Some k \<Rightarrow> obind (iget 1 (ucast (de_inum (dir_entry s dp N k))) t) (\<lambda>ip u. Ok (Some (ip, of_nat (16 * k))) u))"
proof -
  have "i_type (inodes s ! dp) = T_DIR" using assms(2) by (simp add: is_dir_def)
  then show ?thesis
    using dirlookup_loop_ok [OF assms, of 0 name] by (simp add: dirlookup_def dir_offsets_eq [OF assms(2)])
qed

lemma dirlink_loop_ok:
  fixes s :: "'z fs_state_scheme"
  assumes "fs_ok A X s" "is_dir s dp N M" "j \<le> M"
  shows "\<exists>t. fs_ok A X t \<and> fs_same s t \<and> dirlink_loop dp l (map (\<lambda>k. of_nat (16 * k)) [j..<M]) s =
    Ok (case find (\<lambda>k. de_inum (dir_entry s dp N k) = 0) [j..<M] of None \<Rightarrow> l | Some k \<Rightarrow> of_nat (16 * k)) t"
  using assms
proof (induction "M - j" arbitrary: j s)
  case 0
  then have "[j..<M] = []" by simp
  then show ?case using 0 by (intro exI [of _ s]) (simp del: upt_eq_Nil_conv)
next
  case (Suc x)
  have jM: "j < M" and x: "x = M - Suc j" "Suc j \<le> M" using Suc(2) by simp_all
  obtain t where t: "readi dp (of_nat (16 * j)) 16 s = Ok (16, slice (16 * j) 16 (file_blocks s dp N)) t" "fs_ok A X t" "fs_same s t"
    using readi_entry [OF Suc.prems(1,2) jM] by blast
  note e = fs_same_dir [OF t(3)]
  have dt: "is_dir t dp N M" using Suc.prems(2) e by simp
  have step: "dirlink_loop dp l (map (\<lambda>k. of_nat (16 * k)) [j..<M]) s =
    (if de_inum (dir_entry s dp N j) = 0 then Ok (of_nat (16 * j)) t
     else dirlink_loop dp l (map (\<lambda>k. of_nat (16 * k)) [Suc j..<M]) t)"
    using t(1) jM by (simp add: upt_conv_Cons flip: dir_entry_def)
  show ?case
  proof (cases "de_inum (dir_entry s dp N j) = 0")
    case True
    then show ?thesis using step t jM by (intro exI [of _ t]) (simp add: find_upt_Cons)
  next
    case False
    obtain u where "fs_ok A X u" "fs_same t u" "dirlink_loop dp l (map (\<lambda>k. of_nat (16 * k)) [Suc j..<M]) t =
      Ok (case find (\<lambda>k. de_inum (dir_entry s dp N k) = 0) [Suc j..<M] of None \<Rightarrow> l | Some k \<Rightarrow> of_nat (16 * k)) u"
      using Suc.hyps(1) [OF x(1) t(2) dt x(2), unfolded e] by blast
    then show ?thesis using step False jM fs_same_trans [OF t(3)] by (intro exI [of _ u]) (simp add: find_upt_Cons)
  qed
qed

text \<open>Writing one entry.\<close>

lemma dir_entry_splice:
  assumes "fs_ok A X s" "is_dir s dp N M" "k < M" "j < M" "length (de_name de) = DIRSIZ"
    and "file_blocks t dp N = splice (16 * k) (dirent_bytes de) (file_blocks s dp N)"
  shows "dir_entry t dp N j = (if j = k then de else dir_entry s dp N j)"
proof -
  have len: "length (file_blocks s dp N) = 512 * N"
    using length_file_blocks [OF assms(1)] assms(2) by (simp add: is_dir_def)
  have fk: "16 * k + length (dirent_bytes de) \<le> length (file_blocks s dp N)"
    using dir_bounds(2) [OF assms(2,3)] assms(5) len by simp
  show ?thesis
  proof (cases "j = k")
    case True
    then show ?thesis
      using slice_splice_same [OF fk] dirent_of_bytes [OF assms(5)] assms(5,6) by (simp add: dir_entry_def)
  next
    case False
    then have "16 * j + 16 \<le> 16 * k \<or> 16 * k + 16 \<le> 16 * j" by linarith
    then show ?thesis
      using False slice_splice_disjoint [OF fk, of "16 * j" 16] dir_bounds(2) [OF assms(2,4)] assms(5,6) len
      by (auto simp: dir_entry_def)
  qed
qed

lemma dirlink_ok:
  fixes s :: "'z fs_state_scheme"
  assumes "fs_ok A X s" "is_dir s dp N M" "\<forall>k<M. \<not> entry_named name (dir_entry s dp N k)"
    and "k < M" "de_inum (dir_entry s dp N k) = 0" "\<forall>j<k. de_inum (dir_entry s dp N j) \<noteq> 0"
    and "file_addr s dp ` {..<N} \<subseteq> A"
  shows "\<exists>t. dirlink dp name inum s = Ok 0 t \<and> fs_ok A X t \<and> is_dir t dp N M \<and> inodes t = inodes s \<and>
    (\<forall>j<M. dir_entry t dp N j = (if j = k then \<lparr>de_inum = ucast inum, de_name =
       cstr DIRSIZ name @ replicate (DIRSIZ - length (cstr DIRSIZ name)) 0\<rparr> else dir_entry s dp N j)) \<and>
    (\<forall>a. a \<notin> file_addr s dp ` {..<N} \<longrightarrow> fsb t a = fsb s a)"
proof -
  let ?de = "\<lparr>de_inum = ucast inum, de_name = cstr DIRSIZ name @ replicate (DIRSIZ - length (cstr DIRSIZ name)) 0\<rparr>"
  have f1: "find (\<lambda>k. entry_named name (dir_entry s dp N k)) [0..<M] = None" using assms(3) by (simp add: find_upt_None)
  have f2: "find (\<lambda>k. de_inum (dir_entry s dp N k) = 0) [0..<M] = Some k" using assms(4-6) by (simp add: find_upt_Some)
  obtain t where t: "fs_ok A X t" "fs_same s t" "dirlookup dp name s = Ok None t"
    using dirlookup_ok [OF assms(1,2), of name] f1 by auto
  note e = fs_same_dir [OF t(2)] fs_same_file [OF t(2)]
  have dt: "is_dir t dp N M" using assms(2) e by simp
  obtain u where u: "fs_ok A X u" "fs_same t u"
    "dirlink_loop dp (of_nat (16 * M)) (map (\<lambda>k. of_nat (16 * k)) [0..<M]) t = Ok (of_nat (16 * k)) u"
    using dirlink_loop_ok [OF t(1) dt, of 0] f2 e by auto
  have su: "fs_same s u" using t(2) u(2) by (rule fs_same_trans)
  note eu = fs_same_dir [OF su] fs_same_file [OF su]
  have du: "is_dir u dp N M" using assms(2) eu by simp
  note d = du [unfolded is_dir_def]
  have hf: "has_file u dp N" "i_type (inodes u ! dp) \<noteq> T_DEV" using d by (auto simp: T_DIR_def T_DEV_def)
  have nm: "strncpy (replicate DIRSIZ 0) name (int DIRSIZ) = de_name ?de" by (subst strncpy_eq) simp_all
  have ld: "length (de_name ?de) = DIRSIZ" using length_cstr_le [of DIRSIZ name] by simp
  have o: "unat (of_nat (16 * k) :: uint) = 16 * k" by (rule dir_bounds(1) [OF du assms(4)])
  have fit: "unat (of_nat (16 * k) :: uint) + unat (16 :: uint) \<le> 512 * N"
    using dir_bounds(2) [OF du assms(4)] o by simp
  obtain v Q D where v: "writei_loop dp (dirent_bytes ?de) (of_nat (16 * k)) 16 u = Ok (of_nat (16 * k) + 16) v" "fs_ok A X v"
    "has_file v dp N" "file_blocks v dp N = splice (16 * k) (dirent_bytes ?de) (file_blocks u dp N)" "inodes v = inodes u"
    "fs_chg u Q D v" "\<forall>a. a \<notin> file_addr u dp ` {..<N} \<longrightarrow> D a = fsb u a"
    using writei_loop_ok [OF u(1) hf(1) fit, of "dirent_bytes ?de"] ld assms(7) eu o by auto
  have N: "N \<le> 140" using hf(1) by (simp add: has_file_def MAXFILE_def NDIRECT_def NINDIRECT_def)
  have s16: "unat (of_nat (16 * k) + 16 :: uint) = 16 * k + 16"
    using o fit N by (subst unat_add_lem [THEN iffD1]) auto
  have c: "\<not> i_size (inodes u ! dp) < of_nat (16 * k)" "\<not> of_nat (16 * k) + 16 < (of_nat (16 * k) :: uint)"
    "\<not> of_nat (MAXFILE * BSIZE) < (of_nat (16 * k) + 16 :: uint)" "\<not> i_size (inodes u ! dp) < of_nat (16 * k) + 16"
    using d assms(4) N unfolding word_less_nat_alt s16 o
    by (simp_all add: MAXFILE_def NDIRECT_def NINDIRECT_def BSIZE_def)
  have w: "writei dp (dirent_bytes ?de) (of_nat (16 * k)) 16 u = Ok 16 v"
    using hf(2) c v(1,5) by (simp add: writei_def sint_small)
  have "dirlink dp name inum s = Ok 0 v"
    using t(3) u(3) w by (simp add: dirlink_def dir_offsets_eq [OF dt] nm del: of_nat_mult)
  moreover have "is_dir v dp N M" using d v(3,5) by (simp add: is_dir_def)
  moreover have "\<forall>j<M. dir_entry v dp N j = (if j = k then ?de else dir_entry s dp N j)"
    using dir_entry_splice [OF u(1) du assms(4) _ ld v(4)] eu by simp
  moreover have "fsb v a = fsb s a" if "a \<notin> file_addr s dp ` {..<N}" for a
    using v(7) that eu fs_chgD(3) [OF v(6)] su by (simp add: fs_same_def)
  ultimately show ?thesis using v(2,5) eu by (intro exI [of _ v]) simp
qed

section \<open>Properties\<close>

text \<open>
  \<^verbatim>\<open>dirlookup\<close> on a directory whose blocks are allocated: it returns null exactly when no entry in use has the
  name (compared over \<^verbatim>\<open>DIRSIZ\<close> bytes), and otherwise the first such entry, as the inode that \<^verbatim>\<open>iget\<close> gives for its
  number together with its offset. It changes no block.
\<close>

theorem dirlookup_first_entry:
  fixes s :: "'z fs_state_scheme"
  assumes "fs_ok A X s" "is_dir s dp N M"
  shows "\<exists>t. fs_ok A X t \<and> fs_same s t \<and> dirlookup dp name s =
    (case find (\<lambda>k. entry_named name (dir_entry s dp N k)) [0..<M] of
       None \<Rightarrow> Ok None t
     | Some k \<Rightarrow> obind (iget 1 (ucast (de_inum (dir_entry s dp N k))) t) (\<lambda>ip u. Ok (Some (ip, of_nat (16 * k))) u))"
  using assms by (rule dirlookup_ok)

text \<open>
  C25. A name that \<^verbatim>\<open>dirlink\<close> enters is found by \<^verbatim>\<open>dirlookup\<close>. In a directory without the name and with an empty slot,
  \<^verbatim>\<open>dirlink\<close> returns 0 and fills the first empty slot; a lookup of the name then gives an inode-table entry for the
  number entered, at the offset of the slot; and every other name finds the entry it found before.
\<close>

theorem dirlink_dirlookup:
  fixes s :: "'z fs_state_scheme"
  assumes "fs_ok A X s" "is_dir s dp N M" "\<forall>k<M. \<not> entry_named name (dir_entry s dp N k)"
    and "k < M" "de_inum (dir_entry s dp N k) = 0" "\<forall>j<k. de_inum (dir_entry s dp N j) \<noteq> 0"
    and "file_addr s dp ` {..<N} \<subseteq> A" "unat inum < 2 ^ 16" "inum \<noteq> 0"
    and "icache_ok s" "\<exists>i<NINODE. i_ref (inodes s ! i) = 0"
  shows "\<exists>t u ip. dirlink dp name inum s = Ok 0 t \<and> fs_ok A X t \<and> is_dir t dp N M \<and>
    dirlookup dp name t = Ok (Some (ip, of_nat (16 * k))) u \<and> ip < NINODE \<and> caches 1 inum (inodes u ! ip) \<and>
    (\<forall>other. cstr DIRSIZ other \<noteq> cstr DIRSIZ name \<longrightarrow>
      find (\<lambda>k. entry_named other (dir_entry t dp N k)) [0..<M] = find (\<lambda>k. entry_named other (dir_entry s dp N k)) [0..<M])"
proof -
  let ?de = "\<lparr>de_inum = ucast inum, de_name = cstr DIRSIZ name @ replicate (DIRSIZ - length (cstr DIRSIZ name)) 0\<rparr>"
  obtain t where t: "dirlink dp name inum s = Ok 0 t" "fs_ok A X t" "is_dir t dp N M" "inodes t = inodes s"
    "\<forall>j<M. dir_entry t dp N j = (if j = k then ?de else dir_entry s dp N j)"
    using dirlink_ok [OF assms(1-7), of inum] by blast
  have ui: "ucast (ucast inum :: ushort) = inum"
    using assms(8) by (simp add: word_unat_eq_iff unsigned_ucast_eq unsigned_take_bit_eq take_bit_nat_eq_self)
  then have nz: "(ucast inum :: ushort) \<noteq> 0" using assms(9) by auto
  have "takeWhile (\<lambda>c. c \<noteq> 0) (de_name ?de) = cstr DIRSIZ name"
    using cstr_nonzero [of DIRSIZ name] by (cases "length (cstr DIRSIZ name) = DIRSIZ")
      (auto simp: takeWhile_append takeWhile_replicate intro!: takeWhile_eq_all_conv [THEN iffD2])
  moreover have "length (de_name ?de) = DIRSIZ" using length_cstr_le [of DIRSIZ name] by simp
  ultimately have cn: "cstr DIRSIZ (view_of (de_name ?de)) = cstr DIRSIZ name" by (simp only: cstr_view)
  have "find (\<lambda>k. entry_named name (dir_entry t dp N k)) [0..<M] = Some k"
    using assms(3,4) t(5) nz cn by (auto simp: find_upt_Some entry_named_def)
  then obtain v where v: "fs_ok A X v" "fs_same t v" "dirlookup dp name t =
      obind (iget 1 inum v) (\<lambda>ip u. Ok (Some (ip, of_nat (16 * k))) u)"
    using dirlookup_ok [OF t(2,3), of name] t(5) assms(4) ui by auto
  have iv: "inodes v = inodes s" using inodes_chg(2) [OF v(2)] t(4) by simp
  then have "icache_ok v" using assms(10) by (simp add: icache_ok_def)
  moreover have cond: "(\<exists>i<NINODE. caches 1 inum (inodes v ! i)) \<or> (\<exists>i<NINODE. i_ref (inodes v ! i) = 0)"
    using assms(11) iv by simp
  ultimately obtain i p where i: "iget 1 inum v = Ok i (v\<lparr>inodes := (inodes v)[i := p]\<rparr>)" "i < NINODE" "caches 1 inum p"
    using iget_ok [OF fs_ok_quiet [OF v(1)], of 1 inum] unfolding if_P [OF cond] by blast
  have "length (inodes v) = NINODE" using assms(10) iv by (simp add: icache_ok_def)
  then have "caches 1 inum ((inodes v)[i := p] ! i)" using i by simp
  moreover have "find (\<lambda>k. entry_named other (dir_entry t dp N k)) [0..<M] = find (\<lambda>k. entry_named other (dir_entry s dp N k)) [0..<M]"
    if "cstr DIRSIZ other \<noteq> cstr DIRSIZ name" for other
    using that t(5) cn assms(5) by (intro find_cong) (auto simp: entry_named_def)
  ultimately show ?thesis
    using t v(3) i by (intro exI [of _ t] exI [of _ "v\<lparr>inodes := (inodes v)[i := p]\<rparr>"] exI [of _ i]) simp
qed

text \<open>The root directory of the small disk, locked in entry 0. Its slot 2 is \<open>init\<close>, and slot 3 is empty.\<close>

definition root_inode :: inode where
  "root_inode = load_inode root_dinode (zero_inode\<lparr>i_dev := 1, i_inum := 1, i_ref := 1, i_busy := True, i_valid := True\<rparr>)"

lemma root_dir:
  defines "s \<equiv> txn_fs (table_with root_inode)"
  shows "is_dir s 0 1 4" "file_blocks s 0 1 = fs_image 29" "file_addr s 0 ` {..<1} = {29}" "icache_ok s"
    "\<exists>i<NINODE. i_ref (inodes s ! i) = 0"
proof -
  have i: "inodes s ! 0 = root_inode" by (simp add: s_def txn_fs_fields table_with_def)
  have f: "i_dev root_inode = 1" "i_addrs root_inode = 29 # replicate 12 0" "i_type root_inode = T_DIR" "i_size root_inode = 64"
    "i_ref root_inode = 1"
    by (simp_all add: root_inode_def load_inode_def root_dinode_def)
  have fa: "file_addr s 0 0 = 29" by (simp add: file_addr_def i f NDIRECT_def)
  have "has_block s 0 0"
    using fs_block_txn_fs [of "table_with root_inode" 29]
    by (simp add: has_block_def fa MAXFILE_def NDIRECT_def) (simp add: s_def txn_fs_fields)
  moreover have "inj_on (file_addr s 0) {..<1}" by (simp add: inj_on_def)
  ultimately have "has_file s 0 1" by (simp add: has_file_def i f MAXFILE_def NDIRECT_def)
  then show "is_dir s 0 1 4" by (simp add: is_dir_def i f)
  have "fsb s 29 = fs_image 29" by (simp add: s_def fsb_txn_fs)
  then show "file_blocks s 0 1 = fs_image 29" by (simp add: file_blocks_def fa)
  show "file_addr s 0 ` {..<1} = {29}" using fa by (auto simp: lessThan_Suc)
  have n: "i_ref (inodes s ! j) = (if j = 0 then 1 else 0)" if "j < NINODE" for j
    using that by (cases j) (simp_all add: s_def txn_fs_fields table_with_def NINODE_def f zero_inode_def)
  moreover have "length (inodes s) = NINODE" by (simp add: s_def txn_fs_fields table_with_def NINODE_def)
  ultimately show "icache_ok s" by (simp add: icache_ok_def split: if_splits)
  show "\<exists>i<NINODE. i_ref (inodes s ! i) = 0" using n [of 1] by (intro exI [of _ 1]) (simp add: NINODE_def)
qed

text \<open>The name \<open>init\<close>, and the entries of the directory block.\<close>

definition name_init :: view where
  "name_init = view_of [105, 110, 105, 116]"

lemma root_image:
  "slice 0 16 (fs_image 29) = [1, 0, 46] @ replicate 13 0"
  "slice 16 16 (fs_image 29) = [1, 0, 46, 46] @ replicate 12 0"
  "slice 32 16 (fs_image 29) = [2, 0, 105, 110, 105, 116] @ replicate 10 0" "slice 48 16 (fs_image 29) = replicate 16 0"
  by (simp_all add: fs_image_def slice_def)

lemma root_entry:
  "entry_named name_init (dirent_of ([1, 0, 46] @ replicate 13 0)) = False" "de_inum (dirent_of ([1, 0, 46] @ replicate 13 0)) = 1"
  "entry_named name_init (dirent_of ([1, 0, 46, 46] @ replicate 12 0)) = False" "de_inum (dirent_of ([1, 0, 46, 46] @ replicate 12 0)) = 1"
  "entry_named name_init (dirent_of ([2, 0, 105, 110, 105, 116] @ replicate 10 0)) = True"
  "de_inum (dirent_of ([2, 0, 105, 110, 105, 116] @ replicate 10 0)) = 2"
  "entry_named name_init (dirent_of (replicate 16 0)) = False" "de_inum (dirent_of (replicate 16 0)) = 0"
  by code_simp+

lemma less_4_cases: "k < 4 \<Longrightarrow> k = 0 \<or> k = 1 \<or> k = 2 \<or> k = (3 :: nat)"
  by linarith

lemma root_entries:
  assumes "k < 4"
  shows "entry_named name_init (dirent_of (slice (16 * k) 16 (fs_image 29))) \<longleftrightarrow> k = 2"
    "de_inum (dirent_of (slice (16 * k) 16 (fs_image 29))) = (if k = 2 then 2 else if k < 2 then 1 else 0)"
  using less_4_cases [OF assms] root_image root_entry by (elim disjE; simp del: append.simps)+

theorem dirlookup_first_entry_witness:
  "\<exists>t. fs_same (txn_fs (table_with root_inode)) t \<and> dirlookup 0 name_init (txn_fs (table_with root_inode)) =
     obind (iget 1 2 t) (\<lambda>ip u. Ok (Some (ip, 32)) u)"
proof -
  have ok: "fs_ok {} {} (txn_fs (table_with root_inode))" by (rule txn_fs_ok) simp_all
  have "find (\<lambda>k. entry_named name_init (dir_entry (txn_fs (table_with root_inode)) 0 1 k)) [0..<4] = Some 2"
    by (auto simp: find_upt_Some dir_entry_def root_dir(2) root_entries(1) root_entries(1) [of 2, simplified] simp del: One_nat_def)
  moreover have "de_inum (dir_entry (txn_fs (table_with root_inode)) 0 1 2) = 2"
    by (simp add: dir_entry_def root_dir(2) root_entries(2) [of 2, simplified] del: One_nat_def)
  ultimately show ?thesis
    using dirlookup_first_entry [OF ok root_dir(1), of name_init] by (auto simp del: One_nat_def)
qed

theorem dirlink_dirlookup_witness:
  "\<exists>t u ip. dirlink 0 (view_of [120]) 9 (txn_fs (table_with root_inode)) = Ok 0 t \<and>
     dirlookup 0 (view_of [120]) t = Ok (Some (ip, 48)) u \<and> caches 1 9 (inodes u ! ip)"
proof -
  let ?s = "txn_fs (table_with root_inode)"
  have ok: "fs_ok {29} {} ?s" by (rule txn_fs_ok) simp_all
  have "list_all (\<lambda>k. \<not> entry_named (view_of [120]) (dirent_of (slice (16 * k) 16 (fs_image 29)))) [0..<4]" by code_simp
  then have no: "\<forall>k<4. \<not> entry_named (view_of [120]) (dir_entry ?s 0 1 k)"
    by (auto simp: dir_entry_def root_dir(2) list_all_iff simp del: One_nat_def)
  have e: "de_inum (dir_entry ?s 0 1 k) = (if k = 2 then 2 else if k < 2 then 1 else 0)" if "k < 4" for k
    using root_entries(2) [OF that] by (simp add: dir_entry_def root_dir(2) del: One_nat_def)
  have "de_inum (dir_entry ?s 0 1 3) = 0" "\<forall>j<3. de_inum (dir_entry ?s 0 1 j) \<noteq> 0" using e by auto
  from dirlink_dirlookup [OF ok root_dir(1) no _ this, of 9] show ?thesis
    using root_dir(3-5) by (auto simp: word_unat_eq_iff simp del: One_nat_def)
qed

end
