(* ===== verification/Xv6_File.thy ===== *)
theory Xv6_File
  imports Xv6_Dir
begin

text \<open>
  \<^verbatim>\<open>kernel/file.c\<close> and \<^verbatim>\<open>pipealloc\<close> of \<^verbatim>\<open>kernel/pipe.c\<close>: the table of open files with reference counts, and reading and
  writing through a file, which is a pipe end or an inode with an offset.
\<close>

section \<open>State\<close>

datatype ftype = FD_NONE | FD_PIPE | FD_INODE

text \<open>\<^verbatim>\<open>struct file\<close>. A file pointer is an index of the table; \<^verbatim>\<open>pipe\<close> is the address of the pipe.\<close>

record file_t =
  f_type :: ftype
  f_ref :: int
  f_readable :: bool
  f_writable :: bool
  f_pipe :: uint
  f_ip :: "nat option"
  f_off :: uint

record file_state = fs_state +
  ftable :: "file_t list"

definition upd_file :: "nat \<Rightarrow> (file_t \<Rightarrow> file_t) \<Rightarrow> 'z file_state_scheme \<Rightarrow> 'z file_state_scheme" where
  "upd_file i f s = s\<lparr>ftable := (ftable s)[i := f (ftable s ! i)]\<rparr>"

section \<open>Operations\<close>

definition fileinit :: "'z file_state_scheme \<Rightarrow> 'z file_state_scheme" where
  "fileinit s = initlock FtableLock s"

fun filealloc_scan :: "nat \<Rightarrow> file_t list \<Rightarrow> nat option" where
  "filealloc_scan i [] = None"
| "filealloc_scan i (f # fs) = (if f_ref f = 0 then Some i else filealloc_scan (Suc i) fs)"

definition filealloc :: "'z file_state_scheme \<Rightarrow> (nat option, 'z file_state_scheme) outcome" where
  "filealloc s =
     obind (acquire FtableLock s) (\<lambda>_ s.
     case filealloc_scan 0 (ftable s) of
       Some f \<Rightarrow> obind (release FtableLock (upd_file f (\<lambda>p. p\<lparr>f_ref := 1\<rparr>) s)) (\<lambda>_ s. Ok (Some f) s)
     | None \<Rightarrow> obind (release FtableLock s) (\<lambda>_ s. Ok None s))"

definition filedup :: "nat \<Rightarrow> 'z file_state_scheme \<Rightarrow> (nat, 'z file_state_scheme) outcome" where
  "filedup f s =
     obind (acquire FtableLock s) (\<lambda>_ s.
     if f_ref (ftable s ! f) < 1 then Panic ''filedup''
     else obind (release FtableLock (upd_file f (\<lambda>p. p\<lparr>f_ref := f_ref p + 1\<rparr>) s)) (\<lambda>_ s. Ok f s))"

text \<open>What \<^verbatim>\<open>fileclose\<close> does with the copy \<^verbatim>\<open>ff\<close> of the last reference.\<close>

definition fileclose_last :: "file_t \<Rightarrow> 'z file_state_scheme \<Rightarrow> (unit, 'z file_state_scheme) outcome" where
  "fileclose_last ff s =
     (case f_type ff of
        FD_PIPE \<Rightarrow> pipeclose (f_pipe ff) (f_writable ff) s
      | FD_INODE \<Rightarrow>
          obind (begin_trans s) (\<lambda>_ s.
          obind (case f_ip ff of None \<Rightarrow> ub | Some ip \<Rightarrow> iput ip s) (\<lambda>_ s. commit_trans s))
      | FD_NONE \<Rightarrow> Ok () s)"

definition fileclose :: "nat \<Rightarrow> 'z file_state_scheme \<Rightarrow> (unit, 'z file_state_scheme) outcome" where
  "fileclose f s =
     obind (acquire FtableLock s) (\<lambda>_ s.
     if f_ref (ftable s ! f) < 1 then Panic ''fileclose''
     else let s = upd_file f (\<lambda>p. p\<lparr>f_ref := f_ref p - 1\<rparr>) s
          in if f_ref (ftable s ! f) > 0 then release FtableLock s
             else let ff = ftable s ! f; s = upd_file f (\<lambda>p. p\<lparr>f_ref := 0, f_type := FD_NONE\<rparr>) s
                  in obind (release FtableLock s) (\<lambda>_ s. fileclose_last ff s))"

text \<open>\<^verbatim>\<open>filestat\<close> returns the code and the structure it stores at \<^verbatim>\<open>st\<close>.\<close>

definition filestat :: "nat \<Rightarrow> 'z file_state_scheme \<Rightarrow> (int \<times> stat option, 'z file_state_scheme) outcome" where
  "filestat f s =
     (case f_type (ftable s ! f) of
        FD_INODE \<Rightarrow>
          (case f_ip (ftable s ! f) of
             None \<Rightarrow> obind (ilock None s) (\<lambda>_ s. ub)
           | Some ip \<Rightarrow>
               obind (ilock (Some ip) s) (\<lambda>_ s.
               let st = stati ip s
               in obind (iunlock (Some ip) s) (\<lambda>_ s. Ok (0, Some st) s)))
      | _ \<Rightarrow> Ok (-1, None) s)"

text \<open>\<^verbatim>\<open>fileread\<close> returns the count and the bytes stored at \<^verbatim>\<open>addr\<close>.\<close>

definition fileread :: "nat \<Rightarrow> int \<Rightarrow> 'z file_state_scheme \<Rightarrow> (int \<times> uchar list, 'z file_state_scheme) outcome" where
  "fileread f n s =
     (let ff = ftable s ! f
      in if \<not> f_readable ff then Ok (-1, []) s
         else case f_type ff of
           FD_PIPE \<Rightarrow> piperead (f_pipe ff) n s
         | FD_INODE \<Rightarrow>
             (case f_ip ff of
                None \<Rightarrow> obind (ilock None s) (\<lambda>_ s. ub)
              | Some ip \<Rightarrow>
                  obind (ilock (Some ip) s) (\<lambda>_ s.
                  obind (readi ip (f_off (ftable s ! f)) (word_of_int n) s) (\<lambda>(r, bs) s.
                  let s = (if r > 0 then upd_file f (\<lambda>p. p\<lparr>f_off := f_off p + word_of_int r\<rparr>) s else s)
                  in obind (iunlock (Some ip) s) (\<lambda>_ s. Ok (r, bs) s))))
         | FD_NONE \<Rightarrow> Panic ''fileread'')"

definition write_max :: int where
  "write_max = ((int LOGSIZE - 1 - 1 - 2) div 2) * 512"

text \<open>
  The loop of \<^verbatim>\<open>filewrite\<close>, at position \<^verbatim>\<open>i\<close>: each chunk is a transaction of its own. The bytes at \<^verbatim>\<open>addr\<close> are a list. The
  value is the \<^verbatim>\<open>i\<close> at which the loop ends.
\<close>

function filewrite_loop :: "nat \<Rightarrow> nat \<Rightarrow> uchar list \<Rightarrow> int \<Rightarrow> int \<Rightarrow> 'z file_state_scheme \<Rightarrow> (int, 'z file_state_scheme) outcome" where
  "filewrite_loop f ip bs n i s =
     (if \<not> i < n then Ok i s
      else let n1 = (if n - i > write_max then write_max else n - i)
           in obind (begin_trans s) (\<lambda>_ s.
              obind (ilock (Some ip) s) (\<lambda>_ s.
              obind (writei ip (drop (nat i) bs) (f_off (ftable s ! f)) (word_of_int n1) s) (\<lambda>r s.
              let s = (if r > 0 then upd_file f (\<lambda>p. p\<lparr>f_off := f_off p + word_of_int r\<rparr>) s else s)
              in obind (iunlock (Some ip) s) (\<lambda>_ s.
                 obind (commit_trans s) (\<lambda>_ s.
                 if r < 0 then Ok i s
                 else if r \<noteq> n1 then Panic ''short filewrite''
                 else filewrite_loop f ip bs n (i + r) s))))))"
  by pat_completeness auto
termination
  by (relation "measure (\<lambda>(f, ip, bs, n, i, s). nat (n - i))") (auto simp: write_max_def LOGSIZE_def)

definition filewrite :: "nat \<Rightarrow> uchar list \<Rightarrow> int \<Rightarrow> 'z file_state_scheme \<Rightarrow> (int, 'z file_state_scheme) outcome" where
  "filewrite f bs n s =
     (let ff = ftable s ! f
      in if \<not> f_writable ff then Ok (-1) s
         else case f_type ff of
           FD_PIPE \<Rightarrow> pipewrite (f_pipe ff) (view_of bs) n s
         | FD_INODE \<Rightarrow>
             (case f_ip ff of
                None \<Rightarrow> if 0 < n then obind (begin_trans s) (\<lambda>_ s. obind (ilock None s) (\<lambda>_ s. ub)) else Ok (if n = 0 then n else -1) s
              | Some ip \<Rightarrow> obind (filewrite_loop f ip bs n 0 s) (\<lambda>i s. Ok (if i = n then n else -1) s))
         | FD_NONE \<Rightarrow> Panic ''filewrite'')"

text \<open>
  \<^verbatim>\<open>pipealloc\<close> returns the code and the two files. The pipe's data are whatever the page held: \<open>pdata\<close> starts as the
  bytes of the page after the 140 bytes of the lock.
\<close>

definition pipealloc_bad :: "uint \<Rightarrow> nat option \<Rightarrow> nat option \<Rightarrow> 'z file_state_scheme \<Rightarrow> (int \<times> nat option \<times> nat option, 'z file_state_scheme) outcome" where
  "pipealloc_bad p f0 f1 s =
     obind (if p \<noteq> 0 then kfree p s else Ok () s) (\<lambda>_ s.
     obind (case f0 of Some f \<Rightarrow> fileclose f s | None \<Rightarrow> Ok () s) (\<lambda>_ s.
     obind (case f1 of Some f \<Rightarrow> fileclose f s | None \<Rightarrow> Ok () s) (\<lambda>_ s. Ok (-1, f0, f1) s)))"

definition pipealloc :: "'z file_state_scheme \<Rightarrow> (int \<times> nat option \<times> nat option, 'z file_state_scheme) outcome" where
  "pipealloc s =
     obind (filealloc s) (\<lambda>r0 s.
     case r0 of
       None \<Rightarrow> pipealloc_bad 0 None None s
     | Some f0 \<Rightarrow>
         obind (filealloc s) (\<lambda>r1 s.
         case r1 of
           None \<Rightarrow> pipealloc_bad 0 (Some f0) None s
         | Some f1 \<Rightarrow>
             obind (kalloc s) (\<lambda>p s.
             if p = 0 then pipealloc_bad 0 (Some f0) (Some f1) s
             else let s = set_pipe p \<lparr>pdata = map (\<lambda>i. kmem_mem s (p + of_nat (140 + i))) [0..<512], nread = 0, nwrite = 0,
                            readopen = True, writeopen = True\<rparr> s;
                      s = initlock (PipeLock (unat p)) s;
                      s = upd_file f0 (\<lambda>q. q\<lparr>f_type := FD_PIPE, f_readable := True, f_writable := False, f_pipe := p\<rparr>) s;
                      s = upd_file f1 (\<lambda>q. q\<lparr>f_type := FD_PIPE, f_readable := False, f_writable := True, f_pipe := p\<rparr>) s
                  in Ok (0, Some f0, Some f1) s)))"

section \<open>Reference counts\<close>

lemma upd_file_quiet [simp]: "quiet (upd_file f g s) = quiet s"
  by (simp add: upd_file_def quiet_def)

lemma upd_file_locked:
  "upd_file f g (s\<lparr>ncli := n, locks := l\<rparr>) = (upd_file f g s)\<lparr>ncli := n, locks := l\<rparr>"
  "ftable (upd_file f g s) = (ftable s)[f := g (ftable s ! f)]" "locks (upd_file f g s) = locks s"
  by (simp_all add: upd_file_def)

lemma release_acquired:
  assumes "quiet s"
  shows "release l (s\<lparr>ncli := 1, locks := (locks s)(l := lk_held)\<rparr>) = Ok () s"
  using assms release_exec [of "s\<lparr>ncli := 1, locks := (locks s)(l := lk_held)\<rparr>" l] by (simp add: kexec)

lemma filedup_ok:
  assumes "quiet s" "1 \<le> f_ref (ftable s ! f)"
  shows "filedup f s = Ok f (upd_file f (\<lambda>p. p\<lparr>f_ref := f_ref p + 1\<rparr>) s)"
proof -
  have "acquire FtableLock s = Ok () (s\<lparr>ncli := 1, locks := (locks s)(FtableLock := lk_held)\<rparr>)" using assms(1) by (simp add: kexec)
  then show ?thesis
    using assms release_acquired [of "upd_file f (\<lambda>p. p\<lparr>f_ref := f_ref p + 1\<rparr>) s" FtableLock] by (simp add: filedup_def upd_file_locked)
qed

lemma fileclose_shared:
  assumes "quiet s" "1 < f_ref (ftable s ! f)" "f < length (ftable s)"
  shows "fileclose f s = Ok () (upd_file f (\<lambda>p. p\<lparr>f_ref := f_ref p - 1\<rparr>) s)"
proof -
  have "acquire FtableLock s = Ok () (s\<lparr>ncli := 1, locks := (locks s)(FtableLock := lk_held)\<rparr>)" using assms(1) by (simp add: kexec)
  then show ?thesis
    using assms release_acquired [of "upd_file f (\<lambda>p. p\<lparr>f_ref := f_ref p - 1\<rparr>) s" FtableLock]
    by (simp add: fileclose_def upd_file_locked Let_def)
qed

end
