(* ===== verification/Xv6_Proc.thy ===== *)
theory Xv6_Proc
  imports Xv6_Vm Xv6_File
begin

text \<open>
  The process life cycle of \<^verbatim>\<open>kernel/proc.c\<close>: creation of the first process and of children, growth, exit and wait. The
  trap frame and the saved context, which the code keeps at the top of the kernel stack page, are fields of
  the process record.
\<close>

section \<open>Creation\<close>

definition pinit :: "'z sched_state_scheme \<Rightarrow> 'z sched_state_scheme" where
  "pinit s = initlock PtableLock s"

fun find_unused :: "nat \<Rightarrow> proc list \<Rightarrow> nat option" where
  "find_unused i [] = None"
| "find_unused i (p # ps) = (if p_state p = UNUSED then Some i else find_unused (Suc i) ps)"

definition allocproc :: "'z kmem_state_scheme \<Rightarrow> (nat option, 'z kmem_state_scheme) outcome" where
  "allocproc s =
     obind (acquire PtableLock s) (\<lambda>_ s.
     case find_unused 0 (ptable s) of
       None \<Rightarrow> obind (release PtableLock s) (\<lambda>_ s. Ok None s)
     | Some i \<Rightarrow>
         (let s = upd_proc i (\<lambda>p. p\<lparr>p_state := EMBRYO, p_pid := nextpid s\<rparr>) s;
              s = s\<lparr>nextpid := nextpid s + 1\<rparr>
          in obind (release PtableLock s) (\<lambda>_ s.
             obind (kalloc s) (\<lambda>k s.
             let s = upd_proc i (\<lambda>p. p\<lparr>p_kstack := k\<rparr>) s
             in if k = 0 then Ok None (upd_proc i (\<lambda>p. p\<lparr>p_state := UNUSED\<rparr>) s)
                else Ok (Some i) (upd_proc i (\<lambda>p. p\<lparr>p_context := AtForkret\<rparr>) s)))))"

text \<open>\<^verbatim>\<open>spsr_usr\<close> on the value of the status register: interrupts on, user mode.\<close>

definition spsr_usr :: "uint \<Rightarrow> uint" where
  "spsr_usr cpsr = (cpsr AND NOT 0x80 AND NOT 0x1F) OR 0x10"

text \<open>
  \<^verbatim>\<open>userinit\<close>, with the bytes of \<^verbatim>\<open>initcode\<close>, the address of \<^verbatim>\<open>error_init\<close> and the status register of the CPU as parameters. It uses the result of \<^verbatim>\<open>allocproc\<close> without a test.
\<close>

definition userinit :: "uchar list \<Rightarrow> uint \<Rightarrow> uint \<Rightarrow> 'z file_state_scheme \<Rightarrow> (unit, 'z file_state_scheme) outcome" where
  "userinit initcode error_init cpsr s =
     obind (allocproc s) (\<lambda>po s.
     case po of
       None \<Rightarrow> ub
     | Some p \<Rightarrow>
         obind (setupvm (s\<lparr>initproc := Some p\<rparr>)) (\<lambda>d s.
         let s = upd_proc p (\<lambda>q. q\<lparr>p_pgdir := d\<rparr>) s
         in if d = 0 then Panic ''userinit: out of memory?''
            else obind (inituvm d initcode s) (\<lambda>_ s.
                 let s = upd_proc p (\<lambda>q. q\<lparr>p_sz := PTE_SZ,
                           p_tf := zero_tf\<lparr>tf_r14_svc := error_init, tf_spsr := spsr_usr cpsr, tf_sp_usr := PTE_SZ, tf_lr_usr := 0, tf_pc := 0\<rparr>,
                           p_name := safestrcpy (p_name q) (view_of (lit ''initcode'')) 16\<rparr>) s
                 in obind (namei [0x2F] s) (\<lambda>ip s.
                    let s = upd_proc p (\<lambda>q. q\<lparr>p_cwd := ip\<rparr>) s
                    in obind (acquire PtableLock s) (\<lambda>_ s.
                       release PtableLock (upd_proc p (\<lambda>q. q\<lparr>p_state := RUNNABLE\<rparr>) s))))))"

definition growproc :: "int \<Rightarrow> 'z cons_state_scheme \<Rightarrow> (int, 'z cons_state_scheme) outcome" where
  "growproc n s =
     (case curproc s of
        None \<Rightarrow> kfault
      | Some p \<Rightarrow>
          let sz = p_sz (ptable s ! p); pgdir = p_pgdir (ptable s ! p);
              finish = (\<lambda>sz s. let s = upd_proc p (\<lambda>q. q\<lparr>p_sz := sz\<rparr>) s
                               in obind (switchuvm (Some (ptable s ! p)) s) (\<lambda>_ s. Ok 0 s))
          in if n > 0 then obind (allocuvm pgdir sz (sz + word_of_int n) s) (\<lambda>sz s. if sz = 0 then Ok (-1) s else finish sz s)
             else if n < 0 then obind (deallocuvm pgdir sz (sz + word_of_int n) s) (\<lambda>sz s. if sz = 0 then Ok (-1) s else finish sz s)
             else finish sz s)"

text \<open>The copying of the descriptors in \<^verbatim>\<open>fork\<close>, over the slots still to do.\<close>

fun fork_files :: "nat \<Rightarrow> nat \<Rightarrow> nat list \<Rightarrow> 'z file_state_scheme \<Rightarrow> (unit, 'z file_state_scheme) outcome" where
  "fork_files cp np [] s = Ok () s"
| "fork_files cp np (i # is) s =
     (case p_ofile (ptable s ! cp) ! i of
        None \<Rightarrow> fork_files cp np is s
      | Some f \<Rightarrow> obind (filedup f s) (\<lambda>f s.
                  fork_files cp np is (upd_proc np (\<lambda>q. q\<lparr>p_ofile := (p_ofile q)[i := Some f]\<rparr>) s)))"

definition fork :: "'z file_state_scheme \<Rightarrow> (int, 'z file_state_scheme) outcome" where
  "fork s =
     (case curproc s of
        None \<Rightarrow> kfault
      | Some cp \<Rightarrow>
          obind (allocproc s) (\<lambda>npo s.
          case npo of
            None \<Rightarrow> Ok (-1) s
          | Some np \<Rightarrow>
              (let pd = p_pid (ptable s ! np)
               in obind (copyuvm (p_pgdir (ptable s ! cp)) (p_sz (ptable s ! cp)) s) (\<lambda>d s.
                  let s = upd_proc np (\<lambda>q. q\<lparr>p_pgdir := d\<rparr>) s
                  in if d = 0
                     then obind (kfree (p_kstack (ptable s ! np)) s) (\<lambda>_ s.
                          Ok (-1) (upd_proc np (\<lambda>q. q\<lparr>p_kstack := 0, p_state := UNUSED\<rparr>) s))
                     else let c = ptable s ! cp;
                              s = upd_proc np (\<lambda>q. q\<lparr>p_sz := p_sz c, p_parent := Some cp, p_tf := (p_tf c)\<lparr>tf_r0 := 0\<rparr>\<rparr>) s
                          in obind (fork_files cp np [0..<NOFILE] s) (\<lambda>_ s.
                             case p_cwd (ptable s ! cp) of
                               None \<Rightarrow> ub
                             | Some cwd \<Rightarrow>
                                 obind (idup cwd s) (\<lambda>cwd s.
                                 let s = upd_proc np (\<lambda>q. q\<lparr>p_cwd := Some cwd,
                                           p_name := safestrcpy (p_name q) (view_of (p_name (ptable s ! cp))) 16\<rparr>) s
                                 in obind (acquire PtableLock s) (\<lambda>_ s.
                                    obind (release PtableLock (upd_proc np (\<lambda>q. q\<lparr>p_state := RUNNABLE\<rparr>) s)) (\<lambda>_ s.
                                    Ok pd s))))))))"

section \<open>Exit and wait\<close>

fun exit_files :: "nat \<Rightarrow> nat list \<Rightarrow> 'z file_state_scheme \<Rightarrow> (unit, 'z file_state_scheme) outcome" where
  "exit_files cp [] s = Ok () s"
| "exit_files cp (fd # fds) s =
     (case p_ofile (ptable s ! cp) ! fd of
        None \<Rightarrow> exit_files cp fds s
      | Some f \<Rightarrow> obind (fileclose f s) (\<lambda>_ s.
                  exit_files cp fds (upd_proc cp (\<lambda>q. q\<lparr>p_ofile := (p_ofile q)[fd := None]\<rparr>) s)))"

text \<open>\<^verbatim>\<open>wakeup1\<close> with the address of a process, which may be null; nobody sleeps on null.\<close>

definition wakeup_proc :: "nat option \<Rightarrow> 'z sched_state_scheme \<Rightarrow> 'z sched_state_scheme" where
  "wakeup_proc po s = (case po of None \<Rightarrow> s | Some p \<Rightarrow> wakeup1 (ChanProc p) s)"

text \<open>The loop of \<^verbatim>\<open>exit\<close> that passes the children to \<^verbatim>\<open>init\<close>, over the slots still to visit.\<close>

fun exit_children :: "nat \<Rightarrow> nat list \<Rightarrow> 'z sched_state_scheme \<Rightarrow> 'z sched_state_scheme" where
  "exit_children cp [] s = s"
| "exit_children cp (i # is) s =
     (if p_parent (ptable s ! i) = Some cp
      then let s = upd_proc i (\<lambda>q. q\<lparr>p_parent := initproc s\<rparr>) s
           in exit_children cp is (if p_state (ptable s ! i) = ZOMBIE then wakeup_proc (initproc s) s else s)
      else exit_children cp is s)"

definition exit :: "'z file_state_scheme \<Rightarrow> ('a, 'z file_state_scheme) outcome" where
  "exit s =
     (if curproc s = initproc s then Panic ''init exiting''
      else case curproc s of
        None \<Rightarrow> kfault
      | Some cp \<Rightarrow>
          obind (exit_files cp [0..<NOFILE] s) (\<lambda>_ s.
          obind (case p_cwd (ptable s ! cp) of None \<Rightarrow> ub | Some ip \<Rightarrow> iput ip s) (\<lambda>_ s.
          obind (acquire PtableLock (upd_proc cp (\<lambda>q. q\<lparr>p_cwd := None\<rparr>) s)) (\<lambda>_ s.
          let s = wakeup_proc (p_parent (ptable s ! cp)) s;
              s = exit_children cp [0..<length (ptable s)] s;
              s = upd_proc cp (\<lambda>q. q\<lparr>p_state := ZOMBIE\<rparr>) s
          in sched InExit s))))"

text \<open>The scan of \<^verbatim>\<open>wait\<close>: whether there are children, and the first one that has exited.\<close>

fun wait_scan :: "nat \<Rightarrow> nat \<Rightarrow> bool \<Rightarrow> proc list \<Rightarrow> bool \<times> nat option" where
  "wait_scan cp i havekids [] = (havekids, None)"
| "wait_scan cp i havekids (p # ps) =
     (if p_parent p \<noteq> Some cp then wait_scan cp (Suc i) havekids ps
      else if p_state p = ZOMBIE then (True, Some i)
      else wait_scan cp (Suc i) True ps)"

text \<open>\<open>wait_body\<close> is the loop of \<^verbatim>\<open>wait\<close>, entered with the lock of the table held, at first and after each sleep.\<close>

definition wait_body :: "'z kmem_state_scheme \<Rightarrow> (int, 'z kmem_state_scheme) outcome" where
  "wait_body s =
     (case curproc s of
        None \<Rightarrow> kfault
      | Some cp \<Rightarrow>
          (case wait_scan cp 0 False (ptable s) of
             (_, Some i) \<Rightarrow>
               (let pd = p_pid (ptable s ! i)
                in obind (kfree (p_kstack (ptable s ! i)) s) (\<lambda>_ s.
                   obind (freevm (p_pgdir (ptable s ! i)) (upd_proc i (\<lambda>q. q\<lparr>p_kstack := 0\<rparr>) s)) (\<lambda>_ s.
                   let s = upd_proc i (\<lambda>q. q\<lparr>p_state := UNUSED, p_pid := 0, p_parent := None,
                             p_name := (p_name q)[0 := 0], p_killed := False\<rparr>) s
                   in obind (release PtableLock s) (\<lambda>_ s. Ok pd s))))
           | (havekids, None) \<Rightarrow>
               if \<not> havekids \<or> p_killed (ptable s ! cp)
               then obind (release PtableLock s) (\<lambda>_ s. Ok (-1) s)
               else sleep (ChanProc cp) (Some PtableLock) s))"

definition wait :: "'z kmem_state_scheme \<Rightarrow> (int, 'z kmem_state_scheme) outcome" where
  "wait s = obind (acquire PtableLock s) (\<lambda>_ s. wait_body s)"

definition wait_resume :: "'z kmem_state_scheme \<Rightarrow> (int, 'z kmem_state_scheme) outcome" where
  "wait_resume s = obind (sleep_resume PtableLock s) (\<lambda>_ s. wait_body s)"

section \<open>Process identifiers\<close>

lemma find_unused_Some:
  "find_unused k ps = Some i \<longleftrightarrow> k \<le> i \<and> i - k < length ps \<and> p_state (ps ! (i - k)) = UNUSED \<and> (\<forall>j<i - k. p_state (ps ! j) \<noteq> UNUSED)"
proof (induction ps arbitrary: k)
  case (Cons p ps)
  show ?case
  proof (cases "p_state p = UNUSED")
    case True
    then show ?thesis by (auto simp: nth_Cons' split: if_splits)
  next
    case False
    then have "find_unused k (p # ps) = Some i \<longleftrightarrow> Suc k \<le> i \<and> i - Suc k < length ps \<and>
        p_state (ps ! (i - Suc k)) = UNUSED \<and> (\<forall>j<i - Suc k. p_state (ps ! j) \<noteq> UNUSED)"
      using Cons.IH by simp
    also have "\<dots> \<longleftrightarrow> k \<le> i \<and> i - k < length (p # ps) \<and> p_state ((p # ps) ! (i - k)) = UNUSED \<and>
        (\<forall>j<i - k. p_state ((p # ps) ! j) \<noteq> UNUSED)"
    proof (cases "k < i")
      case True
      then obtain d where d: "i - k = Suc d" "i - Suc k = d" by (metis Suc_diff_Suc)
      then show ?thesis using True False by (auto simp: All_less_Suc2)
    next
      case F: False
      then show ?thesis using False by (cases "i = k") auto
    qed
    finally show ?thesis .
  qed
qed simp

lemma find_unused_None: "find_unused k ps = None \<longleftrightarrow> (\<forall>p\<in>set ps. p_state p \<noteq> UNUSED)"
  by (induction ps arbitrary: k) auto

text \<open>The processes in use have different identifiers, all below the next one to be given out.\<close>

definition pids_ok :: "'z sched_state_scheme \<Rightarrow> bool" where
  "pids_ok s \<longleftrightarrow> (\<forall>i<length (ptable s). p_state (ptable s ! i) \<noteq> UNUSED \<longrightarrow> p_pid (ptable s ! i) < nextpid s) \<and>
     (\<forall>i j. i < length (ptable s) \<longrightarrow> j < length (ptable s) \<longrightarrow> p_state (ptable s ! i) \<noteq> UNUSED \<longrightarrow>
        p_state (ptable s ! j) \<noteq> UNUSED \<longrightarrow> p_pid (ptable s ! i) = p_pid (ptable s ! j) \<longrightarrow> i = j)"

lemma allocproc_ok:
  fixes s :: "'z kmem_state_scheme"
  assumes "quiet s" "find_unused 0 (ptable s) = Some i"
  shows "allocproc s =
    (let s' = s\<lparr>ptable := (ptable s)[i := (ptable s ! i)\<lparr>p_state := EMBRYO, p_pid := nextpid s, p_kstack := freelist s\<rparr>], nextpid := nextpid s + 1\<rparr>
     in if freelist s = 0 then Ok None (upd_proc i (\<lambda>p. p\<lparr>p_state := UNUSED\<rparr>) s')
        else Ok (Some i) (upd_proc i (\<lambda>p. p\<lparr>p_context := AtForkret\<rparr>) (s'\<lparr>freelist := load32 (kmem_mem s) (freelist s)\<rparr>)))"
proof -
  have i: "i < length (ptable s)" using assms(2) by (simp add: find_unused_Some)
  let ?u = "s\<lparr>ptable := (ptable s)[i := (ptable s ! i)\<lparr>p_state := EMBRYO, p_pid := nextpid s\<rparr>], nextpid := nextpid s + 1\<rparr>"
  have k: "kmem_idle ?u" using quiet_kmem_idle [OF assms(1)] by (simp add: kmem_idle_def)
  let ?a = "s\<lparr>ncli := 1, locks := (locks s)(PtableLock := lk_held)\<rparr>"
  have a: "acquire PtableLock s = Ok () ?a" using assms(1) by (simp add: kexec)
  have q: "irq s = False" "intena s = False" "ncli s = 0" "locks s = (\<lambda>_. lk_free)" using assms(1) by (simp_all add: quiet_def)
  let ?b = "(upd_proc i (\<lambda>p. p\<lparr>p_state := EMBRYO, p_pid := nextpid s\<rparr>) ?a)\<lparr>nextpid := nextpid s + 1\<rparr>"
  have "release PtableLock ?b = Ok () (?b\<lparr>ncli := 0, locks := (locks ?b)(PtableLock := lk_free)\<rparr>)"
    using release_exec [of ?b PtableLock] q by (simp add: upd_proc_def)
  also have "?b\<lparr>ncli := 0, locks := (locks ?b)(PtableLock := lk_free)\<rparr> = ?u"
    using q by (simp add: upd_proc_def)
  finally have r: "release PtableLock ?b = Ok () ?u" .
  have "allocproc s = obind (kalloc ?u) (\<lambda>k s.
             let s = upd_proc i (\<lambda>p. p\<lparr>p_kstack := k\<rparr>) s
             in if k = 0 then Ok None (upd_proc i (\<lambda>p. p\<lparr>p_state := UNUSED\<rparr>) s)
                else Ok (Some i) (upd_proc i (\<lambda>p. p\<lparr>p_context := AtForkret\<rparr>) s))"
    using assms(2) r by (simp add: allocproc_def a Let_def) (simp add: upd_proc_def)
  then show ?thesis
    using i by (simp add: kalloc_exec [OF k] upd_proc_def Let_def)
qed

lemma allocproc_full:
  assumes "quiet s" "find_unused 0 (ptable s) = None"
  shows "allocproc s = Ok None s"
proof -
  let ?a = "s\<lparr>ncli := 1, locks := (locks s)(PtableLock := lk_held)\<rparr>"
  have "acquire PtableLock s = Ok () ?a" "release PtableLock ?a = Ok () s"
    using assms(1) release_exec [of ?a PtableLock] by (simp_all add: kexec)
  then show ?thesis using assms(2) by (simp add: allocproc_def)
qed

lemma pids_ok_alloc:
  assumes "pids_ok s" "i < length (ptable s)" "p_pid q = nextpid s"
  shows "pids_ok (s\<lparr>ptable := (ptable s)[i := q], nextpid := nextpid s + 1\<rparr>)"
proof -
  have lt: "p_pid (ptable s ! k) < nextpid s" if "k < length (ptable s)" "p_state (ptable s ! k) \<noteq> UNUSED" for k
    using assms(1) that by (simp add: pids_ok_def)
  have inj: "k = l" if "k < length (ptable s)" "l < length (ptable s)" "p_state (ptable s ! k) \<noteq> UNUSED"
    "p_state (ptable s ! l) \<noteq> UNUSED" "p_pid (ptable s ! k) = p_pid (ptable s ! l)" for k l
    using assms(1) that unfolding pids_ok_def by blast
  have "p_pid ((ptable s)[i := q] ! k) < nextpid s + 1" if "k < length (ptable s)" "p_state ((ptable s)[i := q] ! k) \<noteq> UNUSED" for k
    using that lt [of k] assms(2,3) by (cases "k = i") auto
  moreover have "k = l" if "k < length (ptable s)" "l < length (ptable s)" "p_state ((ptable s)[i := q] ! k) \<noteq> UNUSED"
      "p_state ((ptable s)[i := q] ! l) \<noteq> UNUSED" "p_pid ((ptable s)[i := q] ! k) = p_pid ((ptable s)[i := q] ! l)" for k l
    using that lt [of k] lt [of l] inj [of k l] assms(2,3) by (cases "k = i"; cases "l = i") auto
  ultimately show ?thesis unfolding pids_ok_def by simp
qed

section \<open>Passing on the children\<close>

lemma wakeup_proc_nth:
  "j < length (ptable s) \<Longrightarrow> ptable (wakeup_proc po s) ! j =
     (if p_state (ptable s ! j) = SLEEPING \<and> po \<noteq> None \<and> p_chan (ptable s ! j) = map_option ChanProc po
      then (ptable s ! j)\<lparr>p_state := RUNNABLE\<rparr> else ptable s ! j)"
  by (cases po) (auto simp: wakeup_proc_def wakeup1_def)

lemma wakeup_proc_frame: "wakeup_proc po s = s\<lparr>ptable := ptable (wakeup_proc po s)\<rparr>" "length (ptable (wakeup_proc po s)) = length (ptable s)"
  "initproc (wakeup_proc po s) = initproc s"
  by (cases po; simp add: wakeup_proc_def wakeup1_def)+

text \<open>A child of \<open>cp\<close> that has exited, among the given slots.\<close>

definition zombie_kid :: "nat \<Rightarrow> nat list \<Rightarrow> 'z sched_state_scheme \<Rightarrow> bool" where
  "zombie_kid cp is s \<longleftrightarrow> (\<exists>i\<in>set is. p_parent (ptable s ! i) = Some cp \<and> p_state (ptable s ! i) = ZOMBIE)"

text \<open>The slot of a process after the loop: a child gets the new parent, and a waiting \<^verbatim>\<open>init\<close> is woken.\<close>

definition passed :: "nat \<Rightarrow> nat \<Rightarrow> bool \<Rightarrow> bool \<Rightarrow> proc \<Rightarrow> proc" where
  "passed cp ini visited wake q =
     q\<lparr>p_parent := (if visited \<and> p_parent q = Some cp then Some ini else p_parent q),
       p_state := (if wake \<and> p_state q = SLEEPING \<and> p_chan q = Some (ChanProc ini) then RUNNABLE else p_state q)\<rparr>"

lemma passed_fields [simp]:
  "p_pid (passed cp ini v w q) = p_pid q" "p_chan (passed cp ini v w q) = p_chan q"
  "p_parent (passed cp ini v w q) = (if v \<and> p_parent q = Some cp then Some ini else p_parent q)"
  "p_state (passed cp ini v w q) = ZOMBIE \<longleftrightarrow> p_state q = ZOMBIE" "passed cp ini False False q = q"
  "p_state (passed cp ini v w q) = (if w \<and> p_state q = SLEEPING \<and> p_chan q = Some (ChanProc ini) then RUNNABLE else p_state q)"
  by (simp_all add: passed_def)

lemma passed_passed:
  "ini \<noteq> cp \<Longrightarrow> passed cp ini v w (passed cp ini v' w' q) = passed cp ini (v \<or> v') (w \<or> w') q"
  by (simp add: passed_def)

lemma exit_children_ok:
  fixes s :: "'z sched_state_scheme"
  assumes "distinct is" "set is \<subseteq> {..<length (ptable s)}" "initproc s = Some ini" "ini \<noteq> cp"
  defines "t \<equiv> exit_children cp is s"
  shows "t = s\<lparr>ptable := ptable t\<rparr> \<and> length (ptable t) = length (ptable s) \<and>
    (\<forall>j<length (ptable s). ptable t ! j = passed cp ini (j \<in> set is) (zombie_kid cp is s) (ptable s ! j))"
  using assms(1-3) unfolding t_def
proof (induction "is" arbitrary: s)
  case Nil
  then show ?case by (simp add: zombie_kid_def)
next
  case (Cons i "is")
  have i: "i < length (ptable s)" "i \<notin> set is" "distinct is" "set is \<subseteq> {..<length (ptable s)}" using Cons.prems by auto
  show ?case
  proof (cases "p_parent (ptable s ! i) = Some cp")
    case False
    have z: "zombie_kid cp (i # is) s = zombie_kid cp is s" using False by (simp add: zombie_kid_def)
    have v: "passed cp ini (j \<in> set (i # is)) w (ptable s ! j) = passed cp ini (j \<in> set is) w (ptable s ! j)" for j w
      using False by (auto simp: passed_def)
    show ?thesis using Cons.IH [OF i(3,4) Cons.prems(3)] unfolding exit_children.simps if_not_P [OF False] z v .
  next
    case True
    let ?u = "upd_proc i (\<lambda>q. q\<lparr>p_parent := initproc s\<rparr>) s"
    define v where "v = (if p_state (ptable ?u ! i) = ZOMBIE then wakeup_proc (initproc ?u) ?u else ?u)"
    have e: "exit_children cp (i # is) s = exit_children cp is v" using True by (simp add: Let_def v_def)
    have fv: "v = s\<lparr>ptable := ptable v\<rparr>" "length (ptable v) = length (ptable s)" "initproc v = Some ini"
      using wakeup_proc_frame [of "initproc ?u" ?u] Cons.prems(3) unfolding v_def by (auto simp: upd_proc_def)
    have nv: "ptable v ! j = passed cp ini (j = i) (p_state (ptable s ! i) = ZOMBIE) (ptable s ! j)" if "j < length (ptable s)" for j
      using that i(1) Cons.prems(3) True wakeup_proc_nth [of j ?u "Some ini"]
      unfolding v_def by (auto simp: upd_proc_def nth_list_update passed_def)
    have zk: "zombie_kid cp is v = zombie_kid cp is s"
      unfolding zombie_kid_def
    proof (rule bex_cong [OF refl])
      fix k assume "k \<in> set is"
      then have "k \<noteq> i" "k < length (ptable s)" using i(2,4) by auto
      then show "p_parent (ptable v ! k) = Some cp \<and> p_state (ptable v ! k) = ZOMBIE \<longleftrightarrow>
        p_parent (ptable s ! k) = Some cp \<and> p_state (ptable s ! k) = ZOMBIE" using nv [of k] by simp
    qed
    have zz: "zombie_kid cp (i # is) s \<longleftrightarrow> zombie_kid cp is s \<or> p_state (ptable s ! i) = ZOMBIE"
      using True by (auto simp: zombie_kid_def)
    have IH: "exit_children cp is v = v\<lparr>ptable := ptable (exit_children cp is v)\<rparr>"
      "length (ptable (exit_children cp is v)) = length (ptable v)"
      "\<forall>j<length (ptable v). ptable (exit_children cp is v) ! j = passed cp ini (j \<in> set is) (zombie_kid cp is v) (ptable v ! j)"
      using Cons.IH [OF i(3) _ fv(3)] i(4) fv(2) by auto
    have "ptable (exit_children cp is v) ! j = passed cp ini (j \<in> set (i # is)) (zombie_kid cp (i # is) s) (ptable s ! j)"
      if "j < length (ptable s)" for j
      using IH(3) nv [OF that] that fv(2) passed_passed [OF assms(4)] zk zz by (simp add: disj_commute)
    moreover have "exit_children cp is v = s\<lparr>ptable := ptable (exit_children cp is v)\<rparr>"
      using IH(1) fv(1) by (metis (no_types, lifting) sched_state.update_convs(1) sched_state.surjective)
    ultimately show ?thesis unfolding e using IH(2) fv(2) by simp
  qed
qed

section \<open>Exit\<close>

lemma wait_scan_zombie:
  assumes "j < length ps" "p_parent (ps ! j) = Some cp" "p_state (ps ! j) = ZOMBIE"
  shows "\<exists>m<length ps. wait_scan cp k hk ps = (True, Some (k + m)) \<and> p_parent (ps ! m) = Some cp \<and> p_state (ps ! m) = ZOMBIE"
  using assms
proof (induction ps arbitrary: j k hk)
  case (Cons p ps)
  show ?case
  proof (cases "p_parent p = Some cp \<and> p_state p = ZOMBIE")
    case True
    then show ?thesis by (intro exI [of _ 0]) simp
  next
    case False
    then obtain j' where j: "j = Suc j'" using Cons.prems by (cases j) auto
    obtain m where "m < length ps" "wait_scan cp (Suc k) (hk \<or> p_parent p = Some cp) ps = (True, Some (Suc k + m))"
      "p_parent (ps ! m) = Some cp" "p_state (ps ! m) = ZOMBIE"
      using Cons.IH [of j' "Suc k" "hk \<or> p_parent p = Some cp"] Cons.prems j by auto
    moreover have "wait_scan cp k hk (p # ps) = wait_scan cp (Suc k) (hk \<or> p_parent p = Some cp) ps"
      using False by (cases "p_parent p = Some cp") auto
    ultimately show ?thesis by (intro exI [of _ "Suc m"]) simp
  qed
qed simp

lemma exit_files_none:
  "\<forall>i\<in>set fds. p_ofile (ptable s ! cp) ! i = None \<Longrightarrow> exit_files cp fds s = Ok () s"
  by (induction fds) auto

lemma iput_keep:
  fixes s :: "'z fs_state_scheme"
  assumes "quiet s" "\<not> (i_ref (inodes s ! ip) = 1 \<and> i_valid (inodes s ! ip) \<and> i_nlink (inodes s ! ip) = 0)"
  shows "iput ip s = Ok () (upd_inode ip (\<lambda>p. p\<lparr>i_ref := i_ref p - 1\<rparr>) s)"
proof -
  let ?a = "s\<lparr>ncli := 1, locks := (locks s)(IcacheLock := lk_held)\<rparr>"
  have q: "irq s = False" "intena s = False" "ncli s = 0" "locks s = (\<lambda>_. lk_free)" using assms(1) by (simp_all add: quiet_def)
  have a: "acquire IcacheLock s = Ok () ?a" using assms(1) by (simp add: kexec)
  let ?b = "upd_inode ip (\<lambda>p. p\<lparr>i_ref := i_ref p - 1\<rparr>) ?a"
  have "release IcacheLock ?b = Ok () (?b\<lparr>ncli := 0, locks := (locks ?b)(IcacheLock := lk_free)\<rparr>)"
    using release_exec [of ?b IcacheLock] q by (simp add: upd_inode_def)
  also have "?b\<lparr>ncli := 0, locks := (locks ?b)(IcacheLock := lk_free)\<rparr> = upd_inode ip (\<lambda>p. p\<lparr>i_ref := i_ref p - 1\<rparr>) s"
    using q by (simp add: upd_inode_def)
  finally have r: "release IcacheLock ?b = Ok () (upd_inode ip (\<lambda>p. p\<lparr>i_ref := i_ref p - 1\<rparr>) s)" .
  have "iput ip s = release IcacheLock ?b" using a assms(2) by (auto simp: iput_def)
  then show ?thesis using r by (simp only:)
qed

lemma exit_ok:
  fixes s :: "'z file_state_scheme"
  assumes "quiet s" "curproc s = Some cp" "cp < length (ptable s)" "initproc s = Some ini" "ini \<noteq> cp"
    and "\<forall>i<NOFILE. p_ofile (ptable s ! cp) ! i = None" "p_cwd (ptable s ! cp) = Some ip"
    and "\<not> (i_ref (inodes s ! ip) = 1 \<and> i_valid (inodes s ! ip) \<and> i_nlink (inodes s ! ip) = 0)"
  shows "\<exists>t. exit s = (Blocked t :: ('a, 'z file_state_scheme) outcome) \<and> ncli t = 1 \<and> locks t = (locks s)(PtableLock := lk_held) \<and>
    inodes t = (inodes s)[ip := (inodes s ! ip)\<lparr>i_ref := i_ref (inodes s ! ip) - 1\<rparr>] \<and> length (ptable t) = length (ptable s) \<and>
    (let z = zombie_kid cp [0..<length (ptable s)] s; u = wakeup_proc (p_parent (ptable s ! cp)) s
     in \<forall>j<length (ptable s). ptable t ! j = (if j = cp then (passed cp ini True z (ptable u ! cp))\<lparr>p_cwd := None, p_state := ZOMBIE, p_context := InExit False\<rparr>
          else passed cp ini True z (ptable u ! j)))"
proof -
  let ?i = "upd_inode ip (\<lambda>p. p\<lparr>i_ref := i_ref p - 1\<rparr>) s"
  let ?c = "upd_proc cp (\<lambda>q. q\<lparr>p_cwd := None\<rparr>) ?i"
  let ?a = "?c\<lparr>ncli := 1, locks := (locks s)(PtableLock := lk_held)\<rparr>"
  have q: "irq s = False" "intena s = False" "ncli s = 0" "locks s = (\<lambda>_. lk_free)" using assms(1) by (simp_all add: quiet_def)
  have fl: "exit_files cp [0..<NOFILE] s = Ok () s" using assms(6) by (intro exit_files_none) simp
  have ac: "acquire PtableLock ?c = Ok () ?a"
    using acquire_exec [of ?c PtableLock] q by (simp add: upd_inode_def upd_proc_def)
  let ?n = "length (ptable s)" and ?par = "p_parent (ptable s ! cp)"
  define w where "w = wakeup_proc ?par ?a"
  define x where "x = exit_children cp [0..<?n] w"
  define y where "y = upd_proc cp (\<lambda>q. q\<lparr>p_state := ZOMBIE\<rparr>) x"
  let ?t = "upd_proc cp (\<lambda>q. q\<lparr>p_context := InExit False\<rparr>) y"
  have an: "ptable ?a ! j = (if j = cp then (ptable s ! cp)\<lparr>p_cwd := None\<rparr> else ptable s ! j)" for j
    using assms(3) by (auto simp: upd_proc_def upd_inode_def nth_list_update)
  have wf: "w = ?a\<lparr>ptable := ptable w\<rparr>" "length (ptable w) = ?n" "initproc w = Some ini"
    using wakeup_proc_frame [of ?par ?a] assms(4) by (simp_all add: w_def upd_proc_def upd_inode_def)
  have xf: "x = w\<lparr>ptable := ptable x\<rparr>" "length (ptable x) = ?n"
    "\<forall>j<?n. ptable x ! j = passed cp ini True (zombie_kid cp [0..<?n] w) (ptable w ! j)"
  proof -
    have "set [0..<?n] \<subseteq> {..<length (ptable w)}" using wf(2) by auto
    note c = exit_children_ok [OF distinct_upt this wf(3) assms(5), folded x_def]
    show "x = w\<lparr>ptable := ptable x\<rparr>" by (rule c [THEN conjunct1])
    show "length (ptable x) = ?n" "\<forall>j<?n. ptable x ! j = passed cp ini True (zombie_kid cp [0..<?n] w) (ptable w ! j)"
      using c [THEN conjunct2] wf(2) by auto
  qed
  have wn: "ptable w ! j = (if j = cp then (ptable (wakeup_proc ?par s) ! cp)\<lparr>p_cwd := None\<rparr> else ptable (wakeup_proc ?par s) ! j)" if "j < ?n" for j
    using wakeup_proc_nth [of j ?a ?par] wakeup_proc_nth [of j s ?par] an [of j] that
    by (auto simp: w_def upd_proc_def upd_inode_def)
  have z: "zombie_kid cp [0..<?n] w = zombie_kid cp [0..<?n] s"
    unfolding zombie_kid_def by (rule bex_cong [OF refl]) (use wn wakeup_proc_nth [of _ s ?par] in auto)
  have "w\<lparr>ptable := P\<rparr> = ?a\<lparr>ptable := P\<rparr>" for P by (subst wf(1)) simp
  then have xa: "x = ?a\<lparr>ptable := ptable x\<rparr>" using xf(1) by (rule trans [rotated])
  have f: "curproc x = Some cp" "ncli x = 1" "locks x = (locks s)(PtableLock := lk_held)" "irq x = False" "intena x = False"
    "inodes x = (inodes s)[ip := (inodes s ! ip)\<lparr>i_ref := i_ref (inodes s ! ip) - 1\<rparr>]"
    by (subst xa, simp add: upd_proc_def upd_inode_def assms(2) q)+
  have sc: "sched InExit y = (Blocked ?t :: ('a, 'z file_state_scheme) outcome)"
    using f assms(3) xf(2) by (simp add: sched_def holding_eq y_def upd_proc_def cpu_ok_def is_int_def)
  have "exit s = (sched InExit y :: ('a, 'z file_state_scheme) outcome)"
  proof -
    have pa: "p_parent (ptable ?c ! cp) = ?par" using an [of cp] by simp
    have cw: "p_cwd (ptable s ! cp) = Some ip" "Some cp \<noteq> initproc s" using assms(4,5,7) by auto
    have "exit s = (obind (acquire PtableLock ?c) (\<lambda>_ s.
        let s = wakeup_proc (p_parent (ptable s ! cp)) s; s = exit_children cp [0..<length (ptable s)] s;
            s = upd_proc cp (\<lambda>q. q\<lparr>p_state := ZOMBIE\<rparr>) s
        in sched InExit s) :: ('a, 'z file_state_scheme) outcome)"
      unfolding exit_def assms(2) if_not_P [OF cw(2)] option.case fl obind.simps cw(1) iput_keep [OF assms(1,8)] ..
    also have "\<dots> = sched InExit y" using pa wf(2) by (simp add: ac Let_def y_def x_def w_def)
    finally show ?thesis .
  qed
  moreover have "ptable ?t ! j = (if j = cp then (passed cp ini True (zombie_kid cp [0..<?n] s) (ptable (wakeup_proc ?par s) ! cp))
          \<lparr>p_cwd := None, p_state := ZOMBIE, p_context := InExit False\<rparr>
          else passed cp ini True (zombie_kid cp [0..<?n] s) (ptable (wakeup_proc ?par s) ! j))" if "j < ?n" for j
    using xf(2,3) wn [OF that] that z by (auto simp: y_def upd_proc_def passed_def)
  ultimately show ?thesis
    using sc f xf(2) by (intro exI [of _ ?t]) (simp add: y_def upd_proc_def)
qed

section \<open>Properties\<close>


text \<open>Two slots, the first in use.\<close>

definition two_procs :: kmem_state where
  "two_procs = boot_kmem\<lparr>ptable := [ready_proc, zero_proc], nextpid := 2, freelist := 0x80080000\<rparr>"



text \<open>
  Slot 0 is \<^verbatim>\<open>init\<close>, asleep in \<^verbatim>\<open>wait\<close>; slot 1 runs and is its child.
\<close>

definition exit_procs :: "proc list" where
  "exit_procs = [ready_proc\<lparr>p_state := SLEEPING, p_chan := Some (ChanProc 0)\<rparr>,
     ready_proc\<lparr>p_state := RUNNING, p_pid := 2, p_parent := Some 0, p_cwd := Some 0\<rparr>]"

definition exit_state :: file_state where
  "exit_state = (boot_cons fs_image \<lparr>inodes = table_with root_inode, ftable = []\<rparr>)\<lparr>ptable := exit_procs, curproc := Some 1, initproc := Some 0\<rparr>"


end
