(* ===== verification/Xv6_Syscall.thy ===== *)
theory Xv6_Syscall
  imports Xv6_Proc
begin

text \<open>
  Arguments of system calls (\<^verbatim>\<open>kernel/syscall.c\<close>) and the calls on processes (\<^verbatim>\<open>kernel/sysproc.c\<close>). The kernel reads and
  writes user memory directly, through the page table of the current process: a byte at a user address is
  found by the two-level walk of the hardware, and an access that the table does not allow is a data abort. What a
  call stores at a user pointer is stored when the call has its result.
\<close>

section \<open>User memory\<close>

text \<open>
  Where the byte at a user address lies in the kernel's view of memory. Privileged code may access a small page
  whose access bits are not 0. From \<^verbatim>\<open>UADDR_SZ\<close> up to the kernel nothing is mapped; the size of a process is below \<^verbatim>\<open>UADDR_SZ\<close>, so
  the calls do not reach above it.
\<close>

definition user_addr :: "uint \<Rightarrow> mem \<Rightarrow> uint \<Rightarrow> uint option" where
  "user_addr pgdir m va =
     (let e = load32 m (pgdir + 4 * PDE_IDX va); pte = load32 m (P2V (PTE_ADDR e) + 4 * PTE_IDX va)
      in if va \<ge> UADDR_SZ \<or> e AND PDE_TYPES = 0 \<or> pte AND PTE_TYPES = 0 \<or> PTE_AP pte = 0 then None
         else Some (P2V (PTE_ADDR pte) + va mod PTE_SZ))"

definition user_byte :: "uint \<Rightarrow> 'z kmem_state_scheme \<Rightarrow> uchar option" where
  "user_byte va s =
     (case curproc s of
        None \<Rightarrow> None
      | Some q \<Rightarrow> map_option (kmem_mem s) (user_addr (p_pgdir (ptable s ! q)) (kmem_mem s) va))"

fun user_read :: "uint \<Rightarrow> nat \<Rightarrow> 'z kmem_state_scheme \<Rightarrow> uchar list option" where
  "user_read va 0 s = Some []"
| "user_read va (Suc n) s =
     (case user_byte va s of None \<Rightarrow> None | Some c \<Rightarrow> map_option (Cons c) (user_read (va + 1) n s))"

fun user_write :: "uint \<Rightarrow> uchar list \<Rightarrow> 'z kmem_state_scheme \<Rightarrow> (unit, 'z kmem_state_scheme) outcome" where
  "user_write va [] s = Ok () s"
| "user_write va (c # cs) s =
     (case curproc s of
        None \<Rightarrow> kfault
      | Some q \<Rightarrow>
          (case user_addr (p_pgdir (ptable s ! q)) (kmem_mem s) va of
             None \<Rightarrow> kfault
           | Some a \<Rightarrow> user_write (va + 1) cs (s\<lparr>kmem_mem := store8 a c (kmem_mem s)\<rparr>)))"

section \<open>Arguments\<close>

definition the_proc :: "'z sched_state_scheme \<Rightarrow> proc option" where
  "the_proc s = map_option (\<lambda>q. ptable s ! q) (curproc s)"

text \<open>\<^verbatim>\<open>fetchint\<close>: the word at \<^verbatim>\<open>addr\<close>, or \<open>None\<close> for the result \<open>-1\<close>.\<close>

definition fetchint :: "uint \<Rightarrow> 'z kmem_state_scheme \<Rightarrow> (uint option, 'z kmem_state_scheme) outcome" where
  "fetchint addr s =
     (case the_proc s of
        None \<Rightarrow> kfault
      | Some p \<Rightarrow>
          if addr \<ge> p_sz p \<or> addr + 4 > p_sz p then Ok None s
          else case user_read addr 4 s of None \<Rightarrow> kfault | Some bs \<Rightarrow> Ok (Some (of_le32 bs)) s)"

text \<open>\<^verbatim>\<open>fetchstr\<close>: the bytes of the string at \<^verbatim>\<open>addr\<close> up to its NUL, whose number the code returns; \<open>None\<close> for \<open>-1\<close>.\<close>

lemma unat_next: "a < (ep :: uint) \<Longrightarrow> unat (a + 1) = Suc (unat a)"
proof -
  assume "a < ep"
  then have "Suc (unat a) < 4294967296" using unat_uint_less' [of ep] by (simp add: word_less_nat_alt del: unat_uint_less')
  then show ?thesis by (simp add: unat_word_ariths)
qed

function fetchstr_loop :: "uint \<Rightarrow> uint \<Rightarrow> uchar list \<Rightarrow> 'z kmem_state_scheme \<Rightarrow> (uchar list option, 'z kmem_state_scheme) outcome" where
  "fetchstr_loop a ep acc s =
     (if a < ep
      then case user_byte a s of
             None \<Rightarrow> kfault
           | Some c \<Rightarrow> if c = 0 then Ok (Some acc) s else fetchstr_loop (a + 1) ep (acc @ [c]) s
      else Ok None s)"
  by pat_completeness auto
termination
  by (relation "measure (\<lambda>(a, ep, acc, s). unat ep - unat a)") (auto simp: unat_next word_less_nat_alt)

declare fetchstr_loop.simps [simp del]

definition fetchstr :: "uint \<Rightarrow> 'z kmem_state_scheme \<Rightarrow> (uchar list option, 'z kmem_state_scheme) outcome" where
  "fetchstr addr s =
     (case the_proc s of
        None \<Rightarrow> kfault
      | Some p \<Rightarrow> if addr \<ge> p_sz p then Ok None s else fetchstr_loop addr (p_sz p) [] s)"

text \<open>\<^verbatim>\<open>argint\<close> stores register \<^verbatim>\<open>r1 + n\<close> and returns 0, whatever it finds.\<close>

definition argint :: "int \<Rightarrow> 'z sched_state_scheme \<Rightarrow> (uint, 'z sched_state_scheme) outcome" where
  "argint n s =
     (if n > 3 then Panic ''too many system call parameters\<newline>''
      else case the_proc s of
        None \<Rightarrow> kfault
      | Some p \<Rightarrow>
          if n < 0 then ub
          else Ok ([tf_r1 (p_tf p), tf_r2 (p_tf p), tf_r3 (p_tf p), tf_r4 (p_tf p)] ! nat n) s)"

text \<open>\<^verbatim>\<open>argptr\<close>: the pointer, when the block of \<open>sz\<close> bytes is accepted.\<close>

definition argptr :: "int \<Rightarrow> int \<Rightarrow> 'z sched_state_scheme \<Rightarrow> (uint option, 'z sched_state_scheme) outcome" where
  "argptr n sz s =
     obind (argint n s) (\<lambda>i s.
     case the_proc s of
       None \<Rightarrow> kfault
     | Some p \<Rightarrow> if i \<ge> p_sz p \<or> i + word_of_int sz > p_sz p then Ok None s else Ok (Some i) s)"

definition argstr :: "int \<Rightarrow> 'z kmem_state_scheme \<Rightarrow> (uchar list option, 'z kmem_state_scheme) outcome" where
  "argstr n s = obind (argint n s) (\<lambda>addr s. fetchstr addr s)"

section \<open>Calls on processes\<close>

definition sys_fork :: "'z file_state_scheme \<Rightarrow> (int, 'z file_state_scheme) outcome" where
  "sys_fork s = fork s"

definition sys_exit :: "'z file_state_scheme \<Rightarrow> (int, 'z file_state_scheme) outcome" where
  "sys_exit s = exit s"

definition sys_wait :: "'z kmem_state_scheme \<Rightarrow> (int, 'z kmem_state_scheme) outcome" where
  "sys_wait s = wait s"

definition sys_kill :: "'z sched_state_scheme \<Rightarrow> (int, 'z sched_state_scheme) outcome" where
  "sys_kill s = obind (argint 0 s) (\<lambda>i s. kill (sint i) s)"

definition sys_getpid :: "'z sched_state_scheme \<Rightarrow> (int, 'z sched_state_scheme) outcome" where
  "sys_getpid s = (case the_proc s of None \<Rightarrow> kfault | Some p \<Rightarrow> Ok (p_pid p) s)"

definition sys_sbrk :: "'z cons_state_scheme \<Rightarrow> (int, 'z cons_state_scheme) outcome" where
  "sys_sbrk s =
     obind (argint 0 s) (\<lambda>n s.
     case the_proc s of
       None \<Rightarrow> kfault
     | Some p \<Rightarrow>
         (let addr = sint (p_sz p)
          in obind (growproc (sint n) s) (\<lambda>r s. if r < 0 then Ok (-1) s else Ok addr s)))"

text \<open>
  The loop of \<^verbatim>\<open>sys_sleep\<close>, entered with \<^verbatim>\<open>tickslock\<close> held, at first and after each sleep. The comparison is unsigned: \<^verbatim>\<open>n\<close> is
  converted.
\<close>

definition sys_sleep_body :: "uint \<Rightarrow> uint \<Rightarrow> 'z sched_state_scheme \<Rightarrow> (int, 'z sched_state_scheme) outcome" where
  "sys_sleep_body n ticks0 s =
     (if ticks s - ticks0 < n
      then case the_proc s of
             None \<Rightarrow> kfault
           | Some p \<Rightarrow>
               if p_killed p then obind (release TicksLock s) (\<lambda>_ s. Ok (-1) s)
               else sleep ChanTicks (Some TicksLock) s
      else obind (release TicksLock s) (\<lambda>_ s. Ok 0 s))"

definition sys_sleep :: "'z sched_state_scheme \<Rightarrow> (int, 'z sched_state_scheme) outcome" where
  "sys_sleep s =
     obind (argint 0 s) (\<lambda>n s.
     obind (acquire TicksLock s) (\<lambda>_ s. sys_sleep_body n (ticks s) s))"

definition sys_sleep_resume :: "uint \<Rightarrow> uint \<Rightarrow> 'z sched_state_scheme \<Rightarrow> (int, 'z sched_state_scheme) outcome" where
  "sys_sleep_resume n ticks0 s = obind (sleep_resume TicksLock s) (\<lambda>_ s. sys_sleep_body n ticks0 s)"

definition sys_uptime :: "'z sched_state_scheme \<Rightarrow> (int, 'z sched_state_scheme) outcome" where
  "sys_uptime s =
     obind (acquire TicksLock s) (\<lambda>_ s.
     let xticks = ticks s
     in obind (release TicksLock s) (\<lambda>_ s. Ok (sint xticks) s))"

section \<open>Bounds of arguments\<close>

lemma argint_ok:
  assumes "the_proc s = Some p" "0 \<le> n" "n \<le> 3"
  shows "argint n s = Ok ([tf_r1 (p_tf p), tf_r2 (p_tf p), tf_r3 (p_tf p), tf_r4 (p_tf p)] ! nat n) s"
  using assms by (simp add: argint_def)

lemma unat_word_of_int: "0 \<le> k \<Longrightarrow> k < 2 ^ 31 \<Longrightarrow> unat (word_of_int k :: uint) = nat k"
  by (simp add: unsigned_of_int take_bit_int_eq_self)

text \<open>
  C31. For a size that is not negative, \<^verbatim>\<open>argptr\<close> accepts a pointer exactly when the whole block lies in the address space of the
  process: no wrap-around lets a block past the end through, and none inside is refused.
\<close>

theorem argptr_in_bounds:
  assumes "the_proc s = Some p" "p_sz p \<le> UADDR_SZ" "0 \<le> n" "n \<le> 3" "0 \<le> sz" "sz < 2 ^ 31"
  defines "i \<equiv> [tf_r1 (p_tf p), tf_r2 (p_tf p), tf_r3 (p_tf p), tf_r4 (p_tf p)] ! nat n"
  shows "argptr n sz s = Ok (if unat i < unat (p_sz p) \<and> unat i + nat sz \<le> unat (p_sz p) then Some i else None) s"
proof -
  have e: "argptr n sz s = (if i \<ge> p_sz p \<or> i + word_of_int sz > p_sz p then Ok None s else Ok (Some i) s)"
    using assms(1) argint_ok [OF assms(1,3,4)] by (simp add: argptr_def i_def)
  have z: "unat (p_sz p) \<le> 0x10000000" using assms(2) by (simp add: word_le_nat_alt UADDR_SZ_def)
  have "unat (i + word_of_int sz) = unat i + nat sz" if "unat i < unat (p_sz p)"
    using that z assms(5,6) unat_word_of_int [OF assms(5,6)] by (simp add: unat_word_ariths)
  then show ?thesis unfolding e by (auto simp: word_less_nat_alt word_le_nat_alt)
qed

theorem argptr_in_bounds_witness:
  "argptr 1 100 \<lparr>irq = False, ncli = 0, intena = False, locks = (\<lambda>_. lk_free),
     ptable = [zero_proc\<lparr>p_sz := 4096, p_tf := zero_tf\<lparr>tf_r2 := 3996\<rparr>\<rparr>], curproc = Some 0, initproc = None, nextpid = 1, ticks = 0\<rparr> =
   Ok (Some 3996) \<lparr>irq = False, ncli = 0, intena = False, locks = (\<lambda>_. lk_free),
     ptable = [zero_proc\<lparr>p_sz := 4096, p_tf := zero_tf\<lparr>tf_r2 := 3996\<rparr>\<rparr>], curproc = Some 0, initproc = None, nextpid = 1, ticks = 0\<rparr>"
  using argptr_in_bounds [of "\<lparr>irq = False, ncli = 0, intena = False, locks = (\<lambda>_. lk_free),
     ptable = [zero_proc\<lparr>p_sz := 4096, p_tf := zero_tf\<lparr>tf_r2 := 3996\<rparr>\<rparr>], curproc = Some 0, initproc = None, nextpid = 1, ticks = 0\<rparr>"
     "zero_proc\<lparr>p_sz := 4096, p_tf := zero_tf\<lparr>tf_r2 := 3996\<rparr>\<rparr>" 1 100]
  by (simp add: the_proc_def UADDR_SZ_def word_le_nat_alt)

text \<open>
  With a negative size the same test lets every pointer through that is not smaller than the size: the sum wraps around. A
  call of \<^verbatim>\<open>read\<close> with a count of \<open>-1\<close> passes it, and \<^verbatim>\<open>readi\<close> then cuts the count to the length of the file, not of the block.
\<close>

lemma argptr_negative:
  assumes "the_proc s = Some p" "0 \<le> n" "n \<le> 3"
  defines "i \<equiv> [tf_r1 (p_tf p), tf_r2 (p_tf p), tf_r3 (p_tf p), tf_r4 (p_tf p)] ! nat n"
  assumes "0 < i" "i < p_sz p"
  shows "argptr n (-1) s = Ok (Some i) s"
proof -
  have "unat (i - 1) = unat i - 1" using assms(5) by (intro unat_minus_one) auto
  then have "\<not> i - 1 > p_sz p" using assms(6) by (simp add: word_less_nat_alt)
  then show ?thesis using assms(6) argint_ok [OF assms(1-3)] assms(1) by (simp add: argptr_def i_def not_le)
qed

section \<open>Strings in user memory\<close>

text \<open>The translation agrees with \<^verbatim>\<open>uva2ka\<close> on the pages that user code may touch.\<close>

lemma user_addr_uva2ka:
  assumes "uva2ka pgdir va s = Ok ka s" "ka \<noteq> 0" "va < UADDR_SZ"
  shows "user_addr pgdir (kmem_mem s) va = Some (ka + va mod PTE_SZ)"
proof -
  let ?e = "load32 (kmem_mem s) (pgdir + 4 * PDE_IDX va)"
  let ?p = "P2V (PTE_ADDR ?e) + 4 * PTE_IDX va"
  have e: "?e AND PDE_TYPES \<noteq> 0" using assms(1) by (auto simp: uva2ka_def walkpgdir_def ub_def Let_def split: if_splits)
  then have w: "walkpgdir pgdir va False s = Ok ?p s" by (simp add: walkpgdir_def Let_def)
  have "load32 (kmem_mem s) ?p AND PTE_TYPES \<noteq> 0" "PTE_AP (load32 (kmem_mem s) ?p) = AP_KU" "ka = P2V (PTE_ADDR (load32 (kmem_mem s) ?p))"
    using assms(1,2) unfolding uva2ka_def w by (auto simp: Let_def ub_def split: if_splits)
  then show ?thesis using e assms(3) by (simp add: user_addr_def Let_def AP_KU_def not_le)
qed

text \<open>The bytes from one address up to another, of a memory given as a function.\<close>

definition user_span :: "(uint \<Rightarrow> uchar) \<Rightarrow> uint \<Rightarrow> uint \<Rightarrow> uchar list" where
  "user_span f a ep = map (\<lambda>k. f (a + of_nat k)) [0..<unat ep - unat a]"

lemma user_span_step: "a < ep \<Longrightarrow> user_span f a ep = f a # user_span f (a + 1) ep"
proof -
  assume a: "a < ep"
  then have "unat ep - unat a = Suc (unat ep - unat (a + 1))" using unat_next [OF a] by (simp add: word_less_nat_alt)
  then show ?thesis
    by (simp add: user_span_def upt_conv_Cons map_Suc_upt [symmetric] add.assoc comp_def del: upt_Suc)
qed

lemma user_span_end: "\<not> a < ep \<Longrightarrow> user_span f a ep = []"
  by (simp add: user_span_def word_less_nat_alt)

lemma fetchstr_loop_spec:
  assumes "\<forall>a<ep. user_byte a s = Some (f a)"
  shows "fetchstr_loop a ep acc s =
    Ok (if 0 \<in> set (user_span f a ep) then Some (acc @ takeWhile (\<lambda>c. c \<noteq> 0) (user_span f a ep)) else None) s"
  using assms
proof (induction a ep acc s rule: fetchstr_loop.induct)
  case (1 a ep acc s)
  show ?case
  proof (cases "a < ep")
    case True
    then have b: "user_byte a s = Some (f a)" using "1.prems" by simp
    show ?thesis
    proof (cases "f a = 0")
      case True
      then show ?thesis using \<open>a < ep\<close> b by (subst fetchstr_loop.simps) (simp add: user_span_step)
    next
      case False
      then show ?thesis using "1.IH" [OF True b False] "1.prems" \<open>a < ep\<close> b by (subst fetchstr_loop.simps) (simp add: user_span_step)
    qed
  next
    case False
    then show ?thesis by (subst fetchstr_loop.simps) (simp add: user_span_end)
  qed
qed

text \<open>
  C33. \<^verbatim>\<open>fetchstr\<close> over mapped user memory: it returns the string at the address, up to its first NUL, when that NUL lies below the
  size of the process, and \<open>-1\<close> when the address or the string is not inside; it touches no byte outside and changes nothing.
\<close>

theorem fetchstr_reads:
  assumes "the_proc s = Some p" "\<forall>a<p_sz p. user_byte a s = Some (f a)"
  shows "fetchstr addr s =
    Ok (let str = user_span f addr (p_sz p) in if 0 \<in> set str then Some (takeWhile (\<lambda>c. c \<noteq> 0) str) else None) s"
  using assms fetchstr_loop_spec [OF assms(2), of addr "[]"] user_span_end [of addr "p_sz p" f]
  by (cases "addr < p_sz p") (auto simp: fetchstr_def Let_def)

text \<open>A process of four bytes, \<^verbatim>\<open>"hi"\<close> and two NULs, with its page directory, page table and page in memory.\<close>

definition hi_mem :: mem where
  "hi_mem = (\<lambda>_. 0)(0x80000000 := 1, 0x80000001 := 0x10, 0x80001000 := 0x3E, 0x80001001 := 0x20, 0x80002000 := 0x68, 0x80002001 := 0x69)"

definition hi_state :: kmem_state where
  "hi_state = \<lparr>irq = False, ncli = 0, intena = False, locks = (\<lambda>_. lk_free), ptable = [zero_proc\<lparr>p_sz := 4, p_pgdir := 0x80000000\<rparr>],
     curproc = Some 0, initproc = None, nextpid = 1, ticks = 0, kmem_mem = hi_mem, freelist = 0, use_lock = True, kern_end = 0\<rparr>"

lemma hi_bytes: "\<forall>a<4. user_byte a hi_state = Some (hi_mem (0x80002000 + a))"
proof (intro allI impI)
  fix a :: uint assume "a < 4"
  then have "unat a < 4" by (simp add: word_less_nat_alt)
  then have "unat a \<in> {0, 1, 2, 3}" by auto
  then have "a \<in> {0, 1, 2, 3}" by (auto simp: word_unat_eq_iff)
  then show "user_byte a hi_state = Some (hi_mem (0x80002000 + a))"
    by (elim insertE emptyE) (simp_all, code_simp+)
qed

theorem fetchstr_reads_witness: "fetchstr 1 hi_state = Ok (Some [0x69]) hi_state"
proof -
  have "user_span (\<lambda>a. hi_mem (0x80002000 + a)) 1 4 = [0x69, 0, 0]" by code_simp
  then show ?thesis
    using fetchstr_reads [of hi_state "zero_proc\<lparr>p_sz := 4, p_pgdir := 0x80000000\<rparr>" "\<lambda>a. hi_mem (0x80002000 + a)" 1] hi_bytes
    by (simp add: the_proc_def hi_state_def Let_def)
qed

end
