(* ===== verification/Xv6_Exec.thy ===== *)
theory Xv6_Exec
  imports Xv6_Proc
begin

text \<open>
  \<^verbatim>\<open>kernel/exec.c\<close>: replacing the image of the current process by a program from the file system. The path and the
  argument strings, which the code reads in user memory, are byte lists without their terminators.
\<close>

section \<open>Headers\<close>

definition ELF_MAGIC :: uint where "ELF_MAGIC = 0x464C457F"
definition ELF_PROG_LOAD :: uint where "ELF_PROG_LOAD = 1"

record elfhdr =
  e_magic :: uint
  e_elf :: "uchar list"
  e_type :: ushort
  e_machine :: ushort
  e_version :: uint
  e_entry :: uint
  e_phoff :: uint
  e_shoff :: uint
  e_flags :: uint
  e_ehsize :: ushort
  e_phentsize :: ushort
  e_phnum :: ushort
  e_shentsize :: ushort
  e_shnum :: ushort
  e_shstrndx :: ushort

record proghdr =
  ph_type :: uint
  ph_off :: uint
  ph_vaddr :: uint
  ph_paddr :: uint
  ph_filesz :: uint
  ph_memsz :: uint
  ph_flags :: uint
  ph_align :: uint

text \<open>The structures in the 52 and 32 bytes read from the file.\<close>

definition elfhdr_of :: "uchar list \<Rightarrow> elfhdr" where
  "elfhdr_of b =
     (let w = (\<lambda>i. of_le32 (slice i 4 b)); h = (\<lambda>i. of_le16 (slice i 2 b))
      in \<lparr>e_magic = w 0, e_elf = slice 4 12 b, e_type = h 16, e_machine = h 18, e_version = w 20, e_entry = w 24, e_phoff = w 28,
          e_shoff = w 32, e_flags = w 36, e_ehsize = h 40, e_phentsize = h 42, e_phnum = h 44, e_shentsize = h 46, e_shnum = h 48,
          e_shstrndx = h 50\<rparr>)"

definition proghdr_of :: "uchar list \<Rightarrow> proghdr" where
  "proghdr_of b =
     (let w = (\<lambda>i. of_le32 (slice i 4 b))
      in \<lparr>ph_type = w 0, ph_off = w 4, ph_vaddr = w 8, ph_paddr = w 12, ph_filesz = w 16, ph_memsz = w 20, ph_flags = w 24, ph_align = w 28\<rparr>)"

section \<open>exec\<close>

definition exec_bad :: "uint \<Rightarrow> nat option \<Rightarrow> 'z fs_state_scheme \<Rightarrow> (int, 'z fs_state_scheme) outcome" where
  "exec_bad pgdir ipo s =
     obind (if pgdir \<noteq> 0 then freevm pgdir s else Ok () s) (\<lambda>_ s.
     obind (case ipo of Some ip \<Rightarrow> iunlockput ip s | None \<Rightarrow> Ok () s) (\<lambda>_ s. Ok (-1) s))"

text \<open>The loop over the program headers, with the number still to do: the size reached, or \<open>None\<close> for the jump to \<^verbatim>\<open>bad\<close>.\<close>

fun exec_load :: "nat \<Rightarrow> uint \<Rightarrow> nat \<Rightarrow> uint \<Rightarrow> uint \<Rightarrow> 'z fs_state_scheme \<Rightarrow> (uint option, 'z fs_state_scheme) outcome" where
  "exec_load 0 off ip pgdir sz s = Ok (Some sz) s"
| "exec_load (Suc n) off ip pgdir sz s =
     obind (readi ip off 32 s) (\<lambda>(r, bs) s.
     if r \<noteq> 32 then Ok None s
     else let ph = proghdr_of bs
          in if ph_type ph \<noteq> ELF_PROG_LOAD then exec_load n (off + 32) ip pgdir sz s
             else if ph_memsz ph < ph_filesz ph then Ok None s
             else obind (allocuvm pgdir sz (ph_vaddr ph + ph_memsz ph) s) (\<lambda>sz s.
                  if sz = 0 then Ok None s
                  else obind (loaduvm pgdir (ph_vaddr ph) ip (ph_off ph) (ph_filesz ph) s) (\<lambda>r s.
                       if r < 0 then Ok None s else exec_load n (off + 32) ip pgdir sz s)))"

text \<open>The loop over the argument strings: the stack pointer and the words of \<^verbatim>\<open>ustack\<close> reached.\<close>

fun exec_args :: "uint \<Rightarrow> uchar list list \<Rightarrow> uint \<Rightarrow> uint list \<Rightarrow> 'z kmem_state_scheme \<Rightarrow> ((uint \<times> uint list) option, 'z kmem_state_scheme) outcome" where
  "exec_args pgdir [] sp ustack s = Ok (Some (sp, ustack)) s"
| "exec_args pgdir (a # as) sp ustack s =
     (if length ustack \<ge> MAXARG then Ok None s
      else let sp = (sp - (of_nat (length a) + 1)) AND NOT 3
           in obind (copyout pgdir sp (a @ [0]) s) (\<lambda>r s.
              if r < 0 then Ok None s else exec_args pgdir as sp (ustack @ [sp]) s))"

definition last_elem :: "uchar list \<Rightarrow> uchar list" where
  "last_elem path = rev (takeWhile (\<lambda>c. c \<noteq> 0x2F) (rev path))"

text \<open>From the stack on, with the file already given back.\<close>

definition exec_image :: "uchar list \<Rightarrow> uchar list list \<Rightarrow> uint \<Rightarrow> uint \<Rightarrow> uint \<Rightarrow> 'z fs_state_scheme \<Rightarrow> (int, 'z fs_state_scheme) outcome" where
  "exec_image path argv entry pgdir sz s =
     (let sz = ALIGNUP sz PTE_SZ
      in obind (allocuvm pgdir sz (sz + 2 * PTE_SZ) s) (\<lambda>sz s.
         if sz = 0 then exec_bad pgdir None s
         else obind (clearpteu pgdir (sz - 2 * PTE_SZ) s) (\<lambda>_ s.
              obind (exec_args pgdir argv sz [] s) (\<lambda>r s.
              case r of
                None \<Rightarrow> exec_bad pgdir None s
              | Some (sp, ustack) \<Rightarrow>
                  (case curproc s of
                     None \<Rightarrow> kfault
                   | Some q \<Rightarrow>
                       let argc = of_nat (length ustack);
                           s = upd_proc q (\<lambda>p. p\<lparr>p_tf := (p_tf p)\<lparr>tf_r0 := argc, tf_r1 := sp - (argc + 1) * 4\<rparr>\<rparr>) s;
                           sp = sp - (argc + 1) * 4
                       in obind (copyout pgdir sp (words_bytes (ustack @ [0])) s) (\<lambda>r s.
                          if r < 0 then exec_bad pgdir None s
                          else let oldpgdir = p_pgdir (ptable s ! q);
                                   s = upd_proc q (\<lambda>p. p\<lparr>p_name := safestrcpy (p_name p) (view_of (last_elem path)) 16, p_pgdir := pgdir, p_sz := sz,
                                         p_tf := (p_tf p)\<lparr>tf_pc := entry, tf_sp_usr := sp\<rparr>\<rparr>) s
                               in obind (switchuvm (Some (ptable s ! q)) s) (\<lambda>_ s.
                                  obind (freevm oldpgdir s) (\<lambda>_ s. Ok 0 s))))))))"

text \<open>
  The result of the first \<^verbatim>\<open>readi\<close> is compared as an unsigned number, so a failed read goes on with an uninitialised
  header.
\<close>

definition exec :: "uchar list \<Rightarrow> uchar list list \<Rightarrow> 'z fs_state_scheme \<Rightarrow> (int, 'z fs_state_scheme) outcome" where
  "exec path argv s =
     obind (namei path s) (\<lambda>ipo s.
     case ipo of
       None \<Rightarrow> Ok (-1) s
     | Some ip \<Rightarrow>
         obind (ilock (Some ip) s) (\<lambda>_ s.
         obind (readi ip 0 52 s) (\<lambda>(r, bs) s.
         if r < 0 then ub
         else if r < 52 then exec_bad 0 (Some ip) s
         else let elf = elfhdr_of bs
              in if e_magic elf \<noteq> ELF_MAGIC then exec_bad 0 (Some ip) s
                 else obind (setupvm s) (\<lambda>pgdir s.
                      if pgdir = 0 then exec_bad 0 (Some ip) s
                      else obind (exec_load (unat (e_phnum elf)) (e_phoff elf) ip pgdir 0 s) (\<lambda>szo s.
                           case szo of
                             None \<Rightarrow> exec_bad pgdir (Some ip) s
                           | Some sz \<Rightarrow> obind (iunlockput ip s) (\<lambda>_ s. exec_image path argv (e_entry elf) pgdir sz s))))))"

end
