(* ===== verification/Xv6_Sysfile.thy ===== *)
theory Xv6_Sysfile
  imports Xv6_Syscall Xv6_Exec
begin

text \<open>
  The file system calls of \<^verbatim>\<open>kernel/sysfile.c\<close>: descriptors, and the calls that combine path lookup, inodes, directories and
  transactions. \<open>None\<close> stands for a null pointer, and for the result \<open>-1\<close> of the functions that fetch an argument.
\<close>

section \<open>Descriptors\<close>

definition argfd :: "int \<Rightarrow> 'z sched_state_scheme \<Rightarrow> ((nat \<times> nat) option, 'z sched_state_scheme) outcome" where
  "argfd n s =
     obind (argint n s) (\<lambda>i s.
     case the_proc s of
       None \<Rightarrow> kfault
     | Some p \<Rightarrow>
         (let fd = sint i
          in if fd < 0 \<or> fd \<ge> int NOFILE then Ok None s
             else case p_ofile p ! nat fd of None \<Rightarrow> Ok None s | Some f \<Rightarrow> Ok (Some (nat fd, f)) s))"

fun fdalloc_scan :: "nat \<Rightarrow> nat option list \<Rightarrow> nat option" where
  "fdalloc_scan fd [] = None"
| "fdalloc_scan fd (f # fs) = (if f = None then Some fd else fdalloc_scan (Suc fd) fs)"

definition fdalloc :: "nat \<Rightarrow> 'z sched_state_scheme \<Rightarrow> (int, 'z sched_state_scheme) outcome" where
  "fdalloc f s =
     (case curproc s of
        None \<Rightarrow> kfault
      | Some q \<Rightarrow>
          (case fdalloc_scan 0 (p_ofile (ptable s ! q)) of
             None \<Rightarrow> Ok (-1) s
           | Some fd \<Rightarrow> Ok (int fd) (upd_proc q (\<lambda>p. p\<lparr>p_ofile := (p_ofile p)[fd := Some f]\<rparr>) s)))"

definition clear_fd :: "nat \<Rightarrow> 'z sched_state_scheme \<Rightarrow> (unit, 'z sched_state_scheme) outcome" where
  "clear_fd fd s =
     (case curproc s of
        None \<Rightarrow> kfault
      | Some q \<Rightarrow> Ok () (upd_proc q (\<lambda>p. p\<lparr>p_ofile := (p_ofile p)[fd := None]\<rparr>) s))"

definition sys_dup :: "'z file_state_scheme \<Rightarrow> (int, 'z file_state_scheme) outcome" where
  "sys_dup s =
     obind (argfd 0 s) (\<lambda>r s.
     case r of
       None \<Rightarrow> Ok (-1) s
     | Some (_, f) \<Rightarrow>
         obind (fdalloc f s) (\<lambda>fd s.
         if fd < 0 then Ok (-1) s
         else obind (filedup f s) (\<lambda>_ s. Ok fd s)))"

definition sys_read :: "'z file_state_scheme \<Rightarrow> (int, 'z file_state_scheme) outcome" where
  "sys_read s =
     obind (argfd 0 s) (\<lambda>r s.
     case r of
       None \<Rightarrow> Ok (-1) s
     | Some (_, f) \<Rightarrow>
         obind (argint 2 s) (\<lambda>n s.
         obind (argptr 1 (sint n) s) (\<lambda>po s.
         case po of
           None \<Rightarrow> Ok (-1) s
         | Some p \<Rightarrow> obind (fileread f (sint n) s) (\<lambda>(r, bs) s. obind (user_write p bs s) (\<lambda>_ s. Ok r s)))))"

text \<open>
  \<^verbatim>\<open>sys_write\<close> reads the bytes first. The pages below \<^verbatim>\<open>sz\<close> are mapped, so it is not visible that the code reads them as it
  goes.
\<close>

definition sys_write :: "'z file_state_scheme \<Rightarrow> (int, 'z file_state_scheme) outcome" where
  "sys_write s =
     obind (argfd 0 s) (\<lambda>r s.
     case r of
       None \<Rightarrow> Ok (-1) s
     | Some (_, f) \<Rightarrow>
         obind (argint 2 s) (\<lambda>n s.
         obind (argptr 1 (sint n) s) (\<lambda>po s.
         case po of
           None \<Rightarrow> Ok (-1) s
         | Some p \<Rightarrow> (case user_read p (nat (sint n)) s of None \<Rightarrow> kfault | Some bs \<Rightarrow> filewrite f bs (sint n) s))))"

definition sys_close :: "'z file_state_scheme \<Rightarrow> (int, 'z file_state_scheme) outcome" where
  "sys_close s =
     obind (argfd 0 s) (\<lambda>r s.
     case r of
       None \<Rightarrow> Ok (-1) s
     | Some (fd, f) \<Rightarrow> obind (clear_fd fd s) (\<lambda>_ s. obind (fileclose f s) (\<lambda>_ s. Ok 0 s)))"

text \<open>\<^verbatim>\<open>stati\<close> sets the fields of the 20 bytes of the structure; the padding keeps its bytes.\<close>

definition stat_write :: "uint \<Rightarrow> stat \<Rightarrow> 'z kmem_state_scheme \<Rightarrow> (unit, 'z kmem_state_scheme) outcome" where
  "stat_write p st s =
     obind (user_write (p + 4) (le32 (st_dev st)) s) (\<lambda>_ s.
     obind (user_write (p + 8) (le32 (st_ino st)) s) (\<lambda>_ s.
     obind (user_write p (le16 (st_type st)) s) (\<lambda>_ s.
     obind (user_write (p + 12) (le16 (st_nlink st)) s) (\<lambda>_ s.
     user_write (p + 16) (le32 (st_size st)) s))))"

definition sys_fstat :: "'z file_state_scheme \<Rightarrow> (int, 'z file_state_scheme) outcome" where
  "sys_fstat s =
     obind (argfd 0 s) (\<lambda>r s.
     case r of
       None \<Rightarrow> Ok (-1) s
     | Some (_, f) \<Rightarrow>
         obind (argptr 1 20 s) (\<lambda>po s.
         case po of
           None \<Rightarrow> Ok (-1) s
         | Some p \<Rightarrow>
             obind (filestat f s) (\<lambda>(r, sto) s.
             obind (case sto of None \<Rightarrow> Ok () s | Some st \<Rightarrow> stat_write p st s) (\<lambda>_ s. Ok r s))))"

section \<open>Links\<close>

definition sys_link_bad :: "nat \<Rightarrow> 'z fs_state_scheme \<Rightarrow> (int, 'z fs_state_scheme) outcome" where
  "sys_link_bad ip s =
     obind (ilock (Some ip) s) (\<lambda>_ s.
     obind (iupdate ip (upd_inode ip (\<lambda>p. p\<lparr>i_nlink := i_nlink p - 1\<rparr>) s)) (\<lambda>_ s.
     obind (iunlockput ip s) (\<lambda>_ s.
     obind (commit_trans s) (\<lambda>_ s. Ok (-1) s))))"

definition sys_link :: "'z fs_state_scheme \<Rightarrow> (int, 'z fs_state_scheme) outcome" where
  "sys_link s =
     obind (argstr 0 s) (\<lambda>oldo s.
     case oldo of
       None \<Rightarrow> Ok (-1) s
     | Some old \<Rightarrow>
     obind (argstr 1 s) (\<lambda>newo s.
     case newo of
       None \<Rightarrow> Ok (-1) s
     | Some new \<Rightarrow>
     obind (namei old s) (\<lambda>ipo s.
     case ipo of
       None \<Rightarrow> Ok (-1) s
     | Some ip \<Rightarrow>
     obind (begin_trans s) (\<lambda>_ s.
     obind (ilock (Some ip) s) (\<lambda>_ s.
     if i_type (inodes s ! ip) = T_DIR
     then obind (iunlockput ip s) (\<lambda>_ s. obind (commit_trans s) (\<lambda>_ s. Ok (-1) s))
     else
     obind (iupdate ip (upd_inode ip (\<lambda>p. p\<lparr>i_nlink := i_nlink p + 1\<rparr>) s)) (\<lambda>_ s.
     obind (iunlock (Some ip) s) (\<lambda>_ s.
     obind (nameiparent new (replicate DIRSIZ 0) s) (\<lambda>(dpo, name) s.
     case dpo of
       None \<Rightarrow> sys_link_bad ip s
     | Some dp \<Rightarrow>
     obind (ilock (Some dp) s) (\<lambda>_ s.
     obind (if i_dev (inodes s ! dp) \<noteq> i_dev (inodes s ! ip) then Ok (-1) s
            else dirlink dp (view_of name) (i_inum (inodes s ! ip)) s) (\<lambda>r s.
     if r < 0 then obind (iunlockput dp s) (\<lambda>_ s. sys_link_bad ip s)
     else
     obind (iunlockput dp s) (\<lambda>_ s.
     obind (iput ip s) (\<lambda>_ s.
     obind (commit_trans s) (\<lambda>_ s. Ok 0 s)))))))))))))"

fun isdirempty_loop :: "nat \<Rightarrow> uint list \<Rightarrow> 'z fs_state_scheme \<Rightarrow> (bool, 'z fs_state_scheme) outcome" where
  "isdirempty_loop dp [] s = Ok True s"
| "isdirempty_loop dp (off # offs) s =
     obind (readi dp off 16 s) (\<lambda>(r, d) s.
     if r \<noteq> 16 then Panic ''isdirempty: readi''
     else if de_inum (dirent_of d) \<noteq> 0 then Ok False s
     else isdirempty_loop dp offs s)"

definition isdirempty :: "nat \<Rightarrow> 'z fs_state_scheme \<Rightarrow> (bool, 'z fs_state_scheme) outcome" where
  "isdirempty dp s = isdirempty_loop dp (drop 2 (dir_offsets (i_size (inodes s ! dp)))) s"

definition sys_unlink_bad :: "nat \<Rightarrow> 'z fs_state_scheme \<Rightarrow> (int, 'z fs_state_scheme) outcome" where
  "sys_unlink_bad dp s = obind (iunlockput dp s) (\<lambda>_ s. obind (commit_trans s) (\<lambda>_ s. Ok (-1) s))"

definition sys_unlink :: "'z fs_state_scheme \<Rightarrow> (int, 'z fs_state_scheme) outcome" where
  "sys_unlink s =
     obind (argstr 0 s) (\<lambda>patho s.
     case patho of
       None \<Rightarrow> Ok (-1) s
     | Some path \<Rightarrow>
     obind (nameiparent path (replicate DIRSIZ 0) s) (\<lambda>(dpo, name) s.
     case dpo of
       None \<Rightarrow> Ok (-1) s
     | Some dp \<Rightarrow>
     obind (begin_trans s) (\<lambda>_ s.
     obind (ilock (Some dp) s) (\<lambda>_ s.
     if namecmp (view_of name) (view_of (lit ''.'')) = 0 \<or> namecmp (view_of name) (view_of (lit ''..'')) = 0 then sys_unlink_bad dp s
     else
     obind (dirlookup dp (view_of name) s) (\<lambda>r s.
     case r of
       None \<Rightarrow> sys_unlink_bad dp s
     | Some (ip, off) \<Rightarrow>
     obind (ilock (Some ip) s) (\<lambda>_ s.
     if sint (i_nlink (inodes s ! ip)) < 1 then Panic ''unlink: nlink < 1''
     else
     obind (if i_type (inodes s ! ip) = T_DIR then isdirempty ip s else Ok True s) (\<lambda>e s.
     if \<not> e then obind (iunlockput ip s) (\<lambda>_ s. sys_unlink_bad dp s)
     else
     obind (writei dp (replicate 16 0) off 16 s) (\<lambda>r s.
     if r \<noteq> 16 then Panic ''unlink: writei''
     else
     obind (if i_type (inodes s ! ip) = T_DIR
            then iupdate dp (upd_inode dp (\<lambda>p. p\<lparr>i_nlink := i_nlink p - 1\<rparr>) s)
            else Ok () s) (\<lambda>_ s.
     obind (iunlockput dp s) (\<lambda>_ s.
     obind (iupdate ip (upd_inode ip (\<lambda>p. p\<lparr>i_nlink := i_nlink p - 1\<rparr>) s)) (\<lambda>_ s.
     obind (iunlockput ip s) (\<lambda>_ s.
     obind (commit_trans s) (\<lambda>_ s. Ok 0 s)))))))))))))"

section \<open>Creation and opening\<close>

text \<open>\<^verbatim>\<open>create\<close> returns the inode locked. The inode that \<^verbatim>\<open>ialloc\<close> returns is never null.\<close>

definition create :: "uchar list \<Rightarrow> ushort \<Rightarrow> ushort \<Rightarrow> ushort \<Rightarrow> 'z fs_state_scheme \<Rightarrow> (nat option, 'z fs_state_scheme) outcome" where
  "create path type major minor s =
     obind (nameiparent path (replicate DIRSIZ 0) s) (\<lambda>(dpo, name) s.
     case dpo of
       None \<Rightarrow> Ok None s
     | Some dp \<Rightarrow>
     obind (ilock (Some dp) s) (\<lambda>_ s.
     obind (dirlookup dp (view_of name) s) (\<lambda>r s.
     case r of
       Some (ip, _) \<Rightarrow>
         obind (iunlockput dp s) (\<lambda>_ s.
         obind (ilock (Some ip) s) (\<lambda>_ s.
         if type = T_FILE \<and> i_type (inodes s ! ip) = T_FILE then Ok (Some ip) s
         else obind (iunlockput ip s) (\<lambda>_ s. Ok None s)))
     | None \<Rightarrow>
     obind (ialloc (i_dev (inodes s ! dp)) type s) (\<lambda>ip s.
     obind (ilock (Some ip) s) (\<lambda>_ s.
     obind (iupdate ip (upd_inode ip (\<lambda>p. p\<lparr>i_major := major, i_minor := minor, i_nlink := 1\<rparr>) s)) (\<lambda>_ s.
     obind (if type = T_DIR
            then obind (iupdate dp (upd_inode dp (\<lambda>p. p\<lparr>i_nlink := i_nlink p + 1\<rparr>) s)) (\<lambda>_ s.
                 obind (dirlink ip (view_of (lit ''.'')) (i_inum (inodes s ! ip)) s) (\<lambda>r s.
                 if r < 0 then Panic ''create dots''
                 else obind (dirlink ip (view_of (lit ''..'')) (i_inum (inodes s ! dp)) s) (\<lambda>r s.
                      if r < 0 then Panic ''create dots'' else Ok () s)))
            else Ok () s) (\<lambda>_ s.
     obind (dirlink dp (view_of name) (i_inum (inodes s ! ip)) s) (\<lambda>r s.
     if r < 0 then Panic ''create: dirlink''
     else obind (iunlockput dp s) (\<lambda>_ s. Ok (Some ip) s)))))))))"

definition O_RDONLY :: uint where "O_RDONLY = 0"
definition O_WRONLY :: uint where "O_WRONLY = 1"
definition O_RDWR :: uint where "O_RDWR = 2"
definition O_CREATE :: uint where "O_CREATE = 0x200"

text \<open>The first part of \<^verbatim>\<open>sys_open\<close>: the locked inode, if there is one to open.\<close>

definition open_inode :: "uchar list \<Rightarrow> uint \<Rightarrow> 'z fs_state_scheme \<Rightarrow> (nat option, 'z fs_state_scheme) outcome" where
  "open_inode path omode s =
     (if omode AND O_CREATE \<noteq> 0
      then obind (begin_trans s) (\<lambda>_ s.
           obind (create path T_FILE 0 0 s) (\<lambda>ip s.
           obind (commit_trans s) (\<lambda>_ s. Ok ip s)))
      else obind (namei path s) (\<lambda>ipo s.
           case ipo of
             None \<Rightarrow> Ok None s
           | Some ip \<Rightarrow>
               obind (ilock (Some ip) s) (\<lambda>_ s.
               if i_type (inodes s ! ip) = T_DIR \<and> omode \<noteq> O_RDONLY then obind (iunlockput ip s) (\<lambda>_ s. Ok None s)
               else Ok (Some ip) s)))"

definition sys_open :: "'z file_state_scheme \<Rightarrow> (int, 'z file_state_scheme) outcome" where
  "sys_open s =
     obind (argstr 0 s) (\<lambda>patho s.
     case patho of
       None \<Rightarrow> Ok (-1) s
     | Some path \<Rightarrow>
     obind (argint 1 s) (\<lambda>omode s.
     obind (open_inode path omode s) (\<lambda>ipo s.
     case ipo of
       None \<Rightarrow> Ok (-1) s
     | Some ip \<Rightarrow>
     obind (filealloc s) (\<lambda>fo s.
     case fo of
       None \<Rightarrow> obind (iunlockput ip s) (\<lambda>_ s. Ok (-1) s)
     | Some f \<Rightarrow>
     obind (fdalloc f s) (\<lambda>fd s.
     if fd < 0 then obind (fileclose f s) (\<lambda>_ s. obind (iunlockput ip s) (\<lambda>_ s. Ok (-1) s))
     else
     obind (iunlock (Some ip) s) (\<lambda>_ s.
     Ok fd (upd_file f (\<lambda>p. p\<lparr>f_type := FD_INODE, f_ip := Some ip, f_off := 0, f_readable := omode AND O_WRONLY = 0,
       f_writable := omode AND O_WRONLY \<noteq> 0 \<or> omode AND O_RDWR \<noteq> 0\<rparr>) s)))))))"

definition sys_mkdir :: "'z fs_state_scheme \<Rightarrow> (int, 'z fs_state_scheme) outcome" where
  "sys_mkdir s =
     obind (begin_trans s) (\<lambda>_ s.
     obind (argstr 0 s) (\<lambda>patho s.
     obind (case patho of None \<Rightarrow> Ok None s | Some path \<Rightarrow> create path T_DIR 0 0 s) (\<lambda>ipo s.
     case ipo of
       None \<Rightarrow> obind (commit_trans s) (\<lambda>_ s. Ok (-1) s)
     | Some ip \<Rightarrow> obind (iunlockput ip s) (\<lambda>_ s. obind (commit_trans s) (\<lambda>_ s. Ok 0 s)))))"

definition sys_mknod :: "'z fs_state_scheme \<Rightarrow> (int, 'z fs_state_scheme) outcome" where
  "sys_mknod s =
     obind (begin_trans s) (\<lambda>_ s.
     obind (argstr 0 s) (\<lambda>patho s.
     obind (case patho of
              None \<Rightarrow> Ok None s
            | Some path \<Rightarrow> obind (argint 1 s) (\<lambda>major s. obind (argint 2 s) (\<lambda>minor s. create path T_DEV (ucast major) (ucast minor) s))) (\<lambda>ipo s.
     case ipo of
       None \<Rightarrow> obind (commit_trans s) (\<lambda>_ s. Ok (-1) s)
     | Some ip \<Rightarrow> obind (iunlockput ip s) (\<lambda>_ s. obind (commit_trans s) (\<lambda>_ s. Ok 0 s)))))"

definition sys_chdir :: "'z fs_state_scheme \<Rightarrow> (int, 'z fs_state_scheme) outcome" where
  "sys_chdir s =
     obind (argstr 0 s) (\<lambda>patho s.
     case patho of
       None \<Rightarrow> Ok (-1) s
     | Some path \<Rightarrow>
     obind (namei path s) (\<lambda>ipo s.
     case ipo of
       None \<Rightarrow> Ok (-1) s
     | Some ip \<Rightarrow>
     obind (ilock (Some ip) s) (\<lambda>_ s.
     if i_type (inodes s ! ip) \<noteq> T_DIR then obind (iunlockput ip s) (\<lambda>_ s. Ok (-1) s)
     else
     obind (iunlock (Some ip) s) (\<lambda>_ s.
     case curproc s of
       None \<Rightarrow> kfault
     | Some q \<Rightarrow>
         obind (case p_cwd (ptable s ! q) of None \<Rightarrow> ub | Some cwd \<Rightarrow> iput cwd s) (\<lambda>_ s.
         Ok 0 (upd_proc q (\<lambda>p. p\<lparr>p_cwd := Some ip\<rparr>) s))))))"

section \<open>exec and pipe\<close>

text \<open>The loop of \<^verbatim>\<open>sys_exec\<close> at index \<^verbatim>\<open>i\<close>, with as many entries of \<^verbatim>\<open>argv\<close> left as the first argument says.\<close>

fun sys_exec_args :: "nat \<Rightarrow> uint \<Rightarrow> uchar list list \<Rightarrow> 'z kmem_state_scheme \<Rightarrow> (uchar list list option, 'z kmem_state_scheme) outcome" where
  "sys_exec_args 0 uargv acc s = Ok None s"
| "sys_exec_args (Suc n) uargv acc s =
     obind (fetchint (uargv + 4 * of_nat (length acc)) s) (\<lambda>uargo s.
     case uargo of
       None \<Rightarrow> Ok None s
     | Some uarg \<Rightarrow>
         if uarg = 0 then Ok (Some acc) s
         else obind (fetchstr uarg s) (\<lambda>stro s.
              case stro of None \<Rightarrow> Ok None s | Some str \<Rightarrow> sys_exec_args n uargv (acc @ [str]) s))"

definition sys_exec :: "'z fs_state_scheme \<Rightarrow> (int, 'z fs_state_scheme) outcome" where
  "sys_exec s =
     obind (argstr 0 s) (\<lambda>patho s.
     case patho of
       None \<Rightarrow> Ok (-1) s
     | Some path \<Rightarrow>
         obind (argint 1 s) (\<lambda>uargv s.
         obind (sys_exec_args MAXARG uargv [] s) (\<lambda>argvo s.
         case argvo of None \<Rightarrow> Ok (-1) s | Some argv \<Rightarrow> exec path argv s)))"

definition sys_pipe :: "'z file_state_scheme \<Rightarrow> (int, 'z file_state_scheme) outcome" where
  "sys_pipe s =
     obind (argptr 0 8 s) (\<lambda>po s.
     case po of
       None \<Rightarrow> Ok (-1) s
     | Some p \<Rightarrow>
         obind (pipealloc s) (\<lambda>r s.
         case r of
           (c, Some rfile, Some wfile) \<Rightarrow>
             if c < 0 then Ok (-1) s
             else (let close2 = (\<lambda>s. obind (fileclose rfile s) (\<lambda>_ s. obind (fileclose wfile s) (\<lambda>_ s. Ok (-1) s)))
              in obind (fdalloc rfile s) (\<lambda>fd0 s.
                 if fd0 < 0 then close2 s
                 else obind (fdalloc wfile s) (\<lambda>fd1 s.
                      if fd1 < 0 then obind (clear_fd (nat fd0) s) (\<lambda>_ s. close2 s)
                      else obind (user_write p (le32 (word_of_int fd0)) s) (\<lambda>_ s.
                           obind (user_write (p + 4) (le32 (word_of_int fd1)) s) (\<lambda>_ s. Ok 0 s)))))
         | _ \<Rightarrow> Ok (-1) s))"

section \<open>Duplicating and closing\<close>

lemma fdalloc_scan_Some:
  "fdalloc_scan k fs = Some fd \<Longrightarrow> k \<le> fd \<and> fd - k < length fs \<and> fs ! (fd - k) = None \<and> (\<forall>j<fd - k. fs ! j \<noteq> None)"
proof (induction fs arbitrary: k)
  case (Cons f fs)
  show ?case
  proof (cases "f = None")
    case True
    then show ?thesis using Cons.prems by simp
  next
    case False
    then have "fdalloc_scan (Suc k) fs = Some fd" using Cons.prems by (simp split: if_splits)
    from Cons.IH [OF this] obtain d where d: "fd - k = Suc d" "fd - Suc k = d" "Suc k \<le> fd"
      by (metis Suc_diff_Suc Suc_le_eq)
    then show ?thesis using Cons.IH [OF \<open>fdalloc_scan (Suc k) fs = Some fd\<close>] False by (auto simp: All_less_Suc2)
  qed
qed simp

lemma fdalloc_scan_None: "fdalloc_scan k fs = None \<longleftrightarrow> None \<notin> set fs"
  by (induction fs arbitrary: k) auto

definition with_fd :: "nat \<Rightarrow> nat \<Rightarrow> 'z sched_state_scheme \<Rightarrow> 'z sched_state_scheme" where
  "with_fd q fd s = upd_proc q (\<lambda>p. p\<lparr>p_tf := (p_tf p)\<lparr>tf_r1 := of_nat fd\<rparr>\<rparr>) s"

lemma argfd_ok:
  assumes "curproc s = Some q" "tf_r1 (p_tf (ptable s ! q)) = of_nat fd" "fd < NOFILE"
  shows "argfd 0 s = Ok (map_option (Pair fd) (p_ofile (ptable s ! q) ! fd)) s"
proof -
  have "fd < 16" using assms(3) by (simp add: NOFILE_def)
  then have "sint (of_nat fd :: uint) = int fd"
    by (simp add: signed_of_nat signed_take_bit_int_eq_self)
  then show ?thesis
    using assms argint_ok [of s "ptable s ! q" 0] by (simp add: argfd_def the_proc_def split: option.split)
qed

lemma upd_file_back:
  "f < length (ftable s) \<Longrightarrow> upd_file f (\<lambda>p. p\<lparr>f_ref := f_ref p - 1\<rparr>) (upd_file f (\<lambda>p. p\<lparr>f_ref := f_ref p + 1\<rparr>) s) = s"
  by (simp add: upd_file_def)

lemma upd_proc_upd_file: "upd_proc q g (upd_file f h s) = upd_file f h (upd_proc q g s)"
  by (simp add: upd_proc_def upd_file_def)

lemma clear_fd_alloc:
  assumes "q < length (ptable s)" "p_ofile (ptable s ! q) ! fd = None"
  shows "upd_proc q (\<lambda>p. p\<lparr>p_ofile := (p_ofile p)[fd := None]\<rparr>) (with_fd q fd (upd_proc q (\<lambda>p. p\<lparr>p_ofile := (p_ofile p)[fd := Some f]\<rparr>) s)) = with_fd q fd s"
proof -
  have "(p_ofile (ptable s ! q))[fd := None] = p_ofile (ptable s ! q)" using assms(2) by (metis list_update_id)
  then show ?thesis using assms(1) by (simp add: upd_proc_def with_fd_def)
qed

text \<open>
  C34. \<^verbatim>\<open>dup\<close> and \<^verbatim>\<open>close\<close>: with a free descriptor \<^verbatim>\<open>dup\<close> returns the least one, which then names the same file, whose count grows by
  one, and closing it gives the state back as it was, but for the argument register; with none it returns \<open>-1\<close> and
  changes nothing.
\<close>

theorem sys_dup_close:
  fixes s :: "'z file_state_scheme"
  assumes "quiet s" "curproc s = Some q" "q < length (ptable s)" "length (p_ofile (ptable s ! q)) = NOFILE"
    and "tf_r1 (p_tf (ptable s ! q)) = of_nat fd0" "fd0 < NOFILE" "p_ofile (ptable s ! q) ! fd0 = Some f"
    and "f < length (ftable s)" "1 \<le> f_ref (ftable s ! f)"
  shows "if None \<notin> set (p_ofile (ptable s ! q)) then sys_dup s = Ok (-1) s
    else \<exists>fd t. fd < NOFILE \<and> p_ofile (ptable s ! q) ! fd = None \<and> (\<forall>j<fd. p_ofile (ptable s ! q) ! j \<noteq> None) \<and>
      sys_dup s = Ok (int fd) t \<and> p_ofile (ptable t ! q) = (p_ofile (ptable s ! q))[fd := Some f] \<and>
      f_ref (ftable t ! f) = f_ref (ftable s ! f) + 1 \<and> sys_close (with_fd q fd t) = Ok 0 (with_fd q fd s)"
proof (cases "fdalloc_scan 0 (p_ofile (ptable s ! q))")
  case None
  then have "None \<notin> set (p_ofile (ptable s ! q))" by (simp add: fdalloc_scan_None)
  then show ?thesis using None assms(2) argfd_ok [OF assms(2,5,6)] assms(7) by (simp add: sys_dup_def fdalloc_def)
next
  case (Some fd)
  note fd = fdalloc_scan_Some [OF Some]
  let ?u = "upd_proc q (\<lambda>p. p\<lparr>p_ofile := (p_ofile p)[fd := Some f]\<rparr>) s"
  let ?t = "upd_file f (\<lambda>p. p\<lparr>f_ref := f_ref p + 1\<rparr>) ?u"
  have u: "quiet ?u" "ftable ?u = ftable s" using assms(1) by (simp_all add: upd_proc_def quiet_def)
  have d: "sys_dup s = Ok (int fd) ?t"
    using argfd_ok [OF assms(2,5,6)] assms(2,7,9) Some filedup_ok [OF u(1), of f] u(2) by (simp add: sys_dup_def fdalloc_def)
  let ?w = "with_fd q fd ?u"
  have w: "with_fd q fd ?t = upd_file f (\<lambda>p. p\<lparr>f_ref := f_ref p + 1\<rparr>) ?w" by (simp add: with_fd_def upd_proc_upd_file)
  have c: "curproc (with_fd q fd ?t) = Some q" "tf_r1 (p_tf (ptable (with_fd q fd ?t) ! q)) = of_nat fd" "fd < NOFILE"
    "p_ofile (ptable (with_fd q fd ?t) ! q) ! fd = Some f"
    using assms(2-4) fd by (simp_all add: with_fd_def upd_proc_def upd_file_def)
  let ?v = "upd_file f (\<lambda>p. p\<lparr>f_ref := f_ref p + 1\<rparr>) (with_fd q fd s)"
  have v: "upd_proc q (\<lambda>p. p\<lparr>p_ofile := (p_ofile p)[fd := None]\<rparr>) (with_fd q fd ?t) = ?v"
    using clear_fd_alloc [OF assms(3), of fd f] fd unfolding w upd_proc_upd_file by simp
  have "fileclose f ?v = Ok () (upd_file f (\<lambda>p. p\<lparr>f_ref := f_ref p - 1\<rparr>) ?v)"
    using assms(1,8,9) by (intro fileclose_shared) (simp_all add: with_fd_def upd_proc_def upd_file_def quiet_def)
  also have "upd_file f (\<lambda>p. p\<lparr>f_ref := f_ref p - 1\<rparr>) ?v = with_fd q fd s"
    using assms(8) by (intro upd_file_back) (simp add: with_fd_def upd_proc_def)
  finally have "sys_close (with_fd q fd ?t) = Ok 0 (with_fd q fd s)"
    using argfd_ok [OF c(1-3)] c(1,4) v by (simp add: sys_close_def clear_fd_def)
  moreover have "None \<in> set (p_ofile (ptable s ! q))" using Some fdalloc_scan_None [of 0 "p_ofile (ptable s ! q)"] by auto
  ultimately show ?thesis
    using d fd assms(3,4,8) by (simp only: not_not if_False simp_thms, intro exI [of _ fd] exI [of _ ?t]) (auto simp: upd_proc_def upd_file_def)
qed

definition dup_state :: file_state where
  "dup_state = exit_state\<lparr>ptable := [zero_proc\<lparr>p_tf := zero_tf\<lparr>tf_r1 := 1\<rparr>, p_ofile := [None, Some 0] @ replicate 14 None\<rparr>],
     curproc := Some 0,
     ftable := [\<lparr>f_type = FD_INODE, f_ref = 1, f_readable = True, f_writable = False, f_pipe = 0, f_ip = Some 0, f_off = 0\<rparr>]\<rparr>"

theorem sys_dup_close_witness:
  "\<exists>fd t. sys_dup dup_state = Ok (int fd) t \<and> f_ref (ftable t ! 0) = 2 \<and> sys_close (with_fd 0 fd t) = Ok 0 (with_fd 0 fd dup_state)"
proof -
  have "quiet dup_state" using boot_cons_fields(3) by (simp add: dup_state_def exit_state_def quiet_def)
  then show ?thesis
    using sys_dup_close [of dup_state 0 1 0] by (auto simp: dup_state_def NOFILE_def)
qed

end
