(* ===== verification/Xv6_Trap.thy ===== *)
theory Xv6_Trap
  imports Xv6_Sysfile
begin

text \<open>
  Entry into the kernel: the system call dispatch of \<^verbatim>\<open>kernel/syscall.c\<close>, the handlers of \<^verbatim>\<open>kernel/trap.c\<close>, the interrupt
  controller (\<^verbatim>\<open>kernel/picirq.c\<close>), the timer (\<^verbatim>\<open>kernel/timer.c\<close>), the interrupt side of the serial line (\<^verbatim>\<open>kernel/uart.c\<close>) and the start-up
  sequence of \<^verbatim>\<open>kernel/main.c\<close>. Writes to device registers go to a log; what is read from a device is an argument.
\<close>

section \<open>System call dispatch\<close>

definition syscalls :: "nat \<Rightarrow> 'z file_state_scheme \<Rightarrow> (int, 'z file_state_scheme) outcome" where
  "syscalls num =
     (if num = 1 then sys_fork else if num = 2 then sys_exit else if num = 3 then sys_wait else if num = 4 then sys_pipe
      else if num = 5 then sys_read else if num = 6 then sys_kill else if num = 7 then sys_exec else if num = 8 then sys_fstat
      else if num = 9 then sys_chdir else if num = 10 then sys_dup else if num = 11 then sys_getpid else if num = 12 then sys_sbrk
      else if num = 13 then sys_sleep else if num = 14 then sys_uptime else if num = 15 then sys_open else if num = 16 then sys_write
      else if num = 17 then sys_mknod else if num = 18 then sys_unlink else if num = 19 then sys_link else if num = 20 then sys_mkdir
      else if num = 21 then sys_close else (\<lambda>s. ub))"

definition SYS_exec :: int where "SYS_exec = 7"

text \<open>The array has 22 elements, the first of them null; the guard of the code also admits the index 22.\<close>

definition NELEM_syscalls :: int where "NELEM_syscalls = 22"

definition set_r0 :: "uint \<Rightarrow> 'z sched_state_scheme \<Rightarrow> (unit, 'z sched_state_scheme) outcome" where
  "set_r0 v s =
     (case curproc s of
        None \<Rightarrow> kfault
      | Some q \<Rightarrow> Ok () (upd_proc q (\<lambda>p. p\<lparr>p_tf := (p_tf p)\<lparr>tf_r0 := v\<rparr>\<rparr>) s))"

definition syscall :: "'z file_state_scheme \<Rightarrow> (unit, 'z file_state_scheme) outcome" where
  "syscall s =
     (case the_proc s of
        None \<Rightarrow> kfault
      | Some p \<Rightarrow>
          let num = sint (tf_r0 (p_tf p))
          in if num > 0 \<and> num \<le> NELEM_syscalls
             then obind (syscalls (nat num) s) (\<lambda>ret s. if num \<noteq> SYS_exec then set_r0 (word_of_int ret) s else Ok () s)
             else obind (cprintf (Some (lit ''%d %s: unknown sys call %d'' @ [10]))
                    [CInt (word_of_int (p_pid p)), CStr (Some (cstr_of (p_name p))), CInt (word_of_int num)] s) (\<lambda>_ s.
                  set_r0 (-1) s))"

section \<open>Handlers\<close>

definition swi_handler :: "trapframe \<Rightarrow> 'z file_state_scheme \<Rightarrow> (unit, 'z file_state_scheme) outcome" where
  "swi_handler r s =
     (case curproc s of
        None \<Rightarrow> kfault
      | Some q \<Rightarrow>
          obind (if p_killed (ptable s ! q) then exit s else Ok () s) (\<lambda>_ s.
          obind (syscall (upd_proc q (\<lambda>p. p\<lparr>p_tf := r\<rparr>) s)) (\<lambda>_ s.
          if p_killed (ptable s ! q) then exit s else Ok () s)))"

fun dump_regs :: "(string \<times> uint) list \<Rightarrow> 'z cons_state_scheme \<Rightarrow> (unit, 'z cons_state_scheme) outcome" where
  "dump_regs [] s = Ok () s"
| "dump_regs ((label, v) # rs) s =
     obind (cprintf (Some (lit (label @ '': 0x%x'') @ [10])) [CInt v] s) (\<lambda>_ s. dump_regs rs s)"

definition dump_tf :: "trapframe \<Rightarrow> 'z cons_state_scheme \<Rightarrow> (unit, 'z cons_state_scheme) outcome" where
  "dump_tf tf s =
     dump_regs [(''r14_svc'', tf_r14_svc tf), (''   spsr'', tf_spsr tf), (''     r0'', tf_r0 tf), (''     r1'', tf_r1 tf), (''     r2'', tf_r2 tf),
       (''     r3'', tf_r3 tf), (''     r4'', tf_r4 tf), (''     r5'', tf_r5 tf), (''     r6'', tf_r6 tf), (''     r7'', tf_r7 tf),
       (''     r8'', tf_r8 tf), (''     r9'', tf_r9 tf), (''    r10'', tf_r10 tf), (''    r11'', tf_r11 tf), (''    r12'', tf_r12 tf),
       (''     pc'', tf_pc tf)] s"

definition abort_reason :: "uint \<Rightarrow> 'z cons_state_scheme \<Rightarrow> (unit, 'z cons_state_scheme) outcome" where
  "abort_reason fault_status s =
     (let f = fault_status AND 0xd;
          m = (if f = 1 then ''reason: alignment''
               else if f = 5 then ''reason: ext. abort on trnslt.''
               else if f = 5 then ''reason: sect. translation''
               else if f = 9 then ''reason: sect. domain''
               else if f = 0xd then ''reason: sect. permission''
               else if f = 8 then ''reason: ext. abort''
               else ''reason: unknown???'')
      in cprintf (Some (lit m @ [10])) [] s)"

text \<open>The handlers that only report and stop. The text is that of the first \<^verbatim>\<open>cprintf\<close> and of the \<^verbatim>\<open>panic\<close>.\<close>

definition stop_handler :: "string \<Rightarrow> string \<Rightarrow> trapframe \<Rightarrow> 'z cons_state_scheme \<Rightarrow> (unit, 'z cons_state_scheme) outcome" where
  "stop_handler at msg r s = obind (cprintf (Some (lit at @ [10])) [CInt (tf_pc r)] (cli s)) (\<lambda>_ s. Panic msg)"

definition reset_handler :: "trapframe \<Rightarrow> 'z cons_state_scheme \<Rightarrow> (unit, 'z cons_state_scheme) outcome" where
  "reset_handler = stop_handler ''reset at: 0x%x '' ''reset - you reset the pc!\<newline>''"

definition und_handler :: "trapframe \<Rightarrow> 'z cons_state_scheme \<Rightarrow> (unit, 'z cons_state_scheme) outcome" where
  "und_handler = stop_handler ''und at: 0x%x '' ''undefined instruction exception\<newline>''"

definition reserved_handler :: "trapframe \<Rightarrow> 'z cons_state_scheme \<Rightarrow> (unit, 'z cons_state_scheme) outcome" where
  "reserved_handler = stop_handler ''n/a at: 0x%x '' ''reserved exception''"

definition fiq_handler :: "trapframe \<Rightarrow> 'z cons_state_scheme \<Rightarrow> (unit, 'z cons_state_scheme) outcome" where
  "fiq_handler = stop_handler ''fiq at: 0x%x '' ''fiq exception - fiq not implemented, sorry!''"

text \<open>\<^verbatim>\<open>dabort_handler\<close> and \<^verbatim>\<open>iabort_handler\<close>, with the fault status and address they read from the coprocessor.\<close>

definition abort_handler :: "string \<Rightarrow> string \<Rightarrow> uint \<Rightarrow> uint \<Rightarrow> trapframe \<Rightarrow> 'z file_state_scheme \<Rightarrow> (unit, 'z file_state_scheme) outcome" where
  "abort_handler at msg status addr r s =
     obind (cprintf (Some (lit ''program counter: 0x%x caused'' @ [10])) [CInt (tf_pc r)] (cli s)) (\<lambda>_ s.
     obind (cprintf (Some (lit at @ [10])) [CInt addr, CInt status] s) (\<lambda>_ s.
     obind (abort_reason status s) (\<lambda>_ s.
     obind (dump_tf r s) (\<lambda>_ s.
     if tf_pc r < KERNBASE then exit s else Panic msg))))"

definition dabort_handler :: "uint \<Rightarrow> uint \<Rightarrow> trapframe \<Rightarrow> 'z file_state_scheme \<Rightarrow> (unit, 'z file_state_scheme) outcome" where
  "dabort_handler dfs dfa = abort_handler ''data abort at 0x%x, status 0x%x'' ''data abort exception'' dfs dfa"

definition iabort_handler :: "uint \<Rightarrow> uint \<Rightarrow> trapframe \<Rightarrow> 'z file_state_scheme \<Rightarrow> (unit, 'z file_state_scheme) outcome" where
  "iabort_handler ifs ifa = abort_handler ''prefetch abort at 0x%x, status 0x%x'' ''prefetch abort exception'' ifs ifa"

section \<open>Interrupt controller, timer and serial line\<close>

datatype isr = NoIsr | Default_isr | Isr_timer | Isr_uart

record trap_state = file_state +
  isrs :: "isr list"
  dev_log :: "(uint \<times> uint) list"
  mode_stk :: "(uint \<times> uint) list"

definition NUM_INTSRC :: int where "NUM_INTSRC = 32"
definition PIC_TIMER01 :: int where "PIC_TIMER01 = 4"
definition PIC_UART0 :: int where "PIC_UART0 = 12"
definition VIC_BASE :: uint where "VIC_BASE = 0x10140000"
definition TIMER0 :: uint where "TIMER0 = 0x101E2000"
definition UART0 :: uint where "UART0 = 0x101F1000"

text \<open>A write of register \<open>i\<close>, counted in words, of the device at a physical address.\<close>

definition dev_write_reg :: "uint \<Rightarrow> uint \<Rightarrow> uint \<Rightarrow> 'z trap_state_scheme \<Rightarrow> 'z trap_state_scheme" where
  "dev_write_reg base i v s = s\<lparr>dev_log := dev_log s @ [(P2V base + 4 * i, v)]\<rparr>"

definition pic_init :: "'z trap_state_scheme \<Rightarrow> 'z trap_state_scheme" where
  "pic_init s = (dev_write_reg VIC_BASE 5 0xFFFFFFFF s)\<lparr>isrs := replicate (nat NUM_INTSRC) Default_isr\<rparr>"

definition pic_enable :: "int \<Rightarrow> isr \<Rightarrow> 'z trap_state_scheme \<Rightarrow> (unit, 'z trap_state_scheme) outcome" where
  "pic_enable n f s =
     (if n < 0 \<or> n \<ge> NUM_INTSRC then Panic ''invalid interrupt source''
      else Ok () (dev_write_reg VIC_BASE 4 (push_bit (nat n) 1) (s\<lparr>isrs := (isrs s)[nat n := f]\<rparr>)))"

definition pic_disable :: "int \<Rightarrow> 'z trap_state_scheme \<Rightarrow> (unit, 'z trap_state_scheme) outcome" where
  "pic_disable n s =
     (if n < 0 \<or> n \<ge> NUM_INTSRC then Panic ''invalid interrupt source''
      else let s = dev_write_reg VIC_BASE 5 (push_bit (nat n) 1) s in Ok () (s\<lparr>isrs := (isrs s)[nat n := Default_isr]\<rparr>))"

definition default_isr :: "nat \<Rightarrow> 'z trap_state_scheme \<Rightarrow> (unit, 'z trap_state_scheme) outcome" where
  "default_isr n s = cprintf (Some (lit ''unhandled interrupt: %d'' @ [10])) [CInt (of_nat n)] s"

definition timer_init :: "int \<Rightarrow> 'z trap_state_scheme \<Rightarrow> (unit, 'z trap_state_scheme) outcome" where
  "timer_init hz s =
     (let s = initlock TicksLock s;
          s = dev_write_reg TIMER0 0 (word_of_int (1000000 div hz)) s;
          s = dev_write_reg TIMER0 2 (0x80 OR 0x40 OR 0x02 OR 0x20) s
      in pic_enable PIC_TIMER01 Isr_timer s)"

definition isr_timer :: "'z trap_state_scheme \<Rightarrow> (unit, 'z trap_state_scheme) outcome" where
  "isr_timer s =
     obind (acquire TicksLock s) (\<lambda>_ s.
     obind (wakeup ChanTicks (s\<lparr>ticks := ticks s + 1\<rparr>)) (\<lambda>_ s.
     obind (release TicksLock s) (\<lambda>_ s. Ok () (dev_write_reg TIMER0 3 1 s))))"

text \<open>What the devices and the kernel stack show during an interrupt.\<close>

record irq_env =
  env_status :: uint
  env_mis :: uint
  env_chars :: "int list"
  env_stk :: "uint \<Rightarrow> uint"
  env_fp :: uint

definition uart_init :: "uint \<Rightarrow> uint \<Rightarrow> 'z trap_state_scheme \<Rightarrow> 'z trap_state_scheme" where
  "uart_init cr lcr s =
     (let left = 24000000 mod (16 * 19200);
          s = dev_write_reg UART0 9 (24000000 div (16 * 19200)) s;
          s = dev_write_reg UART0 10 ((left * 4 + 19200 div 2) div 19200) s;
          s = dev_write_reg UART0 12 (cr OR 1 OR 0x200 OR 0x100) s
      in dev_write_reg UART0 11 (lcr OR 0x10) s)"

definition uart_enable_rx :: "'z trap_state_scheme \<Rightarrow> (unit, 'z trap_state_scheme) outcome" where
  "uart_enable_rx s = pic_enable PIC_UART0 Isr_uart (dev_write_reg UART0 14 0x10 s)"

definition isr_uart :: "irq_env \<Rightarrow> 'z trap_state_scheme \<Rightarrow> (unit, 'z trap_state_scheme) outcome" where
  "isr_uart env s =
     obind (if env_mis env AND 0x10 \<noteq> 0 then consoleintr (env_stk env) (env_fp env) (env_chars env) s else Ok () s) (\<lambda>_ s.
     Ok () (dev_write_reg UART0 17 (0x10 OR 0x20) s))"

definition run_isr :: "irq_env \<Rightarrow> nat \<Rightarrow> 'z trap_state_scheme \<Rightarrow> (unit, 'z trap_state_scheme) outcome" where
  "run_isr env i s =
     (case isrs s ! i of
        NoIsr \<Rightarrow> ub
      | Default_isr \<Rightarrow> default_isr i s
      | Isr_timer \<Rightarrow> isr_timer s
      | Isr_uart \<Rightarrow> isr_uart env s)"

fun pic_dispatch_loop :: "irq_env \<Rightarrow> nat list \<Rightarrow> 'z trap_state_scheme \<Rightarrow> (unit, 'z trap_state_scheme) outcome" where
  "pic_dispatch_loop env [] s = Ok () s"
| "pic_dispatch_loop env (i # is) s =
     obind (if bit (env_status env) i then run_isr env i s else Ok () s) (\<lambda>_ s. pic_dispatch_loop env is s)"

definition pic_dispatch :: "irq_env \<Rightarrow> 'z trap_state_scheme \<Rightarrow> (unit, 'z trap_state_scheme) outcome" where
  "pic_dispatch env s = pic_dispatch_loop env [0..<nat NUM_INTSRC] s"

definition irq_handler :: "irq_env \<Rightarrow> trapframe \<Rightarrow> 'z trap_state_scheme \<Rightarrow> (unit, 'z trap_state_scheme) outcome" where
  "irq_handler env r s =
     pic_dispatch env (case curproc s of None \<Rightarrow> s | Some q \<Rightarrow> upd_proc q (\<lambda>p. p\<lparr>p_tf := r\<rparr>) s)"

section \<open>Start-up\<close>

fun trap_stacks :: "uint list \<Rightarrow> 'z trap_state_scheme \<Rightarrow> (unit, 'z trap_state_scheme) outcome" where
  "trap_stacks [] s = Ok () s"
| "trap_stacks (m # ms) s =
     obind (kalloc s) (\<lambda>stk s.
     if stk = 0 then Panic ''irq stack allocation failed''
     else trap_stacks ms (s\<lparr>mode_stk := mode_stk s @ [(m, stk)]\<rparr>))"

definition VEC_TBL :: uint where "VEC_TBL = 0xFFFF0000"

fun put_words :: "uint \<Rightarrow> uint list \<Rightarrow> mem \<Rightarrow> mem" where
  "put_words a [] m = m"
| "put_words a (w # ws) m = put_words (a + 4) ws (store32 a w m)"

text \<open>\<^verbatim>\<open>trap_init\<close>, with the addresses of the eight assembly entry points. The modes are FIQ, IRQ, abort and undefined.\<close>

definition trap_init :: "uint list \<Rightarrow> 'z trap_state_scheme \<Rightarrow> (unit, 'z trap_state_scheme) outcome" where
  "trap_init entries s =
     (let s = s\<lparr>kmem_mem := put_words VEC_TBL (replicate 8 0xE59FF018) (kmem_mem s)\<rparr>;
          s = s\<lparr>kmem_mem := put_words (VEC_TBL + 32) entries (kmem_mem s)\<rparr>
      in trap_stacks [0x11, 0x12, 0x17, 0x1b] s)"

text \<open>
  What \<^verbatim>\<open>kmain\<close> does before it enters the scheduler. The record holds what the build and the hardware give it.
\<close>

record boot_env =
  bt_uart_cr :: uint
  bt_uart_lcr :: uint
  bt_entries :: "uint list"
  bt_image :: "uint \<Rightarrow> uchar list"
  bt_disksize :: uint
  bt_initcode :: "uchar list"
  bt_error_init :: uint
  bt_cpsr :: uint

definition HZ :: int where "HZ = 10"

definition kmain :: "boot_env \<Rightarrow> 'z trap_state_scheme \<Rightarrow> (unit, 'z trap_state_scheme) outcome" where
  "kmain e s =
     obind (cprintf (Some (lit ''paging enabled.'' @ [10])) [] (uart_init (bt_uart_cr e) (bt_uart_lcr e) s)) (\<lambda>_ s.
     let s = kinit1 s
     in obind (freerange (kern_end s) (P2V PHYSTOP) s) (\<lambda>_ s.
        obind (trap_init (bt_entries e) s) (\<lambda>_ s.
        obind (uart_enable_rx (pic_init s)) (\<lambda>_ s.
        let s = ideinit (bt_image e) (bt_disksize e) (iinit (fileinit (binit (pinit (consoleinit s)))))
        in obind (timer_init HZ s) (\<lambda>_ s.
           userinit (bt_initcode e) (bt_error_init e) (bt_cpsr e) (kinit2 s))))))"

section \<open>Sleeping for ticks\<close>

text \<open>A process that the scheduler has dispatched, on its way out of \<^verbatim>\<open>sched\<close>: it runs with \<^verbatim>\<open>ptable.lock\<close> held.\<close>

definition dispatched :: "nat \<Rightarrow> 'z sched_state_scheme \<Rightarrow> bool" where
  "dispatched q w \<longleftrightarrow> curproc w = Some q \<and> q < length (ptable w) \<and> \<not> irq w \<and> \<not> intena w \<and> ncli w = 1 \<and>
     locks w = (\<lambda>_. lk_free)(PtableLock := lk_held)"

lemma sys_sleep_body_ok:
  fixes s :: "'z sched_state_scheme"
  assumes "curproc s = Some q" "q < length (ptable s)" "\<not> irq s" "\<not> intena s" "ncli s = 1" "locks s = (\<lambda>_. lk_free)(TicksLock := lk_held)"
  shows "sys_sleep_body n t0 s =
    (if ticks s - t0 < n then if p_killed (ptable s ! q) then Ok (-1) (s\<lparr>ncli := 0, locks := (\<lambda>_. lk_free)\<rparr>)
       else Blocked (sleeping_on ChanTicks q TicksLock s)
     else Ok 0 (s\<lparr>ncli := 0, locks := (\<lambda>_. lk_free)\<rparr>))"
proof -
  have r: "release TicksLock s = Ok () (s\<lparr>ncli := 0, locks := (\<lambda>_. lk_free)\<rparr>)"
    using release_exec [of s TicksLock] assms by simp
  have "sleep ChanTicks (Some TicksLock) s = (Blocked (sleeping_on ChanTicks q TicksLock s) :: (int, 'z sched_state_scheme) outcome)"
    using assms by (intro sleep_exec) simp_all
  then show ?thesis using assms(1) r by (simp add: sys_sleep_body_def the_proc_def)
qed

lemma sys_sleep_ok:
  assumes "quiet s" "curproc s = Some q"
  shows "sys_sleep s = sys_sleep_body (tf_r1 (p_tf (ptable s ! q))) (ticks s) (s\<lparr>ncli := 1, locks := (\<lambda>_. lk_free)(TicksLock := lk_held)\<rparr>)"
proof -
  have "acquire TicksLock s = Ok () (s\<lparr>ncli := 1, locks := (\<lambda>_. lk_free)(TicksLock := lk_held)\<rparr>)" using assms(1) by (simp add: kexec)
  then show ?thesis using assms(2) argint_ok [of s "ptable s ! q" 0] by (simp add: sys_sleep_def the_proc_def)
qed

lemma sys_sleep_resume_ok:
  fixes w :: "'z sched_state_scheme"
  assumes "dispatched q w"
  shows "sys_sleep_resume n t0 w =
    sys_sleep_body n t0 ((upd_proc q (\<lambda>p. p\<lparr>p_chan := None\<rparr>) w)\<lparr>ncli := 1, locks := (\<lambda>_. lk_free)(TicksLock := lk_held)\<rparr>)"
proof -
  let ?u = "upd_proc q (\<lambda>p. p\<lparr>p_chan := None\<rparr>) w"
  have d: "curproc w = Some q" "\<not> irq w" "\<not> intena w" "ncli w = 1" "locks w = (\<lambda>_. lk_free)(PtableLock := lk_held)"
    using assms by (simp_all add: dispatched_def)
  have r: "release PtableLock ?u = Ok () (?u\<lparr>ncli := 0, locks := (\<lambda>_. lk_free)\<rparr>)"
    using release_exec [of ?u PtableLock] d by (simp add: upd_proc_def)
  have "acquire TicksLock (?u\<lparr>ncli := 0, locks := (\<lambda>_. lk_free)\<rparr>) = Ok () (?u\<lparr>ncli := 1, locks := (\<lambda>_. lk_free)(TicksLock := lk_held)\<rparr>)"
    using acquire_exec [of "?u\<lparr>ncli := 0, locks := (\<lambda>_. lk_free)\<rparr>" TicksLock] d by (simp add: upd_proc_def)
  then show ?thesis using d(1) r by (simp add: sys_sleep_resume_def sleep_resume_def Let_def)
qed

lemma isr_timer_ok:
  fixes u :: "'z trap_state_scheme"
  assumes "quiet u"
  shows "isr_timer u = Ok () (dev_write_reg TIMER0 3 1 (wakeup1 ChanTicks (u\<lparr>ticks := ticks u + 1\<rparr>)))"
proof -
  let ?a = "u\<lparr>ncli := 1, locks := (\<lambda>_. lk_free)(TicksLock := lk_held)\<rparr>"
  have q: "irq u = False" "intena u = False" "ncli u = 0" "locks u = (\<lambda>_. lk_free)" using assms by (simp_all add: quiet_def)
  have a: "acquire TicksLock u = Ok () ?a" using assms by (simp add: kexec)
  have "wakeup ChanTicks (?a\<lparr>ticks := ticks u + 1\<rparr>) = Ok () (wakeup1 ChanTicks (?a\<lparr>ticks := ticks u + 1\<rparr>))"
    using q by (intro wakeup_exec) simp_all
  then have w: "wakeup ChanTicks (?a\<lparr>ticks := ticks ?a + 1\<rparr>) = Ok () (wakeup1 ChanTicks (?a\<lparr>ticks := ticks u + 1\<rparr>))" by simp
  let ?w = "wakeup1 ChanTicks (?a\<lparr>ticks := ticks u + 1\<rparr>)"
  have "release TicksLock ?w = Ok () (?w\<lparr>ncli := 0, locks := (\<lambda>_. lk_free)\<rparr>)"
    using release_exec [of ?w TicksLock] q by (simp add: wakeup1_def)
  also have "?w\<lparr>ncli := 0, locks := (\<lambda>_. lk_free)\<rparr> = wakeup1 ChanTicks (u\<lparr>ticks := ticks u + 1\<rparr>)"
    using q by (simp add: wakeup1_def)
  finally have r: "release TicksLock ?w = Ok () (wakeup1 ChanTicks (u\<lparr>ticks := ticks u + 1\<rparr>))" .
  show ?thesis unfolding isr_timer_def a obind.simps w r ..
qed

text \<open>
  C32. \<^verbatim>\<open>sleep(n)\<close> and the timer: with \<open>n = 0\<close> the call returns at once; otherwise the process sleeps on \<^verbatim>\<open>ticks\<close> with \<^verbatim>\<open>tickslock\<close> free, every timer interrupt
  adds one tick and makes it runnable, and when it is dispatched again the call returns 0 exactly when \<open>n\<close> ticks have passed since it
  began, counted modulo the word size; before that it returns \<open>-1\<close> if the process has been killed and sleeps again if not.
\<close>

theorem sleep_until_ticks:
  fixes s :: "'z trap_state_scheme"
  assumes "quiet s" "curproc s = Some q" "q < length (ptable s)" "\<not> p_killed (ptable s ! q)"
  defines "n \<equiv> tf_r1 (p_tf (ptable s ! q))"
  shows "(n = 0 \<longrightarrow> sys_sleep s = Ok 0 s) \<and>
    (n \<noteq> 0 \<longrightarrow> (\<exists>t. sys_sleep s = Blocked t \<and> p_state (ptable t ! q) = SLEEPING \<and> p_chan (ptable t ! q) = Some ChanTicks \<and>
       locks t TicksLock = lk_free \<and>
       (\<forall>u :: 'z trap_state_scheme. quiet u \<and> ptable u = ptable t \<longrightarrow>
          (\<exists>v. isr_timer u = Ok () v \<and> ticks v = ticks u + 1 \<and> p_state (ptable v ! q) = RUNNABLE)) \<and>
       (\<forall>w :: 'z trap_state_scheme. dispatched q w \<longrightarrow>
          (case sys_sleep_resume n (ticks s) w of
             Ok r x \<Rightarrow> r = (if ticks w - ticks s < n then -1 else 0) \<and> quiet x \<and> (r = -1 \<longrightarrow> p_killed (ptable w ! q))
           | Blocked x \<Rightarrow> ticks w - ticks s < n \<and> \<not> p_killed (ptable w ! q) \<and> p_state (ptable x ! q) = SLEEPING
           | _ \<Rightarrow> False))))"
proof -
  let ?a = "s\<lparr>ncli := 1, locks := (\<lambda>_. lk_free)(TicksLock := lk_held)\<rparr>"
  let ?t = "sleeping_on ChanTicks q TicksLock ?a"
  have f: "irq s = False" "intena s = False" "ncli s = 0" "locks s = (\<lambda>_. lk_free)" using assms(1) by (simp_all add: quiet_def)
  have b: "sys_sleep s = (if 0 < n then Blocked ?t else Ok 0 s)"
    using sys_sleep_ok [OF assms(1,2)] sys_sleep_body_ok [of ?a q n "ticks s"] assms(2-4) f unfolding n_def by simp
  have t: "p_state (ptable ?t ! q) = SLEEPING" "p_chan (ptable ?t ! q) = Some ChanTicks" "locks ?t TicksLock = lk_free"
    using assms(3) by (simp_all add: sleeping_on_def upd_proc_def)
  have tick: "\<exists>v. isr_timer u = Ok () v \<and> ticks v = ticks u + 1 \<and> p_state (ptable v ! q) = RUNNABLE"
    if "quiet u" "ptable u = ptable ?t" for u :: "'z trap_state_scheme"
    using isr_timer_ok [OF that(1)] that(2) t assms(3)
    by (simp add: dev_write_reg_def wakeup1_def) (simp add: sleeping_on_def upd_proc_def)
  have res: "case sys_sleep_resume n (ticks s) w of
      Ok r x \<Rightarrow> r = (if ticks w - ticks s < n then -1 else 0) \<and> quiet x \<and> (r = -1 \<longrightarrow> p_killed (ptable w ! q))
    | Blocked x \<Rightarrow> ticks w - ticks s < n \<and> \<not> p_killed (ptable w ! q) \<and> p_state (ptable x ! q) = SLEEPING | _ \<Rightarrow> False"
    if d: "dispatched q w" for w :: "'z trap_state_scheme"
  proof -
    let ?u = "(upd_proc q (\<lambda>p. p\<lparr>p_chan := None\<rparr>) w)\<lparr>ncli := 1, locks := (\<lambda>_. lk_free)(TicksLock := lk_held)\<rparr>"
    have u: "curproc ?u = Some q" "q < length (ptable ?u)" "\<not> irq ?u" "\<not> intena ?u" "ncli ?u = 1" "ticks ?u = ticks w"
      "p_killed (ptable ?u ! q) = p_killed (ptable w ! q)" using d by (simp_all add: dispatched_def upd_proc_def)
    have "quiet (?u\<lparr>ncli := 0, locks := (\<lambda>_. lk_free)\<rparr>)" using u by (simp add: quiet_def)
    moreover have "p_state (ptable (sleeping_on ChanTicks q TicksLock ?u) ! q) = SLEEPING"
      using u(2) by (simp add: sleeping_on_def upd_proc_def)
    ultimately show ?thesis
      using sys_sleep_resume_ok [OF d, of n "ticks s"] sys_sleep_body_ok [of ?u q n "ticks s"] u by simp
  qed
  show ?thesis using b t tick res by (auto simp: word_gt_0)
qed

definition sleeper :: trap_state where
  "sleeper = (boot_cons fs_image \<lparr>inodes = [], ftable = [], isrs = replicate 32 Default_isr, dev_log = [], mode_stk = []\<rparr>)\<lparr>
     ptable := [zero_proc\<lparr>p_state := RUNNING, p_tf := zero_tf\<lparr>tf_r1 := 5\<rparr>\<rparr>], curproc := Some 0\<rparr>"

theorem sleep_until_ticks_witness:
  "\<exists>t. sys_sleep sleeper = Blocked t \<and>
     (\<exists>v. isr_timer (sleeper\<lparr>ptable := ptable t\<rparr>) = Ok () v \<and> ticks v = ticks sleeper + 1 \<and> p_state (ptable v ! 0) = RUNNABLE)"
proof -
  have q: "quiet sleeper" using boot_cons_fields(3) by (simp add: sleeper_def quiet_def)
  have f: "curproc sleeper = Some 0" "0 < length (ptable sleeper)" "\<not> p_killed (ptable sleeper ! 0)" "tf_r1 (p_tf (ptable sleeper ! 0)) = 5"
    by (simp_all add: sleeper_def zero_proc_def)
  obtain t where t: "sys_sleep sleeper = Blocked t"
    "\<forall>u :: trap_state. quiet u \<and> ptable u = ptable t \<longrightarrow>
       (\<exists>v. isr_timer u = Ok () v \<and> ticks v = ticks u + 1 \<and> p_state (ptable v ! 0) = RUNNABLE)"
    using sleep_until_ticks [OF q f(1-3)] f(4) by auto
  have "quiet (sleeper\<lparr>ptable := ptable t\<rparr>)" using q by (simp add: quiet_def)
  then show ?thesis using t(1) t(2) [THEN spec [of _ "sleeper\<lparr>ptable := ptable t\<rparr>"]] by auto
qed

section \<open>The result of exec\<close>

text \<open>
  \<^verbatim>\<open>syscall\<close> does not store the result of \<^verbatim>\<open>exec\<close>, as a new program finds its arguments in the registers. When \<^verbatim>\<open>exec\<close> fails early, the caller
  returns with what it had in \<^verbatim>\<open>r0\<close>, the number of the call, and not with \<open>-1\<close>.
\<close>

lemma exec_failure_keeps_r0:
  assumes "the_proc s = Some p" "tf_r0 (p_tf p) = 7" "sys_exec s = Ok (-1) s"
  shows "syscall s = Ok () s"
  using assms by (simp add: syscall_def syscalls_def SYS_exec_def NELEM_syscalls_def)

end
