(* ===== verification/Xv6_Sleeplock.thy ===== *)
theory Xv6_Sleeplock
  imports Xv6_Sched
begin

text \<open>
  \<^verbatim>\<open>kernel/sleeplock.c\<close>: locks that a process holds while it sleeps, each guarded by a spin lock of its own. The kernel has no
  caller for them yet; the locks are a table, and a lock is known by its index.
\<close>

section \<open>Operations\<close>

record sleeplock =
  sl_locked :: bool
  sl_pid :: int

record sl_state = sched_state +
  sleeplocks :: "nat \<Rightarrow> sleeplock"

definition set_sleeplock :: "nat \<Rightarrow> bool \<Rightarrow> int \<Rightarrow> 'z sl_state_scheme \<Rightarrow> 'z sl_state_scheme" where
  "set_sleeplock lk b p s = s\<lparr>sleeplocks := (sleeplocks s)(lk := \<lparr>sl_locked = b, sl_pid = p\<rparr>)\<rparr>"

definition initsleeplock :: "nat \<Rightarrow> 'z sl_state_scheme \<Rightarrow> 'z sl_state_scheme" where
  "initsleeplock lk s = set_sleeplock lk False 0 (initlock (SleepLkLock lk) s)"

text \<open>The loop of \<^verbatim>\<open>acquiresleep\<close>, entered with the spin lock held, at first and after each sleep.\<close>

definition acquiresleep_body :: "nat \<Rightarrow> 'z sl_state_scheme \<Rightarrow> (unit, 'z sl_state_scheme) outcome" where
  "acquiresleep_body lk s =
     (if sl_locked (sleeplocks s lk) then sleep (ChanSleepLock lk) (Some (SleepLkLock lk)) s
      else case curproc s of
        None \<Rightarrow> kfault
      | Some q \<Rightarrow> release (SleepLkLock lk) (set_sleeplock lk True (p_pid (ptable s ! q)) s))"

definition acquiresleep :: "nat \<Rightarrow> 'z sl_state_scheme \<Rightarrow> (unit, 'z sl_state_scheme) outcome" where
  "acquiresleep lk s = obind (acquire (SleepLkLock lk) s) (\<lambda>_ s. acquiresleep_body lk s)"

definition acquiresleep_resume :: "nat \<Rightarrow> 'z sl_state_scheme \<Rightarrow> (unit, 'z sl_state_scheme) outcome" where
  "acquiresleep_resume lk s = obind (sleep_resume (SleepLkLock lk) s) (\<lambda>_ s. acquiresleep_body lk s)"

definition releasesleep :: "nat \<Rightarrow> 'z sl_state_scheme \<Rightarrow> (unit, 'z sl_state_scheme) outcome" where
  "releasesleep lk s =
     obind (acquire (SleepLkLock lk) s) (\<lambda>_ s.
     obind (wakeup (ChanSleepLock lk) (set_sleeplock lk False 0 s)) (\<lambda>_ s.
     release (SleepLkLock lk) s))"

definition holdingsleep :: "nat \<Rightarrow> 'z sl_state_scheme \<Rightarrow> (bool, 'z sl_state_scheme) outcome" where
  "holdingsleep lk s =
     obind (acquire (SleepLkLock lk) s) (\<lambda>_ s.
     case curproc s of
       None \<Rightarrow> kfault
     | Some q \<Rightarrow>
         (let r = sl_locked (sleeplocks s lk) \<and> sl_pid (sleeplocks s lk) = p_pid (ptable s ! q)
          in obind (release (SleepLkLock lk) s) (\<lambda>_ s. Ok r s)))"

section \<open>Behaviour\<close>

lemma acquiresleep_free:
  assumes "quiet s" "curproc s = Some q" "\<not> sl_locked (sleeplocks s lk)"
  shows "acquiresleep lk s = Ok () (set_sleeplock lk True (p_pid (ptable s ! q)) s)"
  using assms by (cases s) (simp add: acquiresleep_def acquiresleep_body_def set_sleeplock_def quiet_def acquire_exec release_exec)

lemma acquiresleep_taken:
  fixes s :: "'z sl_state_scheme"
  assumes "quiet s" "curproc s = Some q" "q < length (ptable s)" "sl_locked (sleeplocks s lk)"
  shows "\<exists>t. acquiresleep lk s = Blocked t \<and> p_state (ptable t ! q) = SLEEPING \<and> p_chan (ptable t ! q) = Some (ChanSleepLock lk) \<and>
    sleeplocks t = sleeplocks s \<and> locks t (SleepLkLock lk) = lk_free \<and> locks t PtableLock = lk_held"
proof -
  let ?a = "s\<lparr>ncli := 1, locks := (locks s)(SleepLkLock lk := lk_held)\<rparr>"
  have "acquire (SleepLkLock lk) s = Ok () ?a" using assms(1) by (simp add: kexec)
  moreover have "sleep (ChanSleepLock lk) (Some (SleepLkLock lk)) ?a =
      (Blocked (sleeping_on (ChanSleepLock lk) q (SleepLkLock lk) ?a) :: (unit, 'z sl_state_scheme) outcome)"
    using assms by (intro sleep_exec) (simp_all add: quiet_def)
  ultimately show ?thesis
    using assms by (simp add: acquiresleep_def acquiresleep_body_def sleeping_on_def upd_proc_def)
qed

lemma releasesleep_ok:
  assumes "quiet s"
  shows "releasesleep lk s = Ok () (wakeup1 (ChanSleepLock lk) (set_sleeplock lk False 0 s))"
proof -
  let ?a = "s\<lparr>ncli := 1, locks := (locks s)(SleepLkLock lk := lk_held)\<rparr>"
  have "wakeup (ChanSleepLock lk) (set_sleeplock lk False 0 ?a) = Ok () (wakeup1 (ChanSleepLock lk) (set_sleeplock lk False 0 ?a))"
    using assms by (intro wakeup_exec) (simp_all add: set_sleeplock_def quiet_def)
  moreover have "acquire (SleepLkLock lk) s = Ok () ?a" using assms(1) by (simp add: kexec)
  moreover have "release (SleepLkLock lk) (wakeup1 (ChanSleepLock lk) (set_sleeplock lk False 0 ?a)) =
      Ok () (wakeup1 (ChanSleepLock lk) (set_sleeplock lk False 0 s))"
    using assms by (cases s) (simp add: release_exec wakeup1_def set_sleeplock_def quiet_def)
  ultimately show ?thesis by (simp add: releasesleep_def)
qed

lemma holdingsleep_ok:
  assumes "quiet s" "curproc s = Some q"
  shows "holdingsleep lk s = Ok (sl_locked (sleeplocks s lk) \<and> sl_pid (sleeplocks s lk) = p_pid (ptable s ! q)) s"
  using assms by (cases s) (simp add: holdingsleep_def quiet_def acquire_exec release_exec)

text \<open>
  Sleep locks: on a free lock \<^verbatim>\<open>acquiresleep\<close> returns at once and its caller is the holder, as \<^verbatim>\<open>holdingsleep\<close> confirms; a
  second caller is put to sleep without touching the lock, and is runnable again after \<^verbatim>\<open>releasesleep\<close>, which leaves the lock free.
\<close>

theorem sleeplock_handover:
  fixes s :: "'z sl_state_scheme"
  assumes "quiet s" "curproc s = Some p" "\<not> sl_locked (sleeplocks s lk)" "q < length (ptable s)" "q \<noteq> p" "p < length (ptable s)"
  shows "\<exists>t. acquiresleep lk s = Ok () t \<and> holdingsleep lk t = Ok True t \<and>
    (\<exists>u. acquiresleep lk (t\<lparr>curproc := Some q\<rparr>) = Blocked u \<and> sleeplocks u = sleeplocks t \<and>
      (\<exists>v. releasesleep lk (t\<lparr>ptable := (ptable t)[q := ptable u ! q]\<rparr>) = Ok () v \<and> p_state (ptable v ! q) = RUNNABLE \<and>
         \<not> sl_locked (sleeplocks v lk)))"
proof -
  let ?t = "set_sleeplock lk True (p_pid (ptable s ! p)) s"
  have t: "quiet ?t" "curproc ?t = Some p" "ptable ?t = ptable s" "sl_locked (sleeplocks ?t lk)" "sl_pid (sleeplocks ?t lk) = p_pid (ptable s ! p)"
    using assms by (simp_all add: set_sleeplock_def quiet_def)
  have h: "holdingsleep lk ?t = Ok True ?t" using holdingsleep_ok [OF t(1,2), of lk] t(3-5) by simp
  have "quiet (?t\<lparr>curproc := Some q\<rparr>)" using t(1) by (simp add: quiet_def)
  then obtain u where u: "acquiresleep lk (?t\<lparr>curproc := Some q\<rparr>) = Blocked u" "p_state (ptable u ! q) = SLEEPING"
    "p_chan (ptable u ! q) = Some (ChanSleepLock lk)" "sleeplocks u = sleeplocks ?t"
    using acquiresleep_taken [of "?t\<lparr>curproc := Some q\<rparr>" q lk] t(3,4) assms(4) by auto
  let ?w = "?t\<lparr>ptable := (ptable ?t)[q := ptable u ! q]\<rparr>"
  have "quiet ?w" using t(1) by (simp add: quiet_def)
  note r = releasesleep_ok [OF this, of lk]
  have "p_state (ptable (wakeup1 (ChanSleepLock lk) (set_sleeplock lk False 0 ?w)) ! q) = RUNNABLE"
    "\<not> sl_locked (sleeplocks (wakeup1 (ChanSleepLock lk) (set_sleeplock lk False 0 ?w)) lk)"
    using u(2,3) assms(4) by (simp_all add: wakeup1_def set_sleeplock_def)
  then show ?thesis using acquiresleep_free [OF assms(1-3)] h u(1,4) r by blast
qed

theorem sleeplock_handover_witness:
  "\<exists>t. acquiresleep 3 \<lparr>irq = False, ncli = 0, intena = False, locks = (\<lambda>_. lk_free), ptable = [zero_proc, zero_proc], curproc = Some 0,
     initproc = None, nextpid = 1, ticks = 0, sleeplocks = (\<lambda>_. \<lparr>sl_locked = False, sl_pid = 0\<rparr>)\<rparr> = Ok () t \<and> holdingsleep 3 t = Ok True t"
  using sleeplock_handover [of "\<lparr>irq = False, ncli = 0, intena = False, locks = (\<lambda>_. lk_free), ptable = [zero_proc, zero_proc], curproc = Some 0,
     initproc = None, nextpid = 1, ticks = 0, sleeplocks = (\<lambda>_. \<lparr>sl_locked = False, sl_pid = 0\<rparr>)\<rparr>" 0 3 1]
  by (auto simp: quiet_def)

end
