(* ===== verification/Xv6_Sh.thy ===== *)
theory Xv6_Sh
  imports Xv6_Prelude
begin

text \<open>
  The command parser of \<^verbatim>\<open>user/sh.c\<close>. The line is a byte list without NUL; a pointer into it is a position, and the byte
  at its end is the terminator. Commands are trees whose words are pairs of positions, as the code keeps them in
  \<^verbatim>\<open>argv\<close>/\<^verbatim>\<open>eargv\<close> and \<^verbatim>\<open>file\<close>/\<^verbatim>\<open>efile\<close>. Memory for the tree is taken to be there: the code does not test what \<^verbatim>\<open>malloc\<close> returns.
\<close>

section \<open>Commands\<close>

definition MAXARGS :: nat where "MAXARGS = 10"

type_synonym span = "nat \<times> nat"

datatype cmd =
    EXEC "span list"
  | REDIR cmd span uint nat
  | PIPE cmd cmd
  | LIST cmd cmd
  | BACK cmd

text \<open>What a parsing function gives: its value and the new \<^verbatim>\<open>*ps\<close>, or the message of the \<^verbatim>\<open>panic\<close> that ends the shell.\<close>

datatype 'a parsed = Parsed 'a nat | Exits string | NoFuel

section \<open>Tokens\<close>

definition byte_at :: "uchar list \<Rightarrow> nat \<Rightarrow> uchar" where
  "byte_at b i = (if i < length b then b ! i else 0)"

text \<open>\<^verbatim>\<open>" \t\r\n\v"\<close> and \<^verbatim>\<open>"<|>&;()"\<close>.\<close>

definition is_white :: "uchar \<Rightarrow> bool" where
  "is_white c \<longleftrightarrow> c \<in> {32, 9, 13, 10, 11}"

definition is_symbol :: "uchar \<Rightarrow> bool" where
  "is_symbol c \<longleftrightarrow> c \<in> {60, 124, 62, 38, 59, 40, 41}"

function skip_white :: "uchar list \<Rightarrow> nat \<Rightarrow> nat" where
  "skip_white b s = (if s < length b \<and> is_white (b ! s) then skip_white b (Suc s) else s)"
  by pat_completeness auto
termination by (relation "measure (\<lambda>(b, s). length b - s)") auto

function skip_word :: "uchar list \<Rightarrow> nat \<Rightarrow> nat" where
  "skip_word b s = (if s < length b \<and> \<not> is_white (b ! s) \<and> \<not> is_symbol (b ! s) then skip_word b (Suc s) else s)"
  by pat_completeness auto
termination by (relation "measure (\<lambda>(b, s). length b - s)") auto

declare skip_white.simps [simp del] skip_word.simps [simp del]

text \<open>\<^verbatim>\<open>gettoken\<close>: the token kind (\<open>97\<close> for a word, \<open>43\<close> for \<^verbatim>\<open>>>\<close>, \<open>0\<close> at the end), its span and the new position.\<close>

definition gettoken :: "uchar list \<Rightarrow> nat \<Rightarrow> uchar \<times> span \<times> nat" where
  "gettoken b ps =
     (let q = skip_white b ps; c = byte_at b q;
          (ret, eq) =
            (if c = 0 then (0, q)
             else if c \<in> {124, 40, 41, 59, 38, 60} then (c, Suc q)
             else if c = 62 then (if byte_at b (Suc q) = 62 then (43, Suc (Suc q)) else (c, Suc q))
             else (97, skip_word b q))
      in (ret, (q, eq), skip_white b eq))"

definition peek :: "uchar list \<Rightarrow> nat \<Rightarrow> uchar list \<Rightarrow> bool \<times> nat" where
  "peek b ps toks = (let s = skip_white b ps in (byte_at b s \<noteq> 0 \<and> byte_at b s \<in> set toks, s))"

lemma skip_white_bounds: "s \<le> skip_white b s" "s \<le> length b \<Longrightarrow> skip_white b s \<le> length b"
proof (induction b s rule: skip_white.induct)
  case (1 b s)
  { case 1 then show ?case using "1.IH"(1) by (subst skip_white.simps) auto }
  { case 2 then show ?case using "1.IH"(2) by (subst skip_white.simps) auto }
qed

lemma skip_white_stop: "skip_white b s < length b \<Longrightarrow> \<not> is_white (b ! skip_white b s)"
proof (induction b s rule: skip_white.induct)
  case (1 b s)
  then show ?case by (cases "s < length b \<and> is_white (b ! s)") (simp_all add: skip_white.simps [of b s])
qed

lemma skip_white_twice [simp]: "skip_white b (skip_white b s) = skip_white b s"
  using skip_white_stop [of b s] by (subst skip_white.simps) auto

lemma skip_word_bounds: "s \<le> skip_word b s" "s \<le> length b \<Longrightarrow> skip_word b s \<le> length b"
proof (induction b s rule: skip_word.induct)
  case (1 b s)
  { case 1 then show ?case using "1.IH"(1) by (subst skip_word.simps) auto }
  { case 2 then show ?case using "1.IH"(2) by (subst skip_word.simps) auto }
qed

lemma skip_word_chars:
  "s \<le> i \<Longrightarrow> i < skip_word b s \<Longrightarrow> \<not> is_white (b ! i) \<and> \<not> is_symbol (b ! i)"
  "skip_word b s < length b \<Longrightarrow> is_white (b ! skip_word b s) \<or> is_symbol (b ! skip_word b s)"
proof (induction b s rule: skip_word.induct)
  case (1 b s)
  { case 1 then show ?case using "1.IH"(1) by (cases "s < length b \<and> \<not> is_white (b ! s) \<and> \<not> is_symbol (b ! s)"; cases "i = s") (auto simp: skip_word.simps [of b s]) }
  { case 2 then show ?case using "1.IH"(2) by (cases "s < length b \<and> \<not> is_white (b ! s) \<and> \<not> is_symbol (b ! s)") (auto simp: skip_word.simps [of b s]) }
qed

lemma byte_at_bound: "byte_at b q \<noteq> 0 \<Longrightarrow> q < length b"
  by (simp add: byte_at_def split: if_splits)

text \<open>A word of the line: not empty, without blanks and symbols, and followed by one or by the end.\<close>

definition is_word :: "uchar list \<Rightarrow> span \<Rightarrow> bool" where
  "is_word b sp \<longleftrightarrow> fst sp < snd sp \<and> snd sp \<le> length b \<and>
     (\<forall>i. fst sp \<le> i \<and> i < snd sp \<longrightarrow> \<not> is_white (b ! i) \<and> \<not> is_symbol (b ! i)) \<and>
     (snd sp < length b \<longrightarrow> is_white (b ! snd sp) \<or> is_symbol (b ! snd sp))"

lemma gettoken_pos:
  assumes "gettoken b ps = (ret, sp, ps')"
  shows "ps \<le> ps'" "ps \<le> length b \<Longrightarrow> ps' \<le> length b" "ret \<noteq> 0 \<Longrightarrow> ps < ps' \<and> ps < length b"
    "ret = 97 \<Longrightarrow> is_word b sp"
proof -
  let ?q = "skip_white b ps" and ?c = "byte_at b (skip_white b ps)"
  define r where "r = (if ?c = 0 then (0, ?q)
             else if ?c \<in> {124, 40, 41, 59, 38, 60} then (?c, Suc ?q)
             else if ?c = 62 then (if byte_at b (Suc ?q) = 62 then (43, Suc (Suc ?q)) else (?c, Suc ?q))
             else (97, skip_word b ?q))"
  have g: "ret = fst r" "sp = (?q, snd r)" "ps' = skip_white b (snd r)"
    using assms by (simp_all add: gettoken_def r_def [symmetric] Let_def split: prod.splits)
  have q: "ps \<le> ?q" "ps \<le> length b \<Longrightarrow> ?q \<le> length b" by (rule skip_white_bounds)+
  have word: "Suc ?q \<le> skip_word b ?q" if "?c \<noteq> 0" "?c \<notin> {124, 40, 41, 59, 38, 60}" "?c \<noteq> 62"
  proof -
    have l: "?q < length b" using that(1) by (rule byte_at_bound)
    then have "\<not> is_white (b ! ?q)" "\<not> is_symbol (b ! ?q)" using skip_white_stop [OF l] that by (auto simp: byte_at_def is_symbol_def)
    then show ?thesis using l skip_word_bounds(1) [of "Suc ?q" b] by (subst skip_word.simps) simp
  qed
  have e: "?q \<le> snd r" "?c \<noteq> 0 \<Longrightarrow> ?q < snd r" "?q \<le> length b \<Longrightarrow> snd r \<le> length b"
    using word byte_at_bound [of b ?q] byte_at_bound [of b "Suc ?q"] skip_word_bounds [of ?q b] by (auto simp: r_def)
  have z: "fst r = 0 \<longleftrightarrow> ?c = 0" by (auto simp: r_def)
  show "ps \<le> ps'" using q(1) e(1) skip_white_bounds(1) [of "snd r" b] by (simp add: g(3))
  show "ps \<le> length b \<Longrightarrow> ps' \<le> length b" using q(2) e(3) skip_white_bounds(2) [of "snd r" b] by (simp add: g(3))
  show "ret \<noteq> 0 \<Longrightarrow> ps < ps' \<and> ps < length b"
    using q(1) e(2) z skip_white_bounds(1) [of "snd r" b] byte_at_bound [of b ?q] by (auto simp: g(1,3))
  show "is_word b sp" if "ret = 97"
  proof -
    have w: "?c \<noteq> 0" "?c \<notin> {124, 40, 41, 59, 38, 60}" "?c \<noteq> 62" "snd r = skip_word b ?q"
      using that g(1) by (auto simp: r_def split: if_splits)
    then show ?thesis
      using word skip_word_chars(1) [of ?q _ b] skip_word_chars(2) [of b ?q] skip_word_bounds(2) [of ?q b] byte_at_bound [OF w(1)] by (auto simp: is_word_def g(2))
  qed
qed

lemma peek_pos:
  assumes "peek b ps toks = (k, ps')"
  shows "ps \<le> ps'" "ps \<le> length b \<Longrightarrow> ps' \<le> length b" "k \<Longrightarrow> fst (gettoken b ps') \<noteq> 0"
  using assms skip_white_bounds [of ps b]
  by (auto simp: peek_def Let_def gettoken_def byte_at_def split: if_splits prod.splits)

lemma peek_gettoken:
  assumes "peek b ps toks = (k, ps1)" "k" "gettoken b ps1 = (x, sp, ps2)"
  shows "x \<noteq> 0" "ps \<le> ps1" "ps1 < ps2" "ps1 < length b"
  using peek_pos [OF assms(1)] gettoken_pos [OF assms(3)] assms by auto

section \<open>The parser\<close>

text \<open>The loop of \<^verbatim>\<open>parseline\<close> over the \<^verbatim>\<open>&\<close> signs.\<close>

function parse_backs :: "uchar list \<Rightarrow> cmd \<Rightarrow> nat \<Rightarrow> cmd \<times> nat" where
  "parse_backs b c ps =
     (let (k, ps1) = peek b ps [38]
      in if k then let (_, _, ps2) = gettoken b ps1 in parse_backs b (BACK c) ps2 else (c, ps1))"
  by pat_completeness auto
termination
proof (relation "measure (\<lambda>(b, c, ps). length b - ps)", simp, goal_cases)
  case (1 b c ps _ k ps1 _ x _ y ps2)
  then have "peek b ps [38] = (k, ps1)" k "gettoken b ps1 = (x, y, ps2)" by simp_all
  from peek_gettoken [OF this] show ?case by simp
qed

text \<open>\<^verbatim>\<open>parseredirs\<close>; \<open>0x201\<close> is \<^verbatim>\<open>O_WRONLY|O_CREATE\<close>.\<close>

function parseredirs :: "uchar list \<Rightarrow> cmd \<Rightarrow> nat \<Rightarrow> cmd parsed" where
  "parseredirs b c ps =
     (let (k, ps1) = peek b ps [60, 62]
      in if \<not> k then Parsed c ps1
         else let (tok, _, ps2) = gettoken b ps1; (t, sp, ps3) = gettoken b ps2
              in if t \<noteq> 97 then Exits ''missing file for redirection''
                 else parseredirs b (if tok = 60 then REDIR c sp 0 0 else if tok = 62 then REDIR c sp 0x201 1
                                     else if tok = 43 then REDIR c sp 0x201 1 else c) ps3)"
  by pat_completeness auto
termination
proof (relation "measure (\<lambda>(b, c, ps). length b - ps)", simp, goal_cases)
  case (1 b c ps _ k ps1 _ x _ y ps2 _ u _ w ps3)
  then have "peek b ps [60, 62] = (k, ps1)" k "gettoken b ps1 = (x, y, ps2)" and h: "gettoken b ps2 = (u, w, ps3)" by simp_all
  from peek_gettoken [OF this(1-3)] gettoken_pos(1) [OF h] show ?case by simp
qed

declare parse_backs.simps [simp del] parseredirs.simps [simp del]

text \<open>The assignments through \<^verbatim>\<open>cmd\<close> in \<^verbatim>\<open>parseexec\<close>: \<^verbatim>\<open>ret\<close> is the same node with redirections around it.\<close>

fun set_argv :: "span list \<Rightarrow> cmd \<Rightarrow> cmd" where
  "set_argv args (EXEC _) = EXEC args"
| "set_argv args (REDIR c sp mode fd) = REDIR (set_argv args c) sp mode fd"
| "set_argv args c = c"

lemma parseredirs_pos: "parseredirs b c ps = Parsed c' ps' \<Longrightarrow> ps \<le> ps' \<and> (ps \<le> length b \<longrightarrow> ps' \<le> length b)"
proof (induction b c ps rule: parseredirs.induct)
  case (1 b c ps)
  obtain k ps1 where k: "peek b ps [60, 62] = (k, ps1)" by (cases "peek b ps [60, 62]")
  obtain tok x ps2 where g: "gettoken b ps1 = (tok, x, ps2)" by (cases "gettoken b ps1") auto
  obtain t sp ps3 where h: "gettoken b ps2 = (t, sp, ps3)" by (cases "gettoken b ps2") auto
  have pos: "ps \<le> ps1" "ps1 \<le> ps2" "ps2 \<le> ps3" "ps \<le> length b \<Longrightarrow> ps1 \<le> length b" "ps1 \<le> length b \<Longrightarrow> ps2 \<le> length b"
    "ps2 \<le> length b \<Longrightarrow> ps3 \<le> length b"
    using peek_pos(1,2) [OF k] gettoken_pos(1,2) [OF g] gettoken_pos(1,2) [OF h] by auto
  let ?c = "if tok = 60 then REDIR c sp 0 0 else if tok = 62 then REDIR c sp 0x201 1 else if tok = 43 then REDIR c sp 0x201 1 else c"
  have e: "parseredirs b c ps = (if \<not> k then Parsed c ps1 else if t \<noteq> 97 then Exits ''missing file for redirection'' else parseredirs b ?c ps3)"
    by (subst parseredirs.simps) (simp only: k g h Let_def split_conv)
  show ?case
    using "1.prems" "1.IH" [OF k [symmetric] refl _ g [symmetric] refl refl h [symmetric] refl refl] pos unfolding e by (auto split: if_splits)
qed

text \<open>The argument loop of \<^verbatim>\<open>parseexec\<close>.\<close>

function parse_args :: "uchar list \<Rightarrow> span list \<Rightarrow> cmd \<Rightarrow> nat \<Rightarrow> cmd parsed" where
  "parse_args b args ret ps =
     (let (k, ps1) = peek b ps [124, 41, 38, 59]
      in if k then Parsed (set_argv args ret) ps1
         else let (tok, sp, ps2) = gettoken b ps1
              in if tok = 0 then Parsed (set_argv args ret) ps2
                 else if tok \<noteq> 97 then Exits ''syntax''
                 else if Suc (length args) \<ge> MAXARGS then Exits ''too many args''
                 else case parseredirs b ret ps2 of
                        Parsed ret' ps3 \<Rightarrow> parse_args b (args @ [sp]) ret' ps3
                      | Exits m \<Rightarrow> Exits m
                      | NoFuel \<Rightarrow> NoFuel)"
  by pat_completeness auto
termination
proof (relation "measure (\<lambda>(b, args, ret, ps). length b - ps)", simp, goal_cases)
  case (1 b args ret ps _ k ps1 _ tok _ sp ps2 ret' ps3)
  then have "peek b ps [124, 41, 38, 59] = (k, ps1)" "gettoken b ps1 = (tok, sp, ps2)" "tok \<noteq> 0" "parseredirs b ret ps2 = Parsed ret' ps3" by simp_all
  then have "ps \<le> ps1" "ps1 < ps2" "ps1 < length b" "ps2 \<le> ps3"
    using peek_pos(1) gettoken_pos(3) parseredirs_pos by blast+
  then show ?case by simp
qed

declare parse_args.simps [simp del]

text \<open>
  The recursive functions of the parser. Their nesting is bounded by a counter; the parser is started with more
  than it can use, which is proved below.
\<close>

fun parseline :: "nat \<Rightarrow> uchar list \<Rightarrow> nat \<Rightarrow> cmd parsed"
  and parsepipe :: "nat \<Rightarrow> uchar list \<Rightarrow> nat \<Rightarrow> cmd parsed"
  and parseexec :: "nat \<Rightarrow> uchar list \<Rightarrow> nat \<Rightarrow> cmd parsed"
  and parseblock :: "nat \<Rightarrow> uchar list \<Rightarrow> nat \<Rightarrow> cmd parsed" where
  "parseline 0 b ps = NoFuel"
| "parseline (Suc n) b ps =
     (case parsepipe n b ps of
        Parsed c ps \<Rightarrow>
          (let (c, ps) = parse_backs b c ps; (k, ps) = peek b ps [59]
           in if k then let (_, _, ps) = gettoken b ps
                        in (case parseline n b ps of Parsed d ps \<Rightarrow> Parsed (LIST c d) ps | r \<Rightarrow> r)
              else Parsed c ps)
      | r \<Rightarrow> r)"
| "parsepipe 0 b ps = NoFuel"
| "parsepipe (Suc n) b ps =
     (case parseexec n b ps of
        Parsed c ps \<Rightarrow>
          (let (k, ps) = peek b ps [124]
           in if k then let (_, _, ps) = gettoken b ps
                        in (case parsepipe n b ps of Parsed d ps \<Rightarrow> Parsed (PIPE c d) ps | r \<Rightarrow> r)
              else Parsed c ps)
      | r \<Rightarrow> r)"
| "parseexec 0 b ps = NoFuel"
| "parseexec (Suc n) b ps =
     (let (k, ps) = peek b ps [40]
      in if k then parseblock n b ps
         else case parseredirs b (EXEC []) ps of
                Parsed ret ps \<Rightarrow> parse_args b [] ret ps
              | r \<Rightarrow> r)"
| "parseblock 0 b ps = NoFuel"
| "parseblock (Suc n) b ps =
     (let (k, ps) = peek b ps [40]
      in if \<not> k then Exits ''parseblock''
         else let (_, _, ps) = gettoken b ps
              in (case parseline n b ps of
                    Parsed c ps \<Rightarrow>
                      (let (k, ps) = peek b ps [41]
                       in if \<not> k then Exits ''syntax - missing )''
                          else let (_, _, ps) = gettoken b ps in parseredirs b c ps)
                  | r \<Rightarrow> r))"

text \<open>\<^verbatim>\<open>nulterminate\<close>: the line with a NUL at the end of every word. The byte after the line is its terminator.\<close>

fun nulterminate :: "cmd \<Rightarrow> uchar list \<Rightarrow> uchar list" where
  "nulterminate (EXEC args) b = foldl (\<lambda>b sp. b[snd sp := 0]) b args"
| "nulterminate (REDIR c sp _ _) b = (nulterminate c b)[snd sp := 0]"
| "nulterminate (PIPE l r) b = nulterminate r (nulterminate l b)"
| "nulterminate (LIST l r) b = nulterminate r (nulterminate l b)"
| "nulterminate (BACK c) b = nulterminate c b"

text \<open>\<^verbatim>\<open>parsecmd\<close> on a line with its terminator left out: the tree and the changed line.\<close>

definition parsecmd :: "uchar list \<Rightarrow> (cmd \<times> uchar list) parsed" where
  "parsecmd b =
     (case parseline (4 * length b + 4) b 0 of
        Parsed c ps \<Rightarrow>
          (let (_, ps) = peek b ps []
           in if ps \<noteq> length b then Exits ''syntax'' else Parsed (c, nulterminate c (b @ [0])) ps)
      | Exits m \<Rightarrow> Exits m
      | NoFuel \<Rightarrow> NoFuel)"

section \<open>Well-formed commands\<close>

text \<open>
  The tree \<^verbatim>\<open>runcmd\<close> relies on: an \<^verbatim>\<open>argv\<close> with room for its null pointer, words of the line everywhere, and the open mode
  that goes with the descriptor of a redirection.
\<close>

fun wf_cmd :: "uchar list \<Rightarrow> cmd \<Rightarrow> bool" where
  "wf_cmd b (EXEC args) \<longleftrightarrow> length args < MAXARGS \<and> (\<forall>sp \<in> set args. is_word b sp)"
| "wf_cmd b (REDIR c sp mode fd) \<longleftrightarrow> wf_cmd b c \<and> is_word b sp \<and> (mode, fd) \<in> {(0, 0), (0x201, 1)}"
| "wf_cmd b (PIPE l r) \<longleftrightarrow> wf_cmd b l \<and> wf_cmd b r"
| "wf_cmd b (LIST l r) \<longleftrightarrow> wf_cmd b l \<and> wf_cmd b r"
| "wf_cmd b (BACK c) \<longleftrightarrow> wf_cmd b c"

fun cmd_words :: "cmd \<Rightarrow> span set" where
  "cmd_words (EXEC args) = set args"
| "cmd_words (REDIR c sp _ _) = insert sp (cmd_words c)"
| "cmd_words (PIPE l r) = cmd_words l \<union> cmd_words r"
| "cmd_words (LIST l r) = cmd_words l \<union> cmd_words r"
| "cmd_words (BACK c) = cmd_words c"

text \<open>A parsing function is sound at \<open>ps\<close> when it has enough fuel and gives a well-formed tree and a position between \<open>ps\<close> and the end.\<close>

definition sound :: "uchar list \<Rightarrow> nat \<Rightarrow> cmd parsed \<Rightarrow> bool" where
  "sound b ps r \<longleftrightarrow> (case r of Parsed c ps' \<Rightarrow> wf_cmd b c \<and> ps \<le> ps' \<and> ps' \<le> length b | Exits _ \<Rightarrow> True | NoFuel \<Rightarrow> False)"

lemma sound_simps [simp]:
  "sound b ps (Parsed c ps') \<longleftrightarrow> wf_cmd b c \<and> ps \<le> ps' \<and> ps' \<le> length b" "sound b ps (Exits m)" "\<not> sound b ps NoFuel"
  by (simp_all add: sound_def)

lemma sound_mono: "sound b ps1 r \<Longrightarrow> ps \<le> ps1 \<Longrightarrow> sound b ps r"
  by (auto simp: sound_def split: parsed.splits)

lemma sound_bind:
  assumes "sound b ps r" "\<And>c ps1. wf_cmd b c \<Longrightarrow> ps \<le> ps1 \<Longrightarrow> ps1 \<le> length b \<Longrightarrow> sound b ps (f c ps1)"
  shows "sound b ps (case r of Parsed c ps1 \<Rightarrow> f c ps1 | Exits m \<Rightarrow> Exits m | NoFuel \<Rightarrow> NoFuel)"
  using assms by (cases r) auto

lemma wf_set_argv:
  "wf_cmd b c \<Longrightarrow> length args < MAXARGS \<Longrightarrow> \<forall>sp \<in> set args. is_word b sp \<Longrightarrow> wf_cmd b (set_argv args c)"
  by (induction args c rule: set_argv.induct) auto

lemma parse_backs_sound:
  "wf_cmd b c \<Longrightarrow> ps \<le> length b \<Longrightarrow> parse_backs b c ps = (c', ps') \<Longrightarrow> wf_cmd b c' \<and> ps \<le> ps' \<and> ps' \<le> length b"
proof (induction b c ps rule: parse_backs.induct)
  case (1 b c ps)
  obtain k ps1 where k: "peek b ps [38] = (k, ps1)" by (cases "peek b ps [38]")
  obtain t x ps2 where g: "gettoken b ps1 = (t, x, ps2)" by (cases "gettoken b ps1") auto
  have e: "parse_backs b c ps = (if k then parse_backs b (BACK c) ps2 else (c, ps1))"
    by (subst parse_backs.simps) (simp add: k g)
  show ?case
    using "1.prems" "1.IH" [OF k [symmetric] refl _ g [symmetric] refl refl] peek_pos(1,2) [OF k] gettoken_pos(1,2) [OF g] unfolding e
    by (auto split: if_splits)
qed

lemma parseredirs_sound: "wf_cmd b c \<Longrightarrow> ps \<le> length b \<Longrightarrow> sound b ps (parseredirs b c ps)"
proof (induction b c ps rule: parseredirs.induct)
  case (1 b c ps)
  obtain k ps1 where k: "peek b ps [60, 62] = (k, ps1)" by (cases "peek b ps [60, 62]")
  obtain tok x ps2 where g: "gettoken b ps1 = (tok, x, ps2)" by (cases "gettoken b ps1") auto
  obtain t sp ps3 where h: "gettoken b ps2 = (t, sp, ps3)" by (cases "gettoken b ps2") auto
  let ?c = "if tok = 60 then REDIR c sp 0 0 else if tok = 62 then REDIR c sp 0x201 1 else if tok = 43 then REDIR c sp 0x201 1 else c"
  have e: "parseredirs b c ps = (if \<not> k then Parsed c ps1 else if t \<noteq> 97 then Exits ''missing file for redirection'' else parseredirs b ?c ps3)"
    by (subst parseredirs.simps) (simp only: k g h Let_def split_conv)
  have pos: "ps \<le> ps1" "ps1 \<le> length b" "ps1 \<le> ps2" "ps2 \<le> length b" "ps2 \<le> ps3" "ps3 \<le> length b"
    using "1.prems"(2) peek_pos(1,2) [OF k] gettoken_pos(1,2) [OF g] gettoken_pos(1,2) [OF h] by auto
  have "sound b ps (parseredirs b ?c ps3)" if "k" "t = 97"
  proof (rule sound_mono [of b ps3])
    have n: "\<not> \<not> k" "\<not> t \<noteq> 97" using that by simp_all
    have "wf_cmd b ?c" using "1.prems"(1) gettoken_pos(4) [OF h that(2)] by simp
    then show "sound b ps3 (parseredirs b ?c ps3)"
      by (rule "1.IH" [OF k [symmetric] refl n(1) g [symmetric] refl refl h [symmetric] refl refl n(2) _ pos(6)])
    show "ps \<le> ps3" using pos by simp
  qed
  then show ?case using "1.prems"(1) pos unfolding e by auto
qed

lemma parse_args_sound:
  "wf_cmd b ret \<Longrightarrow> length args < MAXARGS \<Longrightarrow> \<forall>sp \<in> set args. is_word b sp \<Longrightarrow> ps \<le> length b \<Longrightarrow> sound b ps (parse_args b args ret ps)"
proof (induction b args ret ps rule: parse_args.induct)
  case (1 b args ret ps)
  obtain k ps1 where k: "peek b ps [124, 41, 38, 59] = (k, ps1)" by (cases "peek b ps [124, 41, 38, 59]")
  obtain tok sp ps2 where g: "gettoken b ps1 = (tok, sp, ps2)" by (cases "gettoken b ps1") auto
  have pos: "ps \<le> ps1" "ps1 \<le> length b" "ps1 \<le> ps2" "ps2 \<le> length b"
    using "1.prems"(4) peek_pos(1,2) [OF k] gettoken_pos(1,2) [OF g] by auto
  let ?rest = "case parseredirs b ret ps2 of Parsed ret' ps3 \<Rightarrow> parse_args b (args @ [sp]) ret' ps3 | Exits m \<Rightarrow> Exits m | NoFuel \<Rightarrow> NoFuel"
  have e: "parse_args b args ret ps =
      (if k then Parsed (set_argv args ret) ps1 else if tok = 0 then Parsed (set_argv args ret) ps2
       else if tok \<noteq> 97 then Exits ''syntax'' else if Suc (length args) \<ge> MAXARGS then Exits ''too many args'' else ?rest)"
    by (subst parse_args.simps) (simp only: k g Let_def split_conv)
  have "sound b ps ?rest" if t: "\<not> k" "tok = 97" "\<not> Suc (length args) \<ge> MAXARGS"
  proof (cases "parseredirs b ret ps2")
    case (Parsed ret' ps3)
    then have p: "wf_cmd b ret'" "ps2 \<le> ps3" "ps3 \<le> length b"
      using parseredirs_sound [OF "1.prems"(1) pos(4)] by auto
    have "tok \<noteq> 0" "\<not> tok \<noteq> 97" "is_word b sp" using t gettoken_pos(4) [OF g] by auto
    then have "sound b ps3 (parse_args b (args @ [sp]) ret' ps3)"
      using "1.IH" [OF k [symmetric] refl t(1) g [symmetric] refl refl _ _ t(3) Parsed] t p "1.prems"(3) by auto
    then show ?thesis using Parsed pos p(2) by (auto intro: sound_mono)
  qed (use parseredirs_sound [OF "1.prems"(1) pos(4)] in auto)
  then show ?case using "1.prems"(1-3) pos wf_set_argv unfolding e by auto
qed

text \<open>
  The counter: a call at \<open>ps\<close> needs four units for each byte ahead, as every round through the four functions eats
  a byte, and one to four more for its place in the round.
\<close>

lemma peeked:
  assumes "peek b ps toks = (k, ps1)" "gettoken b ps1 = (t, x, ps2)" "ps \<le> length b"
  shows "ps \<le> ps1" "ps1 \<le> length b" "ps2 \<le> length b" "k \<Longrightarrow> length b - ps2 < length b - ps" "k \<Longrightarrow> ps \<le> ps2"
proof -
  show "ps \<le> ps1" "ps1 \<le> length b" "ps2 \<le> length b"
    using peek_pos(1,2) [OF assms(1)] gettoken_pos(2) [OF assms(2)] assms(3) by auto
  show "length b - ps2 < length b - ps" "ps \<le> ps2" if k
    using peek_gettoken(2-4) [OF assms(1) that assms(2)] by auto
qed

lemma parseline_step:
  assumes "sound b ps (parsepipe n b ps)" "ps \<le> length b"
    "\<And>ps2. length b - ps2 < length b - ps \<Longrightarrow> ps2 \<le> length b \<Longrightarrow> sound b ps2 (parseline n b ps2)"
  shows "sound b ps (parseline (Suc n) b ps)"
proof (cases "parsepipe n b ps")
  case (Parsed c ps1)
  obtain c' ps2 where p: "parse_backs b c ps1 = (c', ps2)" by (cases "parse_backs b c ps1")
  obtain k ps3 where k: "peek b ps2 [59] = (k, ps3)" by (cases "peek b ps2 [59]")
  obtain t x ps4 where g: "gettoken b ps3 = (t, x, ps4)" by (cases "gettoken b ps3") auto
  have w: "wf_cmd b c" "ps \<le> ps1" "ps1 \<le> length b" using assms(1) Parsed by auto
  note r = parse_backs_sound [OF w(1,3) p]
  have q: "ps2 \<le> length b" using r by simp
  note q = peeked [OF k g this]
  have "sound b ps (case parseline n b ps4 of Parsed d ps \<Rightarrow> Parsed (LIST c' d) ps | r \<Rightarrow> r)" if k
  proof -
    have "sound b ps4 (parseline n b ps4)" "ps \<le> ps4" using q(4,5) [OF that] r w(2) by (auto intro: assms(3) q(3))
    then show ?thesis using r by (auto simp: sound_def split: parsed.splits)
  qed
  then show ?thesis using Parsed p k g r q w(2) by simp
qed (use assms(1) in auto)

lemma parsepipe_step:
  assumes "sound b ps (parseexec n b ps)" "ps \<le> length b"
    "\<And>ps2. length b - ps2 < length b - ps \<Longrightarrow> ps2 \<le> length b \<Longrightarrow> sound b ps2 (parsepipe n b ps2)"
  shows "sound b ps (parsepipe (Suc n) b ps)"
proof (cases "parseexec n b ps")
  case (Parsed c ps2)
  obtain k ps3 where k: "peek b ps2 [124] = (k, ps3)" by (cases "peek b ps2 [124]")
  obtain t x ps4 where g: "gettoken b ps3 = (t, x, ps4)" by (cases "gettoken b ps3") auto
  have w: "wf_cmd b c" "ps \<le> ps2" "ps2 \<le> length b" using assms(1) Parsed by auto
  note q = peeked [OF k g w(3)]
  have "sound b ps (case parsepipe n b ps4 of Parsed d ps \<Rightarrow> Parsed (PIPE c d) ps | r \<Rightarrow> r)" if k
  proof -
    have "sound b ps4 (parsepipe n b ps4)" "ps \<le> ps4" using q(4,5) [OF that] w(2) by (auto intro: assms(3) q(3))
    then show ?thesis using w(1) by (auto simp: sound_def split: parsed.splits)
  qed
  then show ?thesis using Parsed k g q w by simp
qed (use assms(1) in auto)

lemma parseexec_step:
  assumes "\<And>ps2. ps \<le> ps2 \<Longrightarrow> ps2 \<le> length b \<Longrightarrow> sound b ps2 (parseblock n b ps2)" "ps \<le> length b"
  shows "sound b ps (parseexec (Suc n) b ps)"
proof -
  obtain k ps1 where k: "peek b ps [40] = (k, ps1)" by (cases "peek b ps [40]")
  have p: "ps \<le> ps1" "ps1 \<le> length b" using peek_pos(1,2) [OF k] assms(2) by auto
  have "sound b ps1 (case parseredirs b (EXEC []) ps1 of Parsed ret ps \<Rightarrow> parse_args b [] ret ps | r \<Rightarrow> r)"
  proof (rule sound_bind [OF parseredirs_sound])
    fix c ps2 assume "wf_cmd b c" "ps1 \<le> ps2" "ps2 \<le> length b"
    then show "sound b ps1 (parse_args b [] c ps2)"
      by (intro sound_mono [OF parse_args_sound]) (auto simp: MAXARGS_def)
  qed (use p(2) in \<open>simp_all add: MAXARGS_def\<close>)
  then show ?thesis using assms(1) [OF p] p(1) k by (auto intro: sound_mono)
qed

lemma parseblock_step:
  assumes "\<And>ps2. length b - ps2 < length b - ps \<Longrightarrow> ps2 \<le> length b \<Longrightarrow> sound b ps2 (parseline n b ps2)" "ps \<le> length b"
  shows "sound b ps (parseblock (Suc n) b ps)"
proof -
  obtain k ps1 where k: "peek b ps [40] = (k, ps1)" by (cases "peek b ps [40]")
  obtain t x ps2 where g: "gettoken b ps1 = (t, x, ps2)" by (cases "gettoken b ps1") auto
  note q = peeked [OF k g assms(2)]
  have "sound b ps2 (parseline n b ps2)" if k using assms(1) q that by auto
  moreover have "sound b ps2 (let (k, ps) = peek b ps3 [41] in if \<not> k then Exits ''syntax - missing )''
      else let (_, _, ps) = gettoken b ps in parseredirs b c ps)" if c: "wf_cmd b c" "ps2 \<le> ps3" "ps3 \<le> length b" for c ps3
  proof -
    obtain k ps4 where k: "peek b ps3 [41] = (k, ps4)" by (cases "peek b ps3 [41]")
    obtain t x ps5 where g: "gettoken b ps4 = (t, x, ps5)" by (cases "gettoken b ps4") auto
    note q = peeked [OF k g c(3)]
    show ?thesis using parseredirs_sound [OF c(1) q(3)] q(5) c(2) k g by (auto intro: sound_mono)
  qed
  ultimately have "k \<Longrightarrow> sound b ps2 (case parseline n b ps2 of Parsed c ps \<Rightarrow>
      (let (k, ps) = peek b ps [41] in if \<not> k then Exits ''syntax - missing )'' else let (_, _, ps) = gettoken b ps in parseredirs b c ps)
      | r \<Rightarrow> r)" by (cases "parseline n b ps2") auto
  then show ?thesis using k g q(5) by (auto intro: sound_mono)
qed

lemma parser_sound:
  "ps \<le> length b \<Longrightarrow> 4 * (length b - ps) + 4 \<le> n \<Longrightarrow> sound b ps (parseline n b ps)"
  "ps \<le> length b \<Longrightarrow> 4 * (length b - ps) + 3 \<le> n \<Longrightarrow> sound b ps (parsepipe n b ps)"
  "ps \<le> length b \<Longrightarrow> 4 * (length b - ps) + 2 \<le> n \<Longrightarrow> sound b ps (parseexec n b ps)"
  "ps \<le> length b \<Longrightarrow> 4 * (length b - ps) + 1 \<le> n \<Longrightarrow> sound b ps (parseblock n b ps)"
proof (induction n arbitrary: ps)
  case (Suc n)
  { case 1 then show ?case using Suc.IH(1,2) by (intro parseline_step) auto }
  { case 2 then show ?case using Suc.IH(2,3) by (intro parsepipe_step) auto }
  { case 3 then show ?case using Suc.IH(4) by (intro parseexec_step) auto }
  { case 4 then show ?case using Suc.IH(1) by (intro parseblock_step) auto }
qed auto

section \<open>Terminated words\<close>

lemma update_nth: "i < length b \<Longrightarrow> b[j := x] ! i = (if i = j then x else b ! i)"
  by (cases "i = j") simp_all

lemma foldl_nul:
  "length (foldl (\<lambda>b sp. b[snd sp := 0]) b args) = length b"
  "i < length b \<Longrightarrow> foldl (\<lambda>b sp. b[snd sp := 0]) b args ! i = (if i \<in> snd ` set args then 0 else b ! i)"
  by (induction args arbitrary: b) (auto simp: nth_list_update)

lemma nulterminate_length [simp]: "length (nulterminate c b) = length b"
  by (induction c b rule: nulterminate.induct) (auto simp: foldl_nul)

lemma nulterminate_nth: "i < length b \<Longrightarrow> nulterminate c b ! i = (if i \<in> snd ` cmd_words c then 0 else b ! i)"
  by (induction c b rule: nulterminate.induct) (simp_all add: foldl_nul update_nth image_Un)

lemma wf_cmd_words: "wf_cmd b c \<Longrightarrow> sp \<in> cmd_words c \<Longrightarrow> is_word b sp"
  by (induction b c rule: wf_cmd.induct) auto

lemma nulterminate_words:
  assumes "wf_cmd b c" "sp \<in> cmd_words c"
  shows "nulterminate c (b @ [0]) ! snd sp = 0"
    "\<And>i. fst sp \<le> i \<Longrightarrow> i < snd sp \<Longrightarrow> nulterminate c (b @ [0]) ! i = b ! i"
proof -
  have w: "is_word b sp" by (rule wf_cmd_words [OF assms])
  then show "nulterminate c (b @ [0]) ! snd sp = 0" using assms(2) by (auto simp: is_word_def nulterminate_nth)
  fix i assume i: "fst sp \<le> i" "i < snd sp"
  then have b: "i < length b" "\<not> is_white (b ! i)" "\<not> is_symbol (b ! i)" using w by (auto simp: is_word_def)
  have "i \<noteq> snd sq" if "sq \<in> cmd_words c" for sq
    using wf_cmd_words [OF assms(1) that] b by (auto simp: is_word_def)
  then show "nulterminate c (b @ [0]) ! i = b ! i" using b(1) by (auto simp: nulterminate_nth nth_append)
qed

text \<open>
  C39. The parser of the shell ends on every line, and what it gives is well-formed: when \<^verbatim>\<open>parsecmd\<close> gives a tree it has consumed the line, every \<^verbatim>\<open>argv\<close> has
  fewer than \<^verbatim>\<open>MAXARGS\<close> entries, every redirection is of descriptor 0 for reading or 1 for writing, every word is a
  maximal run of bytes that are neither blank nor a symbol, and \<^verbatim>\<open>nulterminate\<close> has put a NUL behind each word without
  touching the bytes of any word.
\<close>

theorem parsecmd_well_formed:
  "case parsecmd b of
     Parsed (c, b') ps \<Rightarrow> ps = length b \<and> wf_cmd b c \<and>
       (\<forall>p e. (p, e) \<in> cmd_words c \<longrightarrow> take (e - p) (drop p b') = take (e - p) (drop p b) \<and> b' ! e = 0)
   | Exits _ \<Rightarrow> True
   | NoFuel \<Rightarrow> False"
proof (cases "parseline (4 * length b + 4) b 0")
  case (Parsed c ps)
  then have c: "wf_cmd b c" "ps \<le> length b" using parser_sound(1) [of 0 b "4 * length b + 4"] by auto
  obtain k ps1 where k: "peek b ps [] = (k, ps1)" by (cases "peek b ps []")
  have "take (e - p) (drop p (nulterminate c (b @ [0]))) = take (e - p) (drop p b)" if w: "(p, e) \<in> cmd_words c" for p e
  proof -
    have e: "e \<le> length b" "p < e" using wf_cmd_words [OF c(1) w] by (simp_all add: is_word_def)
    show ?thesis by (rule nth_equalityI) (use e nulterminate_words(2) [OF c(1) w] in auto)
  qed
  then show ?thesis using Parsed k c nulterminate_words(1) [OF c(1)] by (auto simp: parsecmd_def)
qed (use parser_sound(1) [of 0 b "4 * length b + 4"] in \<open>auto simp: parsecmd_def\<close>)

text \<open>The property at \<^verbatim>\<open>ls>a;b\<close>, whose tree and changed line are computed.\<close>

lemma parsecmd_example:
  "parsecmd [108, 115, 62, 97, 59, 98] =
     Parsed (LIST (REDIR (EXEC [(0, 2)]) (3, 4) 0x201 1) (EXEC [(5, 6)]), [108, 115, 0, 97, 0, 98, 0]) 6"
  by code_simp

theorem parsecmd_well_formed_witness:
  "(3, 4) \<in> cmd_words (LIST (REDIR (EXEC [(0, 2)]) (3, 4) 0x201 1) (EXEC [(5, 6)])) \<and>
   take (4 - 3) (drop 3 [108, 115, 0, 97, 0, 98, 0 :: uchar]) = take (4 - 3) (drop 3 [108, 115, 62, 97, 59, 98])"
  using parsecmd_well_formed [of "[108, 115, 62, 97, 59, 98]"] unfolding parsecmd_example by simp

end
