(* ===== verification/Xv6_Ulib.thy ===== *)
theory Xv6_Ulib
  imports Xv6_Console
begin

text \<open>
  The user library: \<^verbatim>\<open>ulib/ulib.c\<close> and \<^verbatim>\<open>ulib/printf.c\<close>. A C string that is only read is the list of its bytes before the NUL; functions that
  write memory work on the memory. What \<^verbatim>\<open>printf\<close> writes to its descriptor, one byte a call, is a list.
\<close>

section \<open>Strings and memory\<close>

text \<open>\<^verbatim>\<open>strcpy\<close> runs until it has copied a NUL; \<open>None\<close> stands for a copy that finds none.\<close>

partial_function (option) strcpy :: "uint \<Rightarrow> uint \<Rightarrow> mem \<Rightarrow> mem option" where
  "strcpy s t m = (let m' = store8 s (m t) m in if m t \<noteq> 0 then strcpy (s + 1) (t + 1) m' else Some m')"

fun strcmp :: "uchar list \<Rightarrow> uchar list \<Rightarrow> int" where
  "strcmp [] [] = 0"
| "strcmp [] (d # q) = 0 - uint d"
| "strcmp (c # p) [] = uint c - 0"
| "strcmp (c # p) (d # q) = (if c = d then strcmp p q else uint c - uint d)"

fun strchr :: "uchar list \<Rightarrow> uchar \<Rightarrow> uchar list option" where
  "strchr [] c = None"
| "strchr (d # s) c = (if d = c then Some (d # s) else strchr s c)"

text \<open>The code of \<^verbatim>\<open>memset\<close> is that of the kernel; \<^verbatim>\<open>memmove\<close> always copies upwards.\<close>

definition ulib_memset :: "uint \<Rightarrow> uint \<Rightarrow> uint \<Rightarrow> mem \<Rightarrow> mem" where
  "ulib_memset dst v n m = memset dst v n m"

function ulib_memmove :: "uint \<Rightarrow> uint \<Rightarrow> int \<Rightarrow> mem \<Rightarrow> mem" where
  "ulib_memmove d s n m = (if n > 0 then ulib_memmove (d + 1) (s + 1) (n - 1) (store8 d (m s) m) else m)"
  by pat_completeness auto
termination by (relation "measure (\<lambda>(d, s, n, m). nat n)") auto

declare ulib_memmove.simps [simp del]

text \<open>
  \<^verbatim>\<open>gets\<close>, with the results of the reads of one byte as a list (\<open>None\<close> for a result below 1): the bytes stored before the NUL, and
  the reads left. The last byte of the buffer is kept for the NUL.
\<close>

fun gets_loop :: "nat \<Rightarrow> uchar option list \<Rightarrow> uchar list \<times> uchar option list" where
  "gets_loop 0 rs = ([], rs)"
| "gets_loop (Suc n) [] = ([], [])"
| "gets_loop (Suc n) (None # rs) = ([], rs)"
| "gets_loop (Suc n) (Some c # rs) =
     (if c = 10 \<or> c = 13 then ([c], rs) else let (b, rs) = gets_loop n rs in (c # b, rs))"

definition gets :: "int \<Rightarrow> uchar option list \<Rightarrow> uchar list \<times> uchar option list" where
  "gets mx rs = gets_loop (nat (mx - 1)) rs"

fun atoi_from :: "uint \<Rightarrow> uchar list \<Rightarrow> uint" where
  "atoi_from n [] = n"
| "atoi_from n (c # s) = (if 0x30 \<le> c \<and> c \<le> 0x39 then atoi_from (n * 10 + ucast c - 0x30) s else n)"

definition atoi :: "uchar list \<Rightarrow> uint" where
  "atoi s = atoi_from 0 s"

section \<open>printf\<close>

text \<open>\<^verbatim>\<open>printint\<close> has the code of the kernel's.\<close>

definition uprintint :: "uint \<Rightarrow> nat \<Rightarrow> bool \<Rightarrow> uchar list" where
  "uprintint xx base sg = rev (printint_buf xx base sg)"

text \<open>
  The loop of \<^verbatim>\<open>printf\<close>; the flag is \<^verbatim>\<open>state == '%'\<close>. An argument is a word, or a string for \<^verbatim>\<open>%s\<close>; a conversion without its argument has no
  defined result.
\<close>

fun printf_loop :: "bool \<Rightarrow> uchar list \<Rightarrow> cparg list \<Rightarrow> uchar list option" where
  "printf_loop st [] args = Some []"
| "printf_loop False (c # fmt) args =
     (if c = 0x25 then printf_loop True fmt args else map_option (Cons c) (printf_loop False fmt args))"
| "printf_loop True (c # fmt) args =
     (if c = 0x64 then (case args of CInt x # args \<Rightarrow> map_option (append (uprintint x 10 True)) (printf_loop False fmt args) | _ \<Rightarrow> None)
      else if c = 0x78 \<or> c = 0x70
      then (case args of CInt x # args \<Rightarrow> map_option (append (uprintint x 16 False)) (printf_loop False fmt args) | _ \<Rightarrow> None)
      else if c = 0x73
      then (case args of CStr p # args \<Rightarrow>
              map_option (append (case p of None \<Rightarrow> lit ''(null)'' | Some t \<Rightarrow> t)) (printf_loop False fmt args) | _ \<Rightarrow> None)
      else if c = 0x63 then (case args of CInt x # args \<Rightarrow> map_option (Cons (ucast x)) (printf_loop False fmt args) | _ \<Rightarrow> None)
      else if c = 0x25 then map_option (Cons c) (printf_loop False fmt args)
      else map_option (append [0x25, c]) (printf_loop False fmt args))"

definition printf :: "uchar list \<Rightarrow> cparg list \<Rightarrow> uchar list option" where
  "printf fmt args = printf_loop False fmt args"

section \<open>Behaviour\<close>

text \<open>\<^verbatim>\<open>strcpy\<close> returns when the source has a terminator and lies outside the destination, and it copies the string with it.\<close>

lemma strcpy_copies:
  assumes "\<forall>i<n. m (t + of_nat i) \<noteq> 0" "m (t + of_nat n) = 0" "\<forall>i\<le>n. \<forall>j\<le>n. s + of_nat i \<noteq> t + of_nat j" "n < 2 ^ 32"
  shows "\<exists>m'. strcpy s t m = Some m' \<and> (\<forall>i\<le>n. m' (s + of_nat i) = m (t + of_nat i)) \<and>
    (\<forall>a. (\<forall>i\<le>n. a \<noteq> s + of_nat i) \<longrightarrow> m' a = m a)"
  using assms
proof (induction n arbitrary: s t m)
  case 0
  then show ?case by (simp add: strcpy.simps store8_def)
next
  case (Suc n)
  let ?m = "store8 s (m t) m"
  have shift: "x + 1 + of_nat i = x + of_nat (Suc i)" for x :: uint and i by simp
  have m: "?m (t + of_nat i) = m (t + of_nat i)" if "i \<le> Suc n" for i
    using that Suc.prems(3) [rule_format, of 0 i] by (simp add: store8_def)
  have "\<exists>m'. strcpy (s + 1) (t + 1) ?m = Some m' \<and> (\<forall>i\<le>n. m' (s + 1 + of_nat i) = ?m (t + 1 + of_nat i)) \<and>
      (\<forall>a. (\<forall>i\<le>n. a \<noteq> s + 1 + of_nat i) \<longrightarrow> m' a = ?m a)"
  proof (rule Suc.IH)
    show "\<forall>i<n. ?m (t + 1 + of_nat i) \<noteq> 0" "?m (t + 1 + of_nat n) = 0"
      using Suc.prems(1,2) m unfolding shift by (auto simp del: of_nat_Suc)
    show "\<forall>i\<le>n. \<forall>j\<le>n. s + 1 + of_nat i \<noteq> t + 1 + of_nat j" using Suc.prems(3) unfolding shift by blast
  qed (use Suc.prems(4) in simp)
  then obtain m' where m': "strcpy (s + 1) (t + 1) ?m = Some m'" "\<And>i. i \<le> n \<Longrightarrow> m' (s + of_nat (Suc i)) = m (t + of_nat (Suc i))"
    "\<And>a. (\<And>i. i \<le> n \<Longrightarrow> a \<noteq> s + of_nat (Suc i)) \<Longrightarrow> m' a = ?m a"
    using m unfolding shift by (auto simp del: of_nat_Suc)
  have "m' s = ?m s"
  proof (rule m'(3))
    fix i assume "i \<le> n"
    then have "unat (of_nat (Suc i) :: uint) = Suc i" using Suc.prems(4) by (simp add: unat_of_nat del: of_nat_Suc)
    then show "s \<noteq> s + of_nat (Suc i)" by (metis add_cancel_left_right nat.distinct(1) unat_0)
  qed
  then have "m' (s + of_nat i) = m (t + of_nat i)" if "i \<le> Suc n" for i
    using that m'(2) by (cases i) (auto simp: store8_def)
  moreover have "m' a = m a" if "\<forall>i\<le>Suc n. a \<noteq> s + of_nat i" for a
    using m'(3) [of a] that that [rule_format, of 0] that [rule_format, of "Suc _"] by (auto simp: store8_def)
  moreover have "strcpy s t m = Some m'" using m'(1) Suc.prems(1) [rule_format, of 0] by (subst strcpy.simps) simp
  ultimately show ?case by blast
qed

lemma strcmp_eq_0: "0 \<notin> set p \<Longrightarrow> 0 \<notin> set q \<Longrightarrow> strcmp p q = 0 \<longleftrightarrow> p = q"
proof (induction p q rule: strcmp.induct)
  case (4 c p d q)
  then show ?case by (auto simp: word_uint_eq_iff)
qed (auto simp: uint_0_iff)

lemma strchr_suffix: "strchr s c = Some t \<longleftrightarrow> (\<exists>u. s = u @ t \<and> t \<noteq> [] \<and> hd t = c \<and> c \<notin> set u)"
proof (induction s)
  case (Cons d s)
  show ?case
  proof (cases "d = c")
    case True
    have "(\<exists>u. d # s = u @ t \<and> t \<noteq> [] \<and> hd t = c \<and> c \<notin> set u) \<longleftrightarrow> t = d # s"
      using True by (auto simp: Cons_eq_append_conv)
    then show ?thesis using True by auto
  next
    case False
    then show ?thesis using Cons by (auto simp: Cons_eq_append_conv)
  qed
qed auto

lemma gets_fits: "gets mx rs = (b, rs') \<Longrightarrow> int (length b) \<le> max 0 (mx - 1)"
proof -
  have "gets_loop n rs = (b, rs') \<Longrightarrow> length b \<le> n" for n
    by (induction n rs arbitrary: b rs' rule: gets_loop.induct) (auto split: if_splits prod.splits)
  then show "gets mx rs = (b, rs') \<Longrightarrow> int (length b) \<le> max 0 (mx - 1)" by (fastforce simp: gets_def)
qed

text \<open>\<^verbatim>\<open>atoi\<close> reads back what \<^verbatim>\<open>printf\<close> writes for a decimal number that is not negative.\<close>

lemma decimal_digits:
  "list_all (\<lambda>k. 0x30 \<le> digits ! k \<and> digits ! k \<le> 0x39 \<and> (ucast (digits ! k) :: uint) = 0x30 + of_nat k) [0..<10]"
  by code_simp

lemma atoi_from_digits:
  "\<forall>d \<in> set ds. \<exists>k<10. d = digits ! k \<Longrightarrow> atoi_from (of_nat a) ds = of_nat (foldl (\<lambda>n d. 10 * n + undigit d) a ds)"
proof (induction ds arbitrary: a)
  case (Cons d ds)
  then obtain k where k: "k < 10" "d = digits ! k" by auto
  then have d: "0x30 \<le> d" "d \<le> 0x39" "(ucast d :: uint) = 0x30 + of_nat k" "undigit d = k"
    using decimal_digits undigit_digits(1) [of k] by (auto simp: list_all_iff)
  have e: "of_nat a * 10 + ucast d - 0x30 = (of_nat (10 * a + undigit d) :: uint)" using d(3,4) by (simp add: mult.commute)
  have "atoi_from (of_nat a) (d # ds) = atoi_from (of_nat (10 * a + undigit d)) ds"
    using d(1,2) by (simp only: atoi_from.simps e if_True simp_thms)
  also have "\<dots> = of_nat (foldl (\<lambda>n d. 10 * n + undigit d) (10 * a + undigit d) ds)"
    by (rule Cons.IH) (use Cons.prems in simp)
  finally show ?case by simp
qed simp

lemma printint_digits_decimal: "d \<in> set (printint_digits 10 x) \<Longrightarrow> \<exists>k<10. d = digits ! k"
proof (induction "10 :: nat" x rule: printint_digits.induct)
  case (1 x)
  have "x mod 10 < 10" by simp
  moreover have "d = digits ! (x mod 10) \<or> (x div 10 \<noteq> 0 \<and> d \<in> set (printint_digits 10 (x div 10)))"
    using 1(2) by (subst (asm) printint_digits.simps) (auto split: if_splits)
  moreover have "\<exists>k<10. d = digits ! k" if "x div 10 \<noteq> 0" "d \<in> set (printint_digits 10 (x div 10))" using 1(1) that by simp
  ultimately show ?case by blast
qed

lemma atoi_printint:
  assumes "\<not> xx <s 0"
  shows "atoi (uprintint xx 10 True) = xx"
proof -
  have "uprintint xx 10 True = rev (printint_digits 10 (unat xx))" using assms by (simp add: uprintint_def printint_buf_def)
  moreover have "atoi_from (of_nat 0) (rev (printint_digits 10 (unat xx))) = of_nat (num_value 10 (rev (printint_digits 10 (unat xx))))"
    unfolding num_value_def by (rule atoi_from_digits) (use printint_digits_decimal in auto)
  ultimately show ?thesis using printint_digits_value [of 10 "unat xx"] by (simp add: atoi_def)
qed

text \<open>The copy of the user library is not safe when the blocks overlap with the source below.\<close>

lemma ulib_memmove_overlap: "ulib_memmove 1 0 2 ((\<lambda>_. 0)(0 := 7, 1 := 8)) 2 = 7"
  by (simp add: ulib_memmove.simps store8_def)

end
