(* ===== verification/Xv6_Runcmd.thy ===== *)
theory Xv6_Runcmd
  imports Xv6_Sh Xv6_Ulib Xv6_Sysfile
begin

text \<open>
  The other half of \<^verbatim>\<open>user/sh.c\<close>: \<^verbatim>\<open>runcmd\<close> and \<^verbatim>\<open>main\<close>. A user program is the tree of the system calls it makes, with a branch for
  every result it looks at. The trees are run on a table of descriptors in which the kernel's \<^verbatim>\<open>fdalloc\<close> picks the slots, and compared with what a command line
  means: which programs are started, and what their descriptors refer to.
\<close>

section \<open>Programs\<close>

text \<open>
  \<^verbatim>\<open>Exec\<close> and \<^verbatim>\<open>Exit\<close> do not come back when they succeed; a failed \<^verbatim>\<open>Exec\<close> goes on. The two sides of a \<^verbatim>\<open>Fork\<close> are the values of its branch at 0 and at the new
  process identifier. \<^verbatim>\<open>Write\<close> is a call of \<^verbatim>\<open>printf\<close>, which ignores what \<^verbatim>\<open>write\<close> returns.
\<close>

datatype prog =
    Exit
  | Exec "uchar list" "uchar list list" prog
  | Open "uchar list" uint "int \<Rightarrow> prog"
  | Close int prog
  | Dup int prog
  | Pipe "(int \<times> int) option \<Rightarrow> prog"
  | Fork "int \<Rightarrow> prog"
  | Wait prog
  | Write int "uchar list" prog
  | Chdir "uchar list" "int \<Rightarrow> prog"

definition say :: "uchar list \<Rightarrow> cparg list \<Rightarrow> prog \<Rightarrow> prog" where
  "say fmt args k = Write 2 (case printf fmt args of None \<Rightarrow> [] | Some bs \<Rightarrow> bs) k"

definition sh_panic :: "uchar list \<Rightarrow> prog" where
  "sh_panic msg = say (lit ''%s'' @ [10]) [CStr (Some msg)] Exit"

definition fork1 :: "(int \<Rightarrow> prog) \<Rightarrow> prog" where
  "fork1 k = Fork (\<lambda>pid. if pid = -1 then sh_panic (lit ''fork'') else k pid)"

text \<open>The string at a position of the line that \<^verbatim>\<open>nulterminate\<close> has changed.\<close>

definition cstr_at :: "uchar list \<Rightarrow> nat \<Rightarrow> uchar list" where
  "cstr_at b p = takeWhile (\<lambda>c. c \<noteq> 0) (drop p b)"

text \<open>
  \<^verbatim>\<open>runcmd\<close>. It never returns, so what follows a call of it in a child is not reached. A null pointer or a type outside the five cannot
  be built by the parser.
\<close>

primrec runcmd :: "uchar list \<Rightarrow> cmd \<Rightarrow> prog" where
  "runcmd b (EXEC args) =
     (if args = [] then Exit
      else Exec (cstr_at b (fst (hd args))) (map (\<lambda>sp. cstr_at b (fst sp)) args)
             (say (lit ''exec %s failed'' @ [10]) [CStr (Some (cstr_at b (fst (hd args))))] Exit))"
| "runcmd b (REDIR c sp mode fd) =
     Close (int fd) (Open (cstr_at b (fst sp)) mode (\<lambda>r.
       if r < 0 then say (lit ''open %s failed'' @ [10]) [CStr (Some (cstr_at b (fst sp)))] Exit
       else runcmd b c))"
| "runcmd b (LIST l r) = fork1 (\<lambda>pid. if pid = 0 then runcmd b l else Wait (runcmd b r))"
| "runcmd b (PIPE l r) =
     Pipe (\<lambda>p. case p of
       None \<Rightarrow> sh_panic (lit ''pipe'')
     | Some (p0, p1) \<Rightarrow>
         fork1 (\<lambda>pid.
           if pid = 0 then Close 1 (Dup p1 (Close p0 (Close p1 (runcmd b l))))
           else fork1 (\<lambda>pid.
             if pid = 0 then Close 0 (Dup p0 (Close p0 (Close p1 (runcmd b r))))
             else Close p0 (Close p1 (Wait (Wait Exit))))))"
| "runcmd b (BACK c) = fork1 (\<lambda>pid. if pid = 0 then runcmd b c else Exit)"

text \<open>
  \<^verbatim>\<open>main\<close>: the loop that opens the console, with the number of rounds it may take as argument, and the loop over the lines that \<^verbatim>\<open>gets\<close> reads (an empty one, or the end of the list, is
  the end of the input).
\<close>

fun open_console :: "nat \<Rightarrow> prog \<Rightarrow> prog" where
  "open_console 0 k = Exit"
| "open_console (Suc n) k =
     Open (lit ''console'') O_RDWR (\<lambda>fd. if fd < 0 then k else if fd \<ge> 3 then Close fd k else open_console n k)"

fun sh_loop :: "uchar list list \<Rightarrow> prog" where
  "sh_loop [] = Write 2 (lit ''$ '') Exit"
| "sh_loop (l # ls) = Write 2 (lit ''$ '')
     (if l = [] then Exit
      else if take 3 l = lit ''cd ''
      then let dir = drop 3 (butlast l)
           in Chdir dir (\<lambda>r. if r < 0 then say (lit ''cannot cd %s'' @ [10]) [CStr (Some dir)] (sh_loop ls) else sh_loop ls)
      else fork1 (\<lambda>pid.
             if pid = 0
             then (case parsecmd l of
                     Parsed (c, b) _ \<Rightarrow> runcmd b c
                   | Exits msg \<Rightarrow> sh_panic (lit msg)
                   | NoFuel \<Rightarrow> Exit)
             else Wait (sh_loop ls)))"

definition sh_main :: "uchar list list \<Rightarrow> prog" where
  "sh_main ls = open_console 5 (sh_loop ls)"

section \<open>Running a program\<close>

text \<open>
  What a descriptor refers to. A table of descriptors holds numbers of these objects, as \<^verbatim>\<open>ofile\<close> holds entries of the file table; they are numbered in the order in which they are
  made. The two ends of a pipe are neighbours.
\<close>

datatype fobj = Given | Opened "uchar list" uint | ReadEnd | WriteEnd

type_synonym fdtable = "nat option list"

text \<open>A program that was started: its name, its arguments and its descriptors.\<close>

type_synonym launch = "uchar list \<times> uchar list list \<times> fdtable"

text \<open>
  The run of a program in which calls succeed unless a predicate says otherwise: \<open>ok\<close> for the files that can be opened, \<open>found\<close> for the programs that can be started. The
  child of a fork is followed first; processes share nothing but the numbering of the objects.
\<close>

primrec run :: "(uchar list \<Rightarrow> uint \<Rightarrow> bool) \<Rightarrow> (uchar list \<Rightarrow> bool) \<Rightarrow> prog \<Rightarrow> fdtable \<Rightarrow> fobj list \<Rightarrow> launch list \<times> fobj list" where
  "run ok found Exit = (\<lambda>t os. ([], os))"
| "run ok found (Exec p args k) = (\<lambda>t os. if found p then ([(p, args, t)], os) else run ok found k t os)"
| "run ok found (Open p mode k) = (\<lambda>t os.
     case (if ok p mode then fdalloc_scan 0 t else None) of
       None \<Rightarrow> run ok found (k (-1)) t os
     | Some fd \<Rightarrow> run ok found (k (int fd)) (t[fd := Some (length os)]) (os @ [Opened p mode]))"
| "run ok found (Close fd k) = (\<lambda>t os. run ok found k (t[nat fd := None]) os)"
| "run ok found (Dup fd k) = (\<lambda>t os.
     case (if nat fd < length t \<and> t ! nat fd \<noteq> None then fdalloc_scan 0 t else None) of
       None \<Rightarrow> run ok found k t os
     | Some new \<Rightarrow> run ok found k (t[new := t ! nat fd]) os)"
| "run ok found (Pipe k) = (\<lambda>t os.
     case fdalloc_scan 0 t of
       None \<Rightarrow> run ok found (k None) t os
     | Some fd0 \<Rightarrow>
         (case fdalloc_scan 0 (t[fd0 := Some (length os)]) of
            None \<Rightarrow> run ok found (k None) t os
          | Some fd1 \<Rightarrow>
              run ok found (k (Some (int fd0, int fd1))) (t[fd0 := Some (length os), fd1 := Some (Suc (length os))])
                (os @ [ReadEnd, WriteEnd])))"
| "run ok found (Fork k) = (\<lambda>t os.
     let (l1, os) = run ok found (k 0) t os; (l2, os) = run ok found (k 1) t os in (l1 @ l2, os))"
| "run ok found (Wait k) = run ok found k"
| "run ok found (Write fd bs k) = run ok found k"
| "run ok found (Chdir p k) = run ok found (k 0)"

section \<open>What a command means\<close>

text \<open>The words are those of the line as it was typed.\<close>

definition word_text :: "uchar list \<Rightarrow> span \<Rightarrow> uchar list" where
  "word_text b sp = slice (fst sp) (snd sp - fst sp) b"

fun plan :: "(uchar list \<Rightarrow> uint \<Rightarrow> bool) \<Rightarrow> (uchar list \<Rightarrow> bool) \<Rightarrow> uchar list \<Rightarrow> cmd \<Rightarrow> fdtable \<Rightarrow> fobj list \<Rightarrow> launch list \<times> fobj list" where
  "plan ok found b (EXEC args) t os =
     (if args \<noteq> [] \<and> found (word_text b (hd args)) then ([(word_text b (hd args), map (word_text b) args, t)], os) else ([], os))"
| "plan ok found b (REDIR c sp mode fd) t os =
     (if ok (word_text b sp) mode
      then plan ok found b c (t[fd := Some (length os)]) (os @ [Opened (word_text b sp) mode])
      else ([], os))"
| "plan ok found b (LIST l r) t os =
     (let (l1, os) = plan ok found b l t os; (l2, os) = plan ok found b r t os in (l1 @ l2, os))"
| "plan ok found b (PIPE l r) t os =
     (let n = length os;
          (l1, os) = plan ok found b l (t[1 := Some (Suc n)]) (os @ [ReadEnd, WriteEnd]);
          (l2, os) = plan ok found b r (t[0 := Some n]) os
      in (l1 @ l2, os))"
| "plan ok found b (BACK c) t os = plan ok found b c t os"

section \<open>Descriptors\<close>

text \<open>
  What the shell relies on: a table with \<open>cap\<close> slots where the least free slot is given out. \<open>std\<close> is the table of a process with its three standard descriptors and no other;
  the lemmas are the three things the shell does with such a table.
\<close>

locale descriptors =
  fixes valid :: "'t \<Rightarrow> bool" and alloc :: "'t \<Rightarrow> nat option" and look :: "'t \<Rightarrow> nat \<Rightarrow> nat option"
    and assign :: "nat \<Rightarrow> nat option \<Rightarrow> 't \<Rightarrow> 't" and cap :: nat
  assumes cap_5: "5 \<le> cap"
    and valid_assign: "valid t \<Longrightarrow> valid (assign fd v t)"
    and look_assign: "valid t \<Longrightarrow> fd < cap \<Longrightarrow> j < cap \<Longrightarrow> look (assign fd v t) j = (if j = fd then v else look t j)"
    and alloc_least: "valid t \<Longrightarrow> fd < cap \<Longrightarrow> look t fd = None \<Longrightarrow> (\<And>j. j < fd \<Longrightarrow> look t j \<noteq> None) \<Longrightarrow> alloc t = Some fd"
    and table_eqI: "valid t \<Longrightarrow> valid u \<Longrightarrow> (\<And>j. j < cap \<Longrightarrow> look t j = look u j) \<Longrightarrow> t = u"
begin

definition std :: "'t \<Rightarrow> bool" where
  "std t \<longleftrightarrow> valid t \<and> (\<forall>j<cap. look t j = None \<longleftrightarrow> 3 \<le> j)"

lemma stdD: "std t \<Longrightarrow> valid t" "std t \<Longrightarrow> j < 3 \<Longrightarrow> \<exists>f. look t j = Some f" "std t \<Longrightarrow> 3 \<le> j \<Longrightarrow> j < cap \<Longrightarrow> look t j = None"
  using cap_5 by (auto simp: std_def simp flip: not_None_eq)

lemmas assign_simps = valid_assign look_assign

lemma std_assign: "std t \<Longrightarrow> fd < 3 \<Longrightarrow> std (assign fd (Some v) t)"
  using cap_5 by (auto simp: std_def assign_simps)

lemma reopen:
  assumes "std t" "fd < 3"
  shows "alloc (assign fd None t) = Some fd" "assign fd v (assign fd None t) = assign fd v t"
proof -
  have fd: "fd < cap" using assms(2) cap_5 by simp
  show "alloc (assign fd None t) = Some fd"
    using stdD [OF assms(1)] assms(2) fd cap_5 by (intro alloc_least) (auto simp: assign_simps)
  show "assign fd v (assign fd None t) = assign fd v t"
    using stdD(1) [OF assms(1)] fd by (intro table_eqI) (auto simp: assign_simps)
qed

definition with_pipe :: "nat \<Rightarrow> nat \<Rightarrow> 't \<Rightarrow> 't" where
  "with_pipe r w t = assign 4 (Some w) (assign 3 (Some r) t)"

lemma pipe_alloc:
  assumes "std t"
  shows "alloc t = Some 3" "alloc (assign 3 (Some r) t) = Some 4"
  using stdD [OF assms] cap_5 by (auto intro!: alloc_least simp: assign_simps)

text \<open>Closing \<open>fd\<close>, duplicating an end and closing both ends puts the end at \<open>fd\<close>; closing both ends restores the table.\<close>

lemma look_with_pipe:
  assumes "std t" "j < cap"
  shows "look (with_pipe r w t) j = (if j = 4 then Some w else if j = 3 then Some r else look t j)" "valid (with_pipe r w t)"
  using stdD [OF assms(1)] cap_5 assms(2) by (simp_all add: with_pipe_def assign_simps)

lemma pipe_end:
  assumes "std t" "fd < 3"
  shows "look (assign fd None (with_pipe r w t)) 3 = Some r" "look (assign fd None (with_pipe r w t)) 4 = Some w"
    "alloc (assign fd None (with_pipe r w t)) = Some fd"
    "assign 4 None (assign 3 None (assign fd v (assign fd None (with_pipe r w t)))) = assign fd v t"
proof -
  have fd: "fd < cap" "3 < cap" "4 < cap" using assms(2) cap_5 by simp_all
  note l = look_with_pipe [OF assms(1)]
  have ok: "valid (with_pipe r w t)" by (rule l(2) [OF fd(1)])
  show "look (assign fd None (with_pipe r w t)) 3 = Some r" "look (assign fd None (with_pipe r w t)) 4 = Some w"
    using assms(2) ok fd by (simp_all add: assign_simps l(1))
  show "alloc (assign fd None (with_pipe r w t)) = Some fd"
    using assms(2) ok fd stdD [OF assms(1)] by (intro alloc_least) (auto simp: assign_simps l(1))
  show "assign 4 None (assign 3 None (assign fd v (assign fd None (with_pipe r w t)))) = assign fd v t"
    using assms(2) ok fd stdD [OF assms(1)] by (intro table_eqI) (auto simp: assign_simps l(1))
qed

lemma pipe_closed:
  assumes "std t"
  shows "assign 4 None (assign 3 None (with_pipe r w t)) = t"
  using stdD [OF assms] look_with_pipe [OF assms, of 0] look_with_pipe(1) [OF assms] cap_5
  by (intro table_eqI) (auto simp: assign_simps)

end

lemma fdalloc_scan_least: "fd < length t \<Longrightarrow> t ! fd = None \<Longrightarrow> (\<And>j. j < fd \<Longrightarrow> t ! j \<noteq> None) \<Longrightarrow> fdalloc_scan k t = Some (k + fd)"
proof (induction t arbitrary: k fd)
  case (Cons f t)
  show ?case
  proof (cases fd)
    case 0
    then show ?thesis using Cons.prems by simp
  next
    case (Suc n)
    have "f \<noteq> None" using Cons.prems(3) [of 0] Suc by simp
    moreover have "t ! j \<noteq> None" if "j < n" for j using Cons.prems(3) [of "Suc j"] Suc that by simp
    ultimately show ?thesis using Cons.IH [of n "Suc k"] Cons.prems(1,2) Suc by simp
  qed
qed simp

text \<open>The kernel's table of descriptors and its \<^verbatim>\<open>fdalloc\<close>.\<close>

interpretation ds: descriptors "\<lambda>t. length t = NOFILE" "fdalloc_scan 0" nth "\<lambda>fd v t. t[fd := v]" NOFILE
proof unfold_locales
  show "5 \<le> NOFILE" by (simp add: NOFILE_def)
  show "fdalloc_scan 0 t = Some fd"
    if "length t = NOFILE" "fd < NOFILE" "t ! fd = None" "\<And>j. j < fd \<Longrightarrow> t ! j \<noteq> None" for t fd
    using that fdalloc_scan_least [of fd t 0] by simp
qed (auto simp: update_nth intro: nth_equalityI)

section \<open>runcmd does what the command means\<close>

lemma run_say [simp]: "run ok found (say fmt args k) = run ok found k"
  by (simp add: say_def)

lemma run_panic [simp]: "run ok found (sh_panic msg) t os = ([], os)"
  by (simp add: sh_panic_def)

lemma run_fork1:
  "run ok found (fork1 k) t os =
     (let (l1, os) = run ok found (k 0) t os; (l2, os) = run ok found (k 1) t os in (l1 @ l2, os))"
  by (simp add: fork1_def)

text \<open>The strings of the changed line are the words of the line.\<close>

definition same_words :: "uchar list \<Rightarrow> uchar list \<Rightarrow> cmd \<Rightarrow> bool" where
  "same_words b b' c \<longleftrightarrow> (\<forall>sp\<in>cmd_words c. cstr_at b' (fst sp) = word_text b sp)"

lemma runcmd_plan:
  "ds.std t \<Longrightarrow> wf_cmd b c \<Longrightarrow> same_words b b' c \<Longrightarrow> run ok found (runcmd b' c) t os = plan ok found b c t os"
proof (induction c arbitrary: t os)
  case (EXEC args)
  have w: "cstr_at b' (fst sp) = word_text b sp" if "sp \<in> set args" for sp using EXEC.prems(3) that by (simp add: same_words_def)
  then have "map (\<lambda>sp. cstr_at b' (fst sp)) args = map (word_text b) args" by simp
  then show ?case using w [of "hd args"] by (auto simp del: map_eq_conv)
next
  case (REDIR c sp mode fd)
  have fd: "fd < 3" and wf: "wf_cmd b c" and sw: "same_words b b' c" "cstr_at b' (fst sp) = word_text b sp"
    using REDIR.prems(2,3) by (auto simp: same_words_def)
  note a = ds.reopen [OF REDIR.prems(1) fd]
  show ?case using REDIR.IH [OF ds.std_assign [OF REDIR.prems(1) fd] wf sw(1)] by (simp add: a sw(2))
next
  case (PIPE l r)
  have wf: "wf_cmd b l" "wf_cmd b r" "same_words b b' l" "same_words b b' r" using PIPE.prems(2,3) by (auto simp: same_words_def)
  note p = ds.pipe_alloc [OF PIPE.prems(1)] and d = ds.with_pipe_def
  note e0 = ds.pipe_end [OF PIPE.prems(1), of 0, unfolded d, simplified] and e1 = ds.pipe_end [OF PIPE.prems(1), of "Suc 0", unfolded d, simplified]
  have IH: "run ok found (runcmd b' l) (t[Suc 0 := Some v]) os' = plan ok found b l (t[Suc 0 := Some v]) os'"
    "run ok found (runcmd b' r) (t[0 := Some v]) os' = plan ok found b r (t[0 := Some v]) os'" for v os'
    using PIPE.IH(1) [OF ds.std_assign [OF PIPE.prems(1)] wf(1,3)] PIPE.IH(2) [OF ds.std_assign [OF PIPE.prems(1)] wf(2,4)] by simp_all
  have "length t = NOFILE" using ds.stdD(1) [OF PIPE.prems(1)] .
  then show ?case
    by (simp add: p e0 e1 IH run_fork1 NOFILE_def Let_def split_beta)
next
  case (LIST l r)
  then show ?case by (simp add: run_fork1 same_words_def Let_def)
next
  case (BACK c)
  then show ?case by (simp add: run_fork1 same_words_def split_beta)
qed

lemma parsecmd_words:
  assumes "parsecmd b = Parsed (c, b') ps" "0 \<notin> set b"
  shows "wf_cmd b c" "same_words b b' c"
proof -
  obtain ps' where "parseline (4 * length b + 4) b 0 = Parsed c ps'" and b': "b' = nulterminate c (b @ [0])"
    using assms(1) by (auto simp: parsecmd_def Let_def split: parsed.splits prod.splits if_splits)
  then show wf: "wf_cmd b c" using parser_sound(1) [of 0 b "4 * length b + 4"] by simp
  show "same_words b b' c"
    unfolding same_words_def
  proof
    fix sp assume sp: "sp \<in> cmd_words c"
    note n = nulterminate_words [OF wf sp, folded b'] and w = wf_cmd_words [OF wf sp]
    have l: "fst sp < snd sp" "snd sp < length b'" "snd sp \<le> length b" using w by (auto simp: is_word_def b')
    have "drop (fst sp) b' = slice (fst sp) (snd sp - fst sp) b' @ drop (snd sp) b'"
      using l append_take_drop_id [of "snd sp - fst sp" "drop (fst sp) b'"] by (simp add: slice_def)
    moreover have "slice (fst sp) (snd sp - fst sp) b' = word_text b sp"
      using l n(2) by (intro nth_equalityI) (auto simp: word_text_def nth_slice)
    moreover have "drop (snd sp) b' = 0 # drop (Suc (snd sp)) b'" using l(2) n(1) by (simp flip: Cons_nth_drop_Suc)
    moreover have "0 \<notin> set (word_text b sp)" using assms(2) by (auto simp: word_text_def slice_def dest: in_set_takeD in_set_dropD)
    ultimately show "cstr_at b' (fst sp) = word_text b sp" by (auto simp: cstr_at_def takeWhile_append)
  qed
qed

lemma plan_std:
  "ds.std t \<Longrightarrow> wf_cmd b c \<Longrightarrow> (p, args, t') \<in> set (fst (plan ok found b c t os)) \<Longrightarrow> ds.std t'"
proof (induction c arbitrary: t os)
  case (REDIR c sp mode fd)
  then have "fd < 3" by auto
  then show ?case using REDIR.IH [OF ds.std_assign [OF REDIR.prems(1)]] REDIR.prems(2,3) by (auto split: if_splits)
next
  case (PIPE l r)
  have s: "ds.std (t[1 := Some v])" "ds.std (t[0 := Some v])" for v
    using ds.std_assign [OF PIPE.prems(1), of 1] ds.std_assign [OF PIPE.prems(1), of 0] by simp_all
  show ?case using PIPE.IH(1) [OF s(1)] PIPE.IH(2) [OF s(2)] PIPE.prems(2,3) by (auto simp: Let_def split_beta)
qed (auto simp: Let_def split_beta split: if_splits)

section \<open>A session\<close>

text \<open>The console is opened until the three standard descriptors exist; at most four calls of \<^verbatim>\<open>open\<close> are made.\<close>

lemma open_console_std:
  assumes "length t = NOFILE" "\<And>j. 3 \<le> j \<Longrightarrow> j < NOFILE \<Longrightarrow> t ! j = None" "ok (lit ''console'') O_RDWR"
    "card {j. j < 3 \<and> t ! j = None} < n"
  shows "\<exists>t' os'. ds.std t' \<and> (\<forall>j f. t ! j = Some f \<longrightarrow> t' ! j = Some f) \<and> run ok found (open_console n k) t os = run ok found k t' os'"
  using assms(1,2,4)
proof (induction n arbitrary: t os)
  case (Suc n)
  show ?case
  proof (cases "\<exists>j<3. t ! j = None")
    case False
    then have s: "ds.std t" using Suc.prems(1,2) unfolding ds.std_def by (metis not_less)
    have "run ok found (open_console (Suc n) k) t os = run ok found k t (os @ [Opened (lit ''console'') O_RDWR])"
      using ds.pipe_alloc(1) [OF s] ds.stdD(3) [OF s, of 3] list_update_id [of t 3] assms(3) by (simp add: NOFILE_def)
    then show ?thesis using s by blast
  next
    case True
    define fd where "fd = (LEAST j. t ! j = None)"
    obtain j where j: "j < 3" "t ! j = None" using True by blast
    have fd: "t ! fd = None" "fd \<le> j" "\<And>i. i < fd \<Longrightarrow> t ! i \<noteq> None"
      using LeastI [of "\<lambda>j. t ! j = None" j] Least_le [of "\<lambda>j. t ! j = None" j] not_less_Least j(2) unfolding fd_def by auto
    have a: "fdalloc_scan 0 t = Some fd" using fd j(1) Suc.prems(1) by (intro ds.alloc_least) (auto simp: NOFILE_def)
    let ?t = "t[fd := Some (length os)]"
    have "{i. i < 3 \<and> ?t ! i = None} = {i. i < 3 \<and> t ! i = None} - {fd}"
      using Suc.prems(1) j(1) fd(2) by (auto simp: update_nth NOFILE_def split: if_splits)
    moreover have "fd \<in> {i. i < 3 \<and> t ! i = None}" using fd(1,2) j(1) by simp
    ultimately have "card {i. i < 3 \<and> ?t ! i = None} < card {i. i < 3 \<and> t ! i = None}"
      using card_Diff1_less [of "{i. i < 3 \<and> t ! i = None}" fd] by (simp only: finite_Collect_conjI finite_Collect_less_nat simp_thms)
    then have "card {i. i < 3 \<and> ?t ! i = None} < n" using Suc.prems(3) by linarith
    moreover have "?t ! i = None" if "3 \<le> i" "i < NOFILE" for i using that Suc.prems(2) j(1) fd(2) by simp
    ultimately have "\<exists>t' os'. ds.std t' \<and> (\<forall>j f. ?t ! j = Some f \<longrightarrow> t' ! j = Some f) \<and> run ok found (open_console n k) ?t (os @ [Opened (lit ''console'') O_RDWR]) = run ok found k t' os'"
      using Suc.prems(1) by (intro Suc.IH) auto
    moreover have "run ok found (open_console (Suc n) k) t os = run ok found (open_console n k) ?t (os @ [Opened (lit ''console'') O_RDWR])"
      using a assms(3) fd(2) j(1) by simp
    moreover have "?t ! i = Some f" if "t ! i = Some f" for i f using that fd(1) by (cases "i = fd") auto
    ultimately show ?thesis by fastforce
  qed
qed simp

text \<open>The meaning of the lines of a session up to the end of the input: what each command line means, one after the other, on the same descriptors.\<close>

fun session_plan :: "(uchar list \<Rightarrow> uint \<Rightarrow> bool) \<Rightarrow> (uchar list \<Rightarrow> bool) \<Rightarrow> uchar list list \<Rightarrow> fdtable \<Rightarrow> fobj list \<Rightarrow> launch list \<times> fobj list" where
  "session_plan ok found [] t os = ([], os)"
| "session_plan ok found (l # ls) t os =
     (if l = [] then ([], os)
      else if take 3 l = lit ''cd '' then session_plan ok found ls t os
      else let (l1, os) = (case parsecmd l of Parsed (c, _) _ \<Rightarrow> plan ok found l c t os | _ \<Rightarrow> ([], os));
               (l2, os) = session_plan ok found ls t os
           in (l1 @ l2, os))"

lemma sh_loop_plan:
  "ds.std t \<Longrightarrow> \<forall>l\<in>set ls. 0 \<notin> set l \<Longrightarrow> run ok found (sh_loop ls) t os = session_plan ok found ls t os"
proof (induction ls arbitrary: os)
  case (Cons l ls)
  have "run ok found (case parsecmd l of Parsed (c, b) _ \<Rightarrow> runcmd b c | Exits msg \<Rightarrow> sh_panic (lit msg) | NoFuel \<Rightarrow> Exit) t os =
      (case parsecmd l of Parsed (c, _) _ \<Rightarrow> plan ok found l c t os | _ \<Rightarrow> ([], os))" for os
    using Cons.prems parsecmd_words [of l] runcmd_plan [OF Cons.prems(1)] by (auto split: parsed.splits)
  then show ?case using Cons by (simp add: run_fork1 Let_def)
qed simp

lemma session_std:
  "ds.std t \<Longrightarrow> \<forall>l\<in>set ls. 0 \<notin> set l \<Longrightarrow> (p, args, t') \<in> set (fst (session_plan ok found ls t os)) \<Longrightarrow> ds.std t'"
proof (induction ls arbitrary: os)
  case (Cons l ls)
  have 0: "0 \<notin> set l" using Cons.prems(2) by simp
  show ?case
    using Cons.IH [OF Cons.prems(1)] Cons.prems plan_std [OF Cons.prems(1) parsecmd_words(1) [OF _ 0]]
    by (auto simp: Let_def split_beta split: if_splits parsed.splits)
qed simp

text \<open>
  C15. The shell does what the lines mean. Started with no descriptor above 2 open, it opens the console until the three standard descriptors exist, and keeps those it had. Then, for any lines, the programs it starts, in order, with
  their arguments and with what their descriptors refer to, are those of the meaning of the lines: a redirection replaces descriptor 0 or 1 by the file, a pipe gives descriptor 1 of its
  left side and descriptor 0 of its right side the two ends of one new pipe, and a file that cannot be opened stops its command. Every program starts with the three standard descriptors and no other: no
  end of a pipe is left open by accident.
\<close>

theorem shell_session:
  assumes "length t = NOFILE" "\<forall>j. 3 \<le> j \<and> j < NOFILE \<longrightarrow> t ! j = None" "ok (lit ''console'') O_RDWR" "\<forall>l\<in>set ls. 0 \<notin> set l"
  shows "\<exists>t' os'. run ok found (sh_main ls) t os = session_plan ok found ls t' os' \<and> (\<forall>j f. t ! j = Some f \<longrightarrow> t' ! j = Some f) \<and>
    (\<forall>(p, args, u)\<in>set (fst (run ok found (sh_main ls) t os)). length u = NOFILE \<and> (\<forall>j<NOFILE. u ! j = None \<longleftrightarrow> 3 \<le> j))"
proof -
  have "card {j. j < 3 \<and> t ! j = None} \<le> card {..<3 :: nat}" by (rule card_mono) auto
  then have "card {j. j < 3 \<and> t ! j = None} < 5" by simp
  then obtain t' os' where t': "ds.std t'" "run ok found (sh_main ls) t os = run ok found (sh_loop ls) t' os'"
    "\<forall>j f. t ! j = Some f \<longrightarrow> t' ! j = Some f"
    using open_console_std [of t ok 5 found "sh_loop ls" os] assms(1-3) by (auto simp: sh_main_def)
  then show ?thesis
    using sh_loop_plan [OF t'(1) assms(4)] session_std [OF t'(1) assms(4), of _ _ _ ok found os']
    by (intro exI [of _ t'] exI [of _ os']) (auto simp: ds.std_def)
qed

text \<open>The line \<^verbatim>\<open>a|b\<close> in a shell that starts without descriptors: objects 0 to 2 are the console, 4 and 5 are the ends of the pipe.\<close>

lemma shell_example:
  "run (\<lambda>_ _. True) (\<lambda>_. True) (sh_main [[97, 124, 98, 10]]) (replicate 16 None) [] =
     ([([97], [[97]], [Some 0, Some 5, Some 2] @ replicate 13 None), ([98], [[98]], [Some 4, Some 1, Some 2] @ replicate 13 None)],
      replicate 4 (Opened (lit ''console'') O_RDWR) @ [ReadEnd, WriteEnd])"
  by code_simp

theorem shell_session_witness:
  "\<exists>t' os'. session_plan (\<lambda>_ _. True) (\<lambda>_. True) [[97, 124, 98, 10]] t' os' =
     ([([97], [[97]], [Some 0, Some 5, Some 2] @ replicate 13 None), ([98], [[98]], [Some 4, Some 1, Some 2] @ replicate 13 None)],
      replicate 4 (Opened (lit ''console'') O_RDWR) @ [ReadEnd, WriteEnd])"
proof -
  have h: "length (replicate 16 (None :: nat option)) = NOFILE" "\<forall>j. 3 \<le> j \<and> j < NOFILE \<longrightarrow> replicate 16 (None :: nat option) ! j = None"
    "\<forall>l\<in>set [[97, 124, 98, 10 :: uchar]]. 0 \<notin> set l" by (simp_all add: NOFILE_def)
  obtain t' os' where "run (\<lambda>_ _. True) (\<lambda>_. True) (sh_main [[97, 124, 98, 10]]) (replicate 16 None) [] =
      session_plan (\<lambda>_ _. True) (\<lambda>_. True) [[97, 124, 98, 10]] t' os'"
    using shell_session [OF h(1,2) _ h(3), of "\<lambda>_ _. True" "\<lambda>_. True" "[]"] by blast
  then show ?thesis unfolding shell_example by (intro exI [of _ t'] exI [of _ os']) (rule sym)
qed

end
