(* ===== verification/Xv6_Umalloc.thy ===== *)
theory Xv6_Umalloc
  imports Xv6_Prelude
begin

text \<open>
  The user memory allocator of \<^verbatim>\<open>ulib/umalloc.c\<close>. Memory is seen in units of the 8-byte \<^verbatim>\<open>Header\<close>: a header pointer is an address divided
  by 8, so that pointer arithmetic counts headers as in the code, and each unit has the two fields of the structure. The system call \<^verbatim>\<open>sbrk\<close> is a
  parameter with a state of its own. The free blocks are a set of units; \<^verbatim>\<open>malloc\<close> takes a block out of it and \<^verbatim>\<open>free\<close> puts one back.
\<close>

section \<open>The allocator\<close>

record 'k umem =
  hptr :: "nat \<Rightarrow> nat"
  hsize :: "nat \<Rightarrow> uint"
  freep :: nat
  kern :: 'k

text \<open>The loop of \<^verbatim>\<open>free\<close> that looks for the place of the block. Not ending is \<open>None\<close>.\<close>

partial_function (option) free_find :: "nat \<Rightarrow> nat \<Rightarrow> 'k umem \<Rightarrow> nat option" where
  "free_find bp p m =
     (if p < bp \<and> bp < hptr m p then Some p
      else if hptr m p \<le> p \<and> (p < bp \<or> bp < hptr m p) then Some p
      else free_find bp (hptr m p) m)"

definition join_upper :: "nat \<Rightarrow> nat \<Rightarrow> 'k umem \<Rightarrow> 'k umem" where
  "join_upper bp p m =
     (if bp + unat (hsize m bp) = hptr m p
      then m\<lparr>hsize := (hsize m)(bp := hsize m bp + hsize m (hptr m p)), hptr := (hptr m)(bp := hptr m (hptr m p))\<rparr>
      else m\<lparr>hptr := (hptr m)(bp := hptr m p)\<rparr>)"

definition join_lower :: "nat \<Rightarrow> nat \<Rightarrow> 'k umem \<Rightarrow> 'k umem" where
  "join_lower bp p m =
     (if p + unat (hsize m p) = bp
      then m\<lparr>hsize := (hsize m)(p := hsize m p + hsize m bp), hptr := (hptr m)(p := hptr m bp)\<rparr>
      else m\<lparr>hptr := (hptr m)(p := bp)\<rparr>)"

definition free :: "nat \<Rightarrow> 'k umem \<Rightarrow> 'k umem option" where
  "free ap m =
     (let bp = ap - 1
      in map_option (\<lambda>p. (join_lower bp p (join_upper bp p m))\<lparr>freep := p\<rparr>) (free_find bp (freep m) m))"

text \<open>\<^verbatim>\<open>morecore\<close>, with \<^verbatim>\<open>sbrk\<close> from a number of bytes to the unit of the new memory.\<close>

definition morecore :: "(uint \<Rightarrow> 'k \<Rightarrow> nat option \<times> 'k) \<Rightarrow> uint \<Rightarrow> 'k umem \<Rightarrow> (nat option \<times> 'k umem) option" where
  "morecore sbrk nu m =
     (let nu = (if nu < 4096 then 4096 else nu); (r, k) = sbrk (nu * 8) (kern m); m = m\<lparr>kern := k\<rparr>
      in case r of
           None \<Rightarrow> Some (None, m)
         | Some hp \<Rightarrow> map_option (\<lambda>m. (Some (freep m), m)) (free (hp + 1) (m\<lparr>hsize := (hsize m)(hp := nu)\<rparr>)))"

text \<open>What \<^verbatim>\<open>malloc\<close> does with a block \<^verbatim>\<open>p\<close> that is large enough: take it out, or cut off its end.\<close>

definition take_block :: "uint \<Rightarrow> nat \<Rightarrow> nat \<Rightarrow> 'k umem \<Rightarrow> nat \<times> 'k umem" where
  "take_block nunits prevp p m =
     (if hsize m p = nunits then (p + 1, m\<lparr>hptr := (hptr m)(prevp := hptr m p), freep := prevp\<rparr>)
      else let s = hsize m p - nunits; q = p + unat s
           in (q + 1, m\<lparr>hsize := (hsize m)(p := s, q := nunits), freep := prevp\<rparr>))"

partial_function (option) malloc_loop :: "(uint \<Rightarrow> 'k \<Rightarrow> nat option \<times> 'k) \<Rightarrow> uint \<Rightarrow> nat \<Rightarrow> nat \<Rightarrow> 'k umem \<Rightarrow> (nat option \<times> 'k umem) option" where
  "malloc_loop sbrk nunits prevp p m =
     (if nunits \<le> hsize m p then Some (map_prod Some id (take_block nunits prevp p m))
      else if p = freep m
      then Option.bind (morecore sbrk nunits m) (\<lambda>x. case fst x of None \<Rightarrow> Some (None, snd x)
             | Some q \<Rightarrow> malloc_loop sbrk nunits q (hptr (snd x) q) (snd x))
      else malloc_loop sbrk nunits p (hptr m p) m)"

definition nunits_of :: "uint \<Rightarrow> uint" where
  "nunits_of nbytes = (nbytes + 8 - 1) div 8 + 1"

text \<open>The first call makes a list of the empty block \<^verbatim>\<open>base\<close>.\<close>

definition malloc_start :: "nat \<Rightarrow> 'k umem \<Rightarrow> 'k umem" where
  "malloc_start base m =
     (if freep m = 0 then m\<lparr>hptr := (hptr m)(base := base), freep := base, hsize := (hsize m)(base := 0)\<rparr> else m)"

definition malloc :: "nat \<Rightarrow> (uint \<Rightarrow> 'k \<Rightarrow> nat option \<times> 'k) \<Rightarrow> uint \<Rightarrow> 'k umem \<Rightarrow> (nat option \<times> 'k umem) option" where
  "malloc base sbrk nbytes m =
     (let m = malloc_start base m
      in malloc_loop sbrk (nunits_of nbytes) (freep m) (hptr m (freep m)) m)"

section \<open>The circular list\<close>

text \<open>\<open>x\<close> follows \<open>p\<close> in the circular order of a set whose least element is \<open>base\<close>.\<close>

definition is_succ :: "nat \<Rightarrow> nat set \<Rightarrow> nat \<Rightarrow> nat \<Rightarrow> bool" where
  "is_succ base F p x \<longleftrightarrow> (x \<in> F \<and> p < x \<and> (\<forall>q\<in>F. p < q \<longrightarrow> x \<le> q)) \<or> (x = base \<and> (\<forall>q\<in>F. q \<le> p))"

text \<open>
  The free list: the headers in \<open>F\<close>, linked in the order of their addresses, with blocks that neither overlap nor touch. The block
  of \<open>base\<close> is empty and below all others. Addresses end at \<open>2^29\<close> units, which is the whole 32-bit space.
\<close>

definition heap_ok :: "nat \<Rightarrow> nat set \<Rightarrow> 'k umem \<Rightarrow> bool" where
  "heap_ok base F m \<longleftrightarrow> finite F \<and> base \<in> F \<and> 0 < base \<and> freep m \<in> F \<and> hsize m base = 0 \<and>
     (\<forall>p\<in>F. base \<le> p \<and> p + unat (hsize m p) \<le> 2 ^ 29 \<and> is_succ base F p (hptr m p) \<and> (p \<noteq> base \<longrightarrow> 0 < unat (hsize m p))) \<and>
     (\<forall>p\<in>F. \<forall>q\<in>F. p < q \<longrightarrow> p + unat (hsize m p) < q)"

definition block :: "'k umem \<Rightarrow> nat \<Rightarrow> nat set" where
  "block m p = {p..<p + unat (hsize m p)}"

definition free_units :: "nat set \<Rightarrow> 'k umem \<Rightarrow> nat set" where
  "free_units F m = (\<Union>p\<in>F. block m p)"

lemma heap_okD:
  assumes "heap_ok base F m"
  shows "finite F" "base \<in> F" "0 < base" "freep m \<in> F" "hsize m base = 0"
    "\<And>p. p \<in> F \<Longrightarrow> base \<le> p" "\<And>p. p \<in> F \<Longrightarrow> p + unat (hsize m p) \<le> 2 ^ 29"
    "\<And>p. p \<in> F \<Longrightarrow> is_succ base F p (hptr m p)"
    "\<And>p q. p \<in> F \<Longrightarrow> q \<in> F \<Longrightarrow> p < q \<Longrightarrow> p + unat (hsize m p) < q" "\<And>p. p \<in> F \<Longrightarrow> p \<noteq> base \<Longrightarrow> 0 < unat (hsize m p)"
  using assms by (auto simp: heap_ok_def)

lemma is_succ_mem: "is_succ base F p x \<Longrightarrow> base \<in> F \<Longrightarrow> x \<in> F"
  by (auto simp: is_succ_def)

lemma is_succE:
  assumes "is_succ base F p x"
  obtains (up) "x \<in> F" "p < x" "\<And>q. q \<in> F \<Longrightarrow> p < q \<Longrightarrow> x \<le> q" | (wrap) "x = base" "\<And>q. q \<in> F \<Longrightarrow> q \<le> p"
  using assms by (auto simp: is_succ_def)

lemma succ_unique:
  assumes "is_succ base F p x" "is_succ base F q x" "p \<in> F" "q \<in> F" "x \<noteq> base"
  shows "p = q"
proof -
  have "p < x" "q < x" "\<And>r. r \<in> F \<Longrightarrow> p < r \<Longrightarrow> x \<le> r" "\<And>r. r \<in> F \<Longrightarrow> q < r \<Longrightarrow> x \<le> r"
    using assms(1,2,5) by (auto simp: is_succ_def)
  then show ?thesis using assms(3,4) by (metis leD linorder_neqE_nat)
qed

text \<open>The headers from \<open>p\<close> on before \<open>t\<close>, going round: every step along the list takes one away.\<close>

definition ahead :: "nat set \<Rightarrow> nat \<Rightarrow> nat \<Rightarrow> nat set" where
  "ahead F t p = (if p \<le> t then {q\<in>F. p \<le> q \<and> q < t} else {q\<in>F. p \<le> q \<or> q < t})"

lemma ahead_step:
  assumes "is_succ base F p x" "p \<in> F" "t \<in> F" "\<forall>q\<in>F. base \<le> q" "p \<noteq> t"
  shows "ahead F t x = ahead F t p - {p}" "p \<in> ahead F t p"
proof -
  show "p \<in> ahead F t p" using assms(2,5) by (auto simp: ahead_def)
  from assms(1) show "ahead F t x = ahead F t p - {p}"
  proof (cases rule: is_succE)
    case up
    then have n: "\<And>q. q \<in> F \<Longrightarrow> x \<le> q \<longleftrightarrow> p \<le> q \<and> q \<noteq> p" using order_le_less by force
    show ?thesis
    proof (cases "p < t")
      case True
      then show ?thesis using up(3) assms(3) n by (auto simp: ahead_def)
    next
      case False
      then show ?thesis using up(2) assms(5) n by (auto simp: ahead_def)
    qed
  next
    case wrap
    then have "t < p" "base \<le> t" using assms(3-5) order_le_less by auto
    moreover have "\<And>q. q \<in> F \<Longrightarrow> p \<le> q \<longleftrightarrow> q = p" using wrap(2) le_antisym by blast
    ultimately show ?thesis using wrap(1) assms(4) by (auto simp: ahead_def)
  qed
qed

lemma card_ahead_step:
  assumes "is_succ base F p x" "p \<in> F" "t \<in> F" "\<forall>q\<in>F. base \<le> q" "p \<noteq> t" "finite F"
  shows "card (ahead F t p) = Suc (card (ahead F t x))"
proof -
  have "finite (ahead F t p)" using assms(6) by (auto simp: ahead_def)
  then show ?thesis using ahead_step [OF assms(1-5)] by (metis card_Suc_Diff1)
qed

lemma card_ahead_0: "finite F \<Longrightarrow> p \<in> F \<Longrightarrow> card (ahead F t p) = 0 \<Longrightarrow> p = t"
proof -
  assume "finite F" "p \<in> F" "card (ahead F t p) = 0"
  moreover have "finite (ahead F t p)" using \<open>finite F\<close> by (auto simp: ahead_def)
  ultimately have "ahead F t p = {}" by simp
  then show "p = t" using \<open>p \<in> F\<close> by (auto simp: ahead_def split: if_splits)
qed

section \<open>free\<close>

text \<open>The header a block at \<open>bp\<close> comes after.\<close>

definition pred_of :: "nat set \<Rightarrow> nat \<Rightarrow> nat" where
  "pred_of F bp = Max {q\<in>F. q < bp}"

lemma pred_of:
  assumes "finite F" "base \<in> F" "base < bp"
  shows "pred_of F bp \<in> F" "pred_of F bp < bp" "\<And>q. q \<in> F \<Longrightarrow> q < bp \<Longrightarrow> q \<le> pred_of F bp"
proof -
  have f: "finite {q\<in>F. q < bp}" "base \<in> {q\<in>F. q < bp}" using assms by auto
  then have "Max {q\<in>F. q < bp} \<in> {q\<in>F. q < bp}" by (intro Max_in) auto
  then show "pred_of F bp \<in> F" "pred_of F bp < bp" by (auto simp: pred_of_def)
  show "q \<le> pred_of F bp" if "q \<in> F" "q < bp" for q using f(1) that by (auto simp: pred_of_def)
qed

lemma free_find_pred:
  assumes h: "heap_ok base F m" and bp: "base < bp" "bp \<notin> F"
  shows "p \<in> F \<Longrightarrow> free_find bp p m = Some (pred_of F bp)"
proof (induction "card (ahead F (pred_of F bp) p)" arbitrary: p rule: less_induct)
  case less
  note d = heap_okD [OF h]
  note t = pred_of [OF d(1,2) bp(1)]
  have s: "is_succ base F p (hptr m p)" using less.prems by (rule d(8))
  show ?case
  proof (cases "p = pred_of F bp")
    case True
    from s have "bp < hptr m p \<or> hptr m p \<le> p"
    proof (cases rule: is_succE)
      case up
      then have "\<not> hptr m p < bp" using t(3) [of "hptr m p"] True by auto
      then show ?thesis using up(1) bp(2) nat_neq_iff by auto
    qed (use d(6) less.prems in auto)
    then show ?thesis using True t(2) by (subst free_find.simps) auto
  next
    case False
    have x: "hptr m p \<in> F" using s d(2) by (rule is_succ_mem)
    have "\<not> (p < bp \<and> bp < hptr m p) \<and> \<not> (hptr m p \<le> p \<and> (p < bp \<or> bp < hptr m p))"
      using s
    proof (cases rule: is_succE)
      case up
      have "hptr m p \<le> pred_of F bp" if "p < bp" using t(3) [OF less.prems that] False up(3) [OF t(1)] by simp
      then show ?thesis using t(2) up(2) by auto
    next
      case wrap
      then show ?thesis using bp(1) t(3) [OF less.prems] wrap(2) [OF t(1)] False by auto
    qed
    then have "free_find bp p m = free_find bp (hptr m p) m" by (subst free_find.simps) auto
    moreover have "card (ahead F (pred_of F bp) p) = Suc (card (ahead F (pred_of F bp) (hptr m p)))"
      using s less.prems t(1) _ False d(1) by (rule card_ahead_step) (use d(6) in blast)
    ultimately show ?thesis using less.hyps x by simp
  qed
qed

text \<open>The other headers keep their successor when a block is put in after \<open>p\<close> and the header \<open>x\<close> behind \<open>p\<close> is possibly taken out.\<close>

lemma succ_other:
  assumes s: "is_succ base F q y" "q \<in> F" "q \<noteq> p" "is_succ base F p x" "p \<in> F"
    and p: "p < bp" "\<And>r. r \<in> F \<Longrightarrow> r < bp \<Longrightarrow> r \<le> p" "base < bp" "U = {} \<or> (U = {x} \<and> bp < x)"
  shows "is_succ base (F - U) q y" "is_succ base (insert bp (F - U)) q y"
proof -
  have "is_succ base (F - U) q y \<and> is_succ base (insert bp (F - U)) q y"
    using s(1)
  proof (cases rule: is_succE)
    case up
    have "y \<notin> U"
    proof
      assume "y \<in> U"
      then have "y = x" "x \<noteq> base" using p(3,4) by auto
      then show False using succ_unique [of base F q x p] s by simp
    qed
    moreover have "y \<le> bp" if "q < bp"
    proof -
      have "q < p" using p(2) [OF s(2) that] s(3) by simp
      then show ?thesis using up(3) [OF s(5)] p(1) by simp
    qed
    ultimately show ?thesis using up by (auto simp: is_succ_def)
  next
    case wrap
    have "bp \<le> q" using p(2) [OF s(2)] wrap(2) [OF s(5)] s(3) by (meson le_antisym not_le)
    then show ?thesis using wrap by (auto simp: is_succ_def)
  qed
  then show "is_succ base (F - U) q y" "is_succ base (insert bp (F - U)) q y" by auto
qed

lemma unat_add_units: "unat (a :: uint) + unat b \<le> 2 ^ 29 \<Longrightarrow> unat (a + b) = unat a + unat b"
  by (simp add: unat_word_ariths)

text \<open>The block after it has been joined with the one above it, not yet linked from below.\<close>

text \<open>The first free block above a block that is being freed is the successor of the one below it, and does not overlap it.\<close>

lemma pred_succ_above:
  assumes h: "heap_ok base F m" and bp: "base < bp" "bp \<notin> F" and q: "q \<in> F" "bp < q"
  shows "hptr m (pred_of F bp) \<le> q" "bp < hptr m (pred_of F bp)"
proof -
  note d = heap_okD [OF h]
  note t = pred_of [OF d(1,2) bp(1)]
  from d(8) [OF t(1)] have "hptr m (pred_of F bp) \<le> q \<and> bp < hptr m (pred_of F bp)"
  proof (cases rule: is_succE)
    case up
    then show ?thesis using q t(2) t(3) [OF up(1)] bp(2) nat_neq_iff by (metis leD less_trans)
  next
    case wrap
    then show ?thesis using q t(2) by (meson leD less_trans)
  qed
  then show "hptr m (pred_of F bp) \<le> q" "bp < hptr m (pred_of F bp)" by auto
qed

lemma freed_below:
  assumes h: "heap_ok base F m" and bp: "base < bp" and dj: "block m bp \<inter> free_units F m = {}" and q: "q \<in> F" "bp < q"
  shows "bp + unat (hsize m bp) \<le> q"
proof (rule ccontr)
  assume "\<not> ?thesis"
  then have "q \<in> block m bp" using q(2) by (auto simp: block_def)
  moreover have "q \<in> block m q" using heap_okD(10) [OF h q(1)] q(2) bp by (auto simp: block_def)
  ultimately show False using dj q(1) by (auto simp: free_units_def)
qed

text \<open>The two results of \<^verbatim>\<open>join_upper\<close>: the upper neighbour \<open>x\<close> is swallowed, or stays the successor.\<close>

definition upper_joined :: "nat \<Rightarrow> nat set \<Rightarrow> nat set \<Rightarrow> nat \<Rightarrow> 'k umem \<Rightarrow> 'k umem \<Rightarrow> bool" where
  "upper_joined base F U bp m m1 \<longleftrightarrow>
     is_succ base (insert bp (F - U)) bp (hptr m1 bp) \<and> is_succ base (F - U) bp (hptr m1 bp) \<and>
     (\<forall>q. q \<noteq> bp \<longrightarrow> hptr m1 q = hptr m q \<and> hsize m1 q = hsize m q) \<and>
     (\<forall>q\<in>F - U. bp < q \<longrightarrow> bp + unat (hsize m1 bp) < q) \<and> bp + unat (hsize m1 bp) \<le> 2 ^ 29 \<and> hsize m bp \<le> hsize m1 bp \<and>
     block m1 bp \<union> free_units (F - U) m1 = block m bp \<union> free_units F m \<and> kern m1 = kern m"

lemma join_upper_swallow:
  assumes h: "heap_ok base F m" and bp: "base < bp" "bp \<notin> F" and x: "x \<in> F" "base < x" "bp < x" "bp + unat (hsize m bp) = x"
    and ge: "\<And>q. q \<in> F \<Longrightarrow> bp \<le> q \<Longrightarrow> x \<le> q"
    and m1: "hptr m1 = (hptr m)(bp := hptr m x)" "hsize m1 = (hsize m)(bp := hsize m bp + hsize m x)" "kern m1 = kern m"
  shows "upper_joined base F {x} bp m m1"
proof -
  note d = heap_okD [OF h]
  have u: "unat (hsize m bp + hsize m x) = unat (hsize m bp) + unat (hsize m x)"
    using d(7) [OF x(1)] x(4) by (intro unat_add_units) simp
  from d(8) [OF x(1)] have "is_succ base (insert bp (F - {x})) bp (hptr m x) \<and> is_succ base (F - {x}) bp (hptr m x)"
  proof (cases rule: is_succE)
    case up
    have "hptr m x \<le> q" if "q \<in> F" "q \<noteq> x" "bp < q" for q using ge [of q] up(3) [of q] that by simp
    then show ?thesis using up(1,2) x(3) by (auto simp: is_succ_def)
  next
    case wrap
    then have "\<forall>q\<in>F - {x}. q \<le> bp" using ge by (metis DiffE insertI1 le_antisym linear)
    then show ?thesis using wrap by (auto simp: is_succ_def)
  qed
  moreover have "bp + unat (hsize m1 bp) < q" if "q \<in> F - {x}" "bp < q" for q
    using d(9) [OF x(1), of q] ge [of q] that x(4) by (simp add: m1 u)
  moreover have "block m1 bp \<union> free_units (F - {x}) m1 = block m bp \<union> free_units F m"
  proof -
    have "block m1 bp = block m bp \<union> block m x" using x(4) by (auto simp: block_def m1 u)
    moreover have "free_units (F - {x}) m1 = (\<Union>q\<in>F - {x}. block m q)"
      unfolding free_units_def using bp(2) by (intro SUP_cong refl) (auto simp: block_def m1)
    ultimately show ?thesis using x(1) by (auto simp: free_units_def)
  qed
  ultimately show ?thesis
    unfolding upper_joined_def using x(4) m1 u d(7) [OF x(1)] by (auto simp: word_le_nat_alt)
qed

lemma join_upper_apart:
  assumes h: "heap_ok base F m" and bp: "base < bp" "bp \<notin> F" "bp + unat (hsize m bp) \<le> 2 ^ 29"
    and dj: "block m bp \<inter> free_units F m = {}"
  defines "x \<equiv> hptr m (pred_of F bp)"
  assumes ne: "bp + unat (hsize m bp) \<noteq> x" and m1: "hptr m1 = (hptr m)(bp := x)" "hsize m1 = hsize m" "kern m1 = kern m"
  shows "upper_joined base F {} bp m m1"
proof -
  note d = heap_okD [OF h]
  note t = pred_of [OF d(1,2) bp(1)]
  note above = pred_succ_above [OF h bp(1,2), folded x_def]
  have s: "is_succ base F (pred_of F bp) x" unfolding x_def using t(1) by (rule d(8))
  then have "is_succ base (insert bp F) bp x \<and> is_succ base F bp x"
  proof (cases rule: is_succE)
    case up
    have "bp < x" using t(3) [OF up(1)] up(1,2) bp(2) by (metis leD linorder_neqE_nat)
    then show ?thesis using up(1) above(1) by (auto simp: is_succ_def)
  next
    case wrap
    then show ?thesis using t(2) by (auto simp: is_succ_def dest: wrap(2))
  qed
  moreover have "bp + unat (hsize m bp) < q" if "q \<in> F" "bp < q" for q
  proof -
    have "x \<in> F" using s d(2) by (rule is_succ_mem)
    then show ?thesis
      using freed_below [OF h bp(1) dj _ above(2) [OF that]] above(1) [OF that] ne by (metis le_neq_implies_less less_le_trans)
  qed
  moreover have "free_units F m1 = free_units F m" by (simp add: free_units_def block_def m1)
  ultimately show ?thesis unfolding upper_joined_def using m1 bp(3) by (auto simp: block_def)
qed

lemma join_upper_ok:
  assumes h: "heap_ok base F m" and bp: "base < bp" "bp \<notin> F" "bp + unat (hsize m bp) \<le> 2 ^ 29"
    and dj: "block m bp \<inter> free_units F m = {}"
  defines "p \<equiv> pred_of F bp"
  defines "x \<equiv> hptr m p"
  defines "m1 \<equiv> join_upper bp p m"
  shows "\<exists>U. (U = {} \<or> (U = {x} \<and> bp < x)) \<and> base \<notin> U \<and> p \<notin> U \<and>
    is_succ base (insert bp (F - U)) bp (hptr m1 bp) \<and> is_succ base (F - U) bp (hptr m1 bp) \<and>
    (\<forall>q. q \<noteq> bp \<longrightarrow> hptr m1 q = hptr m q \<and> hsize m1 q = hsize m q) \<and>
    (\<forall>q\<in>F - U. bp < q \<longrightarrow> bp + unat (hsize m1 bp) < q) \<and> bp + unat (hsize m1 bp) \<le> 2 ^ 29 \<and> hsize m bp \<le> hsize m1 bp \<and>
    block m1 bp \<union> free_units (F - U) m1 = block m bp \<union> free_units F m \<and> kern m1 = kern m"
proof -
  note d = heap_okD [OF h]
  note t = pred_of [OF d(1,2) bp(1), folded p_def]
  have s: "is_succ base F p x" unfolding x_def using t(1) by (rule d(8))
  note above = pred_succ_above [OF h bp(1,2), folded p_def, folded x_def]
  have "\<exists>U. (U = {} \<or> (U = {x} \<and> bp < x)) \<and> base \<notin> U \<and> p \<notin> U \<and> upper_joined base F U bp m m1"
  proof (cases "bp + unat (hsize m bp) = x")
    case True
    have x: "x \<in> F" "base < x" "p < x" using s True bp(1) t(2) by (auto elim: is_succE)
    have bx: "bp < x" using t(3) [OF x(1)] x(3) bp(2) x(1) by (metis leD linorder_neqE_nat)
    have ge: "x \<le> q" if "q \<in> F" "bp \<le> q" for q using above(1) [OF that(1)] that bp(2) by (metis le_neq_implies_less)
    have m1: "hptr m1 = (hptr m)(bp := hptr m x)" "hsize m1 = (hsize m)(bp := hsize m bp + hsize m x)" "kern m1 = kern m"
      using True by (simp_all add: m1_def join_upper_def x_def)
    show ?thesis using join_upper_swallow [OF h bp(1,2) x(1,2) bx True ge m1] x bx by (intro exI [of _ "{x}"]) auto
  next
    case False
    have m1: "hptr m1 = (hptr m)(bp := x)" "hsize m1 = hsize m" "kern m1 = kern m"
      using False by (simp_all add: m1_def join_upper_def x_def)
    show ?thesis using join_upper_apart [OF h bp dj, folded p_def, folded x_def, OF False m1] by (intro exI [of _ "{}"]) simp
  qed
  then show ?thesis unfolding upper_joined_def .
qed

text \<open>The state between the two halves of \<^verbatim>\<open>free\<close>: the block at \<open>bp\<close> knows its successor, and only \<open>p\<close> has still to be set.\<close>

definition pending :: "nat \<Rightarrow> nat set \<Rightarrow> nat \<Rightarrow> nat \<Rightarrow> 'k umem \<Rightarrow> bool" where
  "pending base G p bp m \<longleftrightarrow> finite G \<and> base \<in> G \<and> 0 < base \<and> p \<in> G \<and> p < bp \<and> base < bp \<and> bp \<notin> G \<and> hsize m base = 0 \<and>
     (\<forall>q\<in>G. base \<le> q \<and> q + unat (hsize m q) \<le> 2 ^ 29 \<and> (q \<noteq> base \<longrightarrow> 0 < unat (hsize m q)) \<and> (q < bp \<longrightarrow> q \<le> p) \<and>
        (bp < q \<longrightarrow> bp + unat (hsize m bp) < q) \<and>
        (q \<noteq> p \<longrightarrow> is_succ base G q (hptr m q) \<and> is_succ base (insert bp G) q (hptr m q))) \<and>
     (\<forall>q\<in>G. \<forall>r\<in>G. q < r \<longrightarrow> q + unat (hsize m q) < r) \<and> p + unat (hsize m p) \<le> bp \<and>
     is_succ base (insert bp G) bp (hptr m bp) \<and> is_succ base G bp (hptr m bp) \<and> bp + unat (hsize m bp) \<le> 2 ^ 29 \<and> 0 < unat (hsize m bp)"

lemma pendingD:
  assumes "pending base G p bp m"
  shows "finite G" "base \<in> G" "0 < base" "p \<in> G" "p < bp" "base < bp" "bp \<notin> G" "hsize m base = 0"
    "\<And>q. q \<in> G \<Longrightarrow> base \<le> q" "\<And>q. q \<in> G \<Longrightarrow> q + unat (hsize m q) \<le> 2 ^ 29" "\<And>q. q \<in> G \<Longrightarrow> q \<noteq> base \<Longrightarrow> 0 < unat (hsize m q)"
    "\<And>q. q \<in> G \<Longrightarrow> q < bp \<Longrightarrow> q \<le> p" "\<And>q. q \<in> G \<Longrightarrow> bp < q \<Longrightarrow> bp + unat (hsize m bp) < q"
    "\<And>q. q \<in> G \<Longrightarrow> q \<noteq> p \<Longrightarrow> is_succ base G q (hptr m q)" "\<And>q. q \<in> G \<Longrightarrow> q \<noteq> p \<Longrightarrow> is_succ base (insert bp G) q (hptr m q)"
    "\<And>q r. q \<in> G \<Longrightarrow> r \<in> G \<Longrightarrow> q < r \<Longrightarrow> q + unat (hsize m q) < r" "p + unat (hsize m p) \<le> bp"
    "is_succ base (insert bp G) bp (hptr m bp)" "is_succ base G bp (hptr m bp)" "bp + unat (hsize m bp) \<le> 2 ^ 29" "0 < unat (hsize m bp)"
  using assms unfolding pending_def by blast+

lemma pending_above: "pending base G p bp m \<Longrightarrow> r \<in> G \<Longrightarrow> p < r \<Longrightarrow> bp < r"
  using pendingD(7,12) by (metis leD linorder_neqE_nat)

lemma join_lower_joined:
  assumes "pending base G p bp m" "p + unat (hsize m p) = bp"
  defines "m' \<equiv> (join_lower bp p m)\<lparr>freep := p\<rparr>"
  shows "heap_ok base G m'" "free_units G m' = block m bp \<union> free_units G m" "p \<noteq> base"
proof -
  note d = pendingD [OF assms(1)]
  show pb: "p \<noteq> base" using d(6,8) assms(2) by auto
  have u: "unat (hsize m p + hsize m bp) = unat (hsize m p) + unat (hsize m bp)" using d(20) assms(2) by (intro unat_add_units) simp
  have m': "hptr m' = (hptr m)(p := hptr m bp)" "hsize m' = (hsize m)(p := hsize m p + hsize m bp)" "freep m' = p"
    using assms(2) by (simp_all add: m'_def join_lower_def)
  have succ: "is_succ base G p (hptr m bp)"
    using d(19)
  proof (cases rule: is_succE)
    case up
    then show ?thesis using pending_above [OF assms(1)] d(5) by (auto simp: is_succ_def)
  next
    case wrap
    have "r \<le> p" if "r \<in> G" for r using pending_above [OF assms(1) that] wrap(2) [OF that] by (meson not_le)
    then show ?thesis using wrap(1) by (auto simp: is_succ_def)
  qed
  have gap: "q + unat (hsize m' q) < r" if "q \<in> G" "r \<in> G" "q < r" for q r
    using d(16) [OF that] d(13) [OF that(2) pending_above [OF assms(1) that(2)]] that(3) assms(2) u by (auto simp: m')
  show "heap_ok base G m'"
    unfolding heap_ok_def using d(1-4,8-11,14,20,21) pb succ gap assms(2) u by (auto simp: m')
  have e: "block m' q = (if q = p then block m p \<union> block m bp else block m q)" for q
    using assms(2) u by (auto simp: block_def m')
  show "free_units G m' = block m bp \<union> free_units G m"
    unfolding free_units_def e using d(4) by (auto split: if_splits)
qed

lemma join_lower_linked:
  assumes "pending base G p bp m" "p + unat (hsize m p) \<noteq> bp"
  defines "m' \<equiv> (join_lower bp p m)\<lparr>freep := p\<rparr>"
  shows "heap_ok base (insert bp G) m'" "free_units (insert bp G) m' = block m bp \<union> free_units G m" "hsize m' = hsize m"
proof -
  note d = pendingD [OF assms(1)]
  have m': "hptr m' = (hptr m)(p := bp)" "hsize m' = hsize m" "freep m' = p"
    using assms(2) by (simp_all add: m'_def join_lower_def)
  show "hsize m' = hsize m" by (rule m'(2))
  have succ: "is_succ base (insert bp G) p bp"
    using d(5) pending_above [OF assms(1)] by (auto simp: is_succ_def intro: less_imp_le)
  have gap: "q + unat (hsize m q) < r" if qr: "q \<in> insert bp G" "r \<in> insert bp G" "q < r" for q r
  proof -
    consider "q = bp" "r \<in> G" | "q \<in> G" "r = bp" | "q \<in> G" "r \<in> G" using qr by auto
    then show ?thesis
    proof cases
      case 2
      then have "q \<le> p" using d(12) qr(3) by blast
      then show ?thesis using d(16) [OF 2(1) d(4)] d(5,17) assms(2) 2(2) by (cases "q = p") auto
    qed (use d(13,16) qr(3) in auto)
  qed
  show "heap_ok base (insert bp G) m'"
    unfolding heap_ok_def using d(1-4,6-11,15,18,20,21) succ gap by (auto simp: m')
  show "free_units (insert bp G) m' = block m bp \<union> free_units G m" by (simp add: free_units_def block_def m')
qed

lemma free_ok:
  assumes h: "heap_ok base F m" and bp: "base < bp" "0 < unat (hsize m bp)" "bp + unat (hsize m bp) \<le> 2 ^ 29"
    and dj: "block m bp \<inter> free_units F m = {}"
  shows "\<exists>F' m'. free (bp + 1) m = Some m' \<and> heap_ok base F' m' \<and> free_units F' m' = free_units F m \<union> block m bp \<and>
    (\<forall>a. a \<notin> free_units F m \<union> block m bp \<longrightarrow> hsize m' a = hsize m a) \<and> kern m' = kern m"
proof -
  note d = heap_okD [OF h]
  define p where "p = pred_of F bp"
  define m1 where "m1 = join_upper bp p m"
  have bb: "bp \<in> block m bp" using bp(2) by (simp add: block_def)
  have nF: "bp \<notin> F" using dj bb by (auto simp: free_units_def)
  note t = pred_of [OF d(1,2) bp(1), folded p_def]
  obtain U where U: "U = {} \<or> (U = {hptr m p} \<and> bp < hptr m p)" "base \<notin> U" "p \<notin> U"
    and s1: "is_succ base (insert bp (F - U)) bp (hptr m1 bp)" "is_succ base (F - U) bp (hptr m1 bp)"
    and keep: "\<And>q. q \<noteq> bp \<Longrightarrow> hptr m1 q = hptr m q \<and> hsize m1 q = hsize m q"
    and up: "\<And>q. q \<in> F - U \<Longrightarrow> bp < q \<Longrightarrow> bp + unat (hsize m1 bp) < q" "bp + unat (hsize m1 bp) \<le> 2 ^ 29" "hsize m bp \<le> hsize m1 bp"
    and bl: "block m1 bp \<union> free_units (F - U) m1 = block m bp \<union> free_units F m" and k: "kern m1 = kern m"
    using join_upper_ok [OF h bp(1) nF bp(3) dj] unfolding p_def [symmetric] m1_def [symmetric] by blast
  have keepF: "hptr m1 q = hptr m q" "hsize m1 q = hsize m q" if "q \<in> F" for q using keep [of q] that nF by auto
  have other: "is_succ base (F - U) q (hptr m q)" "is_succ base (insert bp (F - U)) q (hptr m q)" if "q \<in> F" "q \<noteq> p" for q
    using succ_other [OF d(8) [OF that(1)] that d(8) [OF t(1)] t(1,2) t(3) bp(1) U(1)] by auto
  have below: "p + unat (hsize m p) \<le> bp"
  proof (rule ccontr)
    assume "\<not> ?thesis"
    then have "bp \<in> block m p" using t(2) by (simp add: block_def)
    then show False using dj bb t(1) by (auto simp: free_units_def)
  qed
  have pend: "pending base (F - U) p bp m1"
    unfolding pending_def using d(1-3,5-7,9,10) t bp nF U(2,3) s1 up other below by (auto simp: keepF word_le_nat_alt)
  define m' where "m' = (join_lower bp p m1)\<lparr>freep := p\<rparr>"
  have f: "free (bp + 1) m = Some m'"
    using free_find_pred [OF h bp(1) nF d(4)] by (simp add: free_def m'_def m1_def p_def)
  have km: "kern m' = kern m" using k by (simp add: m'_def join_lower_def)
  have frame: "hsize m' a = hsize m a" if "a \<notin> free_units F m \<union> block m bp" for a
  proof -
    have "a \<noteq> bp" using that bb by auto
    moreover have "hsize m' a = hsize m1 a"
    proof (cases "p + unat (hsize m1 p) = bp")
      case True
      then have "p \<in> block m p" using keepF(2) [OF t(1)] t(2) by (simp add: block_def)
      then have "a \<noteq> p" using that t(1) by (auto simp: free_units_def)
      then show ?thesis by (simp add: m'_def join_lower_def)
    qed (simp add: m'_def join_lower_def)
    ultimately show ?thesis using keep by simp
  qed
  have "\<exists>F'. heap_ok base F' m' \<and> free_units F' m' = block m1 bp \<union> free_units (F - U) m1"
    unfolding m'_def using join_lower_joined(1,2) [OF pend] join_lower_linked(1,2) [OF pend] by blast
  then show ?thesis using f frame km bl by (metis Un_commute)
qed

section \<open>malloc\<close>

lemma blocks_disjoint:
  assumes "heap_ok base F m" "p \<in> F" "q \<in> F" "p \<noteq> q"
  shows "block m p \<inter> block m q = {}"
  using heap_okD(9) [OF assms(1-3)] heap_okD(9) [OF assms(1,3,2)] assms(4) by (cases "p < q") (auto simp: block_def)

lemma malloc_start_ok: "freep m = 0 \<Longrightarrow> 0 < base \<Longrightarrow> base \<le> 2 ^ 29 \<Longrightarrow> heap_ok base {base} (malloc_start base m)"
  by (simp add: malloc_start_def heap_ok_def is_succ_def)

text \<open>What \<^verbatim>\<open>take_block\<close> and then \<^verbatim>\<open>malloc\<close> give: a block of the size at \<open>b\<close>, cut out of the free units \<open>A\<close>.\<close>

definition cut_from :: "nat \<Rightarrow> uint \<Rightarrow> nat set \<Rightarrow> 'k umem \<Rightarrow> nat \<Rightarrow> 'k umem \<Rightarrow> bool" where
  "cut_from base n A m b m' \<longleftrightarrow> base < b \<and> hsize m' b = n \<and> b + unat n \<le> 2 ^ 29 \<and> block m' b \<subseteq> A \<and> (\<forall>a. a \<notin> A \<longrightarrow> hsize m' a = hsize m a) \<and>
     (\<exists>F'. heap_ok base F' m' \<and> free_units F' m' = A - block m' b)"

lemma take_block_whole:
  assumes h: "heap_ok base F m" and p: "prevp \<in> F" "hptr m prevp \<noteq> base"
  defines "p \<equiv> hptr m prevp"
  defines "m' \<equiv> m\<lparr>hptr := (hptr m)(prevp := hptr m p), freep := prevp\<rparr>"
  shows "heap_ok base (F - {p}) m'" "free_units (F - {p}) m' = free_units F m - block m' p"
proof -
  note d = heap_okD [OF h]
  have s: "is_succ base F prevp p" unfolding p_def using p(1) by (rule d(8))
  have pF: "p \<in> F" "prevp < p" using s p(2) by (auto simp: p_def [symmetric] is_succ_def)
  have other: "is_succ base (F - {p}) q (hptr m q)" if "q \<in> F" "q \<noteq> prevp" for q
  proof -
    have "hptr m q \<noteq> p" using succ_unique [OF d(8) [OF that(1)], of prevp] s that p by (auto simp: p_def)
    then show ?thesis using d(8) [OF that(1)] by (auto simp: is_succ_def)
  qed
  have "is_succ base (F - {p}) prevp (hptr m p)"
    using d(8) [OF pF(1)]
  proof (cases rule: is_succE)
    case up
    have "hptr m p \<le> q" if "q \<in> F - {p}" "prevp < q" for q
      using s that up(3) [of q] pF(2) by (auto simp: is_succ_def le_less)
    then show ?thesis using up(1,2) pF(2) by (auto simp: is_succ_def)
  next
    case wrap
    have "q \<le> prevp" if "q \<in> F - {p}" for q
      using s that wrap(2) [of q] pF(2) p_def p(2) by (auto simp: is_succ_def)
    then show ?thesis using wrap(1) by (auto simp: is_succ_def)
  qed
  then show "heap_ok base (F - {p}) m'"
    unfolding heap_ok_def using d(1-3,5-7,9,10) p other pF by (auto simp: m'_def p_def)
  show "free_units (F - {p}) m' = free_units F m - block m' p"
  proof -
    have e: "block m' = block m" by (simp add: fun_eq_iff block_def m'_def)
    have "block m q \<inter> block m p = {}" if "q \<in> F - {p}" for q using blocks_disjoint [OF h _ pF(1)] that by blast
    then show ?thesis unfolding free_units_def e using pF(1) by blast
  qed
qed

lemma take_block_split:
  assumes h: "heap_ok base F m" and p: "p \<in> F" "prevp \<in> F" "n < hsize m p" "0 < n"
  defines "q \<equiv> p + unat (hsize m p - n)"
  defines "m' \<equiv> m\<lparr>hsize := (hsize m)(p := hsize m p - n, q := n), freep := prevp\<rparr>"
  shows "heap_ok base F m'" "free_units F m' = free_units F m - block m' q" "block m' q \<subseteq> block m p"
proof -
  note d = heap_okD [OF h]
  have u: "unat (hsize m p - n) = unat (hsize m p) - unat n" using p(3) by (simp add: unat_sub)
  have n: "0 < unat n" "unat n < unat (hsize m p)" using p(3,4) by (simp_all add: word_less_nat_alt unat_gt_0)
  have pb: "p \<noteq> base" using d(5) p(3) by auto
  have qb: "p < q" "q < p + unat (hsize m p)" using n u by (simp_all add: q_def)
  have qF: "q \<notin> F" using d(9) [OF p(1) _ qb(1)] qb(2) by (meson less_asym)
  have sz: "unat (hsize m' p) = unat (hsize m p) - unat n" "\<And>r. r \<in> F \<Longrightarrow> r \<noteq> p \<Longrightarrow> hsize m' r = hsize m r" "hsize m' q = n"
    using u n qF p(1) by (auto simp: m'_def)
  have le: "unat (hsize m' r) \<le> unat (hsize m r)" if "r \<in> F" for r using sz(1) sz(2) [OF that] by (cases "r = p") auto
  have gap: "r + unat (hsize m' r) < t" if "r \<in> F" "t \<in> F" "r < t" for r t using d(9) [OF that] le [OF that(1)] by simp
  have lim: "r + unat (hsize m' r) \<le> 2 ^ 29" if "r \<in> F" for r using d(7) [OF that] le [OF that] by simp
  have pos: "0 < unat (hsize m' r)" if "r \<in> F" "r \<noteq> base" for r using d(10) [OF that] sz(1) sz(2) [OF that(1)] n by (cases "r = p") auto
  have hp: "hptr m' = hptr m" "freep m' = prevp" by (simp_all add: m'_def)
  show "heap_ok base F m'"
    unfolding heap_ok_def hp using d(1-3,6,8) p(2) gap lim pos sz(2) [OF d(2)] pb d(5) by auto
  have bq: "block m' q = {q..<p + unat (hsize m p)}" using n u sz(3) by (auto simp: block_def q_def)
  then show sub: "block m' q \<subseteq> block m p" by (auto simp: block_def q_def)
  have bp: "block m' p = block m p - block m' q" unfolding bq using sz(1) u by (auto simp: block_def q_def)
  have "block m' r = block m r - block m' q" if "r \<in> F" for r
  proof (cases "r = p")
    case False
    then have "block m' r = block m r" using sz(2) [OF that] by (simp add: block_def)
    then show ?thesis using blocks_disjoint [OF h that p(1) False] sub by blast
  qed (simp add: bp)
  then show "free_units F m' = free_units F m - block m' q" by (auto simp: free_units_def)
qed

lemma take_block_ok:
  assumes h: "heap_ok base F m" and p: "prevp \<in> F" "n \<le> hsize m (hptr m prevp)" "0 < n"
  shows "\<exists>b m'. take_block n prevp (hptr m prevp) m = (b + 1, m') \<and> cut_from base n (free_units F m) m b m' \<and> kern m' = kern m"
proof -
  note d = heap_okD [OF h]
  let ?p = "hptr m prevp"
  have pF: "?p \<in> F" using d(8) [OF p(1)] d(2) by (rule is_succ_mem)
  have pb: "?p \<noteq> base" using d(5) p(2,3) by auto
  then have lt: "base < ?p" using d(6) [OF pF] by simp
  have sub: "block m ?p \<subseteq> free_units F m" using pF by (auto simp: free_units_def)
  show ?thesis
  proof (cases "hsize m ?p = n")
    case True
    let ?m = "m\<lparr>hptr := (hptr m)(prevp := hptr m ?p), freep := prevp\<rparr>"
    have "cut_from base n (free_units F m) m ?p ?m"
      unfolding cut_from_def using take_block_whole [OF h p(1) pb] lt True sub d(7) [OF pF] by (auto simp: block_def)
    then show ?thesis using True by (intro exI [of _ ?p] exI [of _ ?m]) (simp add: take_block_def)
  next
    case False
    then have l: "n < hsize m ?p" using p(2) by simp
    let ?q = "?p + unat (hsize m ?p - n)"
    let ?m = "m\<lparr>hsize := (hsize m)(?p := hsize m ?p - n, ?q := n), freep := prevp\<rparr>"
    note t = take_block_split [OF h pF p(1) l p(3)]
    have u: "unat (hsize m ?p - n) + unat n = unat (hsize m ?p)" using l by (simp add: unat_sub less_imp_le word_less_nat_alt [symmetric])
    have q: "?q \<in> block ?m ?q" using p(3) by (simp add: block_def unat_gt_0)
    have pp: "?p \<in> block m ?p" using d(10) [OF pF pb] by (simp add: block_def)
    have "hsize ?m a = hsize m a" if "a \<notin> free_units F m" for a using that q t(3) sub pp by auto
    then have "cut_from base n (free_units F m) m ?q ?m"
      unfolding cut_from_def using t lt sub u d(7) [OF pF] by auto
    then show ?thesis using False by (intro exI [of _ ?q] exI [of _ ?m]) (simp add: take_block_def Let_def)
  qed
qed

lemma ahead_full:
  assumes "is_succ base F f x" "f \<in> F" "\<forall>q\<in>F. base \<le> q"
  shows "ahead F f x = F - {f}"
  using assms(1)
proof (cases rule: is_succE)
  case up
  have "x \<le> q \<or> q < f" if "q \<in> F" "q \<noteq> f" for q using up(3) [OF that(1)] that(2) by (meson linorder_neqE_nat)
  then show ?thesis using up(2) by (auto simp: ahead_def)
next
  case wrap
  have "q < f" if "q \<in> F" "q \<noteq> f" for q using wrap(2) [OF that(1)] that(2) by simp
  then show ?thesis using wrap(1) assms by (auto simp: ahead_def)
qed

text \<open>The search from the block after \<^verbatim>\<open>freep\<close>: it reaches a block that is large enough before it is back at \<^verbatim>\<open>freep\<close>.\<close>

lemma malloc_loop_fit:
  assumes h: "heap_ok base F m" and t: "t \<in> F" "n \<le> hsize m t"
  shows "prevp \<in> F \<Longrightarrow> card (ahead F t (hptr m prevp)) \<le> card (ahead F (freep m) (hptr m prevp)) \<Longrightarrow>
    \<exists>q\<in>F. n \<le> hsize m (hptr m q) \<and> malloc_loop sbrk n prevp (hptr m prevp) m = Some (map_prod Some id (take_block n q (hptr m q) m))"
proof (induction "card (ahead F t (hptr m prevp))" arbitrary: prevp rule: less_induct)
  case less
  note d = heap_okD [OF h]
  let ?p = "hptr m prevp"
  have b: "\<forall>q\<in>F. base \<le> q" using d(6) by blast
  have pF: "?p \<in> F" using d(8) [OF less.prems(1)] d(2) by (rule is_succ_mem)
  have s: "is_succ base F ?p (hptr m ?p)" using pF by (rule d(8))
  show ?case
  proof (cases "n \<le> hsize m ?p")
    case True
    then show ?thesis using less.prems(1) by (subst malloc_loop.simps) auto
  next
    case False
    then have pt: "?p \<noteq> t" using t(2) by auto
    have pf: "?p \<noteq> freep m"
    proof
      assume "?p = freep m"
      then have "ahead F (freep m) ?p = {}" by (auto simp: ahead_def)
      then show False using less.prems(2) pt card_ahead_0 [OF d(1) pF, of t] by simp
    qed
    have "malloc_loop sbrk n prevp ?p m = malloc_loop sbrk n ?p (hptr m ?p) m"
      using False pf by (subst malloc_loop.simps) simp
    moreover have "card (ahead F t ?p) = Suc (card (ahead F t (hptr m ?p)))"
      "card (ahead F (freep m) ?p) = Suc (card (ahead F (freep m) (hptr m ?p)))"
      using card_ahead_step [OF s pF _ b _ d(1)] t(1) d(4) pt pf by auto
    ultimately show ?thesis using less.hyps [of ?p] pF less.prems(2) by simp
  qed
qed

lemma malloc_loop_more:
  assumes h: "heap_ok base F m" and t: "\<forall>q\<in>F. hsize m q < n"
  shows "prevp \<in> F \<Longrightarrow> malloc_loop sbrk n prevp (hptr m prevp) m =
    Option.bind (morecore sbrk n m) (\<lambda>x. case fst x of None \<Rightarrow> Some (None, snd x) | Some q \<Rightarrow> malloc_loop sbrk n q (hptr (snd x) q) (snd x))"
proof (induction "card (ahead F (freep m) (hptr m prevp))" arbitrary: prevp rule: less_induct)
  case less
  note d = heap_okD [OF h]
  let ?p = "hptr m prevp"
  have pF: "?p \<in> F" using d(8) [OF less.prems(1)] d(2) by (rule is_succ_mem)
  have big: "\<not> n \<le> hsize m ?p" using t pF by (simp add: not_le)
  show ?case
  proof (cases "?p = freep m")
    case True
    then show ?thesis using big by (subst malloc_loop.simps) simp
  next
    case False
    have "card (ahead F (freep m) ?p) = Suc (card (ahead F (freep m) (hptr m ?p)))"
      using d(6) by (intro card_ahead_step [OF d(8) [OF pF] pF d(4) _ False d(1)]) blast
    then show ?thesis using big False less.hyps [of ?p] pF by (subst malloc_loop.simps) simp
  qed
qed

lemma malloc_loop_start:
  assumes h: "heap_ok base F m" and t: "t \<in> F" "n \<le> hsize m t" "0 < n"
  shows "\<exists>b m'. malloc_loop sbrk n (freep m) (hptr m (freep m)) m = Some (Some (b + 1), m') \<and> cut_from base n (free_units F m) m b m'"
proof -
  note d = heap_okD [OF h]
  have "ahead F (freep m) (hptr m (freep m)) = F - {freep m}" using d(4,6,8) by (intro ahead_full) blast+
  moreover have "ahead F t (hptr m (freep m)) \<subseteq> F - {t}" by (auto simp: ahead_def)
  then have "card (ahead F t (hptr m (freep m))) \<le> card (F - {t})" using d(1) by (intro card_mono) auto
  ultimately obtain q where "q \<in> F" "n \<le> hsize m (hptr m q)"
    "malloc_loop sbrk n (freep m) (hptr m (freep m)) m = Some (map_prod Some id (take_block n q (hptr m q) m))"
    using malloc_loop_fit [OF h t(1,2) d(4), of sbrk] d(1,4) t(1) by (auto simp: card_Diff_singleton)
  then show ?thesis using take_block_ok [OF h _ _ t(3), of q] by auto
qed

text \<open>A run of free units lies in one block, as blocks that touch have been joined.\<close>

lemma run_in_block:
  assumes h: "heap_ok base F m" and r: "{a..<a + k} \<subseteq> free_units F m" "0 < k"
  shows "\<exists>t\<in>F. k \<le> unat (hsize m t)"
proof -
  note d = heap_okD [OF h]
  have "a \<in> free_units F m" using r by auto
  then obtain t where t: "t \<in> F" "t \<le> a" "a < t + unat (hsize m t)" by (auto simp: free_units_def block_def)
  let ?e = "t + unat (hsize m t)"
  have "\<not> ?e < a + k"
  proof
    assume "?e < a + k"
    then have "?e \<in> free_units F m" using r(1) t(3) by (intro subsetD [OF r(1)]) simp
    then obtain q where q: "q \<in> F" "q \<le> ?e" "?e < q + unat (hsize m q)" by (auto simp: free_units_def block_def)
    consider "q < t" | "q = t" | "t < q" using nat_neq_iff by blast
    then show False
    proof cases
      case 1
      then show ?thesis using d(9) [OF q(1) t(1)] q(3) by simp
    next
      case 3
      then show ?thesis using d(9) [OF t(1) q(1)] q(2) by simp
    qed (use q(3) in simp)
  qed
  then show ?thesis using t by (intro bexI [of _ t]) auto
qed

definition grow_units :: "uint \<Rightarrow> uint" where
  "grow_units n = (if n < 4096 then 4096 else n)"

text \<open>What is expected of \<^verbatim>\<open>sbrk\<close>: memory it returns lies above \<^verbatim>\<open>base\<close>, within the address space, and is not free already.\<close>

definition sbrk_fresh :: "nat \<Rightarrow> nat set \<Rightarrow> uint \<Rightarrow> nat option \<Rightarrow> bool" where
  "sbrk_fresh base A n r \<longleftrightarrow> (case r of None \<Rightarrow> True
     | Some a \<Rightarrow> base < a \<and> a + unat (grow_units n) \<le> 2 ^ 29 \<and> {a..<a + unat (grow_units n)} \<inter> A = {})"

definition new_units :: "uint \<Rightarrow> nat option \<Rightarrow> nat set" where
  "new_units n r = (case r of None \<Rightarrow> {} | Some a \<Rightarrow> {a..<a + unat (grow_units n)})"

lemma grow_units: "unat n \<le> unat (grow_units n)" "0 < unat (grow_units n)"
  by (auto simp: grow_units_def word_less_nat_alt unat_gt_0)

lemma morecore_ok:
  assumes h: "heap_ok base F m" and r: "sbrk (grow_units n * 8) (kern m) = (Some a, k)" "sbrk_fresh base (free_units F m) n (Some a)"
  shows "\<exists>F' m'. morecore sbrk n m = Some (Some (freep m'), m') \<and> heap_ok base F' m' \<and>
    free_units F' m' = free_units F m \<union> new_units n (Some a) \<and> (\<forall>x. x \<notin> free_units F m \<union> new_units n (Some a) \<longrightarrow> hsize m' x = hsize m x)"
proof -
  let ?m = "m\<lparr>kern := k, hsize := (hsize m)(a := grow_units n)\<rparr>"
  note d = heap_okD [OF h]
  have f: "base < a" "a + unat (grow_units n) \<le> 2 ^ 29" "{a..<a + unat (grow_units n)} \<inter> free_units F m = {}"
    using r(2) by (auto simp: sbrk_fresh_def)
  have "a \<in> {a..<a + unat (grow_units n)}" using grow_units(2) [of n] by simp
  then have na: "a \<notin> free_units F m" using f(3) by blast
  have aF: "a \<notin> F"
  proof
    assume "a \<in> F"
    then have "a \<in> block m a" using d(10) f(1) by (auto simp: block_def)
    then show False using na \<open>a \<in> F\<close> by (auto simp: free_units_def)
  qed
  then have sz: "hsize ?m q = hsize m q" if "q \<in> F" for q using that by auto
  have ok: "heap_ok base F ?m" using h sz d(2) f(1) unfolding heap_ok_def by auto
  have fu: "free_units F ?m = free_units F m" unfolding free_units_def using aF by (intro SUP_cong refl) (auto simp: block_def)
  have bl: "block ?m a = {a..<a + unat (grow_units n)}" by (simp add: block_def)
  obtain F' m' where m': "free (a + 1) ?m = Some m'" "heap_ok base F' m'" "free_units F' m' = free_units F m \<union> block ?m a"
    "\<forall>x. x \<notin> free_units F m \<union> block ?m a \<longrightarrow> hsize m' x = hsize ?m x"
    using free_ok [OF ok f(1)] grow_units(2) [of n] f(2,3) bl fu by auto
  have "hsize m' x = hsize m x" if "x \<notin> free_units F m \<union> {a..<a + unat (grow_units n)}" for x
    using m'(4) that bl \<open>a \<in> {a..<a + unat (grow_units n)}\<close> by auto
  moreover have "morecore sbrk n m = Some (Some (freep m'), m')"
    using r(1) m'(1) by (simp add: morecore_def grow_units_def [symmetric] Let_def)
  ultimately show ?thesis using m'(2,3) bl by (auto simp: new_units_def)
qed

lemma malloc_loop_ok:
  assumes h: "heap_ok base F m" and n: "0 < n" and f: "sbrk_fresh base (free_units F m) n (fst (sbrk (grow_units n * 8) (kern m)))"
  shows "(\<exists>m'. malloc_loop sbrk n (freep m) (hptr m (freep m)) m = Some (None, m') \<and> heap_ok base F m' \<and> free_units F m' = free_units F m \<and>
       hsize m' = hsize m \<and> fst (sbrk (grow_units n * 8) (kern m)) = None) \<or>
    (\<exists>b m' N. malloc_loop sbrk n (freep m) (hptr m (freep m)) m = Some (Some (b + 1), m') \<and>
       N \<in> {{}, new_units n (fst (sbrk (grow_units n * 8) (kern m)))} \<and> cut_from base n (free_units F m \<union> N) m b m')"
proof (cases "\<exists>t\<in>F. n \<le> hsize m t")
  case True
  then obtain t where "t \<in> F" "n \<le> hsize m t" by blast
  then obtain b m' where "malloc_loop sbrk n (freep m) (hptr m (freep m)) m = Some (Some (b + 1), m')" "cut_from base n (free_units F m) m b m'"
    using malloc_loop_start [OF h _ _ n] by blast
  then show ?thesis by (intro disjI2 exI [of _ b] exI [of _ m'] exI [of _ "{}"]) simp
next
  case False
  obtain r k where rk: "sbrk (grow_units n * 8) (kern m) = (r, k)" by (cases "sbrk (grow_units n * 8) (kern m)")
  have more: "malloc_loop sbrk n (freep m) (hptr m (freep m)) m =
    Option.bind (morecore sbrk n m) (\<lambda>x. case fst x of None \<Rightarrow> Some (None, snd x) | Some q \<Rightarrow> malloc_loop sbrk n q (hptr (snd x) q) (snd x))"
    using False heap_okD(4) [OF h] by (intro malloc_loop_more [OF h]) (auto simp: not_le)
  show ?thesis
  proof (cases r)
    case None
    then have "morecore sbrk n m = Some (None, m\<lparr>kern := k\<rparr>)" using rk by (simp add: morecore_def grow_units_def [symmetric] Let_def)
    moreover have "heap_ok base F (m\<lparr>kern := k\<rparr>)" using h by (simp add: heap_ok_def)
    ultimately show ?thesis using more rk None by (intro disjI1) (simp add: free_units_def block_def)
  next
    case (Some a)
    then have "sbrk (grow_units n * 8) (kern m) = (Some a, k)" "sbrk_fresh base (free_units F m) n (Some a)" using rk f by simp_all
    from morecore_ok [where sbrk = sbrk, OF h this]
    obtain F' m' where m': "morecore sbrk n m = Some (Some (freep m'), m')" "heap_ok base F' m'"
      "free_units F' m' = free_units F m \<union> new_units n (Some a)"
      "\<forall>x. x \<notin> free_units F m \<union> new_units n (Some a) \<longrightarrow> hsize m' x = hsize m x"
      by blast
    obtain t where "t \<in> F'" "unat (grow_units n) \<le> unat (hsize m' t)"
      using run_in_block [OF m'(2), of a "unat (grow_units n)"] m'(3) grow_units(2) [of n] by (auto simp: new_units_def)
    then have t: "t \<in> F'" "n \<le> hsize m' t" using grow_units(1) [of n] by (simp_all add: word_le_nat_alt)
    obtain b m2 where b: "malloc_loop sbrk n (freep m') (hptr m' (freep m')) m' = Some (Some (b + 1), m2)"
      "cut_from base n (free_units F' m') m' b m2"
      using malloc_loop_start [OF m'(2) t n, of sbrk] by blast
    have "cut_from base n (free_units F m \<union> new_units n (Some a)) m b m2"
      using b(2) m'(4) unfolding m'(3) cut_from_def by auto
    then show ?thesis using more m'(1) b(1) rk Some by (intro disjI2) auto
  qed
qed

section \<open>Properties\<close>

lemma unat_nunits: "nbytes \<le> 0xFFFFFFF8 \<Longrightarrow> unat (nunits_of nbytes) = (unat nbytes + 7) div 8 + 1"
proof -
  assume "nbytes \<le> 0xFFFFFFF8"
  then have "unat (nbytes + 7) = unat nbytes + 7" by (simp add: word_le_nat_alt unat_word_ariths)
  then have w: "unat ((nbytes + 7) div 8) = (unat nbytes + 7) div 8" by (simp add: unat_div)
  define w where "w = (nbytes + 7) div 8"
  have "unat nbytes \<le> 4294967295" using unat_uint_less' [of nbytes] by linarith
  then have "(unat nbytes + 7) div 8 \<le> (4294967295 + 7) div 8" by (intro div_le_mono) simp
  then have "unat w \<le> 536870912" using w by (simp add: w_def)
  then have "unat (w + 1) = unat w + 1" by (simp add: unat_word_ariths)
  then show ?thesis using w by (simp add: nunits_of_def w_def add.commute [of 7])
qed

text \<open>
  C13. \<^verbatim>\<open>malloc\<close> and \<^verbatim>\<open>free\<close> manage a set of free units. \<^verbatim>\<open>malloc\<close> always returns. It gives null only when \<^verbatim>\<open>sbrk\<close> does, and then keeps the free units. Otherwise it
  returns a block that is cut out of the free units, or of these and the new memory, with room for the bytes asked for behind its
  header; the list stays in order with its blocks apart, and no header outside the free units changes. Freeing the block
  puts its units back, and only these.
\<close>

theorem malloc_free_units:
  fixes m :: "'k umem"
  assumes h: "heap_ok base F (malloc_start base m)" and nb: "nbytes \<le> 0xFFFFFFF8"
    and f: "sbrk_fresh base (free_units F (malloc_start base m)) (nunits_of nbytes) (fst (sbrk (grow_units (nunits_of nbytes) * 8) (kern m)))"
  shows "\<exists>r m'. malloc base sbrk nbytes m = Some (r, m') \<and>
    (case r of
       None \<Rightarrow> fst (sbrk (grow_units (nunits_of nbytes) * 8) (kern m)) = None \<and> heap_ok base F m' \<and>
         free_units F m' = free_units F (malloc_start base m)
     | Some ap \<Rightarrow> \<exists>N. N \<in> {{}, new_units (nunits_of nbytes) (fst (sbrk (grow_units (nunits_of nbytes) * 8) (kern m)))} \<and>
         cut_from base (nunits_of nbytes) (free_units F (malloc_start base m) \<union> N) (malloc_start base m) (ap - 1) m' \<and>
         unat nbytes \<le> 8 * (unat (hsize m' (ap - 1)) - 1) \<and>
         (\<exists>F' m''. free ap m' = Some m'' \<and> heap_ok base F' m'' \<and> free_units F' m'' = free_units F (malloc_start base m) \<union> N))"
proof -
  let ?m = "malloc_start base m" and ?n = "nunits_of nbytes"
  have k: "kern ?m = kern m" by (simp add: malloc_start_def)
  have n: "0 < unat ?n" "unat nbytes \<le> 8 * (unat ?n - 1)" using unat_nunits [OF nb] by simp_all
  have e: "malloc base sbrk nbytes m = malloc_loop sbrk ?n (freep ?m) (hptr ?m (freep ?m)) ?m" by (simp add: malloc_def Let_def)
  have again: "\<exists>F' m''. free (b + 1) m' = Some m'' \<and> heap_ok base F' m'' \<and> free_units F' m'' = A"
    if c: "cut_from base ?n A ?m b m'" for A b m'
  proof -
    obtain F' where F': "heap_ok base F' m'" "free_units F' m' = A - block m' b" using c by (auto simp: cut_from_def)
    have b: "base < b" "hsize m' b = ?n" "b + unat ?n \<le> 2 ^ 29" "block m' b \<subseteq> A" using c by (auto simp: cut_from_def)
    show ?thesis using free_ok [OF F'(1) b(1)] n(1) b F'(2) by (auto simp: Un_absorb2)
  qed
  have "0 < ?n" using n(1) by (simp add: word_less_nat_alt)
  from malloc_loop_ok [OF h this, of sbrk] f k consider
      (no) m' where "malloc base sbrk nbytes m = Some (None, m')" "heap_ok base F m'" "free_units F m' = free_units F ?m"
        "fst (sbrk (grow_units ?n * 8) (kern m)) = None"
    | (yes) b m' N where "malloc base sbrk nbytes m = Some (Some (b + 1), m')" "N \<in> {{}, new_units ?n (fst (sbrk (grow_units ?n * 8) (kern m)))}"
        "cut_from base ?n (free_units F ?m \<union> N) ?m b m'" unfolding e by auto
  then show ?thesis
  proof cases
    case no
    then show ?thesis by auto
  next
    case yes
    have "hsize m' b = ?n" using yes(3) by (simp add: cut_from_def)
    then show ?thesis using yes again [OF yes(3)] n(2) by (intro exI [of _ "Some (b + 1)"] exI [of _ m']) auto
  qed
qed

text \<open>The first call of a program, with \<^verbatim>\<open>sbrk\<close> moving the end of its memory.\<close>

definition bump :: "uint \<Rightarrow> nat \<Rightarrow> nat option \<times> nat" where
  "bump n k = (Some k, k + unat n div 8)"

theorem malloc_free_units_witness:
  "\<exists>ap m' m''. malloc 100 bump 20 \<lparr>hptr = (\<lambda>_. 0), hsize = (\<lambda>_. 0), freep = 0, kern = 1000\<rparr> = Some (Some ap, m') \<and> free ap m' = Some m''"
proof -
  let ?m = "\<lparr>hptr = (\<lambda>_. 0), hsize = (\<lambda>_. 0), freep = 0, kern = 1000\<rparr> :: nat umem"
  have h: "heap_ok 100 {100} (malloc_start 100 ?m)" by (rule malloc_start_ok) simp_all
  have u: "free_units {100} (malloc_start 100 ?m) = {}" by (simp add: free_units_def block_def malloc_start_def)
  have f: "fst (bump (grow_units (nunits_of 20) * 8) (kern ?m)) = Some 1000" by (simp add: bump_def)
  have "grow_units (nunits_of 20) = 4096" by code_simp
  then have s: "sbrk_fresh 100 {} (nunits_of 20) (Some 1000)" by (simp add: sbrk_fresh_def)
  show ?thesis
    using malloc_free_units [OF h, of 20 bump] u f s by (auto simp: word_le_nat_alt split: option.splits)
qed

end
