(* ===== verification/Xv6_Grep.thy ===== *)
theory Xv6_Grep
  imports Xv6_Prelude
begin

text \<open>
  The pattern matcher of \<^verbatim>\<open>user/grep.c\<close>. A C string is the list of its bytes before
  the terminator, so the byte read at the end of the list is 0. The matcher is compared with the language that
  a pattern denotes.
\<close>

section \<open>The matcher\<close>

text \<open>Character codes: 36 is \<^verbatim>\<open>$\<close>, 42 is \<^verbatim>\<open>*\<close>, 46 is \<^verbatim>\<open>.\<close> and 94 is \<^verbatim>\<open>^\<close>.\<close>

definition char_matches :: "uchar \<Rightarrow> uchar \<Rightarrow> bool" where
  "char_matches c d \<longleftrightarrow> c = 46 \<or> c = d"

function matchhere :: "uchar list \<Rightarrow> uchar list \<Rightarrow> bool"
  and matchstar :: "uchar \<Rightarrow> uchar list \<Rightarrow> uchar list \<Rightarrow> bool" where
  "matchhere re t =
     (case re of
        [] \<Rightarrow> True
      | c # re1 \<Rightarrow>
          if re1 \<noteq> [] \<and> hd re1 = 42 then matchstar c (tl re1) t
          else if c = 36 \<and> re1 = [] then t = []
          else if t \<noteq> [] \<and> (c = 46 \<or> c = hd t) then matchhere re1 (tl t)
          else False)"
| "matchstar c re t =
     (if matchhere re t then True
      else if t \<noteq> [] \<and> (hd t = c \<or> c = 46) then matchstar c re (tl t)
      else False)"
  by pat_completeness auto
termination
  by (relation "measure (\<lambda>x. case x of Inl (re, t) \<Rightarrow> 2 * (length re + length t)
        | Inr (c, re, t) \<Rightarrow> 2 * (length re + length t) + 1)")
     (auto simp: neq_Nil_conv)

declare matchhere.simps [simp del] matchstar.simps [simp del]

fun match_from :: "uchar list \<Rightarrow> uchar list \<Rightarrow> bool" where
  "match_from re [] = matchhere re []"
| "match_from re (d # t) = (if matchhere re (d # t) then True else match_from re t)"

definition match :: "uchar list \<Rightarrow> uchar list \<Rightarrow> bool" where
  "match re t = (if re \<noteq> [] \<and> hd re = 94 then matchhere (tl re) t else match_from re t)"

section \<open>The language of a pattern\<close>

text \<open>A pattern is a sequence of single characters, repeated characters and, at the end, possibly the end of the line.\<close>

datatype item = One uchar | Rep uchar | Eol

fun items :: "uchar list \<Rightarrow> item list" where
  "items [] = []"
| "items [c] = (if c = 36 then [Eol] else [One c])"
| "items (c # d # re) = (if d = 42 then Rep c # items re else One c # items (d # re))"

fun words :: "item list \<Rightarrow> uchar list set" where
  "words [] = {[]}"
| "words (One c # is) = {d # w | d w. char_matches c d \<and> w \<in> words is}"
| "words (Rep c # is) = {u @ w | u w. (\<forall>d\<in>set u. char_matches c d) \<and> w \<in> words is}"
| "words (Eol # is) = words is"

lemma words_RepI: "\<forall>d\<in>set u. char_matches c d \<Longrightarrow> w \<in> words is \<Longrightarrow> u @ w \<in> words (Rep c # is)"
  by auto

definition anchored :: "uchar list \<Rightarrow> bool" where
  "anchored re \<longleftrightarrow> Eol \<in> set (items re)"

text \<open>A prefix of the text is in the language; all of the text, if the pattern ends with \<^verbatim>\<open>$\<close>.\<close>

definition prefix_in :: "uchar list \<Rightarrow> uchar list \<Rightarrow> bool" where
  "prefix_in re t \<longleftrightarrow> (\<exists>u v. t = u @ v \<and> u \<in> words (items re) \<and> (anchored re \<longrightarrow> v = []))"

lemma prefix_in_Nil [simp]: "prefix_in [] t"
  by (auto simp: prefix_in_def anchored_def)

lemma prefix_in_Eol [simp]: "prefix_in [36] t \<longleftrightarrow> t = []"
  by (auto simp: prefix_in_def anchored_def)

lemma prefix_in_One:
  assumes "items (c # re) = One c # items re"
  shows "prefix_in (c # re) t \<longleftrightarrow> t \<noteq> [] \<and> char_matches c (hd t) \<and> prefix_in re (tl t)"
proof
  assume "prefix_in (c # re) t"
  then obtain u v where u: "t = u @ v" "u \<in> words (items (c # re))" "anchored (c # re) \<longrightarrow> v = []" unfolding prefix_in_def by blast
  moreover from u(2) obtain d w where "u = d # w" "char_matches c d" "w \<in> words (items re)" using assms by auto
  moreover have "anchored re = anchored (c # re)" using assms by (simp add: anchored_def)
  ultimately show "t \<noteq> [] \<and> char_matches c (hd t) \<and> prefix_in re (tl t)" by (auto simp: prefix_in_def)
next
  assume a: "t \<noteq> [] \<and> char_matches c (hd t) \<and> prefix_in re (tl t)"
  then obtain w v where "tl t = w @ v" "w \<in> words (items re)" "anchored re \<longrightarrow> v = []" by (auto simp: prefix_in_def)
  moreover from this a have "t = (hd t # w) @ v" by (cases t) auto
  moreover have "hd t # w \<in> words (items (c # re))" using a calculation(2) assms by auto
  ultimately show "prefix_in (c # re) t" using assms unfolding prefix_in_def anchored_def by (intro exI [of _ "hd t # w"] exI [of _ v]) simp
qed

lemma prefix_in_RepE:
  assumes "prefix_in (c # 42 # re) t"
  obtains u w v where "t = u @ w @ v" "\<forall>d\<in>set u. char_matches c d" "w \<in> words (items re)" "anchored re \<longrightarrow> v = []"
proof -
  obtain u v where u: "t = u @ v" "u \<in> words (items (c # 42 # re))" "anchored (c # 42 # re) \<longrightarrow> v = []"
    using assms unfolding prefix_in_def by blast
  moreover from u(2) obtain x w where "u = x @ w" "\<forall>d\<in>set x. char_matches c d" "w \<in> words (items re)" by auto
  moreover have "anchored re = anchored (c # 42 # re)" by (simp add: anchored_def)
  ultimately show thesis using that by simp
qed

lemma prefix_in_Rep:
  "prefix_in (c # 42 # re) t \<longleftrightarrow>
     prefix_in re t \<or> t \<noteq> [] \<and> char_matches c (hd t) \<and> prefix_in (c # 42 # re) (tl t)"
proof
  assume "prefix_in (c # 42 # re) t"
  then obtain u w v where e: "t = u @ w @ v" "\<forall>d\<in>set u. char_matches c d" "w \<in> words (items re)" "anchored re \<longrightarrow> v = []"
    by (rule prefix_in_RepE)
  show "prefix_in re t \<or> t \<noteq> [] \<and> char_matches c (hd t) \<and> prefix_in (c # 42 # re) (tl t)"
  proof (cases u)
    case Nil
    then show ?thesis using e by (auto simp: prefix_in_def)
  next
    case (Cons d u')
    then have "tl t = (u' @ w) @ v" "u' @ w \<in> words (items (c # 42 # re))" using e by auto
    then have "prefix_in (c # 42 # re) (tl t)"
      using e(4) unfolding prefix_in_def anchored_def by (intro exI [of _ "u' @ w"] exI [of _ v]) simp
    then show ?thesis using e Cons by simp
  qed
next
  assume "prefix_in re t \<or> t \<noteq> [] \<and> char_matches c (hd t) \<and> prefix_in (c # 42 # re) (tl t)"
  then show "prefix_in (c # 42 # re) t"
  proof
    assume "prefix_in re t"
    then obtain w v where e: "t = w @ v" "w \<in> words (items re)" "anchored re \<longrightarrow> v = []" by (auto simp: prefix_in_def)
    then have "w \<in> words (items (c # 42 # re))" by (auto intro: exI [of _ "[]"])
    then show ?thesis using e unfolding prefix_in_def anchored_def by (intro exI [of _ w] exI [of _ v]) simp
  next
    assume a: "t \<noteq> [] \<and> char_matches c (hd t) \<and> prefix_in (c # 42 # re) (tl t)"
    then obtain u w v where e: "tl t = u @ w @ v" "\<forall>d\<in>set u. char_matches c d" "w \<in> words (items re)" "anchored re \<longrightarrow> v = []"
      by (meson prefix_in_RepE)
    have "t = ((hd t # u) @ w) @ v" using a e(1) by (metis append.assoc append_Cons list.collapse)
    moreover have "\<forall>d\<in>set (hd t # u). char_matches c d" using a e(2) by simp
    then have "(hd t # u) @ w \<in> words (items (c # 42 # re))"
      using words_RepI [of "hd t # u" c w "items re"] e(3) by (simp del: words.simps)
    ultimately show ?thesis
      using e(4) unfolding prefix_in_def anchored_def by (intro exI [of _ "(hd t # u) @ w"] exI [of _ v]) (simp del: words.simps)
  qed
qed

lemma matchhere_prefix_in: "matchhere re t = prefix_in re t"
  and matchstar_prefix_in: "matchstar c re t = prefix_in (c # 42 # re) t"
proof (induction re t and c re t rule: matchhere_matchstar.induct)
  case (1 re t)
  show ?case
  proof (cases re)
    case Nil
    then show ?thesis by (simp add: matchhere.simps)
  next
    case (Cons c re1)
    consider (star) re2 where "re1 = 42 # re2" | (eol) "c = 36" "re1 = []"
      | (one) "items (c # re1) = One c # items re1" "\<not> (re1 \<noteq> [] \<and> hd re1 = 42)" "\<not> (c = 36 \<and> re1 = [])"
      by (cases re1; cases "c = 36"; cases "hd re1 = 42") auto
    then show ?thesis
    proof cases
      case star
      then have "matchhere re t = matchstar c re2 t" using Cons by (subst matchhere.simps) simp
      then show ?thesis using 1(1) [of c re1] Cons star by simp
    next
      case eol
      then have "matchhere re t \<longleftrightarrow> t = []" using Cons by (subst matchhere.simps) simp
      then show ?thesis using Cons eol by simp
    next
      case one
      have "matchhere re t \<longleftrightarrow> t \<noteq> [] \<and> char_matches c (hd t) \<and> matchhere re1 (tl t)"
        by (subst matchhere.simps) (use one(2,3) Cons in \<open>auto simp: char_matches_def\<close>)
      also have "\<dots> \<longleftrightarrow> t \<noteq> [] \<and> char_matches c (hd t) \<and> prefix_in re1 (tl t)"
        using 1(2) [of c re1] one(2,3) Cons by (auto simp: char_matches_def)
      finally show ?thesis using prefix_in_One [OF one(1)] Cons by simp
    qed
  qed
next
  case (2 c re t)
  have "matchstar c re t \<longleftrightarrow> matchhere re t \<or> t \<noteq> [] \<and> char_matches c (hd t) \<and> matchstar c re (tl t)"
    by (auto simp: matchstar.simps [of c re t] char_matches_def)
  also have "\<dots> \<longleftrightarrow> prefix_in re t \<or> t \<noteq> [] \<and> char_matches c (hd t) \<and> prefix_in (c # 42 # re) (tl t)"
    using 2 by (auto simp: char_matches_def)
  finally show ?case using prefix_in_Rep [of c re t] by simp
qed

lemma match_from_suffix: "match_from re t \<longleftrightarrow> (\<exists>x y. t = x @ y \<and> prefix_in re y)"
proof (induction t)
  case (Cons d t)
  have "(\<exists>x y. d # t = x @ y \<and> prefix_in re y) \<longleftrightarrow> prefix_in re (d # t) \<or> (\<exists>x y. t = x @ y \<and> prefix_in re y)"
    by (auto simp: Cons_eq_append_conv)
  then show ?case using Cons by (simp add: matchhere_prefix_in)
qed (simp add: matchhere_prefix_in)

section \<open>Properties\<close>

text \<open>
  C40. The matcher of \<^verbatim>\<open>grep\<close> decides the language of the pattern: \<^verbatim>\<open>match\<close> returns 1 exactly when some part of the line is a
  word of the pattern, where a leading \<^verbatim>\<open>^\<close> asks for the beginning of the line, a trailing \<^verbatim>\<open>$\<close> for its end, a dot
  stands for any character and a star for any number of the character before it.
\<close>

theorem match_denotes:
  "match re t \<longleftrightarrow>
     (let p = (if re \<noteq> [] \<and> hd re = 94 then tl re else re)
      in \<exists>x u y. t = x @ u @ y \<and> u \<in> words (items p) \<and> (p \<noteq> re \<longrightarrow> x = []) \<and> (anchored p \<longrightarrow> y = []))"
proof (cases "re \<noteq> [] \<and> hd re = 94")
  case True
  then have "tl re \<noteq> re" by (cases re) auto
  then show ?thesis using True by (auto simp: match_def matchhere_prefix_in prefix_in_def Let_def)
next
  case False
  then show ?thesis by (auto simp: match_def match_from_suffix prefix_in_def Let_def)
qed

text \<open>The pattern \<^verbatim>\<open>a*b$\<close> finds its word at the end of \<^verbatim>\<open>cab\<close>.\<close>

theorem match_denotes_witness:
  "\<exists>x u y. [99, 97, 98] = x @ u @ y \<and> u \<in> words (items [97, 42, 98, 36]) \<and> y = []"
proof -
  have m: "match [97, 42, 98, 36] [99, 97, 98]" by code_simp
  have a: "anchored [97, 42, 98, 36]" by code_simp
  show ?thesis using match_denotes [of "[97, 42, 98, 36]" "[99, 97, 98]"] m a by (auto simp: Let_def)
qed

end
