(* ===== verification/Xv6_Uprogs.thy ===== *)
theory Xv6_Uprogs
  imports Xv6_Grep Xv6_Ulib Xv6_Bytes
begin

text \<open>
  User programs with a loop of their own: \<^verbatim>\<open>user/grep.c\<close> around the matcher, \<^verbatim>\<open>user/wc.c\<close>, \<^verbatim>\<open>user/cat.c\<close>, \<^verbatim>\<open>user/echo.c\<close>
  and \<^verbatim>\<open>fmtname\<close> of \<^verbatim>\<open>user/ls.c\<close>. What the calls of \<^verbatim>\<open>read\<close> return is a list of byte lists, each no longer than the count asked for; the end of the list, or an
  empty entry, is a result of 0. What is written to descriptor 1 is a list of bytes.
\<close>

section \<open>The buffer of grep\<close>

text \<open>
  \<^verbatim>\<open>strchr(p, '\n')\<close> on the buffer: the index of the first newline from \<open>p\<close> on, or \<open>Some None\<close> if there is a NUL before it. Nothing ends the buffer, so the
  search can run past it, which is \<open>None\<close>.
\<close>

definition find_newline :: "nat \<Rightarrow> uchar list \<Rightarrow> nat option option" where
  "find_newline p b =
     (case dropWhile (\<lambda>c. c \<noteq> 0 \<and> c \<noteq> 10) (drop p b) of
        [] \<Rightarrow> None
      | c # s \<Rightarrow> Some (if c = 0 then None else Some (length b - Suc (length s))))"

lemma find_newline_range: "find_newline p b = Some (Some q) \<Longrightarrow> p \<le> q \<and> q < length b"
proof -
  assume "find_newline p b = Some (Some q)"
  then obtain c s where s: "dropWhile (\<lambda>c. c \<noteq> 0 \<and> c \<noteq> 10) (drop p b) = c # s" "q = length b - Suc (length s)"
    by (auto simp: find_newline_def split: list.splits if_splits)
  moreover have "Suc (length s) \<le> length b - p" using length_dropWhile_le [of "\<lambda>c. c \<noteq> 0 \<and> c \<noteq> 10" "drop p b"] s(1) by simp
  ultimately show ?thesis by auto
qed

text \<open>The inner loop: \<open>p\<close>, the buffer with the newlines of other lines cut out, and the output.\<close>

function grep_lines :: "uchar list \<Rightarrow> nat \<Rightarrow> uchar list \<Rightarrow> uchar list \<Rightarrow> (nat \<times> uchar list \<times> uchar list) option" where
  "grep_lines pat p b out =
     (case find_newline p b of
        None \<Rightarrow> None
      | Some None \<Rightarrow> Some (p, b, out)
      | Some (Some q) \<Rightarrow>
          if match pat (slice p (q - p) b)
          then grep_lines pat (q + 1) b (out @ slice p (q + 1 - p) b)
          else grep_lines pat (q + 1) (b[q := 0]) out)"
  by pat_completeness auto
termination
  by (relation "measure (\<lambda>(pat, p, b, out). Suc (length b) - p)") (auto dest!: find_newline_range)

declare grep_lines.simps [simp del]

text \<open>
  The outer loop. A negative \<open>m\<close> puts the next read before the buffer: \<open>None\<close>.
\<close>

fun grep_loop :: "uchar list \<Rightarrow> int \<Rightarrow> uchar list \<Rightarrow> uchar list list \<Rightarrow> uchar list \<Rightarrow> uchar list option" where
  "grep_loop pat m b [] out = Some out"
| "grep_loop pat m b (r # rs) out =
     (if r = [] then Some out
      else if m < 0 then None
      else let b = splice (nat m) r b; m = m + int (length r)
           in case grep_lines pat 0 b out of
                None \<Rightarrow> None
              | Some (p, b, out) \<Rightarrow>
                  (let m = (if p = 0 then 0 else m)
                   in if m > 0
                      then let m = m - int p in grep_loop pat m (splice 0 (slice p (nat m) b) b) rs out
                      else grep_loop pat m b rs out))"

definition grep :: "uchar list \<Rightarrow> uchar list list \<Rightarrow> uchar list option" where
  "grep pat rs = grep_loop pat 0 (replicate 1024 0) rs []"

section \<open>wc, cat, echo and fmtname\<close>

definition blank :: "uchar \<Rightarrow> bool" where
  "blank c \<longleftrightarrow> strchr [0x20, 0x0D, 0x09, 0x0A, 0x0B] c \<noteq> None"

fun wc_bytes :: "uchar list \<Rightarrow> uint \<times> uint \<times> uint \<times> bool \<Rightarrow> uint \<times> uint \<times> uint \<times> bool" where
  "wc_bytes [] st = st"
| "wc_bytes (b # bs) (l, w, c, inword) =
     wc_bytes bs
       (let c = c + 1; l = (if b = 10 then l + 1 else l)
        in if blank b then (l, w, c, False) else if \<not> inword then (l, w + 1, c, True) else (l, w, c, inword))"

fun wc_loop :: "uchar list list \<Rightarrow> uint \<times> uint \<times> uint \<times> bool \<Rightarrow> uint \<times> uint \<times> uint \<times> bool" where
  "wc_loop [] st = st"
| "wc_loop (r # rs) st = (if r = [] then st else wc_loop rs (wc_bytes r st))"

text \<open>The flag says that the last result of \<^verbatim>\<open>read\<close> was negative.\<close>

definition wc :: "uchar list list \<Rightarrow> bool \<Rightarrow> uchar list \<Rightarrow> uchar list option" where
  "wc rs failed name =
     (case wc_loop rs (0, 0, 0, False) of (l, w, c, _) \<Rightarrow>
        if failed then printf (lit ''wc: read error'' @ [10]) []
        else printf (lit ''%d %d %d %s'' @ [10]) [CInt l, CInt w, CInt c, CStr (Some name)])"

fun cat :: "uchar list list \<Rightarrow> bool \<Rightarrow> uchar list option" where
  "cat [] failed = (if failed then printf (lit ''cat: read error'' @ [10]) [] else Some [])"
| "cat (r # rs) failed = (if r = [] then Some [] else map_option (append r) (cat rs failed))"

fun echo :: "uchar list list \<Rightarrow> uchar list option" where
  "echo [] = Some []"
| "echo (a # as) =
     Option.bind (printf (lit ''%s%s'') [CStr (Some a), CStr (Some (if as \<noteq> [] then lit '' '' else [10]))]) (\<lambda>o1.
     map_option (append o1) (echo as))"

text \<open>The part after the last slash, filled with blanks.\<close>

definition fmtname :: "uchar list \<Rightarrow> uchar list" where
  "fmtname path =
     (let p = rev (takeWhile (\<lambda>c. c \<noteq> 0x2F) (rev path))
      in if length p \<ge> 14 then p else p @ replicate (14 - length p) 0x20)"

section \<open>Reference definitions\<close>

text \<open>The lines of a text that end with a newline, without it.\<close>

function full_lines :: "uchar list \<Rightarrow> uchar list list" where
  "full_lines t = (if 10 \<in> set t then takeWhile (\<lambda>c. c \<noteq> 10) t # full_lines (tl (dropWhile (\<lambda>c. c \<noteq> 10) t)) else [])"
  by pat_completeness auto
termination
proof (relation "measure length", simp, goal_cases)
  case (1 t)
  then have "dropWhile (\<lambda>c. c \<noteq> 10) t \<noteq> []" by auto
  then show ?case using length_dropWhile_le [of "\<lambda>c. c \<noteq> 10" t] by (cases "dropWhile (\<lambda>c. c \<noteq> 10) t") auto
qed

declare full_lines.simps [simp del]

text \<open>The first bytes of the words.\<close>

definition word_starts :: "uchar list \<Rightarrow> nat set" where
  "word_starts t = {i. i < length t \<and> \<not> blank (t ! i) \<and> (i = 0 \<or> blank (t ! (i - 1)))}"

section \<open>grep prints the matching lines\<close>

lemma find_newline_at:
  assumes "0 \<notin> set l" "10 \<notin> set l"
  shows "find_newline (length pre) (pre @ l @ 10 # s) = Some (Some (length pre + length l))"
    "find_newline (length pre) (pre @ l @ 0 # s) = Some None"
proof -
  have "dropWhile (\<lambda>c. c \<noteq> 0 \<and> c \<noteq> 10) l = []" using assms by auto
  moreover have "dropWhile P (l @ c # s) = c # s" if "dropWhile P l = []" "\<not> P c" for P c
    using that by (simp add: dropWhile_append)
  ultimately show "find_newline (length pre) (pre @ l @ 10 # s) = Some (Some (length pre + length l))"
    "find_newline (length pre) (pre @ l @ 0 # s) = Some None"
    by (simp_all add: find_newline_def)
qed

lemma full_lines_simps [simp]:
  "10 \<notin> set l \<Longrightarrow> full_lines l = []" "10 \<notin> set l \<Longrightarrow> full_lines (l @ 10 # t) = l # full_lines t"
proof -
  show "full_lines l = []" if "10 \<notin> set l" using that by (simp add: full_lines.simps)
  show "full_lines (l @ 10 # t) = l # full_lines t" if "10 \<notin> set l"
  proof -
    have "dropWhile (\<lambda>c. c \<noteq> 10) l = []" "takeWhile (\<lambda>c. c \<noteq> 10) l = l" using that by (auto simp: takeWhile_eq_all_conv)
    then show ?thesis using that by (subst full_lines.simps) (simp add: dropWhile_append takeWhile_append)
  qed
qed

definition print_lines :: "uchar list \<Rightarrow> uchar list \<Rightarrow> uchar list" where
  "print_lines pat t = concat (map (\<lambda>l. l @ [10]) (filter (match pat) (full_lines t)))"

lemma grep_lines_ok:
  assumes "0 \<notin> set t"
  shows "\<exists>p b'. grep_lines pat (length pre) (pre @ t @ 0 # s) out = Some (p, b', out @ print_lines pat t)"
  using assms
proof (induction t arbitrary: pre out rule: length_induct)
  case (1 t)
  show ?case
  proof (cases "10 \<in> set t")
    case False
    then show ?thesis
      using 1(2) find_newline_at(2) [of t pre s] by (simp add: grep_lines.simps [of pat "length pre"] print_lines_def)
  next
    case True
    then obtain l u where t: "t = l @ 10 # u" "10 \<notin> set l" by (meson split_list_first)
    have f: "find_newline (length pre) (pre @ t @ 0 # s) = Some (Some (length pre + length l))"
      using find_newline_at(1) [of l pre "u @ 0 # s"] 1(2) t by simp
    have sl: "slice (length pre) (length l) (pre @ t @ 0 # s) = l" "slice (length pre) (Suc (length l)) (pre @ t @ 0 # s) = l @ [10]"
      by (simp_all add: slice_def t(1))
    have IH: "\<exists>p b'. grep_lines pat (length pre') (pre' @ u @ 0 # s) out' = Some (p, b', out' @ print_lines pat u)" for pre' out'
      using "1.IH" 1(2) t(1) by auto
    show ?thesis
    proof (cases "match pat l")
      case True
      have "grep_lines pat (length pre) (pre @ t @ 0 # s) out = grep_lines pat (length (pre @ l @ [10])) ((pre @ l @ [10]) @ u @ 0 # s) (out @ l @ [10])"
        using f sl True by (simp add: grep_lines.simps [of pat "length pre"] t(1))
      then show ?thesis using IH [of "pre @ l @ [10]" "out @ l @ [10]"] True by (simp add: print_lines_def t)
    next
      case False
      have "grep_lines pat (length pre) (pre @ t @ 0 # s) out = grep_lines pat (length (pre @ l @ [0])) ((pre @ l @ [0]) @ u @ 0 # s) out"
        using f sl False by (simp add: grep_lines.simps [of pat "length pre"] t(1) list_update_append)
      then show ?thesis using IH [of "pre @ l @ [0]" out] False by (simp add: print_lines_def t)
    qed
  qed
qed

text \<open>
  For an input of less than 1024 bytes without NUL that one call of \<^verbatim>\<open>read\<close> returns, \<^verbatim>\<open>grep\<close> prints exactly the lines that match, in order; a last line
  without a newline is not looked at.
\<close>

theorem grep_prints_matching:
  assumes "length t < 1024" "0 \<notin> set t"
  shows "grep pat [t] = Some (concat (map (\<lambda>l. l @ [10]) (filter (match pat) (full_lines t))))"
proof (cases "t = []")
  case False
  obtain k where k: "1024 - length t = Suc k" using assms(1) by (metis Suc_diff_Suc)
  then have b: "splice 0 t (replicate 1024 0) = [] @ t @ 0 # replicate k 0" by (simp add: splice_def)
  show ?thesis
    using grep_lines_ok [OF assms(2), of pat "[]" "replicate k 0" "[]"] b False
    by (auto simp: grep_def print_lines_def Let_def)
qed (simp add: grep_def)

text \<open>
  A second, shorter read leaves bytes of the first behind it in the buffer, and the search for newlines goes on into them: the line \<^verbatim>\<open>b\<close> is printed twice.
  Then \<open>m\<close> is negative and a third read goes before the buffer.
\<close>

lemma grep_stale_bytes:
  "grep [46] [[97, 10, 98, 10], [120]] = Some [97, 10, 98, 10, 120, 10, 98, 10]" "grep [46] [[97, 10, 98, 10], [120], [121]] = None"
  by code_simp+

section \<open>wc counts\<close>

lemma wc_bytes_append: "wc_bytes (xs @ ys) st = wc_bytes ys (wc_bytes xs st)"
  by (induction xs st rule: wc_bytes.induct) simp_all

lemma word_starts_snoc:
  "word_starts (t @ [c]) = word_starts t \<union> (if \<not> blank c \<and> (t = [] \<or> blank (last t)) then {length t} else {})"
  by (cases "t = []") (auto simp: word_starts_def nth_append last_conv_nth less_Suc_eq)

lemma finite_word_starts [simp]: "finite (word_starts t)" "length t \<notin> word_starts t"
  by (auto simp: word_starts_def)

lemma wc_bytes_counts:
  "wc_bytes t (0, 0, 0, False) =
     (of_nat (count_list t 10), of_nat (card (word_starts t)), of_nat (length t), t \<noteq> [] \<and> \<not> blank (last t))"
proof (induction t rule: rev_induct)
  case (snoc c t)
  then show ?case by (auto simp: wc_bytes_append word_starts_snoc Let_def add.commute)
qed (simp add: word_starts_def)

lemma wc_loop_concat: "[] \<notin> set rs \<Longrightarrow> wc_loop rs st = wc_bytes (concat rs) st"
  by (induction rs arbitrary: st) (auto simp: wc_bytes_append)

text \<open>However the input is cut into reads, \<^verbatim>\<open>wc\<close> prints the number of newlines, of words and of bytes.\<close>

theorem wc_counts:
  assumes "[] \<notin> set rs"
  shows "wc rs False name = printf (lit ''%d %d %d %s'' @ [10])
    [CInt (of_nat (count_list (concat rs) 10)), CInt (of_nat (card (word_starts (concat rs)))), CInt (of_nat (length (concat rs))), CStr (Some name)]"
  using assms by (simp add: wc_def wc_loop_concat wc_bytes_counts)

end
