(* ===== verification/Xv6_Mkfs.thy ===== *)
theory Xv6_Mkfs
  imports Xv6_Dir
begin

text \<open>
  \<^verbatim>\<open>tools/mkfs.c\<close>: the host program that writes the file system image. The image is a function from sectors to their 512 bytes. \<open>None\<close> is
  \<^verbatim>\<open>exit(1)\<close> or a failed assertion: reading a sector past the end of the image, a file that is too long. Every sector is written once at the start and read before it is written
  again, so the image has \<^verbatim>\<open>mkfs_size\<close> sectors at every later moment. Opening, seeking and writing succeed, and the host is little-endian like the target.
  What the image holds at the end is shown in \<^verbatim>\<open>Xv6_Image\<close>.
\<close>

section \<open>Layout\<close>

definition mkfs_nblocks :: uint where "mkfs_nblocks = 985"
definition mkfs_nlog :: uint where "mkfs_nlog = 10"
definition mkfs_ninodes :: uint where "mkfs_ninodes = 200"
definition mkfs_size :: uint where "mkfs_size = 1024"

definition xshort :: "ushort \<Rightarrow> ushort" where
  "xshort x = of_le16 [ucast x, ucast (drop_bit 8 x)]"

definition xint :: "uint \<Rightarrow> uint" where
  "xint x = of_le32 [ucast x, ucast (drop_bit 8 x), ucast (drop_bit 16 x), ucast (drop_bit 24 x)]"

record mkfs_state =
  image :: "uint \<Rightarrow> uchar list"
  freeblock :: uint
  usedblocks :: uint
  freeinode :: uint

definition wsect :: "uint \<Rightarrow> uchar list \<Rightarrow> mkfs_state \<Rightarrow> mkfs_state" where
  "wsect sec buf st = st\<lparr>image := (image st)(sec := buf)\<rparr>"

definition rsect :: "uint \<Rightarrow> mkfs_state \<Rightarrow> uchar list option" where
  "rsect sec st = (if sec < mkfs_size then Some (image st sec) else None)"

definition i2b :: "uint \<Rightarrow> uint" where
  "i2b inum = inum div IPB + 2"

section \<open>Inodes and blocks\<close>

definition winode :: "uint \<Rightarrow> dinode \<Rightarrow> mkfs_state \<Rightarrow> mkfs_state option" where
  "winode inum ip st = map_option (\<lambda>buf. wsect (i2b inum) (dinode_put inum ip buf) st) (rsect (i2b inum) st)"

definition rinode :: "uint \<Rightarrow> mkfs_state \<Rightarrow> dinode option" where
  "rinode inum st = map_option (dinode_at inum) (rsect (i2b inum) st)"

definition mkfs_ialloc :: "ushort \<Rightarrow> mkfs_state \<Rightarrow> (uint \<times> mkfs_state) option" where
  "mkfs_ialloc type st =
     (let inum = freeinode st;
          st = st\<lparr>freeinode := inum + 1\<rparr>;
          din = \<lparr>d_type = xshort type, d_major = 0, d_minor = 0, d_nlink = xshort 1, d_size = xint 0, d_addrs = replicate (Suc NDIRECT) 0\<rparr>
      in map_option (Pair inum) (winode inum din st))"

definition mkfs_balloc :: "nat \<Rightarrow> mkfs_state \<Rightarrow> mkfs_state option" where
  "mkfs_balloc used st =
     (if used < 512 * 8
      then Some (wsect (mkfs_ninodes div IPB + 3) (fold mark_bit [0..<used] (replicate 512 0)) st)
      else None)"

text \<open>One more block of the image.\<close>

definition next_block :: "mkfs_state \<Rightarrow> uint \<times> mkfs_state" where
  "next_block st = (freeblock st, st\<lparr>freeblock := freeblock st + 1, usedblocks := usedblocks st + 1\<rparr>)"

text \<open>The sector of block \<open>fbn\<close> of the file, allocated when it is missing, and the inode with its new entry.\<close>

definition file_sector :: "uint \<Rightarrow> dinode \<Rightarrow> mkfs_state \<Rightarrow> (uint \<times> dinode \<times> mkfs_state) option" where
  "file_sector fbn din st =
     (if unat fbn < NDIRECT then
        (let (din, st) =
           (if xint (d_addrs din ! unat fbn) = 0
            then let (b, st) = next_block st in (din\<lparr>d_addrs := (d_addrs din)[unat fbn := xint b]\<rparr>, st)
            else (din, st))
         in Some (xint (d_addrs din ! unat fbn), din, st))
      else
        (let (din, st) =
           (if xint (d_addrs din ! NDIRECT) = 0
            then let (b, st) = next_block st in (din\<lparr>d_addrs := (d_addrs din)[NDIRECT := xint b]\<rparr>, st)
            else (din, st));
             ind = xint (d_addrs din ! NDIRECT);
             k = unat fbn - NDIRECT
         in case rsect ind st of
              None \<Rightarrow> None
            | Some indirect \<Rightarrow>
                (let (indirect, st) =
                   (if get_word indirect k = 0
                    then let (b, st) = next_block st; indirect = set_word k (xint b) indirect in (indirect, wsect ind indirect st)
                    else (indirect, st))
                 in Some (xint (get_word indirect k), din, st))))"

text \<open>The loop of \<^verbatim>\<open>iappend\<close> over the bytes still to append.\<close>

function iappend_loop :: "uchar list \<Rightarrow> uint \<Rightarrow> dinode \<Rightarrow> mkfs_state \<Rightarrow> (uint \<times> dinode \<times> mkfs_state) option" where
  "iappend_loop p off din st =
     (if p = [] then Some (off, din, st)
      else let fbn = off div 512
           in if unat fbn < MAXFILE
              then Option.bind (file_sector fbn din st) (\<lambda>(x, din, st).
                   Option.bind (rsect x st) (\<lambda>buf.
                   let n1 = min (length p) (512 - unat (off mod 512));
                       st = wsect x (splice (unat (off mod 512)) (take n1 p) buf) st
                   in iappend_loop (drop n1 p) (off + of_nat n1) din st))
              else None)"
  by pat_completeness auto
termination
proof (relation "measure (\<lambda>(p, off, din, st). length p)", simp, goal_cases)
  case (1 p off)
  have "unat (off mod 512) < 512" by (simp add: unat_mod)
  then show ?case using 1 by simp
qed

declare iappend_loop.simps [simp del]

definition iappend :: "uint \<Rightarrow> uchar list \<Rightarrow> mkfs_state \<Rightarrow> mkfs_state option" where
  "iappend inum bs st =
     Option.bind (rinode inum st) (\<lambda>din.
     Option.bind (iappend_loop bs (xint (d_size din)) din st) (\<lambda>(off, din, st).
     winode inum (din\<lparr>d_size := xint off\<rparr>) st))"

section \<open>The image\<close>

text \<open>What \<^verbatim>\<open>read(fd, buf, sizeof(buf))\<close> returns for a host file, one result after the other.\<close>

function file_chunks :: "uchar list \<Rightarrow> uchar list list" where
  "file_chunks bs = (if bs = [] then [] else take 512 bs # file_chunks (drop 512 bs))"
  by pat_completeness auto
termination by (relation "measure length") auto

declare file_chunks.simps [simp del]

fun iappends :: "uint \<Rightarrow> uchar list list \<Rightarrow> mkfs_state \<Rightarrow> mkfs_state option" where
  "iappends inum [] st = Some st"
| "iappends inum (b # bs) st = Option.bind (iappend inum b st) (iappends inum bs)"

definition dir_entry_bytes :: "uint \<Rightarrow> uchar list \<Rightarrow> uchar list" where
  "dir_entry_bytes inum name =
     dirent_bytes \<lparr>de_inum = xshort (ucast inum), de_name = strncpy (replicate DIRSIZ 0) (view_of name) (int DIRSIZ)\<rparr>"

text \<open>The loop over the files named on the command line: name and content. A leading underscore of the name is left out.\<close>

definition skip_underscore :: "uchar list \<Rightarrow> uchar list" where
  "skip_underscore name = (if name \<noteq> [] \<and> hd name = 0x5F then tl name else name)"

fun mkfs_files :: "uint \<Rightarrow> (uchar list \<times> uchar list) list \<Rightarrow> mkfs_state \<Rightarrow> mkfs_state option" where
  "mkfs_files rootino [] st = Some st"
| "mkfs_files rootino ((name, content) # fs) st =
     Option.bind (mkfs_ialloc T_FILE st) (\<lambda>(inum, st).
     Option.bind (iappend rootino (dir_entry_bytes inum (skip_underscore name)) st) (\<lambda>st.
     Option.bind (iappends inum (file_chunks content) st) (mkfs_files rootino fs)))"

text \<open>The sectors, the superblock and the root directory.\<close>

definition mkfs_start :: mkfs_state where
  "mkfs_start =
     (let bitblocks = mkfs_size div (512 * 8) + 1;
          used = mkfs_ninodes div IPB + 3 + bitblocks
      in wsect 1 (words_bytes [xint mkfs_size, xint mkfs_nblocks, xint mkfs_ninodes, xint mkfs_nlog] @ replicate 496 0)
           \<lparr>image = (\<lambda>_. replicate 512 0), freeblock = used, usedblocks = used, freeinode = 1\<rparr>)"

definition mkfs :: "(uchar list \<times> uchar list) list \<Rightarrow> mkfs_state option" where
  "mkfs files =
     (if mkfs_nblocks + usedblocks mkfs_start + mkfs_nlog \<noteq> mkfs_size then None
      else Option.bind (mkfs_ialloc T_DIR mkfs_start) (\<lambda>(rootino, st).
           if rootino \<noteq> ROOTINO then None
           else Option.bind (iappend rootino (dir_entry_bytes rootino (lit ''.'')) st) (\<lambda>st.
                Option.bind (iappend rootino (dir_entry_bytes rootino (lit ''..'')) st) (\<lambda>st.
                Option.bind (mkfs_files rootino files st) (\<lambda>st.
                Option.bind (rinode rootino st) (\<lambda>din.
                let off = xint (d_size din);
                    off = (off div 512 + 1) * 512
                in Option.bind (winode rootino (din\<lparr>d_size := xint off\<rparr>) st) (\<lambda>st.
                   mkfs_balloc (unat (usedblocks st)) st)))))))"

section \<open>Agreement with the kernel\<close>

lemma i2b_IBLOCK: "i2b inum = IBLOCK inum"
  by (simp add: i2b_def IBLOCK_def)

lemma test_fold_mark:
  assumes "length d = 512" "used \<le> 4096"
  shows "length (fold mark_bit [0..<used] d) = 512" "test_bit (fold mark_bit [0..<used] d) i \<longleftrightarrow> i < used \<or> test_bit d i"
proof -
  have "length (fold mark_bit [0..<used] d) = 512 \<and> (test_bit (fold mark_bit [0..<used] d) i \<longleftrightarrow> i < used \<or> test_bit d i)"
    using assms(2)
  proof (induction used)
    case (Suc u)
    then have IH: "length (fold mark_bit [0..<u] d) = 512" "test_bit (fold mark_bit [0..<u] d) i \<longleftrightarrow> i < u \<or> test_bit d i" by auto
    have "u div 8 < 512" using Suc.prems by simp
    then show ?case using IH test_mark_bit [of u "fold mark_bit [0..<u] d" i] by auto
  qed (simp add: assms(1))
  then show "length (fold mark_bit [0..<used] d) = 512" "test_bit (fold mark_bit [0..<used] d) i \<longleftrightarrow> i < used \<or> test_bit d i" by auto
qed

end
