(* ===== verification/Xv6_Image.thy ===== *)
theory Xv6_Image
  imports Xv6_Mkfs
begin

text \<open>
  What is in the image that \<^verbatim>\<open>mkfs\<close> writes. An inode of the image owns a list of data sectors and perhaps an indirect block; no two inodes share one, and the sectors not given out yet
  are zero. \<^verbatim>\<open>holds_files\<close> relates the image to a list of files with their contents; \<^verbatim>\<open>ialloc\<close> and \<^verbatim>\<open>iappend\<close> implement adding an empty file to that list and appending to one,
  and so the image at the end holds the files that were given, under their names in the root directory, and a bitmap that covers them.
\<close>

section \<open>Files in the image\<close>

lemma xint_id [simp]: "xint x = x"
  using of_le32_le32 [of x] by (simp add: xint_def le32_def)

lemma xshort_id [simp]: "xshort x = x"
  using of_le16_le16 [of x] by (simp add: xshort_def le16_def)

text \<open>The sector of block \<open>k\<close> of a file as the kernel's \<^verbatim>\<open>bmap\<close> finds it, and the bytes of the file.\<close>

definition faddr :: "(uint \<Rightarrow> uchar list) \<Rightarrow> dinode \<Rightarrow> nat \<Rightarrow> uint" where
  "faddr im din k = (if k < NDIRECT then d_addrs din ! k else get_word (im (d_addrs din ! NDIRECT)) (k - NDIRECT))"

definition nsect :: "nat \<Rightarrow> nat" where
  "nsect n = (n + 511) div 512"

definition file_bytes :: "(uint \<Rightarrow> uchar list) \<Rightarrow> dinode \<Rightarrow> uchar list" where
  "file_bytes im din = take (unat (d_size din)) (concat (map (\<lambda>k. im (faddr im din k)) [0..<nsect (unat (d_size din))]))"

text \<open>\<open>bl\<close> are the data sectors of the file, in order; entries past them are zero. With the indirect block, \<open>isecs\<close> is all that the file occupies.\<close>

definition isecs :: "dinode \<Rightarrow> uint list \<Rightarrow> uint set" where
  "isecs din bl = set bl \<union> (if NDIRECT < length bl then {d_addrs din ! NDIRECT} else {})"

definition lays :: "(uint \<Rightarrow> uchar list) \<Rightarrow> dinode \<Rightarrow> uint list \<Rightarrow> bool" where
  "lays im din bl \<longleftrightarrow> length (d_addrs din) = Suc NDIRECT \<and> length bl \<le> MAXFILE \<and>
     (\<forall>k<length bl. faddr im din k = bl ! k) \<and>
     (\<forall>k<MAXFILE. length bl \<le> k \<longrightarrow> k < NDIRECT \<or> NDIRECT < length bl \<longrightarrow> faddr im din k = 0) \<and>
     (length bl \<le> NDIRECT \<longrightarrow> d_addrs din ! NDIRECT = 0)"

definition owns :: "(uint \<Rightarrow> uchar list) \<Rightarrow> uint \<Rightarrow> dinode \<Rightarrow> uint list \<Rightarrow> bool" where
  "owns im fb din bl \<longleftrightarrow> lays im din bl \<and> (\<forall>x\<in>isecs din bl. 29 \<le> x \<and> x < fb) \<and> distinct bl \<and>
     (NDIRECT < length bl \<longrightarrow> d_addrs din ! NDIRECT \<notin> set bl)"

text \<open>The sectors that are not given out yet are zero.\<close>

definition img_ok :: "mkfs_state \<Rightarrow> bool" where
  "img_ok st \<longleftrightarrow> (\<forall>x. length (image st x) = 512) \<and> (\<forall>x\<ge>freeblock st. image st x = replicate 512 0) \<and>
     29 \<le> freeblock st \<and> freeblock st \<le> 1024 \<and> usedblocks st = freeblock st"

lemmas layout_defs = faddr_def isecs_def lays_def owns_def

lemma img_okD:
  assumes "img_ok st"
  shows "length (image st x) = 512" "freeblock st \<le> x \<Longrightarrow> image st x = replicate 512 0" "29 \<le> freeblock st" "freeblock st \<le> 1024"
    "usedblocks st = freeblock st"
  using assms by (auto simp: img_ok_def)

lemma get_word_zero [simp]: "4 * k + 4 \<le> n \<Longrightarrow> get_word (replicate n 0) k = 0"
  by (simp add: get_word_def slice_def min_def of_le32_def)

text \<open>One file grows from \<open>bl\<close> to \<open>bl'\<close>: it takes only new sectors, and no other file notices.\<close>

definition grows :: "mkfs_state \<Rightarrow> dinode \<Rightarrow> uint list \<Rightarrow> mkfs_state \<Rightarrow> dinode \<Rightarrow> uint list \<Rightarrow> bool" where
  "grows st din bl st' din' bl' \<longleftrightarrow> img_ok st' \<and> owns (image st') (freeblock st') din' bl' \<and>
     d_type din' = d_type din \<and> freeinode st' = freeinode st \<and> freeblock st \<le> freeblock st' \<and>
     (\<forall>y<freeblock st. y \<notin> isecs din bl \<longrightarrow> image st' y = image st y) \<and>
     isecs din' bl' \<subseteq> isecs din bl \<union> {y. freeblock st \<le> y}"

lemma grows_trans: "grows st din bl st1 din1 bl1 \<Longrightarrow> grows st1 din1 bl1 st2 din2 bl2 \<Longrightarrow> grows st din bl st2 din2 bl2"
  unfolding grows_def by (intro conjI allI impI) (auto 0 3 dest!: subsetD)

lemma of_nat_fbn: "k < MAXFILE \<Longrightarrow> unat (of_nat k :: uint) = k"
  by (simp add: MAXFILE_def NDIRECT_def NINDIRECT_def unat_of_nat)

lemma next_fb: "fb \<le> 1024 \<Longrightarrow> unat fb + n \<le> 1024 \<Longrightarrow> unat (fb + of_nat n) = unat fb + n" for fb :: uint
  by (simp add: unat_word_ariths unat_of_nat)

lemma ownsD:
  assumes "owns im fb din bl"
  shows "length (d_addrs din) = Suc NDIRECT" "length bl \<le> MAXFILE" "k < length bl \<Longrightarrow> faddr im din k = bl ! k"
    "\<lbrakk>k < MAXFILE; length bl \<le> k; k < NDIRECT \<or> NDIRECT < length bl\<rbrakk> \<Longrightarrow> faddr im din k = 0"
    "length bl \<le> NDIRECT \<Longrightarrow> d_addrs din ! NDIRECT = 0" "x \<in> set bl \<Longrightarrow> 29 \<le> x \<and> x < fb" "distinct bl"
    "NDIRECT < length bl \<Longrightarrow> 29 \<le> d_addrs din ! NDIRECT \<and> d_addrs din ! NDIRECT < fb \<and> d_addrs din ! NDIRECT \<notin> set bl"
  using assms by (auto simp: owns_def lays_def isecs_def)

lemma ownsI:
  assumes "length (d_addrs din) = Suc NDIRECT" "length bl \<le> MAXFILE" "\<And>k. k < length bl \<Longrightarrow> faddr im din k = bl ! k"
    "\<And>k. \<lbrakk>k < MAXFILE; length bl \<le> k; k < NDIRECT \<or> NDIRECT < length bl\<rbrakk> \<Longrightarrow> faddr im din k = 0"
    "length bl \<le> NDIRECT \<Longrightarrow> d_addrs din ! NDIRECT = 0" "\<And>x. x \<in> set bl \<Longrightarrow> 29 \<le> x \<and> x < fb" "distinct bl"
    "NDIRECT < length bl \<Longrightarrow> 29 \<le> d_addrs din ! NDIRECT \<and> d_addrs din ! NDIRECT < fb \<and> d_addrs din ! NDIRECT \<notin> set bl"
  shows "owns im fb din bl"
  using assms by (auto simp: owns_def lays_def isecs_def)

lemma sector_not_0: "29 \<le> x \<Longrightarrow> x \<noteq> 0" for x :: uint
  by auto

lemma rsect_in [simp]: "x < 1024 \<Longrightarrow> rsect x st = Some (image st x)"
  by (simp add: rsect_def mkfs_size_def)

lemma image_wsect [simp]: "image (wsect x d st) = (image st)(x := d)" "freeblock (wsect x d st) = freeblock st"
  "usedblocks (wsect x d st) = usedblocks st" "freeinode (wsect x d st) = freeinode st"
  by (simp_all add: wsect_def)

lemma next_block_simps [simp]: "fst (next_block st) = freeblock st" "image (snd (next_block st)) = image st"
  "freeblock (snd (next_block st)) = freeblock st + 1" "usedblocks (snd (next_block st)) = usedblocks st + 1"
  "freeinode (snd (next_block st)) = freeinode st"
  by (simp_all add: next_block_def)

lemma img_ok_wsect: "img_ok st \<Longrightarrow> x < freeblock st \<Longrightarrow> length d = 512 \<Longrightarrow> img_ok (wsect x d st)"
  by (auto simp: img_ok_def)

lemma fb_suc: "img_ok st \<Longrightarrow> freeblock st < 1024 \<Longrightarrow> freeblock st < freeblock st + 1 \<and> freeblock st + 1 \<le> 1024 \<and> unat (freeblock st + 1) = Suc (unat (freeblock st))"
  by (auto simp: img_ok_def word_less_nat_alt word_le_nat_alt unat_word_ariths)

lemma img_ok_next: "img_ok st \<Longrightarrow> freeblock st < 1024 \<Longrightarrow> img_ok (snd (next_block st))"
  using fb_suc [of st] by (auto simp: img_ok_def intro: order_trans)

text \<open>A block that the file has, and the next one: among the direct entries, with the indirect block, in the indirect block.\<close>

lemma file_sector_old:
  assumes "img_ok st" "owns (image st) (freeblock st) din bl" "k < length bl"
  shows "file_sector (of_nat k) din st = Some (bl ! k, din, st)"
proof -
  note o = ownsD [OF assms(2)]
  have u: "unat (of_nat k :: uint) = k" using o(2) assms(3) by (intro of_nat_fbn) simp
  have b: "bl ! k \<noteq> 0" using o(6) [of "bl ! k"] assms(3) by (intro sector_not_0) simp
  show ?thesis
  proof (cases "k < NDIRECT")
    case True
    then show ?thesis using o(3) [OF assms(3)] b by (simp add: file_sector_def u faddr_def)
  next
    case False
    then have i: "29 \<le> d_addrs din ! NDIRECT" "d_addrs din ! NDIRECT < 1024" using o(8) assms(3) img_okD(4) [OF assms(1)] by auto
    then have "d_addrs din ! NDIRECT \<noteq> 0" by (intro sector_not_0)
    then show ?thesis using o(3) [OF assms(3)] b i(2) False by (simp add: file_sector_def u faddr_def)
  qed
qed

definition grown_by :: "mkfs_state \<Rightarrow> dinode \<Rightarrow> uint list \<Rightarrow> uint \<Rightarrow> dinode \<Rightarrow> mkfs_state \<Rightarrow> bool" where
  "grown_by st din bl x din' st' \<longleftrightarrow> grows st din bl st' din' (bl @ [x]) \<and> (\<forall>y\<in>set bl. image st' y = image st y) \<and>
     unat (freeblock st') = unat (freeblock st) + (if length bl = NDIRECT then 2 else 1)"

lemma file_sector_direct:
  assumes "img_ok st" "owns (image st) (freeblock st) din bl" "length bl < NDIRECT" "freeblock st < 1024"
  shows "\<exists>x din' st'. file_sector (of_nat (length bl)) din st = Some (x, din', st') \<and> grown_by st din bl x din' st'"
proof -
  let ?k = "length bl" and ?x = "freeblock st" and ?st = "snd (next_block st)"
  let ?din = "din\<lparr>d_addrs := (d_addrs din)[length bl := freeblock st]\<rparr>"
  note o = ownsD [OF assms(2)] and n = fb_suc [OF assms(1,4)] and i = img_okD [OF assms(1)]
  have u: "unat (of_nat ?k :: uint) = ?k" using assms(3) by (intro of_nat_fbn) (simp add: MAXFILE_def)
  have z: "d_addrs din ! ?k = 0" using o(4) [of ?k] assms(3) by (simp add: faddr_def MAXFILE_def)
  have "file_sector (of_nat ?k) din st = Some (?x, ?din, ?st)"
    using assms(3) o(1) by (simp add: file_sector_def u z split_beta)
  moreover have ow: "owns (image ?st) (freeblock ?st) ?din (bl @ [?x])"
  proof (rule ownsI)
    show "faddr (image ?st) ?din k = (bl @ [?x]) ! k" if "k < length (bl @ [?x])" for k
      using that assms(3) o(1) o(3) [of k] by (auto simp: faddr_def nth_append less_Suc_eq)
    show "faddr (image ?st) ?din k = 0" if "k < MAXFILE" "length (bl @ [?x]) \<le> k" "k < NDIRECT \<or> NDIRECT < length (bl @ [?x])" for k
      using that assms(3) o(4) [of k] by (auto simp: faddr_def)
    show "29 \<le> y \<and> y < freeblock ?st" if "y \<in> set (bl @ [?x])" for y using that o(6) [of y] n i(3) by auto
    show "distinct (bl @ [?x])" using o(6,7) by auto
  qed (use assms(3) o(1,5) in \<open>auto simp: MAXFILE_def\<close>)
  moreover have "isecs ?din (bl @ [?x]) \<subseteq> isecs din bl \<union> {y. ?x \<le> y}" using assms(3) by (auto simp: isecs_def)
  ultimately show ?thesis using img_ok_next [OF assms(1,4)] n assms(3) by (auto simp: grown_by_def grows_def)
qed

lemma get_set_entry:
  assumes "length d = 512" "k < NINDIRECT" "j < NINDIRECT"
  shows "get_word (set_word k w d) j = (if j = k then w else get_word d j)" "length (set_word k w d) = 512"
proof -
  have l: "4 * k + 4 \<le> length d" "4 * j + 4 \<le> length d" using assms by (simp_all add: NINDIRECT_def)
  show "get_word (set_word k w d) j = (if j = k then w else get_word d j)" by (rule get_set_word [OF l])
  show "length (set_word k w d) = 512" using l(1) assms(1) by simp
qed

lemma file_sector_entry:
  assumes "img_ok st" "owns (image st) (freeblock st) din bl" "NDIRECT < length bl" "length bl < MAXFILE" "freeblock st < 1024"
  shows "\<exists>x din' st'. file_sector (of_nat (length bl)) din st = Some (x, din', st') \<and> grown_by st din bl x din' st'"
proof -
  let ?x = "freeblock st" and ?ind = "d_addrs din ! NDIRECT" and ?j = "length bl - NDIRECT"
  let ?st = "wsect ?ind (set_word ?j ?x (image st ?ind)) (snd (next_block st))"
  note o = ownsD [OF assms(2)] and n = fb_suc [OF assms(1,5)] and i = img_okD [OF assms(1)]
  have ind: "?ind \<noteq> 0" "?ind < 1024" "?ind < ?x" "29 \<le> ?ind" "?ind \<notin> set bl"
    using o(8) [OF assms(3)] i(4) sector_not_0 [of ?ind] by auto
  have j: "?j < NINDIRECT" using assms(3,4) by (simp add: MAXFILE_def)
  note g = get_set_entry [OF i(1) j]
  have z: "get_word (image st ?ind) ?j = 0" using o(4) [of "length bl"] assms(3,4) by (simp add: faddr_def)
  have f: "faddr (image ?st) din k = (if k = length bl then ?x else faddr (image st) din k)" if "k < MAXFILE" for k
    using that g(1) [of "k - NDIRECT" ?x ?ind] assms(3) by (auto simp: faddr_def MAXFILE_def)
  have "file_sector (of_nat (length bl)) din st = Some (?x, din, ?st)"
    using assms(3) ind z g(1) [OF j, of ?x ?ind] by (simp add: file_sector_def of_nat_fbn [OF assms(4)] split_beta Let_def)
  moreover have ok: "img_ok ?st" using img_ok_next [OF assms(1,5)] ind n g(2) [OF j] by (intro img_ok_wsect) auto
  moreover have ow: "owns (image ?st) (freeblock ?st) din (bl @ [?x])"
  proof (rule ownsI)
    show "faddr (image ?st) din k = (bl @ [?x]) ! k" if "k < length (bl @ [?x])" for k
      using that f [of k] assms(4) o(3) [of k] by (auto simp: nth_append less_Suc_eq)
    show "faddr (image ?st) din k = 0" if "k < MAXFILE" "length (bl @ [?x]) \<le> k" "k < NDIRECT \<or> NDIRECT < length (bl @ [?x])" for k
      using that assms(3) f [of k] o(4) [of k] by auto
    show "29 \<le> y \<and> y < freeblock ?st" if "y \<in> set (bl @ [?x])" for y using that o(6) [of y] n i(3) by auto
    show "distinct (bl @ [?x])" using o(6,7) by auto
  qed (use assms(3,4) o(1) ind n in auto)
  moreover have "\<forall>y\<in>set bl. image ?st y = image st y" using ind(5) by auto
  moreover have "isecs din (bl @ [?x]) \<subseteq> isecs din bl \<union> {y. ?x \<le> y}" "?ind \<in> isecs din bl" using assms(3) by (auto simp: isecs_def)
  ultimately show ?thesis using n assms(3) by (auto simp: grown_by_def grows_def)
qed

lemma file_sector_indirect:
  assumes "img_ok st" "owns (image st) (freeblock st) din bl" "length bl = NDIRECT" "unat (freeblock st) + 2 \<le> 1024"
  shows "\<exists>x din' st'. file_sector (of_nat (length bl)) din st = Some (x, din', st') \<and> grown_by st din bl x din' st'"
proof -
  let ?ind = "freeblock st" and ?st1 = "snd (next_block st)"
  let ?x = "?ind + 1"
  let ?st = "wsect ?ind (set_word 0 ?x (image st ?ind)) (snd (next_block ?st1))" and ?din = "din\<lparr>d_addrs := (d_addrs din)[NDIRECT := ?ind]\<rparr>"
  note o = ownsD [OF assms(2)] and i = img_okD [OF assms(1)]
  have fb: "?ind < 1024" using assms(4) by (simp add: word_less_nat_alt)
  note n = fb_suc [OF assms(1) fb] and ok1 = img_ok_next [OF assms(1) fb]
  have fb1: "freeblock ?st1 < 1024" using assms(4) n by (simp add: word_less_nat_alt)
  have n1: "?x < ?x + 1" "?x + 1 \<le> 1024" "unat (?x + 1) = Suc (unat ?x)" using fb_suc [OF ok1 fb1] by auto
  have n': "?ind \<noteq> 0" "?x \<noteq> ?ind" "?ind < ?x + 1" using n n1 i(3) sector_not_0 by auto
  note g = get_set_entry [OF i(1), of 0]
  have z: "get_word (image st ?ind) j = 0" if "j < NINDIRECT" for j using i(2) [of ?ind] that by (simp add: NINDIRECT_def)
  have f: "faddr (image ?st) ?din k = (if k = length bl then ?x else if k < NDIRECT then faddr (image st) din k else 0)" if "k < MAXFILE" for k
    using that g(1) [of "k - NDIRECT" ?x ?ind] z [of "k - NDIRECT"] o(1) assms(3) by (auto simp: faddr_def MAXFILE_def)
  have "file_sector (of_nat (length bl)) din st = Some (?x, ?din, ?st)"
    using assms(3) n' o(1,5) fb z [of 0] g(1) [of 0 ?x ?ind] of_nat_fbn [of NDIRECT]
    by (simp add: file_sector_def split_beta Let_def MAXFILE_def NINDIRECT_def)
  moreover have ok: "img_ok ?st" using img_ok_next [OF ok1 fb1] n' g(2) [of 0 ?x ?ind] by (intro img_ok_wsect) (auto simp: NINDIRECT_def)
  moreover have ow: "owns (image ?st) (freeblock ?st) ?din (bl @ [?x])"
  proof (rule ownsI)
    show "faddr (image ?st) ?din k = (bl @ [?x]) ! k" if "k < length (bl @ [?x])" for k
      using that f [of k] assms(3) o(3) [of k] by (auto simp: nth_append less_Suc_eq MAXFILE_def NINDIRECT_def)
    show "faddr (image ?st) ?din k = 0" if "k < MAXFILE" "length (bl @ [?x]) \<le> k" "k < NDIRECT \<or> NDIRECT < length (bl @ [?x])" for k
      using that assms(3) f [of k] by auto
    show "29 \<le> y \<and> y < freeblock ?st" if "y \<in> set (bl @ [?x])" for y using that o(6) [of y] n n1 i(3) by auto
    show "distinct (bl @ [?x])" using o(6) [of ?x] o(7) n by auto
    show "29 \<le> d_addrs ?din ! NDIRECT \<and> d_addrs ?din ! NDIRECT < freeblock ?st \<and> d_addrs ?din ! NDIRECT \<notin> set (bl @ [?x])"
      using n' i(3) o(1) o(6) [of ?ind] by auto
  qed (use assms(3) o(1) in \<open>auto simp: MAXFILE_def NINDIRECT_def\<close>)
  moreover have "\<forall>y\<in>set bl. image ?st y = image st y" using o(6) by auto
  moreover have "isecs ?din (bl @ [?x]) \<subseteq> isecs din bl \<union> {y. ?ind \<le> y}" using assms(3) n o(1) by (auto simp: isecs_def)
  ultimately show ?thesis using n n1 assms(3) by (auto simp: grown_by_def grows_def)
qed

lemma file_sector_new:
  assumes "img_ok st" "owns (image st) (freeblock st) din bl" "length bl < MAXFILE"
    "unat (freeblock st) + (if length bl = NDIRECT then 2 else 1) \<le> 1024"
  shows "\<exists>x din' st'. file_sector (of_nat (length bl)) din st = Some (x, din', st') \<and> grown_by st din bl x din' st'"
proof -
  have fb: "freeblock st < 1024" using assms(4) by (simp add: word_less_nat_alt split: if_splits)
  consider "length bl < NDIRECT" | "length bl = NDIRECT" | "NDIRECT < length bl" by linarith
  then show ?thesis
    using file_sector_direct [OF assms(1,2) _ fb] file_sector_indirect [OF assms(1,2)] file_sector_entry [OF assms(1,2) _ assms(3) fb] assms(4)
    by cases simp_all
qed

text \<open>The sectors that a file of \<open>n\<close> bytes takes.\<close>

definition tsec :: "nat \<Rightarrow> nat" where
  "tsec n = (if NDIRECT < nsect n then Suc (nsect n) else nsect n)"

lemma nsect_div:
  "nsect (512 * q + r) = (if r = 0 then q else Suc q)" if "r \<le> 512"
  using that by (auto simp: nsect_def)

lemma owns_frame:
  assumes "owns im fb din bl" "NDIRECT < length bl \<Longrightarrow> im' (d_addrs din ! NDIRECT) = im (d_addrs din ! NDIRECT)" "fb \<le> fb'"
  shows "owns im' fb' din bl"
proof -
  note o = ownsD [OF assms(1)]
  have f: "faddr im' din k = faddr im din k" if "k < NDIRECT \<or> NDIRECT < length bl" for k
    using that assms(2) by (auto simp: faddr_def)
  show ?thesis
  proof (rule ownsI)
    show "faddr im' din k = bl ! k" if "k < length bl" for k
      using f [of k] o(3) [OF that] that by (cases "k < NDIRECT") auto
    show "29 \<le> x \<and> x < fb'" if "x \<in> set bl" for x using o(6) [OF that] assms(3) by auto
    show "29 \<le> d_addrs din ! NDIRECT \<and> d_addrs din ! NDIRECT < fb' \<and> d_addrs din ! NDIRECT \<notin> set bl" if "NDIRECT < length bl"
      using o(8) [OF that] assms(3) by auto
    show "faddr im' din k = 0" if "k < MAXFILE" "length bl \<le> k" "k < NDIRECT \<or> NDIRECT < length bl" for k
      using o(4) [OF that] f [OF that(3)] by simp
  qed (use o in auto)
qed

lemma grows_write:
  assumes "grows st din bl st' din' bl'" "x \<in> set bl'" "length d = 512"
  shows "grows st din bl (wsect x d st') din' bl'"
proof -
  have g: "img_ok st'" "owns (image st') (freeblock st') din' bl'" "isecs din' bl' \<subseteq> isecs din bl \<union> {y. freeblock st \<le> y}"
    using assms(1) by (simp_all add: grows_def)
  note o = ownsD [OF g(2)]
  have "img_ok (wsect x d st')" using o(6) [OF assms(2)] g(1) assms(3) by (intro img_ok_wsect) auto
  moreover have "owns (image (wsect x d st')) (freeblock (wsect x d st')) din' bl'"
    using o(8) assms(2) by (intro owns_frame [OF g(2)]) auto
  moreover have "x \<in> isecs din bl \<or> freeblock st \<le> x" using g(3) assms(2) by (auto simp: isecs_def)
  ultimately show ?thesis using assms(1) by (auto simp: grows_def)
qed

lemma length_concat_512: "(\<And>x. x \<in> set xs \<Longrightarrow> length (f x) = 512) \<Longrightarrow> length (concat (map f xs)) = 512 * length xs"
  by (induction xs) auto

lemma content_append:
  assumes "distinct (bs @ [x])" "\<And>y. length (im y) = 512" "off = 512 * length bs + r" "r + length c \<le> 512"
  shows "take (off + length c) (concat (map (im(x := splice r c (im x))) (bs @ [x]))) = take off (concat (map im (bs @ [x]))) @ c"
proof -
  have "map (im(x := d)) bs = map im bs" for d using assms(1) by auto
  moreover have "length (concat (map im bs)) = 512 * length bs" using assms(2) by (intro length_concat_512)
  moreover have "take (r + length c) (splice r c (im x)) = take r (im x) @ c" using assms(2) [of x] assms(4) by (simp add: splice_def)
  ultimately show ?thesis by (simp add: assms(3) add.assoc del: map_eq_conv)
qed

text \<open>One round of the loop: the sector that holds byte \<open>off\<close>.\<close>

lemma iappend_sector:
  assumes "img_ok st" "owns (image st) (freeblock st) din bl" "length bl = nsect off" "off < 512 * MAXFILE"
    "unat (freeblock st) + tsec (Suc off) \<le> 1024 + tsec off"
  obtains x din' st' bs where "file_sector (of_nat (off div 512)) din st = Some (x, din', st')" "grows st din bl st' din' (bs @ [x])"
    "length bs = off div 512" "take off (concat (map (image st') (bs @ [x]))) = take off (concat (map (image st) bl))"
    "unat (freeblock st') + tsec off = unat (freeblock st) + tsec (Suc off)"
proof (cases "off mod 512 = 0")
  case True
  then obtain q where q: "off = 512 * q" by auto
  have n: "length bl = q" "nsect (Suc off) = Suc q" "nsect off = q" "off div 512 = q"
    using assms(3) nsect_div [of 1 q] nsect_div [of 0 q] by (simp_all add: q)
  have "length bl < MAXFILE" using assms(4) n q by simp
  moreover have "unat (freeblock st) + (if length bl = NDIRECT then 2 else 1) \<le> 1024"
    using assms(5) n by (auto simp: tsec_def split: if_splits)
  ultimately obtain x din' st' where f: "file_sector (of_nat (length bl)) din st = Some (x, din', st')" "grown_by st din bl x din' st'"
    using file_sector_new [OF assms(1,2)] by blast
  have g: "grows st din bl st' din' (bl @ [x])" "\<forall>y\<in>set bl. image st' y = image st y"
    "unat (freeblock st') = unat (freeblock st) + (if length bl = NDIRECT then 2 else 1)" using f(2) by (simp_all add: grown_by_def)
  have "length (concat (map (image st) bl)) = off" using length_concat_512 [of bl "image st"] img_okD(1) [OF assms(1)] n q by simp
  moreover have "map (image st') bl = map (image st) bl" using g(2) by simp
  ultimately show thesis
    using that [of x din' st' bl] f(1) g n by (simp add: tsec_def del: map_eq_conv)
next
  case False
  let ?q = "off div 512"
  have q: "off = 512 * ?q + off mod 512" by simp
  then have n: "nsect off = Suc ?q" "nsect (Suc off) = Suc ?q"
    using nsect_div [of "off mod 512" ?q] nsect_div [of "Suc (off mod 512)" ?q] False by (simp_all add: Suc_leI)
  have k: "?q < length bl" "bl \<noteq> []" "bl ! ?q = last bl" using n assms(3) last_conv_nth [of bl] by force+
  have f: "file_sector (of_nat ?q) din st = Some (last bl, din, st)" using file_sector_old [OF assms(1,2) k(1)] k(3) by simp
  moreover have "grows st din bl st din (butlast bl @ [last bl])" using k(2) assms(1,2) by (simp add: grows_def)
  ultimately show thesis
    using that [of "last bl" din st "butlast bl"] k(2) n assms(3) by (simp add: tsec_def)
qed

lemma tsec_mono: "m \<le> n \<Longrightarrow> tsec m \<le> tsec n"
proof -
  assume "m \<le> n"
  then have "nsect m \<le> nsect n" by (auto simp: nsect_def intro: div_le_mono)
  then show ?thesis by (auto simp: tsec_def)
qed

lemma nsect_same: "0 < k \<Longrightarrow> off mod 512 + k \<le> 512 \<Longrightarrow> nsect (off + k) = Suc (off div 512)"
  using nsect_div [of "off mod 512 + k" "off div 512"] by (simp flip: add.assoc)

lemma off_words:
  assumes "off < 512 * MAXFILE"
  shows "(of_nat off :: uint) div 512 = of_nat (off div 512)" "unat ((of_nat off :: uint) mod 512) = off mod 512"
    "unat ((of_nat off :: uint) div 512) = off div 512"
proof -
  have u: "unat (of_nat off :: uint) = off" using assms by (simp add: MAXFILE_def NDIRECT_def NINDIRECT_def unat_of_nat)
  show "unat ((of_nat off :: uint) mod 512) = off mod 512" by (simp add: unat_mod u)
  show d: "unat ((of_nat off :: uint) div 512) = off div 512" by (simp add: unat_div u)
  show "(of_nat off :: uint) div 512 = of_nat (off div 512)" by (simp flip: d)
qed

text \<open>The bytes are appended, and the file takes the sectors that its new length needs.\<close>

lemma iappend_loop_ok:
  assumes "img_ok st" "owns (image st) (freeblock st) din bl" "length bl = nsect off" "off + length p \<le> 512 * MAXFILE"
    "unat (freeblock st) + tsec (off + length p) \<le> 1024 + tsec off"
  shows "\<exists>din' st' bl'. iappend_loop p (of_nat off) din st = Some (of_nat (off + length p), din', st') \<and>
    grows st din bl st' din' bl' \<and> length bl' = nsect (off + length p) \<and>
    take (off + length p) (concat (map (image st') bl')) = take off (concat (map (image st) bl)) @ p \<and>
    unat (freeblock st') + tsec off = unat (freeblock st) + tsec (off + length p)"
  using assms
proof (induction p arbitrary: off din st bl rule: length_induct)
  case (1 p)
  note prem = "1.prems"
  show ?case
  proof (cases "p = []")
    case True
    then show ?thesis using prem by (auto simp: iappend_loop.simps [of "[]"] grows_def)
  next
    case False
    let ?r = "off mod 512"
    define n where "n = min (length p) (512 - ?r)"
    let ?c = "take n p"
    have n: "0 < n" "?r + n \<le> 512" "length ?c = n" "n \<le> length p" using False by (auto simp: n_def)
    have off: "off < 512 * MAXFILE" using prem(4) False by (cases p) auto
    have ts: "tsec (off + n) = tsec (Suc off)" using nsect_same [OF n(1,2)] nsect_same [of 1 off] by (simp add: tsec_def)
    have "tsec (off + n) \<le> tsec (off + length p)" using n by (intro tsec_mono) simp
    then have sp: "unat (freeblock st) + tsec (Suc off) \<le> 1024 + tsec off" using prem(5) ts by linarith
    obtain x din' st' bs where s: "file_sector (of_nat (off div 512)) din st = Some (x, din', st')" "grows st din bl st' din' (bs @ [x])"
      "length bs = off div 512" "take off (concat (map (image st') (bs @ [x]))) = take off (concat (map (image st) bl))"
      "unat (freeblock st') + tsec off = unat (freeblock st) + tsec (Suc off)"
      using iappend_sector [OF prem(1-3) off sp] .
    have st': "img_ok st'" "owns (image st') (freeblock st') din' (bs @ [x])" using s(2) by (simp_all add: grows_def)
    note l = img_okD(1) [OF st'(1)]
    let ?st = "wsect x (splice ?r ?c (image st' x)) st'"
    have g: "grows st din bl ?st din' (bs @ [x])" using n l by (intro grows_write [OF s(2)]) auto
    have c: "take (off + n) (concat (map (image ?st) (bs @ [x]))) = take off (concat (map (image st) bl)) @ ?c"
    proof -
      have "take (off + length ?c) (concat (map ((image st')(x := splice ?r ?c (image st' x))) (bs @ [x]))) = take off (concat (map (image st') (bs @ [x]))) @ ?c"
        using ownsD(7) [OF st'(2)] l n(2,3) by (intro content_append) (simp_all add: s(3))
      then show ?thesis by (simp only: n(3) s(4) image_wsect)
    qed
    have x: "x < 1024" using ownsD(6) [OF st'(2), of x] img_okD(4) [OF st'(1)] by auto
    have q: "off div 512 < MAXFILE" using off by (simp add: less_mult_imp_div_less mult.commute)
    have step: "iappend_loop p (of_nat off) din st = iappend_loop (drop n p) (of_nat (off + n)) din' ?st"
      using False s(1) x q by (simp add: iappend_loop.simps [of p] off_words(1,2) [OF off] of_nat_fbn [OF q] n_def Let_def)
    have "\<exists>din'' st'' bl''. iappend_loop (drop n p) (of_nat (off + n)) din' ?st = Some (of_nat (off + n + length (drop n p)), din'', st'') \<and>
      grows ?st din' (bs @ [x]) st'' din'' bl'' \<and> length bl'' = nsect (off + n + length (drop n p)) \<and>
      take (off + n + length (drop n p)) (concat (map (image st'') bl'')) = take (off + n) (concat (map (image ?st) (bs @ [x]))) @ drop n p \<and>
      unat (freeblock st'') + tsec (off + n) = unat (freeblock ?st) + tsec (off + n + length (drop n p))"
    proof (rule "1.IH" [rule_format])
      show "length (drop n p) < length p" using n False by simp
      show "img_ok ?st" "owns (image ?st) (freeblock ?st) din' (bs @ [x])" using g by (simp_all add: grows_def)
      show "length (bs @ [x]) = nsect (off + n)" using s(3) nsect_same [OF n(1,2)] by simp
      show "unat (freeblock ?st) + tsec (off + n + length (drop n p)) \<le> 1024 + tsec (off + n)" using s(5) prem(5) ts n by simp
    qed (use prem(4) n in simp)
    then obtain din'' st'' bl'' where r: "iappend_loop (drop n p) (of_nat (off + n)) din' ?st = Some (of_nat (off + length p), din'', st'')"
      "grows ?st din' (bs @ [x]) st'' din'' bl''" "length bl'' = nsect (off + length p)"
      "take (off + length p) (concat (map (image st'') bl'')) = take (off + n) (concat (map (image ?st) (bs @ [x]))) @ drop n p"
      "unat (freeblock st'') + tsec (off + n) = unat (freeblock ?st) + tsec (off + length p)"
      using n(4) by auto
    show ?thesis
      using step r(1,3-5) grows_trans [OF g r(2)] c s(5) ts
      by (intro exI [of _ din''] exI [of _ st''] exI [of _ bl'']) (simp del: map_append concat_append)
  qed
qed

section \<open>The image as a list of files\<close>

text \<open>The abstract image: type and content of inode \<open>Suc i\<close> at position \<open>i\<close>.\<close>

type_synonym afiles = "(ushort \<times> uchar list) list"

definition node :: "mkfs_state \<Rightarrow> nat \<Rightarrow> dinode" where
  "node st i = dinode_at (of_nat i) (image st (i2b (of_nat i)))"

definition file_is :: "mkfs_state \<Rightarrow> nat \<Rightarrow> ushort \<times> uchar list \<Rightarrow> uint list \<Rightarrow> bool" where
  "file_is st i f bl \<longleftrightarrow> owns (image st) (freeblock st) (node st i) bl \<and> d_type (node st i) = fst f \<and>
     unat (d_size (node st i)) = length (snd f) \<and> length bl = nsect (length (snd f)) \<and>
     take (length (snd f)) (concat (map (image st) bl)) = snd f"

definition aspace :: "afiles \<Rightarrow> nat" where
  "aspace fs = 29 + sum_list (map (\<lambda>f. tsec (length (snd f))) fs)"

definition disjoint_files :: "mkfs_state \<Rightarrow> nat \<Rightarrow> (nat \<Rightarrow> uint list) \<Rightarrow> bool" where
  "disjoint_files st n bl \<longleftrightarrow> (\<forall>i<n. \<forall>j<n. i \<noteq> j \<longrightarrow> isecs (node st (Suc i)) (bl i) \<inter> isecs (node st (Suc j)) (bl j) = {})"

definition holds_files :: "mkfs_state \<Rightarrow> afiles \<Rightarrow> (nat \<Rightarrow> uint list) \<Rightarrow> bool" where
  "holds_files st fs bl \<longleftrightarrow> img_ok st \<and> freeinode st = of_nat (Suc (length fs)) \<and> length fs < 200 \<and>
     unat (freeblock st) = aspace fs \<and> (\<forall>i<length fs. file_is st (Suc i) (fs ! i) (bl i)) \<and> disjoint_files st (length fs) bl \<and>
     image st 1 = image mkfs_start 1"

lemma i2b_range: "i < 200 \<Longrightarrow> 2 \<le> i2b (of_nat i) \<and> i2b (of_nat i) < 28 \<and> i2b (of_nat i) < 29 \<and> i2b (of_nat i) < 1024"
proof -
  assume i: "i < 200"
  then have u: "unat (i2b (of_nat i)) = i div 8 + 2" by (simp add: i2b_def IPB_def unat_word_ariths unat_div unat_of_nat)
  have "i div 8 < 26" using i by (simp add: less_mult_imp_div_less)
  then show ?thesis by (simp add: word_less_nat_alt word_le_nat_alt u)
qed

lemma rinode_node: "i < 200 \<Longrightarrow> rinode (of_nat i) st = Some (node st i)"
proof -
  assume "i < 200"
  then have "i2b (of_nat i) < 1024" using i2b_range [of i] by simp
  then show ?thesis by (simp add: rinode_def node_def)
qed

text \<open>The inode that the kernel's \<^verbatim>\<open>ilock\<close> will read is the one written, and no other changes.\<close>

lemma winode_node:
  assumes "img_ok st" "i < 200" "length (d_addrs di) = Suc NDIRECT"
  obtains st' where "winode (of_nat i) di st = Some st'" "img_ok st'" "node st' i = di" "\<And>j. j < 200 \<Longrightarrow> j \<noteq> i \<Longrightarrow> node st' j = node st j"
    "\<And>y. y < 2 \<or> 28 \<le> y \<Longrightarrow> image st' y = image st y" "freeblock st' = freeblock st" "freeinode st' = freeinode st"
proof -
  let ?b = "i2b (of_nat i)"
  let ?st = "wsect ?b (dinode_put (of_nat i) di (image st ?b)) st"
  note r = i2b_range [OF assms(2)]
  have l: "length (image st ?b) = BSIZE" using img_okD(1) [OF assms(1)] by (simp add: BSIZE_def)
  note p = dinode_at_put [OF assms(3) l]
  have "?b < 1024" using r by simp
  then have w: "winode (of_nat i) di st = Some ?st" by (simp add: winode_def)
  have ok: "img_ok ?st"
  proof (rule img_ok_wsect [OF assms(1)])
    show "?b < freeblock st" using r img_okD(3) [OF assms(1)] by (auto intro: less_le_trans)
    show "length (dinode_put (of_nat i) di (image st ?b)) = 512" using l assms(3) by (simp add: BSIZE_def)
  qed
  have "node ?st j = node st j" if "j < 200" "j \<noteq> i" for j
  proof (cases "i2b (of_nat j) = ?b")
    case True
    have ne: "(of_nat j :: uint) \<noteq> of_nat i"
    proof
      assume "(of_nat j :: uint) = of_nat i"
      then have "unat (of_nat j :: uint) = unat (of_nat i :: uint)" by simp
      then show False using that assms(2) by (simp add: unat_of_nat)
    qed
    have "dinode_at (of_nat j) (dinode_put (of_nat i) di (image st ?b)) = dinode_at (of_nat j) (image st ?b)"
      using True by (intro p(2) ne) (simp only: i2b_IBLOCK)
    then show ?thesis by (simp only: node_def True image_wsect fun_upd_same)
  qed (simp add: node_def)
  moreover have "image ?st y = image st y" if "y < 2 \<or> 28 \<le> y" for y using that r by auto
  ultimately show thesis using that [of ?st] w ok p(1) by (simp add: node_def)
qed

lemma file_is_frame:
  assumes "file_is st i f bl" "node st' i = node st i" "\<And>y. y \<in> isecs (node st i) bl \<Longrightarrow> image st' y = image st y" "freeblock st \<le> freeblock st'"
  shows "file_is st' i f bl"
proof -
  have "owns (image st) (freeblock st) (node st i) bl" using assms(1) by (simp add: file_is_def)
  then have "owns (image st') (freeblock st') (node st i) bl"
    by (rule owns_frame) (simp_all add: assms(3,4) isecs_def)
  moreover have "map (image st') bl = map (image st) bl" using assms(3) by (auto simp: isecs_def)
  ultimately show ?thesis using assms(1,2) by (simp add: file_is_def del: map_eq_conv)
qed

lemma holds_filesD:
  assumes "holds_files st fs bl"
  shows "img_ok st" "freeinode st = of_nat (Suc (length fs))" "length fs < 200" "unat (freeblock st) = aspace fs"
    "i < length fs \<Longrightarrow> file_is st (Suc i) (fs ! i) (bl i)" "disjoint_files st (length fs) bl" "image st 1 = image mkfs_start 1"
  using assms by (simp_all add: holds_files_def)

lemma isecs_Nil [simp]: "isecs din [] = {}"
  by (simp add: isecs_def)

lemma isecs_range:
  assumes "file_is st i f bl" "x \<in> isecs (node st i) bl"
  shows "28 \<le> x" "x < freeblock st" "29 \<le> x"
proof -
  have x: "29 \<le> x" "x < freeblock st" using assms by (auto simp: file_is_def owns_def)
  have "28 \<le> (29 :: uint)" by simp
  then show "28 \<le> x" using x(1) by (rule order_trans)
  show "x < freeblock st" "29 \<le> x" by (rule x)+
qed

lemma mkfs_ialloc_holds:
  assumes "holds_files st fs bl" "length fs < 199"
  shows "\<exists>st' bl'. mkfs_ialloc T st = Some (of_nat (Suc (length fs)), st') \<and> holds_files st' (fs @ [(T, [])]) bl'"
proof -
  note h = holds_filesD [OF assms(1)]
  let ?n = "length fs" and ?bl = "bl(length fs := [])"
  let ?din = "\<lparr>d_type = T, d_major = 0, d_minor = 0, d_nlink = 1, d_size = 0, d_addrs = replicate (Suc NDIRECT) 0\<rparr>"
  let ?st = "st\<lparr>freeinode := freeinode st + 1\<rparr>"
  have "img_ok ?st" "Suc ?n < 200" using h(1) assms(2) by (simp_all add: img_ok_def)
  then obtain st' where w: "winode (of_nat (Suc ?n)) ?din ?st = Some st'" "img_ok st'" "node st' (Suc ?n) = ?din"
    "\<And>j. j < 200 \<Longrightarrow> j \<noteq> Suc ?n \<Longrightarrow> node st' j = node st j" "\<And>y. y < 2 \<or> 28 \<le> y \<Longrightarrow> image st' y = image st y"
    "freeblock st' = freeblock st" "freeinode st' = freeinode st + 1"
    by (rule winode_node [of ?st "Suc ?n" ?din]) (auto simp: node_def)
  have nodes: "node st' (Suc i) = node st (Suc i)" if "i < ?n" for i using that w(4) [of "Suc i"] assms(2) by simp
  have new: "file_is st' (Suc ?n) (T, []) []"
    using w(3) by (auto simp: file_is_def layout_defs nsect_def MAXFILE_def nth_append nth_Cons' simp del: replicate_Suc)
  have old: "file_is st' (Suc i) (fs ! i) (bl i)" if "i < ?n" for i
  proof (rule file_is_frame [OF h(5) [OF that]])
    show "image st' y = image st y" if "y \<in> isecs (node st (Suc i)) (bl i)" for y
      using isecs_range(1) [OF h(5) [OF \<open>i < ?n\<close>] that] by (intro w(5)) simp
  qed (simp_all add: nodes [OF that] w(6))
  have "holds_files st' (fs @ [(T, [])]) ?bl"
    unfolding holds_files_def
  proof (intro conjI allI impI)
    show "file_is st' (Suc i) ((fs @ [(T, [])]) ! i) (?bl i)" if "i < length (fs @ [(T, [])])" for i
      using that new old [of i] by (auto simp: nth_append less_Suc_eq)
    show "disjoint_files st' (length (fs @ [(T, [])])) ?bl"
      using h(6) nodes by (auto simp: disjoint_files_def less_Suc_eq)
    show "unat (freeblock st') = aspace (fs @ [(T, [])])" using h(4) w(6) by (simp add: aspace_def tsec_def nsect_def)
    show "image st' 1 = image mkfs_start 1" using h(7) w(5) [of 1] by simp
  qed (use w(2,7) h(2) assms(2) in simp_all)
  moreover have "mkfs_ialloc T st = Some (of_nat (Suc ?n), st')" using w(1) h(2) by (simp add: mkfs_ialloc_def)
  ultimately show ?thesis by blast
qed

lemma aspace_update:
  "i < length fs \<Longrightarrow> aspace (fs[i := f]) + tsec (length (snd (fs ! i))) = aspace fs + tsec (length (snd f))"
proof (induction fs arbitrary: i)
  case (Cons g fs)
  then show ?case by (cases i) (auto simp: aspace_def)
qed simp

definition append_to :: "nat \<Rightarrow> uchar list \<Rightarrow> afiles \<Rightarrow> afiles" where
  "append_to i p fs = fs[i := (fst (fs ! i), snd (fs ! i) @ p)]"

lemma owns_addrs: "d_addrs d = d_addrs d' \<Longrightarrow> owns im fb d bl \<longleftrightarrow> owns im fb d' bl"
  by (simp only: layout_defs)

lemma isecs_addrs: "d_addrs d = d_addrs d' \<Longrightarrow> isecs d bl = isecs d' bl"
  by (simp only: isecs_def)

lemma unat_lengthI: "unat (w :: uint) = n \<Longrightarrow> w = of_nat n"
  by auto

text \<open>File \<open>i\<close> is replaced, in its own sectors and new ones; the other files keep their inodes and sectors.\<close>

lemma holds_replace:
  assumes "holds_files st fs bl" "i < length fs" "img_ok st'" "freeinode st' = freeinode st" "freeblock st \<le> freeblock st'"
    "file_is st' (Suc i) f b" "isecs (node st' (Suc i)) b \<subseteq> isecs (node st (Suc i)) (bl i) \<union> {y. freeblock st \<le> y}"
    "\<And>j. j < 200 \<Longrightarrow> j \<noteq> Suc i \<Longrightarrow> node st' j = node st j"
    "\<And>y. y < freeblock st \<Longrightarrow> y = 1 \<or> 28 \<le> y \<Longrightarrow> y \<notin> isecs (node st (Suc i)) (bl i) \<Longrightarrow> image st' y = image st y"
    "unat (freeblock st') = aspace (fs[i := f])"
  shows "holds_files st' (fs[i := f]) (bl(i := b))"
proof -
  note h = holds_filesD [OF assms(1)] and r = isecs_range [OF holds_filesD(5) [OF assms(1)]]
  have nodes: "node st' (Suc j) = node st (Suc j)" if "j < length fs" "j \<noteq> i" for j using that h(3) assms(8) by simp
  have disj: "isecs (node st (Suc i)) (bl i) \<inter> isecs (node st (Suc j)) (bl j) = {}" if "j < length fs" "j \<noteq> i" for j
    using that h(6) assms(2) by (auto simp: disjoint_files_def)
  have old: "file_is st' (Suc j) (fs ! j) (bl j)" if j: "j < length fs" "j \<noteq> i" for j
    using disj [OF j] r [OF j(1)] by (intro file_is_frame [OF h(5) [OF j(1)]] assms(5,9)) (auto simp: nodes [OF j])
  have sep: "isecs (node st' (Suc i)) b \<inter> isecs (node st (Suc j)) (bl j) = {}" if j: "j < length fs" "j \<noteq> i" for j
    using assms(7) disj [OF j] r(2) [OF j(1)] by fastforce
  have dis: "isecs (node st' (Suc j)) ((bl(i := b)) j) \<inter> isecs (node st' (Suc k)) ((bl(i := b)) k) = {}"
    if "j < length fs" "k < length fs" "j \<noteq> k" for j k
    using that sep [of k] sep [of j] h(6) nodes [of j] nodes [of k]
    by (cases "j = i"; cases "k = i") (auto simp: disjoint_files_def Int_commute)
  have one: "image st' 1 = image st 1"
  proof (rule assms(9))
    have "(1 :: uint) < 29" by simp
    then show "1 < freeblock st" using img_okD(3) [OF h(1)] by (rule less_le_trans)
    have "\<not> 28 \<le> (1 :: uint)" by (simp add: not_le)
    then show "1 \<notin> isecs (node st (Suc i)) (bl i)" using r(1) [OF assms(2), of 1] by blast
  qed simp
  show ?thesis
    unfolding holds_files_def
  proof (intro conjI allI impI)
    show "file_is st' (Suc j) (fs[i := f] ! j) ((bl(i := b)) j)" if "j < length (fs[i := f])" for j
      using that assms(2,6) old [of j] by (cases "j = i") simp_all
  qed (use assms(3,4,10) h(2,3,7) one dis in \<open>simp_all add: disjoint_files_def\<close>)
qed

lemma iappend_holds:
  assumes "holds_files st fs bl" "i < length fs" "length (snd (fs ! i)) + length p \<le> 512 * MAXFILE" "aspace (append_to i p fs) \<le> 1024"
  shows "\<exists>st' bl'. iappend (of_nat (Suc i)) p st = Some st' \<and> holds_files st' (append_to i p fs) bl'"
proof -
  note h = holds_filesD [OF assms(1)]
  let ?c = "snd (fs ! i)" and ?d = "node st (Suc i)"
  let ?off = "length ?c"
  have f: "owns (image st) (freeblock st) ?d (bl i)" "d_type ?d = fst (fs ! i)" "d_size ?d = of_nat ?off" "length (bl i) = nsect ?off"
    "take ?off (concat (map (image st) (bl i))) = ?c"
    using h(5) [OF assms(2)] by (simp_all add: file_is_def unat_lengthI)
  have as: "aspace (append_to i p fs) + tsec ?off = aspace fs + tsec (?off + length p)"
    using aspace_update [OF assms(2)] by (simp add: append_to_def)
  have "unat (freeblock st) + tsec (?off + length p) \<le> 1024 + tsec ?off" using as assms(4) h(4) by linarith
  from iappend_loop_ok [OF h(1) f(1,4) assms(3) this] obtain din st1 b where
    l: "iappend_loop p (of_nat ?off) ?d st = Some (of_nat (?off + length p), din, st1)" and g: "grows st ?d (bl i) st1 din b" and
    b: "length b = nsect (?off + length p)" "take (?off + length p) (concat (map (image st1) b)) = ?c @ p" and
    fb: "unat (freeblock st1) + tsec ?off = unat (freeblock st) + tsec (?off + length p)" unfolding f(5) by blast
  have g': "img_ok st1" "owns (image st1) (freeblock st1) din b" "d_type din = d_type ?d" "freeinode st1 = freeinode st" "freeblock st \<le> freeblock st1"
    "\<And>y. y < freeblock st \<Longrightarrow> y \<notin> isecs ?d (bl i) \<Longrightarrow> image st1 y = image st y" "isecs din b \<subseteq> isecs ?d (bl i) \<union> {y. freeblock st \<le> y}"
    using g by (auto simp: grows_def)
  let ?din = "din\<lparr>d_size := of_nat (?off + length p)\<rparr>"
  have len: "length (d_addrs ?din) = Suc NDIRECT" "Suc i < 200" using ownsD(1) [OF g'(2)] assms(2) h(3) by simp_all
  obtain st' where w: "winode (of_nat (Suc i)) ?din st1 = Some st'" "img_ok st'" "node st' (Suc i) = ?din"
    "\<And>j. j < 200 \<Longrightarrow> j \<noteq> Suc i \<Longrightarrow> node st' j = node st1 j" "\<And>y. y < 2 \<or> 28 \<le> y \<Longrightarrow> image st' y = image st1 y"
    "freeblock st' = freeblock st1" "freeinode st' = freeinode st1"
    using winode_node [OF g'(1) len(2,1)] by blast
  have low: "image st1 y = image st y" if "y < 29" for y
  proof (rule g'(6))
    show "y < freeblock st" using that img_okD(3) [OF h(1)] by (rule less_le_trans)
    show "y \<notin> isecs ?d (bl i)" using that f(1) by (auto simp: owns_def)
  qed
  have new: "file_is st' (Suc i) (fst (fs ! i), ?c @ p) b"
  proof -
    have same: "image st' y = image st1 y" if "29 \<le> y" for y
    proof (intro w(5) disjI2)
      have "28 \<le> (29 :: uint)" by simp
      then show "28 \<le> y" using that by (rule order_trans)
    qed
    have "owns (image st1) (freeblock st1) ?din b" using owns_addrs [of ?din din] g'(2) by simp
    then have "owns (image st') (freeblock st') ?din b"
      by (rule owns_frame) (use ownsD(8) [OF g'(2)] in \<open>simp_all add: same w(6)\<close>)
    moreover have "map (image st') b = map (image st1) b" using ownsD(6) [OF g'(2)] by (simp add: same)
    moreover have "unat (of_nat (?off + length p) :: uint) = ?off + length p"
      using assms(3) by (simp add: unat_of_nat MAXFILE_def NDIRECT_def NINDIRECT_def del: of_nat_add)
    ultimately show ?thesis using b g'(3) f(2) by (simp add: file_is_def w(3) del: map_eq_conv of_nat_add)
  qed
  have nodes: "node st' j = node st j" if "j < 200" "j \<noteq> Suc i" for j
    using that w(4) [of j] low [of "i2b (of_nat j)"] i2b_range [of j] by (simp add: node_def)
  have "holds_files st' (fs[i := (fst (fs ! i), ?c @ p)]) (bl(i := b))"
  proof (rule holds_replace [OF assms(1,2) w(2) _ _ new])
    show "image st' y = image st y" if "y < freeblock st" "y = 1 \<or> 28 \<le> y" "y \<notin> isecs ?d (bl i)" for y
      using that w(5) [of y] g'(6) by auto
    show "unat (freeblock st') = aspace (fs[i := (fst (fs ! i), ?c @ p)])" using as fb h(4) w(6) by (simp add: append_to_def)
    show "isecs (node st' (Suc i)) b \<subseteq> isecs ?d (bl i) \<union> {y. freeblock st \<le> y}"
      using g'(7) isecs_addrs [of ?din din b] by (simp add: w(3))
  qed (simp_all add: nodes w(6,7) g'(4,5))
  moreover have "iappend (of_nat (Suc i)) p st = Some st'"
    using l w(1) rinode_node [OF len(2), of st] f(3) by (simp add: iappend_def)
  ultimately show ?thesis by (auto simp: append_to_def)
qed

lemma append_to_append: "i < length fs \<Longrightarrow> append_to i q (append_to i p fs) = append_to i (p @ q) fs" "length (append_to i p fs) = length fs"
  by (simp_all add: append_to_def)

lemma aspace_append_to: "i < length fs \<Longrightarrow> aspace fs \<le> aspace (append_to i p fs)"
  using aspace_update [of i fs "(fst (fs ! i), snd (fs ! i) @ p)"] tsec_mono [of "length (snd (fs ! i))" "length (snd (fs ! i)) + length p"]
  by (simp add: append_to_def)

lemma iappends_holds:
  assumes "holds_files st fs bl" "i < length fs" "length (snd (fs ! i)) + length (concat cs) \<le> 512 * MAXFILE"
    "aspace (append_to i (concat cs) fs) \<le> 1024"
  shows "\<exists>st' bl'. iappends (of_nat (Suc i)) cs st = Some st' \<and> holds_files st' (append_to i (concat cs) fs) bl'"
  using assms
proof (induction cs arbitrary: st fs bl)
  case Nil
  then show ?case by (auto simp: append_to_def)
next
  case (Cons c cs)
  let ?fs = "append_to i c fs"
  have a: "append_to i (concat (c # cs)) fs = append_to i (concat cs) ?fs" "i < length ?fs" "snd (?fs ! i) = snd (fs ! i) @ c"
    using Cons.prems(2) by (simp_all add: append_to_def)
  have "aspace ?fs \<le> 1024" using aspace_append_to [OF a(2), of "concat cs"] Cons.prems(4) a(1) by simp
  then obtain st1 bl1 where 1: "iappend (of_nat (Suc i)) c st = Some st1" "holds_files st1 ?fs bl1"
    using iappend_holds [OF Cons.prems(1,2), of c] Cons.prems(3) by auto
  show ?case using Cons.IH [OF 1(2) a(2)] 1(1) a(1,3) Cons.prems(3,4) by simp
qed

lemma concat_file_chunks: "concat (file_chunks bs) = bs"
  by (induction bs rule: file_chunks.induct) (simp add: file_chunks.simps)

text \<open>What the loop over the files does to the abstract image.\<close>

fun add_files :: "(uchar list \<times> uchar list) list \<Rightarrow> afiles \<Rightarrow> afiles" where
  "add_files [] fs = fs"
| "add_files ((name, c) # files) fs =
     add_files files (append_to 0 (dir_entry_bytes (of_nat (Suc (length fs))) (skip_underscore name)) fs @ [(T_FILE, c)])"

lemma length_strncpy [simp]: "nat n \<le> length d \<Longrightarrow> length (strncpy d t n) = length d"
  using length_cstr_le [of "nat n" t] by (simp add: strncpy_eq)

lemma length_dir_entry [simp]: "length (dir_entry_bytes inum name) = 16"
  by (simp add: dir_entry_bytes_def)

lemma aspace_snoc: "aspace (fs @ [f]) = aspace fs + tsec (length (snd f))"
  by (simp add: aspace_def)

lemma aspace_add_files: "fs \<noteq> [] \<Longrightarrow> aspace fs \<le> aspace (add_files files fs)"
proof (induction files arbitrary: fs)
  case (Cons f files)
  obtain name c where f: "f = (name, c)" by (cases f)
  let ?e = "dir_entry_bytes (of_nat (Suc (length fs))) (skip_underscore name)"
  have "aspace fs \<le> aspace (append_to 0 ?e fs @ [(T_FILE, c)])" using aspace_append_to [of 0 fs ?e] Cons.prems by (simp add: aspace_snoc)
  then show ?case using Cons.IH [of "append_to 0 ?e fs @ [(T_FILE, c)]"] f by simp
qed simp

lemma mkfs_files_holds:
  assumes "holds_files st fs bl" "fs \<noteq> []" "length fs + length files < 200" "length (snd (fs ! 0)) + 16 * length files \<le> 512 * MAXFILE"
    "\<forall>f\<in>set files. length (snd f) \<le> 512 * MAXFILE" "aspace (add_files files fs) \<le> 1024"
  shows "\<exists>st' bl'. mkfs_files ROOTINO files st = Some st' \<and> holds_files st' (add_files files fs) bl'"
  using assms
proof (induction files arbitrary: st fs bl)
  case (Cons f files)
  obtain name c where f: "f = (name, c)" by (cases f)
  let ?e = "dir_entry_bytes (of_nat (Suc (length fs))) (skip_underscore name)"
  let ?f1 = "fs @ [(T_FILE, [])]" let ?f2 = "append_to 0 ?e ?f1" let ?f3 = "append_to (length fs) c ?f2"
  have f3: "?f3 = append_to 0 ?e fs @ [(T_FILE, c)]" using Cons.prems(2) by (simp add: append_to_def nth_append list_update_append)
  have n: "0 < length ?f1" "length fs < length ?f2" "?f3 \<noteq> []" "length (snd (?f1 ! 0)) = length (snd (fs ! 0))" "length (snd (?f3 ! 0)) = length (snd (fs ! 0)) + 16"
    "snd (?f2 ! length fs) = []" "length ?f3 = Suc (length fs)"
    using Cons.prems(2) by (auto simp: append_to_def nth_append)
  have all: "add_files (f # files) fs = add_files files ?f3" by (simp only: f f3 add_files.simps)
  have s3: "aspace ?f3 \<le> 1024" using aspace_add_files [OF n(3), of files] Cons.prems(6) unfolding all by (rule order_trans)
  have s2: "aspace ?f2 \<le> 1024" using aspace_append_to [OF n(2), of c] s3 by (rule order_trans)
  have len: "length c \<le> 512 * MAXFILE" "length fs < 199" using Cons.prems(3,5) f by simp_all
  obtain st1 b1 where 1: "mkfs_ialloc T_FILE st = Some (of_nat (Suc (length fs)), st1)" "holds_files st1 ?f1 b1"
    using mkfs_ialloc_holds [OF Cons.prems(1) len(2)] by blast
  obtain st2 b2 where 2: "iappend (of_nat (Suc 0)) ?e st1 = Some st2" "holds_files st2 ?f2 b2"
    using iappend_holds [OF 1(2) n(1) _ s2] n(4) Cons.prems(4) by auto
  obtain st3 b3 where 3: "iappends (of_nat (Suc (length fs))) (file_chunks c) st2 = Some st3" "holds_files st3 ?f3 b3"
    using iappends_holds [OF 2(2) n(2), of "file_chunks c"] n(6) len(1) s3 by (auto simp: concat_file_chunks)
  have "\<exists>st' bl'. mkfs_files ROOTINO files st3 = Some st' \<and> holds_files st' (add_files files ?f3) bl'"
    using Cons.prems(3-6) n(5,7) all f by (intro Cons.IH [OF 3(2) n(3)]) auto
  moreover have "ROOTINO = of_nat (Suc 0)" by (simp add: ROOTINO_def)
  then have "mkfs_files ROOTINO (f # files) st = mkfs_files ROOTINO files st3"
    using 1(1) 2(1) 3(1) by (simp add: f del: of_nat_Suc)
  ultimately show ?case by (simp only: all)
qed auto

section \<open>The finished image\<close>

fun entries :: "nat \<Rightarrow> (uchar list \<times> uchar list) list \<Rightarrow> uchar list" where
  "entries n [] = []"
| "entries n ((name, c) # files) = dir_entry_bytes (of_nat n) (skip_underscore name) @ entries (Suc n) files"

definition root_bytes :: "(uchar list \<times> uchar list) list \<Rightarrow> uchar list" where
  "root_bytes files = dir_entry_bytes ROOTINO (lit ''.'') @ dir_entry_bytes ROOTINO (lit ''..'') @ entries 2 files"

definition image_files :: "(uchar list \<times> uchar list) list \<Rightarrow> afiles" where
  "image_files files = (T_DIR, root_bytes files) # map (\<lambda>f. (T_FILE, snd f)) files"

lemma add_files_eq:
  "add_files files ((T, root) # gs) = (T, root @ entries (length gs + 2) files) # gs @ map (\<lambda>f. (T_FILE, snd f)) files"
  by (induction "length gs + 2" files arbitrary: root gs rule: entries.induct) (auto simp: append_to_def)

lemma length_entries [simp]: "length (entries n files) = 16 * length files"
  by (induction n files rule: entries.induct) auto

lemma length_root_bytes [simp]: "length (root_bytes files) = 16 * (length files + 2)"
  by (simp add: root_bytes_def)

lemma slice_entries:
  "k < length files \<Longrightarrow> slice (16 * k) 16 (entries n files) = dir_entry_bytes (of_nat (n + k)) (skip_underscore (fst (files ! k)))"
proof (induction n files arbitrary: k rule: entries.induct)
  case (2 n name c files)
  then show ?case by (cases k) (simp_all add: slice_append_left slice_append_right)
qed simp

lemma slice_root:
  "slice 0 16 (root_bytes files) = dir_entry_bytes ROOTINO (lit ''.'')" "slice 16 16 (root_bytes files) = dir_entry_bytes ROOTINO (lit ''..'')"
  "k < length files \<Longrightarrow> slice (16 * (k + 2)) 16 (root_bytes files) = dir_entry_bytes (of_nat (k + 2)) (skip_underscore (fst (files ! k)))"
  by (simp_all add: root_bytes_def slice_append_left slice_append_right slice_entries)

text \<open>The entry that the kernel decodes: the inode number and the name, cut and filled to \<^verbatim>\<open>DIRSIZ\<close> bytes.\<close>

definition name_field :: "uchar list \<Rightarrow> uchar list" where
  "name_field name = take DIRSIZ (name @ replicate DIRSIZ 0)"

lemma dirent_of_entry:
  assumes "0 \<notin> set name"
  shows "dirent_of (dir_entry_bytes inum name) = \<lparr>de_inum = ucast inum, de_name = name_field name\<rparr>"
proof -
  have "map (view_of name) [0..<DIRSIZ] = take DIRSIZ (name @ replicate DIRSIZ 0)"
    by (intro nth_equalityI) (auto simp: view_of_def nth_append)
  moreover have "takeWhile (\<lambda>c. c \<noteq> 0) (take DIRSIZ name @ replicate (DIRSIZ - length name) 0) = take DIRSIZ name"
    using assms by (cases "DIRSIZ - length name") (auto simp: takeWhile_append dest: in_set_takeD)
  ultimately have "cstr DIRSIZ (view_of name) = take DIRSIZ name" by (simp add: cstr_def)
  then show ?thesis
    unfolding dir_entry_bytes_def by (subst dirent_of_bytes) (auto simp: strncpy_eq name_field_def min_def)
qed

lemma skip_underscore_nul: "0 \<notin> set name \<Longrightarrow> 0 \<notin> set (skip_underscore name)"
  by (auto simp: skip_underscore_def dest: list.set_sel(2))

text \<open>The beginning and the end.\<close>

lemma mkfs_start_simps: "freeblock mkfs_start = 29" "usedblocks mkfs_start = 29" "freeinode mkfs_start = 1"
  by (simp_all add: mkfs_start_def wsect_def Let_def mkfs_size_def mkfs_ninodes_def IPB_def)

lemma mkfs_start_sb:
  "superblock_of (image mkfs_start 1) = \<lparr>sb_size = 1024, sb_nblocks = 985, sb_ninodes = 200, sb_nlog = 10\<rparr>"
  using get_words_bytes [of _ "[mkfs_size, mkfs_nblocks, mkfs_ninodes, mkfs_nlog]" "replicate 496 0"]
  by (simp add: mkfs_start_def Let_def superblock_of_def mkfs_size_def mkfs_nblocks_def mkfs_ninodes_def mkfs_nlog_def)

lemma mkfs_start_holds: "holds_files mkfs_start [] bl"
proof -
  have i: "image mkfs_start x = (if x = 1 then image mkfs_start 1 else replicate 512 0)" "length (image mkfs_start 1) = 512" for x
    by (simp_all add: mkfs_start_def Let_def)
  have "img_ok mkfs_start"
    unfolding img_ok_def mkfs_start_simps
  proof (intro conjI allI impI)
    show "length (image mkfs_start x) = 512" for x using i(1) [of x] i(2) by simp
    show "image mkfs_start x = replicate 512 0" if "29 \<le> x" for x
    proof -
      have "x \<noteq> 1" using that by (auto simp: word_le_nat_alt)
      then show ?thesis using i(1) [of x] by simp
    qed
  qed simp_all
  then show ?thesis by (simp add: holds_files_def mkfs_start_simps aspace_def disjoint_files_def)
qed

lemma mkfs_upto_root:
  assumes "length files \<le> 198" "\<forall>f\<in>set files. length (snd f) \<le> 512 * MAXFILE" "aspace (image_files files) \<le> 1024"
  obtains st bl where "holds_files st (image_files files) bl"
    "mkfs files = Option.bind (winode ROOTINO ((node st 1)\<lparr>d_size := (d_size (node st 1) div 512 + 1) * 512\<rparr>) st)
       (\<lambda>st. mkfs_balloc (unat (usedblocks st)) st)"
proof -
  have root: "ROOTINO = of_nat (Suc 0)" by (simp add: ROOTINO_def)
  let ?a = "dir_entry_bytes ROOTINO (lit ''.'')" and ?b = "dir_entry_bytes ROOTINO (lit ''..'')"
  let ?f1 = "[(T_DIR, [])]" let ?f2 = "append_to 0 ?a ?f1" let ?f3 = "append_to 0 ?b ?f2"
  have t: "aspace ?f2 \<le> 1024" "aspace ?f3 \<le> 1024" by (simp_all add: append_to_def aspace_def tsec_def nsect_def NDIRECT_def)
  have all: "add_files files ?f3 = image_files files" by (simp add: append_to_def add_files_eq image_files_def root_bytes_def numeral_2_eq_2)
  obtain st1 b1 where 1: "mkfs_ialloc T_DIR mkfs_start = Some (of_nat (Suc 0), st1)" "holds_files st1 ?f1 b1"
    using mkfs_ialloc_holds [OF mkfs_start_holds, of T_DIR] by auto
  obtain st2 b2 where 2: "iappend (of_nat (Suc 0)) ?a st1 = Some st2" "holds_files st2 ?f2 b2"
    using iappend_holds [OF 1(2) _ _ t(1)] by (auto simp: MAXFILE_def NDIRECT_def)
  obtain st3 b3 where 3: "iappend (of_nat (Suc 0)) ?b st2 = Some st3" "holds_files st3 ?f3 b3"
    using iappend_holds [OF 2(2) _ _ t(2)] by (auto simp: append_to_def MAXFILE_def NDIRECT_def)
  have "\<exists>st' bl'. mkfs_files ROOTINO files st3 = Some st' \<and> holds_files st' (add_files files ?f3) bl'"
    using assms by (intro mkfs_files_holds [OF 3(2)]) (auto simp: all, auto simp: append_to_def MAXFILE_def NDIRECT_def NINDIRECT_def)
  then obtain st bl where 4: "mkfs_files ROOTINO files st3 = Some st" "holds_files st (image_files files) bl" unfolding all by blast
  have sz: "mkfs_nblocks + usedblocks mkfs_start + mkfs_nlog = mkfs_size"
    by (simp add: mkfs_start_simps mkfs_nblocks_def mkfs_nlog_def mkfs_size_def)
  have "rinode ROOTINO st = Some (node st 1)" using rinode_node [of "Suc 0" st] root by simp
  then have "mkfs files = Option.bind (winode ROOTINO ((node st 1)\<lparr>d_size := (d_size (node st 1) div 512 + 1) * 512\<rparr>) st)
       (\<lambda>st. mkfs_balloc (unat (usedblocks st)) st)"
    using 1(1) 2(1) 3(1) 4(1) by (simp add: mkfs_def sz Let_def flip: root del: of_nat_Suc)
  with 4(2) show thesis by (rule that)
qed

lemma map_faddr: "owns im fb din bl \<Longrightarrow> map (\<lambda>k. im (faddr im din k)) [0..<length bl] = map im bl"
  by (intro nth_equalityI) (auto simp: ownsD(3))

lemma file_is_bytes: "file_is st i f bl \<Longrightarrow> file_bytes (image st) (node st i) = snd f"
  using map_faddr [of "image st" "freeblock st" "node st i" bl] by (simp add: file_is_def file_bytes_def)

text \<open>The new size of the root directory covers the old one.\<close>

lemma file_bytes_round:
  assumes "owns im fb din bl" "length bl = nsect n" "nsect n \<le> nsect (unat (d_size din))" "n \<le> unat (d_size din)" "\<And>x. length (im x) = 512"
  shows "take n (file_bytes im din) = take n (concat (map im bl))"
proof -
  let ?g = "\<lambda>k. im (faddr im din k)"
  obtain m where m: "nsect (unat (d_size din)) = nsect n + m" using assms(3) by (auto simp: le_iff_add)
  have "map ?g [0..<nsect n + m] = map im bl @ map ?g [nsect n..<nsect n + m]"
    using map_faddr [OF assms(1)] assms(2) upt_add_eq_append [of 0 "nsect n" m] by simp
  moreover have "length (concat (map im bl)) = 512 * nsect n" using assms(2,5) length_concat_512 [of bl im] by simp
  moreover have "n \<le> 512 * nsect n" by (simp add: nsect_def)
  ultimately show ?thesis using assms(4) by (simp add: file_bytes_def m min_def)
qed

lemma round_size: "unat w = n \<Longrightarrow> n < 4096 \<Longrightarrow> unat ((w div 512 + 1) * 512) = (n div 512 + 1) * 512" for w :: uint
proof -
  assume n: "unat w = n" "n < 4096"
  have "n div 512 < 8" using n(2) by (simp add: less_mult_imp_div_less)
  then show ?thesis by (simp add: unat_word_ariths unat_div n(1))
qed

lemma mkfs_finish:
  assumes "holds_files st fs bl" "fs \<noteq> []" "aspace fs \<le> 1024" "length (snd (fs ! 0)) < 4096"
  obtains st' where "Option.bind (winode ROOTINO ((node st 1)\<lparr>d_size := (d_size (node st 1) div 512 + 1) * 512\<rparr>) st)
       (\<lambda>st. mkfs_balloc (unat (usedblocks st)) st) = Some st'"
    "\<And>i. i < length fs \<Longrightarrow> d_type (node st' (Suc i)) = fst (fs ! i)"
    "\<And>i. i < length fs \<Longrightarrow> 0 < i \<Longrightarrow> file_bytes (image st') (node st' (Suc i)) = snd (fs ! i)"
    "take (length (snd (fs ! 0))) (file_bytes (image st') (node st' 1)) = snd (fs ! 0)"
    "image st' 1 = image mkfs_start 1" "\<And>i. i < 4096 \<Longrightarrow> test_bit (image st' 28) i \<longleftrightarrow> i < aspace fs"
    "\<And>x. aspace fs \<le> unat x \<Longrightarrow> image st' x = replicate 512 0"
proof -
  note h = holds_filesD [OF assms(1)]
  let ?d = "node st 1" and ?n = "length (snd (fs ! 0))"
  let ?din = "?d\<lparr>d_size := (d_size ?d div 512 + 1) * 512\<rparr>"
  have r: "file_is st 1 (fs ! 0) (bl 0)" using h(5) [of 0] assms(2) by simp
  have o: "owns (image st) (freeblock st) ?d (bl 0)" and sz: "unat (d_size ?d) = ?n" and l0: "length (bl 0) = nsect ?n"
    and c0: "take ?n (concat (map (image st) (bl 0))) = snd (fs ! 0)" using r by (simp_all add: file_is_def)
  obtain st1 where w: "winode (of_nat 1) ?din st = Some st1" "img_ok st1" "node st1 1 = ?din" "\<And>j. j < 200 \<Longrightarrow> j \<noteq> 1 \<Longrightarrow> node st1 j = node st j"
    "\<And>y. y < 2 \<or> 28 \<le> y \<Longrightarrow> image st1 y = image st y" "freeblock st1 = freeblock st" "freeinode st1 = freeinode st"
    using winode_node [OF h(1), of 1 ?din] ownsD(1) [OF o] by auto
  let ?bm = "fold mark_bit [0..<aspace fs] (replicate 512 0)"
  let ?st = "wsect 28 ?bm st1"
  have u: "unat (usedblocks st1) = aspace fs" using img_okD(5) [OF w(2)] w(6) h(4) by simp
  have b: "mkfs_balloc (unat (usedblocks st1)) st1 = Some ?st"
    using assms(3) by (simp add: mkfs_balloc_def u mkfs_ninodes_def IPB_def)
  have nodes: "node ?st j = node st1 j" if "j < 200" for j using i2b_range [OF that] by (auto simp: node_def)
  have same: "image ?st y = image st y" if "29 \<le> y" for y
  proof -
    have "28 < (29 :: uint)" by simp
    then have "28 < y" using that by (rule less_le_trans)
    then show ?thesis using w(5) [of y] less_imp_le [of 28 y] by auto
  qed
  have "image ?st 1 = image mkfs_start 1" using w(5) [of 1] h(7) by simp
  have files: "file_is ?st (Suc i) (fs ! i) (bl i)" if "i < length fs" "0 < i" for i
    using that h(3) w(4) [of "Suc i"] nodes [of "Suc i"] isecs_range(3) [OF h(5) [OF that(1)]] w(6)
    by (intro file_is_frame [OF h(5)] same) auto
  have n1: "node ?st 1 = ?din" using nodes [of 1] w(3) by simp
  have oo: "owns (image ?st) (freeblock st) ?din (bl 0)"
    using owns_frame [of "image st" "freeblock st" ?din "bl 0" "image ?st" "freeblock st"] owns_addrs [of ?din ?d] o ownsD(8) [OF o] same by auto
  have "unat (d_size ?din) = (?n div 512 + 1) * 512"
    using round_size [OF sz assms(4)] by simp
  then have "take ?n (file_bytes (image ?st) ?din) = take ?n (concat (map (image ?st) (bl 0)))"
    using img_okD(1) [OF w(2)] test_fold_mark(1) [of "replicate 512 0" "aspace fs"] assms(3)
    by (intro file_bytes_round [OF oo l0]) (auto simp: nsect_def)
  moreover have "map (image ?st) (bl 0) = map (image st) (bl 0)" using ownsD(6) [OF o] same by auto
  ultimately have root: "take ?n (file_bytes (image ?st) (node ?st 1)) = snd (fs ! 0)" using c0 n1 by (simp del: map_eq_conv)
  show thesis
  proof (rule that [of ?st])
    show "Option.bind (winode ROOTINO ?din st) (\<lambda>st. mkfs_balloc (unat (usedblocks st)) st) = Some ?st" using w(1) b by (simp add: ROOTINO_def)
    show "d_type (node ?st (Suc i)) = fst (fs ! i)" if "i < length fs" for i
      using files [OF that] n1 r by (cases "i = 0") (simp_all add: file_is_def)
    show "file_bytes (image ?st) (node ?st (Suc i)) = snd (fs ! i)" if "i < length fs" "0 < i" for i by (rule file_is_bytes [OF files [OF that]])
    show "image ?st 1 = image mkfs_start 1" by fact
    show "test_bit (image ?st 28) i \<longleftrightarrow> i < aspace fs" if "i < 4096" for i
      using test_fold_mark(2) [of "replicate 512 0" "aspace fs" i] assms(3) that by (simp add: test_bit_def)
    show "image ?st x = replicate 512 0" if "aspace fs \<le> unat x" for x
      using that same [of x] img_okD(2) [OF h(1), of x] img_okD(3) [OF h(1)] h(4) by (auto simp: word_le_nat_alt)
  qed (rule root)
qed

text \<open>The blocks that the metadata and the files need.\<close>

definition blocks_needed :: "(uchar list \<times> uchar list) list \<Rightarrow> nat" where
  "blocks_needed files = 29 + tsec (16 * (length files + 2)) + (\<Sum>f\<leftarrow>files. tsec (length (snd f)))"

lemma aspace_image_files: "aspace (image_files files) = blocks_needed files"
  by (simp add: aspace_def image_files_def comp_def blocks_needed_def)

lemma ucast_small: "n < 65536 \<Longrightarrow> (ucast (of_nat n :: uint) :: ushort) = of_nat n"
  by (simp add: unsigned_of_nat take_bit_nat_eq_self)

lemma slice_take: "i + n \<le> k \<Longrightarrow> slice i n (take k d) = slice i n d"
  by (simp add: slice_def drop_take min_def)

text \<open>
  C14. \<^verbatim>\<open>mkfs\<close> builds the image it was asked for. When the files fit below the log, it succeeds, and in the image it leaves the superblock
  describes the disk; inode \<open>k + 2\<close> is a file with the bytes of the \<open>k\<close>-th argument; the root directory is inode 1, with \<^verbatim>\<open>.\<close> and \<^verbatim>\<open>..\<close> and then
  for every file an entry with its inode number and its name without a leading underscore; the bitmap marks exactly the blocks that the metadata and
  the files need, which are the first ones; and every block from there on, the log included, is zero, so that recovery at the first boot finds an empty log.
\<close>

theorem mkfs_image:
  assumes "length files \<le> 198" "\<forall>f\<in>set files. length (snd f) \<le> 512 * MAXFILE \<and> 0 \<notin> set (fst f)" "blocks_needed files \<le> 1014"
  shows "\<exists>st. mkfs files = Some st \<and>
    superblock_of (image st 1) = \<lparr>sb_size = 1024, sb_nblocks = 985, sb_ninodes = 200, sb_nlog = 10\<rparr> \<and>
    (\<forall>k<length files. d_type (node st (k + 2)) = T_FILE \<and> file_bytes (image st) (node st (k + 2)) = snd (files ! k) \<and>
       dirent_of (slice (16 * (k + 2)) 16 (file_bytes (image st) (node st 1))) =
         \<lparr>de_inum = of_nat (k + 2), de_name = name_field (skip_underscore (fst (files ! k)))\<rparr>) \<and>
    d_type (node st 1) = T_DIR \<and>
    dirent_of (slice 0 16 (file_bytes (image st) (node st 1))) = \<lparr>de_inum = 1, de_name = name_field (lit ''.'')\<rparr> \<and>
    dirent_of (slice 16 16 (file_bytes (image st) (node st 1))) = \<lparr>de_inum = 1, de_name = name_field (lit ''..'')\<rparr> \<and>
    (\<forall>i<4096. test_bit (image st (BBLOCK (of_nat i) 200)) i \<longleftrightarrow> i < blocks_needed files) \<and>
    (\<forall>x. blocks_needed files \<le> unat x \<longrightarrow> image st x = replicate 512 0)"
proof -
  let ?fs = "image_files files" and ?n = "16 * (length files + 2)"
  note as = aspace_image_files [of files]
  have fs: "?fs ! 0 = (T_DIR, root_bytes files)" "length ?fs = Suc (length files)" "\<And>k. k < length files \<Longrightarrow> ?fs ! Suc k = (T_FILE, snd (files ! k))"
    "?fs \<noteq> []" by (simp_all add: image_files_def)
  obtain s bl where s: "holds_files s ?fs bl"
    "mkfs files = Option.bind (winode ROOTINO ((node s 1)\<lparr>d_size := (d_size (node s 1) div 512 + 1) * 512\<rparr>) s)
       (\<lambda>st. mkfs_balloc (unat (usedblocks st)) st)"
    using mkfs_upto_root [of files] assms as by auto
  have big: "aspace ?fs \<le> 1024" "length (snd (?fs ! 0)) < 4096" using as assms(1,3) fs(1) by simp_all
  obtain st where st: "mkfs files = Some st"
    "\<And>i. i < length ?fs \<Longrightarrow> d_type (node st (Suc i)) = fst (?fs ! i)"
    "\<And>i. i < length ?fs \<Longrightarrow> 0 < i \<Longrightarrow> file_bytes (image st) (node st (Suc i)) = snd (?fs ! i)"
    "take ?n (file_bytes (image st) (node st 1)) = root_bytes files"
    "image st 1 = image mkfs_start 1" "\<And>i. i < 4096 \<Longrightarrow> test_bit (image st 28) i \<longleftrightarrow> i < blocks_needed files"
    "\<And>x. blocks_needed files \<le> unat x \<Longrightarrow> image st x = replicate 512 0"
    using mkfs_finish [OF s(1) fs(4) big] unfolding s(2) fs(1) as by auto
  let ?r = "file_bytes (image st) (node st 1)"
  have cut: "slice i 16 ?r = slice i 16 (root_bytes files)" if "i + 16 \<le> ?n" for i
    using slice_take [OF that, of ?r] st(4) by simp
  have name: "0 \<notin> set (skip_underscore (fst (files ! k)))" if "k < length files" for k
    using that assms(2) by (intro skip_underscore_nul) auto
  have bb: "BBLOCK (of_nat i) 200 = 28" if "i < 4096" for i
  proof -
    have "of_nat i div BPB = (0 :: uint)" using that by (simp add: BPB_def word_unat_eq_iff unat_div unat_of_nat)
    then show ?thesis by (simp add: BBLOCK_def IPB_def)
  qed
  show ?thesis
  proof (intro exI [of _ st] conjI allI impI)
    fix k assume k: "k < length files"
    show "d_type (node st (k + 2)) = T_FILE" "file_bytes (image st) (node st (k + 2)) = snd (files ! k)"
      using k st(2,3) [of "Suc k"] fs(2,3) by simp_all
    show "dirent_of (slice (16 * (k + 2)) 16 ?r) = \<lparr>de_inum = of_nat (k + 2), de_name = name_field (skip_underscore (fst (files ! k)))\<rparr>"
      using k cut [of "16 * (k + 2)"] slice_root(3) [OF k] dirent_of_entry [OF name [OF k], of "of_nat (k + 2)"] assms(1) ucast_small [of "k + 2"]
      by (simp del: of_nat_add)
  next
    show "dirent_of (slice 0 16 ?r) = \<lparr>de_inum = 1, de_name = name_field (lit ''.'')\<rparr>"
      using cut [of 0] slice_root(1) dirent_of_entry [of "lit ''.''" ROOTINO] by (simp add: lit_def ROOTINO_def)
    show "dirent_of (slice 16 16 ?r) = \<lparr>de_inum = 1, de_name = name_field (lit ''..'')\<rparr>"
      using cut [of 16] slice_root(2) dirent_of_entry [of "lit ''..''" ROOTINO] by (simp add: lit_def ROOTINO_def)
  qed (use st fs mkfs_start_sb st(2) [of 0] bb in auto)
qed

theorem mkfs_image_witness:
  "length [(lit ''_cat'', [1, 2, 3 :: uchar]), (lit ''README'', [])] \<le> 198 \<and>
   (\<exists>st. mkfs [(lit ''_cat'', [1, 2, 3]), (lit ''README'', [])] = Some st \<and> file_bytes (image st) (node st 2) = [1, 2, 3] \<and>
     dirent_of (slice 32 16 (file_bytes (image st) (node st 1))) = \<lparr>de_inum = 2, de_name = [0x63, 0x61, 0x74, 0, 0, 0, 0, 0, 0, 0, 0, 0, 0, 0]\<rparr>)"
proof -
  let ?files = "[(lit ''_cat'', [1, 2, 3 :: uchar]), (lit ''README'', [])]"
  have nm: "name_field (skip_underscore (lit ''_cat'')) = [0x63, 0x61, 0x74, 0, 0, 0, 0, 0, 0, 0, 0, 0, 0, 0]"
    by code_simp
  have h: "length ?files \<le> 198" "\<forall>f\<in>set ?files. length (snd f) \<le> 512 * MAXFILE \<and> 0 \<notin> set (fst f)" "blocks_needed ?files \<le> 1014"
    by (simp_all add: MAXFILE_def NDIRECT_def lit_def blocks_needed_def tsec_def nsect_def)
  from mkfs_image [OF h] obtain st where st: "mkfs ?files = Some st"
    "\<forall>k<length ?files. d_type (node st (k + 2)) = T_FILE \<and> file_bytes (image st) (node st (k + 2)) = snd (?files ! k) \<and>
       dirent_of (slice (16 * (k + 2)) 16 (file_bytes (image st) (node st 1))) =
         \<lparr>de_inum = of_nat (k + 2), de_name = name_field (skip_underscore (fst (?files ! k)))\<rparr>" by blast
  show ?thesis using h(1) st(1) st(2) [rule_format, of 0] nm by (simp add: numeral_2_eq_2)
qed

end
