(* ===== verification/Xv6_Copyuvm.thy ===== *)
theory Xv6_Copyuvm
  imports Xv6_Vm
begin

text \<open>
  \<^verbatim>\<open>copyuvm\<close> of \<^verbatim>\<open>kernel/vm.c\<close>, with which \<^verbatim>\<open>fork\<close> makes the memory of the child: the bytes and the access rights of every user page, on pages of the child's own. Both address spaces are in the one memory
  of the kernel, so the proof is about what the pages that the copy takes from the free list leave alone.
\<close>

section \<open>Copying a page\<close>

lemma memmove_page:
  assumes "page_ok ke p" "page_ok ke q"
  shows "page_data (memmove p q PTE_SZ m) p = page_data m q" "chg_in {p} m (memmove p q PTE_SZ m)"
proof -
  have al: "p mod KPAGE = 0" "q mod KPAGE = 0" using assms by (simp_all add: page_ok_def)
  have b: "unat v + 4096 \<le> 2 ^ 32" if "v mod KPAGE = 0" for v using unat_page_word(3) [OF that, of "0x800"] by simp
  have c: "memmove p q PTE_SZ m = mem_copy p q PTE_SZ m"
    using b [OF al(1)] b [OF al(2)] by (intro memmove_copies) (simp_all add: PTE_SZ_def)
  show "page_data (memmove p q PTE_SZ m) p = page_data m q"
    unfolding c by (simp add: page_data_def mem_copy_def word_less_nat_alt PTE_SZ_def unat_of_nat)
  have "\<not> a - p < PTE_SZ" if "unat a div 0x40000 \<noteq> unat p div 0x40000" for a
    using in_page [OF al(1), of a] that by (simp add: word_less_nat_alt PTE_SZ_def)
  then show "chg_in {p} m (memmove p q PTE_SZ m)" by (simp add: chg_in_def c mem_copy_def)
qed

section \<open>One page\<close>

text \<open>The kernel page behind a user address.\<close>

definition user_page :: "mem \<Rightarrow> uint \<Rightarrow> uint \<Rightarrow> uint" where
  "user_page m pgdir a = P2V (PTE_ADDR (vm_pte m pgdir a))"

text \<open>What the copy relies on for the pages that are still to come: the address space of the parent and that of the child have no page of tables in common, and the parent's user pages are allocated and not tables of the child.\<close>

definition to_copy :: "uint \<Rightarrow> mem \<Rightarrow> uint \<Rightarrow> uint \<Rightarrow> uint list \<Rightarrow> uint list \<Rightarrow> bool" where
  "to_copy ke m pgdir d ps as \<longleftrightarrow> vm_ok ke m pgdir ps \<and> vm_pages m pgdir \<inter> vm_pages m d = {} \<and>
     (\<forall>a\<in>set as. vm_pte m pgdir a AND PTE_TYPES \<noteq> 0 \<and> page_ok ke (user_page m pgdir a) \<and> user_page m pgdir a \<notin> set ps \<union> vm_pages m d)"

lemma vm_step_keeps:
  assumes "vm_step d ps qs s t" "free_pages s ps" "vm_ok (kern_end s) (kmem_mem s) d ps" "to_copy (kern_end s) (kmem_mem s) pgdir d ps as"
  shows "to_copy (kern_end t) (kmem_mem t) pgdir d qs as" "vm_pte (kmem_mem t) pgdir b = vm_pte (kmem_mem s) pgdir b"
    "p mod KPAGE = 0 \<Longrightarrow> p \<notin> set ps \<union> vm_pages (kmem_mem s) d \<Longrightarrow> page_data (kmem_mem t) p = page_data (kmem_mem s) p"
    "vm_pages (kmem_mem t) pgdir = vm_pages (kmem_mem s) pgdir"
proof -
  let ?P = "vm_pages (kmem_mem s) d \<union> (set ps - set qs)"
  note st = vm_step_vm_ok [OF assms(1)] and ke = kmem_onlyD(1) [OF vm_step_vm_ok(5) [OF assms(1)]]
  note tc = assms(4) [unfolded to_copy_def]
  have al: "\<forall>w\<in>?P. w mod KPAGE = 0" using vm_pages_aligned(1) [OF assms(3)] free_pages_aligned [OF assms(2)] by blast
  have vp: "vm_ok (kern_end s) (kmem_mem s) pgdir ps" using tc by blast
  have ap: "vm_pages (kmem_mem s) pgdir \<inter> ?P = {}" using tc vm_pages_aligned(2) [OF vp] by blast
  note c = vm_chg [OF vp st(6) al ap st(4)]
  show "vm_pte (kmem_mem t) pgdir b = vm_pte (kmem_mem s) pgdir b" "vm_pages (kmem_mem t) pgdir = vm_pages (kmem_mem s) pgdir"
    using c by simp_all
  show "page_data (kmem_mem t) p = page_data (kmem_mem s) p" if "p mod KPAGE = 0" "p \<notin> set ps \<union> vm_pages (kmem_mem s) d"
    using that by (intro page_data_chg [OF st(6) _ al]) auto
  have sub: "vm_pages (kmem_mem t) d \<subseteq> ?P" using assms(1) by (simp add: vm_step_def)
  have up: "user_page (kmem_mem t) pgdir a = user_page (kmem_mem s) pgdir a" for a using c(2) by (simp add: user_page_def)
  show "to_copy (kern_end t) (kmem_mem t) pgdir d qs as"
    unfolding to_copy_def ke c(1,2) up using tc sub st(4) c(3) ap by blast
qed

lemma PTE_AP_mask: "PTE_AP e AND 3 = PTE_AP e"
  by (simp add: PTE_AP_def and.assoc)

lemma copyuvm_step:
  fixes s :: "'z kmem_state_scheme"
  assumes "kmem_idle s" "free_pages s (p # q # ps)" "vm_ok (kern_end s) (kmem_mem s) d (p # q # ps)"
    and "unat a mod 4096 = 0" "vm_pte (kmem_mem s) d a AND PTE_TYPES = 0" "to_copy (kern_end s) (kmem_mem s) pgdir d (p # q # ps) (a # as)"
  shows "\<exists>t qs. copyuvm_loop pgdir d (a # as) s = copyuvm_loop pgdir d as t \<and>
    vm_step d (p # q # ps) qs s t \<and> length ps \<le> length qs \<and> p \<notin> set qs \<and> page_ok (kern_end s) p \<and>
    p \<notin> vm_pages (kmem_mem t) d \<and> page_data (kmem_mem t) p = page_data (kmem_mem s) (user_page (kmem_mem s) pgdir a) \<and>
    (\<forall>b. vm_pte (kmem_mem t) d b =
      (if same_upage b a then pte_entry (V2P p) (PTE_AP (vm_pte (kmem_mem s) pgdir a)) else vm_pte (kmem_mem s) d b))"
proof -
  let ?e = "vm_pte (kmem_mem s) pgdir a" and ?src = "user_page (kmem_mem s) pgdir a"
  have e: "?e AND PTE_TYPES \<noteq> 0" "page_ok (kern_end s) ?src" and v: "vm_ok (kern_end s) (kmem_mem s) pgdir (p # q # ps)"
    using assms(6) by (simp_all add: to_copy_def)
  have pk: "page_ok (kern_end s) p" using assms(2) by (simp add: free_pages_def)
  then have pa: "p mod KPAGE = 0" by (simp add: page_ok_def)
  note mv = memmove_page [OF pk e(2), of "kmem_mem s"]
  note d = vm_take_page [OF assms(1-3) mv(2)]
  let ?u = "s\<lparr>kmem_mem := memmove p ?src PTE_SZ (kmem_mem s), freelist := load32 (kmem_mem s) p\<rparr>"
  note o = vm_step_vm_ok [OF d(2)]
  have "vm_pte (kmem_mem ?u) d a AND PTE_TYPES = 0" using d(3) assms(5) by simp
  then obtain t qs where t: "mappages d a PTE_SZ (V2P p) (PTE_AP ?e) ?u = Ok 0 t" "vm_step d (q # ps) qs ?u t"
    "length (q # ps) \<le> Suc (length qs)"
    "\<forall>b. vm_pte (kmem_mem t) d b = (if same_upage b a then pte_entry (V2P p) (PTE_AP ?e) else vm_pte (kmem_mem ?u) d b)"
    using mappages_one [OF o(1-3) _ assms(4), of "V2P p" "PTE_AP ?e"] by blast
  have dist: "distinct (p # q # ps)" using assms(2) by (simp add: free_pages_def)
  note o2 = vm_step_vm_ok [OF t(2)]
  have np: "p \<notin> vm_pages (kmem_mem ?u) d \<union> (set (q # ps) - set qs)" using d(5) dist by auto
  have al: "\<forall>w\<in>vm_pages (kmem_mem ?u) d \<union> (set (q # ps) - set qs). w mod KPAGE = 0"
    using vm_pages_aligned(1) [OF o(3)] free_pages_aligned [OF o(2)] by blast
  have "page_data (kmem_mem t) p = page_data (kmem_mem s) ?src" using page_data_chg [OF o2(6) pa al np] mv(1) by simp
  moreover have "vm_pages (kmem_mem t) d \<subseteq> vm_pages (kmem_mem ?u) d \<union> (set (q # ps) - set qs)"
    using t(2) by (simp only: vm_step_def)
  then have "p \<notin> vm_pages (kmem_mem t) d" using np by blast
  moreover have "p \<notin> set qs" using o2(4) dist by auto
  moreover have "copyuvm_loop pgdir d (a # as) s = copyuvm_loop pgdir d as t"
  proof -
    have h: "has_table (kmem_mem s) pgdir (PDE_IDX a)" using e(1) by (auto simp: vm_pte_def split: if_splits)
    have "s\<lparr>freelist := load32 (kmem_mem s) p, kmem_mem := memmove p ?src PTE_SZ (kmem_mem s)\<rparr> = ?u" by simp
    then have "mappages d a PTE_SZ (V2P p) (PTE_AP ?e) (s\<lparr>freelist := load32 (kmem_mem s) p, kmem_mem := memmove p ?src PTE_SZ (kmem_mem s)\<rparr>) = Ok 0 t"
      using t(1) by (simp only:)
    then show ?thesis
      using d(1) page_nonzero [OF pk] walkpgdir_present [OF h, of False] vm_slot_nonzero [OF v h] e(1) h by (simp add: vm_pte_def user_page_def)
  qed
  ultimately show ?thesis
    using vm_step_trans [OF d(2) t(2)] t(3,4) d(3) pk by (intro exI [of _ t] exI [of _ qs]) simp
qed

section \<open>All pages\<close>

lemma copyuvm_loop_ok:
  fixes s :: "'z kmem_state_scheme"
  assumes "kmem_idle s" "free_pages s ps" "vm_ok (kern_end s) (kmem_mem s) d ps" "2 * length as \<le> length ps"
    and "distinct (map (\<lambda>a. unat a div 4096) as)"
    and "\<forall>a\<in>set as. unat a mod 4096 = 0 \<and> vm_pte (kmem_mem s) d a AND PTE_TYPES = 0"
    and "to_copy (kern_end s) (kmem_mem s) pgdir d ps as"
  shows "\<exists>t qs pg. copyuvm_loop pgdir d as s = Ok d t \<and> vm_step d ps qs s t \<and> distinct pg \<and> set pg \<subseteq> set ps - set qs \<and>
    list_all2 (\<lambda>a p. vm_pte (kmem_mem t) d a = pte_entry (V2P p) (PTE_AP (vm_pte (kmem_mem s) pgdir a)) \<and>
      page_data (kmem_mem t) p = page_data (kmem_mem s) (user_page (kmem_mem s) pgdir a)) as pg \<and>
    (\<forall>b. (\<forall>a\<in>set as. \<not> same_upage b a) \<longrightarrow> vm_pte (kmem_mem t) d b = vm_pte (kmem_mem s) d b)"
  using assms
proof (induction as arbitrary: s ps)
  case Nil
  then show ?case by (intro exI [of _ s] exI [of _ ps] exI [of _ "[]"]) (simp add: vm_step_def)
next
  case (Cons a as)
  obtain p q ps' where ps: "ps = p # q # ps'" using Cons.prems(4) by (cases ps; cases "tl ps") auto
  note pr = Cons.prems(1-3,7) [unfolded ps]
  obtain u us where u: "copyuvm_loop pgdir d (a # as) s = copyuvm_loop pgdir d as u"
    "vm_step d (p # q # ps') us s u" "length ps' \<le> length us" "p \<notin> set us" "page_ok (kern_end s) p"
    "p \<notin> vm_pages (kmem_mem u) d" "page_data (kmem_mem u) p = page_data (kmem_mem s) (user_page (kmem_mem s) pgdir a)"
    "\<forall>b. vm_pte (kmem_mem u) d b =
      (if same_upage b a then pte_entry (V2P p) (PTE_AP (vm_pte (kmem_mem s) pgdir a)) else vm_pte (kmem_mem s) d b)"
    using copyuvm_step [OF pr(1-3) _ _ pr(4)] Cons.prems(6) by auto
  note o = vm_step_vm_ok [OF u(2)]
  have ns: "\<not> same_upage b a" "\<not> same_upage a b" if "b \<in> set as" for b
    using Cons.prems(5) that by (auto simp: same_upage_def image_iff)
  note k = vm_step_keeps [OF u(2) pr(2-4)]
  have up: "user_page (kmem_mem u) pgdir b = user_page (kmem_mem s) pgdir b" for b using k(2) by (simp add: user_page_def)
  have src: "page_data (kmem_mem u) (user_page (kmem_mem s) pgdir b) = page_data (kmem_mem s) (user_page (kmem_mem s) pgdir b)" if "b \<in> set as" for b
    using that pr(4) by (intro k(3)) (auto simp: to_copy_def page_ok_def)
  have tc: "to_copy (kern_end u) (kmem_mem u) pgdir d us as" using k(1) by (simp add: to_copy_def)
  have "\<forall>b\<in>set as. unat b mod 4096 = 0 \<and> vm_pte (kmem_mem u) d b AND PTE_TYPES = 0"
    using Cons.prems(6) u(8) ns by simp
  then obtain t qs pg where t: "copyuvm_loop pgdir d as u = Ok d t" "vm_step d us qs u t" "distinct pg" "set pg \<subseteq> set us - set qs"
    "list_all2 (\<lambda>a p. vm_pte (kmem_mem t) d a = pte_entry (V2P p) (PTE_AP (vm_pte (kmem_mem u) pgdir a)) \<and>
      page_data (kmem_mem t) p = page_data (kmem_mem u) (user_page (kmem_mem u) pgdir a)) as pg"
    "\<forall>b. (\<forall>a\<in>set as. \<not> same_upage b a) \<longrightarrow> vm_pte (kmem_mem t) d b = vm_pte (kmem_mem u) d b"
    using Cons.IH [OF o(1-3) _ _ _ tc] Cons.prems(4,5) u(3) by (auto simp: ps)
  have "page_data (kmem_mem t) p = page_data (kmem_mem u) p"
  proof (rule page_data_chg [OF vm_step_vm_ok(6) [OF t(2)]])
    show "p mod KPAGE = 0" using u(5) by (simp add: page_ok_def)
    show "\<forall>w\<in>vm_pages (kmem_mem u) d \<union> (set us - set qs). w mod KPAGE = 0"
      using vm_pages_aligned(1) [OF o(3)] free_pages_aligned [OF o(2)] by blast
  qed (use u(4,6) in auto)
  moreover have "vm_pte (kmem_mem t) d a = pte_entry (V2P p) (PTE_AP (vm_pte (kmem_mem s) pgdir a))"
    using t(6) u(8) ns(2) by (simp add: same_upage_def)
  moreover have "list_all2 (\<lambda>a p. vm_pte (kmem_mem t) d a = pte_entry (V2P p) (PTE_AP (vm_pte (kmem_mem s) pgdir a)) \<and>
      page_data (kmem_mem t) p = page_data (kmem_mem s) (user_page (kmem_mem s) pgdir a)) as pg"
    using t(5) by (rule list.rel_mono_strong) (use src in \<open>simp add: k(2) up\<close>)
  moreover have "vm_step d ps qs s t" using vm_step_trans [OF u(2) t(2)] by (simp add: ps)
  moreover have "distinct (p # pg)" "set (p # pg) \<subseteq> set ps - set qs" using t(3,4) u(4) o(4) vm_step_vm_ok(4) [OF t(2)] by (auto simp: ps)
  ultimately show ?case
    using u(1,7,8) t(1,6) by (intro exI [of _ t] exI [of _ qs] exI [of _ "p # pg"]) simp
qed

text \<open>
  \<^verbatim>\<open>kfree\<close> clears a page and then writes the link to the next one into its first word. \<^verbatim>\<open>setupvm\<close> relies on it: it takes the page as an empty directory, the link being the address of a page and so no entry.
\<close>

definition free_clear :: "mem \<Rightarrow> uint list \<Rightarrow> bool" where
  "free_clear m ps \<longleftrightarrow> (\<forall>p\<in>set ps. \<forall>i. 0 < unat i \<longrightarrow> unat i < 4096 \<longrightarrow> load32 m (p + 4 * i) = 0)"

lemma free_clear_chg:
  assumes "free_clear m ps" "chg_in P m m'" "\<forall>w\<in>P. w mod KPAGE = 0" "\<forall>p\<in>set qs. p mod KPAGE = 0" "set qs \<subseteq> set ps - P"
  shows "free_clear m' qs"
  unfolding free_clear_def
proof (intro ballI allI impI)
  fix p and i :: uint assume a: "p \<in> set qs" "0 < unat i" "unat i < 4096"
  have "load32 m' (p + 4 * i) = load32 m (p + 4 * i)" using load32_chg [OF assms(2) _ assms(3), of p i] assms(4,5) a by auto
  then show "load32 m' (p + 4 * i) = 0" using assms(1,5) a by (auto simp: free_clear_def)
qed

lemma aligned_no_entry: "unat x mod 4 = 0 \<Longrightarrow> x AND PDE_TYPES = 0"
proof -
  assume "unat x mod 4 = 0"
  then have "unat (take_bit 2 x) = 0" by (simp add: take_bit_eq_mod unat_mod)
  then have "take_bit 2 x = 0" by (simp only: unat_eq_zero)
  then show ?thesis by (simp add: take_bit_eq_mask mask_eq_exp_minus_1 PDE_TYPES_def)
qed

text \<open>A page from the free list as a directory: no table, so no user page.\<close>

lemma setupvm_empty:
  assumes "kmem_idle s" "free_pages s (d # ps)" "free_clear (kmem_mem s) (d # ps)"
  defines "u \<equiv> s\<lparr>freelist := load32 (kmem_mem s) d\<rparr>"
  shows "setupvm s = Ok d u" "kmem_idle u" "free_pages u ps" "vm_pages (kmem_mem u) d = {d}" "vm_ok (kern_end u) (kmem_mem u) d ps"
    "vm_pte (kmem_mem u) d b = 0"
proof -
  let ?m = "kmem_mem s"
  have fp: "freelist s = d" "flist ?m (load32 ?m d) ps" "distinct (d # ps)" "\<forall>q\<in>set (d # ps). page_ok (kern_end s) q" "d \<noteq> 0"
    using assms(2) by (auto simp: free_pages_def)
  show "setupvm s = Ok d u" using kalloc_exec [OF assms(1)] fp by (simp add: setupvm_def u_def)
  show "kmem_idle u" using assms(1) by (simp add: u_def kmem_idle_def)
  show "free_pages u ps" using fp by (simp add: free_pages_def u_def)
  have "load32 ?m d = 0 \<or> load32 ?m d \<in> set ps" using fp(2) by (cases ps) auto
  then have "unat (load32 ?m d) mod 0x40000 = 0" using fp(4) by (auto simp: page_ok_def intro: aligned_unat)
  then have "unat (load32 ?m d) mod 4 = 0" using mod_mod_cancel [of 4 "0x40000" "unat (load32 ?m d)"] by simp
  then have z: "\<not> has_table ?m d i" if "unat i < 4096" for i
  proof (cases "i = 0")
    case False
    then have "0 < unat i" by (simp add: unat_gt_0)
    then show ?thesis using assms(3) that by (simp add: has_table_def pde_of_def free_clear_def)
  qed (simp add: has_table_def pde_of_def aligned_no_entry)
  then show "vm_pages (kmem_mem u) d = {d}" by (auto simp: vm_pages_def u_def)
  show "vm_ok (kern_end u) (kmem_mem u) d ps" using z fp by (simp add: vm_ok_def u_def)
  show "vm_pte (kmem_mem u) d b = 0" using z [OF PDE_IDX_less] by (simp add: vm_pte_def u_def)
qed

text \<open>\<^verbatim>\<open>kfree\<close> keeps the free pages clear.\<close>

lemma kfree_clear:
  assumes "kmem_idle s" "free_pages s ps" "free_clear (kmem_mem s) ps" "page_ok (kern_end s) v" "v \<notin> set ps" "kfree v s = Ok () t"
  shows "free_clear (kmem_mem t) (v # ps)"
proof -
  have vk: "v mod KPAGE = 0" using assms(4) by (simp add: page_ok_def)
  have t: "kmem_mem t = store32 (v + 4 * 0) (freelist s) (mem_fill v KPAGE 0 (kmem_mem s))" using assms(6) kfree_exec [OF assms(1,4)] by auto
  have ch: "chg_in {v} (kmem_mem s) (kmem_mem t)"
    unfolding t by (rule chg_in_trans [OF fill_page [OF vk order_refl] store32_page [OF vk]]) simp_all
  have "load32 (kmem_mem t) (v + 4 * i) = 0" if i: "0 < unat i" "unat i < 4096" for i
  proof -
    have "mem_fill v KPAGE 0 (kmem_mem s) (v + 4 * i + of_nat n) = 0" if "n < 4" for n
      using i that by (simp add: mem_fill_def word_less_nat_alt unat_word_ariths unat_of_nat)
    from this [of 0] this [of 1] this [of 2] this [of 3] have "load32 (mem_fill v KPAGE 0 (kmem_mem s)) (v + 4 * i) = 0" by (simp add: load32_def)
    moreover have "i \<noteq> 0" using i(1) by auto
    ultimately show ?thesis using load32_page_store [OF vk vk, of 0 i] i(2) unfolding t by auto
  qed
  moreover have "free_clear (kmem_mem t) ps"
    by (rule free_clear_chg [OF assms(3) ch]) (use vk assms(5) free_pages_aligned [OF assms(2)] in auto)
  ultimately show ?thesis by (simp add: free_clear_def)
qed

section \<open>The address space of a child\<close>

definition user_byte :: "mem \<Rightarrow> uint \<Rightarrow> uint \<Rightarrow> uchar" where
  "user_byte m pgdir x = m (user_page m pgdir x + of_nat (unat x mod 4096))"

lemma user_byte_data: "user_byte m pgdir x = page_data m (user_page m pgdir x) ! (unat x mod 4096)"
  by (simp add: user_byte_def page_data_def)

text \<open>What the loop leaves for an address below the size.\<close>

lemma copied_page:
  assumes "list_all2 (\<lambda>a p. vm_pte m' d a = pte_entry (V2P p) (PTE_AP (vm_pte m pgdir a)) \<and> page_data m' p = page_data m (user_page m pgdir a))
      (pages_below 0 sz) pg" "\<forall>p\<in>set pg. page_ok ke p" "unat sz < 2 ^ 28" "x < sz"
  shows "user_page m' d x = pg ! (unat x div 4096)" "user_page m' d x \<in> set pg" "PTE_AP (vm_pte m' d x) = PTE_AP (vm_pte m pgdir x)"
    "user_byte m' d x = user_byte m pgdir x"
proof -
  have z: "unat (0 :: uint) mod 4096 = 0" by simp
  have i: "unat x div 4096 < length (pages_below 0 sz)" "same_upage x (pages_below 0 sz ! (unat x div 4096))"
    using pages_below_index [OF z assms(3) word_zero_le assms(4)] by simp_all
  let ?p = "pg ! (unat x div 4096)"
  have e: "vm_pte m' d x = pte_entry (V2P ?p) (PTE_AP (vm_pte m pgdir x))" "page_data m' ?p = page_data m (user_page m pgdir x)"
    using list_all2_nthD [OF assms(1) i(1)] vm_pte_upage [OF i(2)] by (simp_all add: user_page_def)
  have p: "?p \<in> set pg" using i(1) list_all2_lengthD [OF assms(1)] by simp
  have "page_ok ke ?p" using p assms(2) by blast
  note f = pte_entry_fields [OF page_ok_V2P [OF this]]
  show u: "user_page m' d x = ?p" and "PTE_AP (vm_pte m' d x) = PTE_AP (vm_pte m pgdir x)"
    using e(1) f by (simp_all add: user_page_def PTE_AP_mask)
  show "user_page m' d x \<in> set pg" using u p by simp
  show "user_byte m' d x = user_byte m pgdir x" using e(2) u by (simp add: user_byte_data)
qed

text \<open>
  C16. \<^verbatim>\<open>fork\<close> gives the child a copy of the memory. With a page for the directory and two for each user page free (one may be needed for a table), and every page below the size mapped in the parent, \<^verbatim>\<open>copyuvm\<close> returns a directory under which
  every address below the size has the byte and the access right it has in the parent, on a page that was free, the same page only for addresses of the same page; no other address is mapped. The parent's entries and bytes
  are what they were, both address spaces are well formed, and what is left of the free list is a list of cleared pages.
\<close>

theorem copyuvm_copies:
  fixes s :: "'z kmem_state_scheme"
  assumes "kmem_idle s" "free_pages s ps" "free_clear (kmem_mem s) ps" "vm_ok (kern_end s) (kmem_mem s) pgdir ps" "sz < UADDR_SZ"
    and "\<forall>x < sz. vm_pte (kmem_mem s) pgdir x AND PTE_TYPES \<noteq> 0 \<and> page_ok (kern_end s) (user_page (kmem_mem s) pgdir x) \<and>
      user_page (kmem_mem s) pgdir x \<notin> set ps"
    and "Suc (2 * length (pages_below 0 sz)) \<le> length ps"
  shows "\<exists>d t qs. copyuvm pgdir sz s = Ok d t \<and> d \<in> set ps - set qs \<and>
    (\<forall>x < sz. user_byte (kmem_mem t) d x = user_byte (kmem_mem s) pgdir x \<and>
       PTE_AP (vm_pte (kmem_mem t) d x) = PTE_AP (vm_pte (kmem_mem s) pgdir x) \<and> user_page (kmem_mem t) d x \<in> set ps - set qs) \<and>
    (\<forall>x < sz. \<forall>y < sz. user_page (kmem_mem t) d x = user_page (kmem_mem t) d y \<longleftrightarrow> same_upage x y) \<and>
    (\<forall>x. ALIGNUP sz PTE_SZ \<le> x \<longrightarrow> vm_pte (kmem_mem t) d x = 0) \<and>
    (\<forall>x. vm_pte (kmem_mem t) pgdir x = vm_pte (kmem_mem s) pgdir x) \<and> (\<forall>x < sz. user_byte (kmem_mem t) pgdir x = user_byte (kmem_mem s) pgdir x) \<and>
    vm_ok (kern_end t) (kmem_mem t) d qs \<and> vm_ok (kern_end t) (kmem_mem t) pgdir qs \<and> free_pages t qs \<and> free_clear (kmem_mem t) qs"
proof -
  obtain d rs where ps: "ps = d # rs" using assms(7) by (cases ps) auto
  let ?u = "s\<lparr>freelist := load32 (kmem_mem s) d\<rparr>" and ?m = "kmem_mem s" and ?as = "pages_below 0 sz"
  note u = setupvm_empty [OF assms(1-3) [unfolded ps]]
  have n: "unat sz < 2 ^ 28" using assms(5) by (simp add: word_less_nat_alt UADDR_SZ_def)
  have z: "unat (0 :: uint) mod 4096 = 0" by simp
  note pb = pages_below_props [OF z n]
  have dist: "distinct (d # rs)" and dz: "d \<noteq> 0" and rs: "\<forall>p\<in>set ps. page_ok (kern_end s) p"
    using assms(2) by (auto simp: free_pages_def ps)
  have v: "vm_ok (kern_end ?u) ?m pgdir rs" "vm_pages ?m pgdir \<inter> {d} = {}"
    using assms(4) vm_pages_aligned(2) [OF assms(4)] by (auto simp: vm_ok_def ps)
  have tc: "to_copy (kern_end ?u) (kmem_mem ?u) pgdir d rs ?as"
    using v u(4) assms(6) pb(4) by (auto simp: to_copy_def ps)
  have "\<forall>a\<in>set ?as. unat a mod 4096 = 0 \<and> vm_pte (kmem_mem ?u) d a AND PTE_TYPES = 0" using pb(4) u(6) by simp
  then obtain t qs pg where t: "copyuvm_loop pgdir d ?as ?u = Ok d t" "vm_step d rs qs ?u t" "distinct pg" "set pg \<subseteq> set rs - set qs"
    "list_all2 (\<lambda>a p. vm_pte (kmem_mem t) d a = pte_entry (V2P p) (PTE_AP (vm_pte ?m pgdir a)) \<and>
      page_data (kmem_mem t) p = page_data ?m (user_page ?m pgdir a)) ?as pg"
    "\<forall>b. (\<forall>a\<in>set ?as. \<not> same_upage b a) \<longrightarrow> vm_pte (kmem_mem t) d b = 0"
    using copyuvm_loop_ok [OF u(2,3,5) _ pb(3) _ tc] assms(7) u(6) by (auto simp: ps)
  note o = vm_step_vm_ok [OF t(2)] and k = vm_step_keeps [OF t(2) u(3,5) tc]
  have len: "length pg = length ?as" using t(5) by (simp add: list_all2_lengthD)
  have "\<forall>p\<in>set pg. page_ok (kern_end s) p" using t(4) rs by (auto simp: ps)
  note cp = copied_page [OF t(5) this n]
  have E: "user_page (kmem_mem t) d x \<in> set rs - set qs" if "x < sz" for x using cp(2) [OF that] t(4) by blast
  have B: "user_page (kmem_mem t) d x = user_page (kmem_mem t) d y \<longleftrightarrow> same_upage x y" if "x < sz" "y < sz" for x y
    using pages_below_places [OF z n t(3) len word_zero_le that(1) word_zero_le that(2)] cp(1) [OF that(1)] cp(1) [OF that(2)] by simp
  have C: "vm_pte (kmem_mem t) d x = 0" if "ALIGNUP sz PTE_SZ \<le> x" for x
    using t(6) pages_below_outside [OF z n disjI2 [OF that]] by blast
  have D: "user_byte (kmem_mem t) pgdir x = user_byte ?m pgdir x" if "x < sz" for x
  proof -
    have "user_page ?m pgdir x mod KPAGE = 0" "user_page ?m pgdir x \<notin> set rs \<union> vm_pages (kmem_mem ?u) d"
      using assms(6) that u(4) by (auto simp: page_ok_def ps)
    then show ?thesis using k(2,3) by (simp add: user_byte_data user_page_def)
  qed
  have "free_clear (kmem_mem t) qs"
  proof (rule free_clear_chg [OF assms(3) o(6) [simplified]])
    show "set qs \<subseteq> set ps - (vm_pages ?m d \<union> (set rs - set qs))" using o(4) u(4) dist by (auto simp: ps)
  qed (use vm_pages_aligned(1) [OF u(5)] free_pages_aligned [OF u(3)] free_pages_aligned [OF o(2)] in auto)
  moreover have "copyuvm pgdir sz s = Ok d t" using u(1) t(1) dz by (simp add: copyuvm_def)
  moreover have "d \<in> set ps - set qs" using o(4) dist by (auto simp: ps)
  moreover have "vm_ok (kern_end t) (kmem_mem t) pgdir qs" using k(1) by (simp add: to_copy_def)
  ultimately show ?thesis using B C D E cp(3,4) k(2) o(2,3) by (intro exI [of _ d] exI [of _ t] exI [of _ qs]) (auto simp: ps)
qed

text \<open>An empty directory at \<open>0x80080000\<close>, an allocated page at \<open>0x800C0000\<close> and four free pages; the page is then mapped at 0.\<close>

definition fork_boot :: cons_state where
  "fork_boot = vm_boot\<lparr>kmem_mem := store32 0x80100000 0x80140000 (store32 0x80140000 0x80180000 (store32 0x80180000 0x801C0000 (\<lambda>_. 0))),
     freelist := 0x80100000\<rparr>"

lemma fork_boot_word:
  assumes "w mod KPAGE = 0" "unat i < 4096"
  shows "load32 (kmem_mem fork_boot) (w + 4 * i) =
    (if i = 0 then if w = 0x80100000 then 0x80140000 else if w = 0x80140000 then 0x80180000 else if w = 0x80180000 then 0x801C0000 else 0 else 0)"
proof -
  have k: "unat i < 65536" "(0x80100000 :: uint) mod KPAGE = 0" "(0x80140000 :: uint) mod KPAGE = 0" "(0x80180000 :: uint) mod KPAGE = 0"
    using assms(2) by (simp_all add: KPAGE_def PGSIZE_def)
  have z: "load32 (\<lambda>_. 0) a = 0" for a by (simp add: load32_def)
  show ?thesis
    using load32_page_store [OF k(2) assms(1) _ k(1), of 0] load32_page_store [OF k(3) assms(1) _ k(1), of 0]
      load32_page_store [OF k(4) assms(1) _ k(1), of 0] by (auto simp: fork_boot_def z)
qed

lemma fork_boot_ok:
  defines "ps \<equiv> [0x80100000, 0x80140000, 0x80180000, 0x801C0000]"
  shows "kmem_idle fork_boot" "free_pages fork_boot ps" "free_clear (kmem_mem fork_boot) ps" "kern_end fork_boot = 0x80040000"
    "vm_ok (kern_end fork_boot) (kmem_mem fork_boot) 0x80080000 ps" "vm_pte (kmem_mem fork_boot) 0x80080000 b = 0"
    "page_ok (kern_end fork_boot) 0x800C0000"
proof -
  show ke: "kern_end fork_boot = 0x80040000" using vm_boot_ok(5) by (simp add: fork_boot_def)
  have pk: "page_ok (kern_end fork_boot) v" if "v \<in> {0x80080000, 0x800C0000, 0x80100000, 0x80140000, 0x80180000, 0x801C0000}" for v
    using that by (auto simp: ke page_ok_def KPAGE_def PGSIZE_def V2P_def KERNBASE_def PHYSTOP_def)
  then have al: "v mod KPAGE = 0" if "v \<in> {0x80080000, 0x800C0000, 0x80100000, 0x80140000, 0x80180000, 0x801C0000}" for v
    using that by (simp add: page_ok_def)
  show "kmem_idle fork_boot" using vm_boot_ok(1) by (simp add: fork_boot_def kmem_idle_def)
  have "freelist fork_boot = 0x80100000" by (simp add: fork_boot_def)
  then show "free_pages fork_boot ps" using pk by (simp add: free_pages_def ps_def fork_boot_word [where i = 0, OF al, simplified])
  show "free_clear (kmem_mem fork_boot) ps" using fork_boot_word al by (auto simp: free_clear_def ps_def)
  have h: "\<not> has_table (kmem_mem fork_boot) 0x80080000 i" if "unat i < 4096" for i
    using fork_boot_word [OF al that] by (simp add: has_table_def pde_of_def)
  then show "vm_ok (kern_end fork_boot) (kmem_mem fork_boot) 0x80080000 ps" using pk by (simp add: vm_ok_def ps_def)
  show "vm_pte (kmem_mem fork_boot) 0x80080000 b = 0" using h [OF PDE_IDX_less] by (simp add: vm_pte_def)
  show "page_ok (kern_end fork_boot) 0x800C0000" using pk by simp
qed

theorem copyuvm_copies_witness:
  "\<exists>s d t. mappages 0x80080000 0 PTE_SZ (V2P 0x800C0000) AP_KU fork_boot = Ok 0 s \<and> copyuvm 0x80080000 0x1000 s = Ok d t \<and>
     user_byte (kmem_mem t) d 0x123 = user_byte (kmem_mem s) 0x80080000 0x123 \<and> user_page (kmem_mem t) d 0x123 \<noteq> 0x800C0000"
proof -
  let ?ps = "[0x80100000, 0x80140000, 0x80180000, 0x801C0000] :: uint list"
  note b = fork_boot_ok
  obtain s qs where s: "mappages 0x80080000 0 PTE_SZ (V2P 0x800C0000) AP_KU fork_boot = Ok 0 s" "vm_step 0x80080000 ?ps qs fork_boot s"
    "length ?ps \<le> Suc (length qs)"
    "\<forall>b. vm_pte (kmem_mem s) 0x80080000 b = (if same_upage b 0 then pte_entry (V2P 0x800C0000) AP_KU else vm_pte (kmem_mem fork_boot) 0x80080000 b)"
    using mappages_one [OF b(1,2,5), of 0 "V2P 0x800C0000" AP_KU] b(6) by auto
  note o = vm_step_vm_ok [OF s(2)]
  have q: "set qs \<subseteq> set ?ps" using o(4) .
  have c: "free_clear (kmem_mem s) qs"
  proof (rule free_clear_chg [OF b(3) o(6)])
    show "set qs \<subseteq> set ?ps - (vm_pages (kmem_mem fork_boot) 0x80080000 \<union> (set ?ps - set qs))"
      using q vm_pages_aligned(2) [OF b(5)] by blast
  qed (use vm_pages_aligned(1) [OF b(5)] free_pages_aligned [OF b(2)] free_pages_aligned [OF o(2)] in blast)+
  have ke: "kern_end s = kern_end fork_boot" using kmem_onlyD(1) [OF o(5)] .
  note f = pte_entry_fields [OF page_ok_V2P [OF b(7)], of AP_KU]
  have u: "vm_pte (kmem_mem s) 0x80080000 x AND PTE_TYPES \<noteq> 0" "user_page (kmem_mem s) 0x80080000 x = 0x800C0000" if "x < 0x1000" for x
    using s(4) f that by (simp_all add: same_upage_def user_page_def word_less_nat_alt)
  have pg: "\<forall>x < 0x1000. vm_pte (kmem_mem s) 0x80080000 x AND PTE_TYPES \<noteq> 0 \<and> page_ok (kern_end s) (user_page (kmem_mem s) 0x80080000 x) \<and>
      user_page (kmem_mem s) 0x80080000 x \<notin> set qs"
    using u b(7) q by (auto simp: ke)
  have l: "(0x1000 :: uint) < UADDR_SZ" "Suc (2 * length (pages_below 0 0x1000)) \<le> length qs" using s(3) by (simp_all add: UADDR_SZ_def pages_below_def)
  have x: "(0x123 :: uint) < 0x1000" by simp
  obtain d t rs where "copyuvm 0x80080000 0x1000 s = Ok d t" "user_byte (kmem_mem t) d 0x123 = user_byte (kmem_mem s) 0x80080000 0x123"
    "user_page (kmem_mem t) d 0x123 \<in> set qs"
    using copyuvm_copies [OF o(1,2) c o(3) l(1) pg l(2)] x by blast
  moreover have "0x800C0000 \<notin> set qs" using q by auto
  ultimately show ?thesis using s(1) by metis
qed

end
