(* ===== verification/Xv6_Boot.thy ===== *)
theory Xv6_Boot
  imports Xv6_Vm
begin

text \<open>
  \<^verbatim>\<open>kernel/bootmain.c\<close>: the page tables with which paging is switched on. The code runs at physical addresses and writes its tables with word stores; the symbols of
  \<^verbatim>\<open>kernel.ld\<close> are parameters. The tables are read back by the table walk of the processor, which is what the kernel and its start-up rely on.
\<close>

section \<open>Building the tables\<close>

definition PDE_SHIFT :: nat where "PDE_SHIFT = 20"
definition PTE_SHIFT :: nat where "PTE_SHIFT = 12"
definition PTE_PA :: uint where "PTE_PA = 0x10"
definition PDE_MASK :: uint where "PDE_MASK = 0xFFFFF"
definition VEC_TBL :: uint where "VEC_TBL = 0xFFFF0000"
definition DEVBASE :: uint where "DEVBASE = 0x10000000"

record linker =
  ld_dev_pte :: uint
  ld_pte :: uint
  ld_kt :: uint
  ld_ut :: uint
  ld_kern_data :: uint
  ld_kern_end :: uint

text \<open>\<^verbatim>\<open>for (i = 0; i < n; i++) a[i] = f(i);\<close>\<close>

definition fill_words :: "uint \<Rightarrow> nat \<Rightarrow> (nat \<Rightarrow> uint) \<Rightarrow> mem \<Rightarrow> mem" where
  "fill_words a n f m = fold (\<lambda>i. store32 (a + 4 * of_nat i) (f i)) [0..<n] m"

text \<open>\<^verbatim>\<open>build_pages\<close>; \<open>None\<close> is the loop after the message that the vector table overlaps the kernel.\<close>

definition build_pages :: "linker \<Rightarrow> mem \<Rightarrow> mem option" where
  "build_pages ld m =
     (if P2V (VEC_TBL AND PDE_MASK) \<le> ld_kern_end ld then None
      else
        let pte = ld_pte ld; kt = ld_kt ld; ut = ld_ut ld; dev_pte = ld_dev_pte ld;
            m = fill_words pte (unat (drop_bit PTE_SHIFT PHYSTOP))
                  (\<lambda>i. push_bit PTE_SHIFT (of_nat i) OR PTE_BUF OR PTE_CACHE OR PTE_PA OR PTE_SMALL) m;
            m = fold (\<lambda>i m.
                  let pde = (pte + 4 * push_bit 8 (of_nat i)) OR PDE_COARSE
                  in store32 (kt + 4 * (of_nat i + 0x800)) pde (store32 (ut + 4 * of_nat i) pde m))
                  [0..<unat (drop_bit PDE_SHIFT PHYSTOP)] m;
            m = store32 (kt + 4 * drop_bit PDE_SHIFT VEC_TBL) (pte OR PDE_COARSE) m;
            m = fill_words dev_pte 0x200 (\<lambda>i. (DEVBASE + push_bit 12 (of_nat i)) OR PTE_PA OR PTE_SMALL) m;
            m = store32 (kt + 4 * drop_bit 20 (KERNBASE + DEVBASE)) (dev_pte OR PDE_COARSE) m
        in Some (store32 (kt + 4 * (drop_bit 20 (KERNBASE + DEVBASE) + 1)) ((dev_pte + 4 * 0x100) OR PDE_COARSE) m))"

text \<open>The registers that \<^verbatim>\<open>load_pgtbl\<close> sets; \<open>val\<close> is what it reads from the control register.\<close>

record mmu_regs =
  dacr :: uint
  ttbcr :: uint
  ttbr0 :: uint
  ttbr1 :: uint
  sctlr :: uint

definition load_pgtbl :: "linker \<Rightarrow> uint \<Rightarrow> mmu_regs" where
  "load_pgtbl ld val = \<lparr>dacr = 0x55555555, ttbcr = 1, ttbr0 = ld_ut ld, ttbr1 = ld_kt ld, sctlr = val OR 0x3805\<rparr>"

text \<open>
  \<^verbatim>\<open>bootmain\<close> up to the call of \<^verbatim>\<open>kmain\<close>: physical memory and the registers. The memory from \<^verbatim>\<open>kern_data\<close> to \<^verbatim>\<open>kern_end\<close>, cleared through kernel addresses
  after paging is on, is at the same physical addresses less \<^verbatim>\<open>KERNBASE\<close>.
\<close>

definition bootmain :: "linker \<Rightarrow> uint \<Rightarrow> mem \<Rightarrow> (mem \<times> mmu_regs) option" where
  "bootmain ld val m =
     map_option (\<lambda>m. (memset (V2P (ld_kern_data ld)) 0 (ld_kern_end ld - ld_kern_data ld) m, load_pgtbl ld val)) (build_pages ld m)"

section \<open>The table walk\<close>

text \<open>
  The walk of the ARM architecture for short descriptors, as far as the kernel uses it: without paging an address is physical; with it, \<open>N\<close> in \<^verbatim>\<open>TTBCR\<close> gives the addresses whose \<open>N\<close> upper bits are 0
  to the table at \<^verbatim>\<open>TTBR0\<close> and the others to the one at \<^verbatim>\<open>TTBR1\<close>; a first-level entry of type 1 points to a table of 256 entries, and an entry of that with bit 1 set to a page of 4 KB.
\<close>

definition mmu_walk :: "mmu_regs \<Rightarrow> mem \<Rightarrow> uint \<Rightarrow> uint option" where
  "mmu_walk r m va =
     (if \<not> bit (sctlr r) 0 then Some va
      else
        let tab = if unat va < 2 ^ (32 - unat (ttbcr r AND 7)) then ttbr0 r else ttbr1 r;
            l1 = load32 m (tab + 4 * PDE_IDX va);
            l2 = load32 m ((l1 AND NOT 0x3FF) + 4 * PTE_IDX va)
        in if l1 AND 3 = 1 \<and> l2 AND 2 \<noteq> 0 then Some ((l2 AND NOT 0xFFF) + (va AND 0xFFF)) else None)"

section \<open>Arrays of words in memory\<close>

lemma load_store_at:
  assumes "unat a mod 4 = 0" "unat q mod 4 = 0" "unat a < 0xFFFFFFF0" "unat q < 0xFFFFFFF0"
  shows "load32 (store32 a w m) q = (if unat a = unat q then w else load32 m q)"
  using load32_store32_aligned [of a q w m] assms by (simp add: word_unat_eq_iff)

lemma unat_elem: "unat a + 4 * k < 2 ^ 32 \<Longrightarrow> unat (a + 4 * of_nat k) = unat a + 4 * k" for a :: uint
  by (simp add: unat_word_ariths unat_of_nat mult_less_cancel1)

lemma elem_idx: "a + 4 * n = q \<Longrightarrow> (q - a) div 4 = n" for n :: nat
  by auto

lemma load_fill_words:
  assumes "unat a mod 4 = 0" "unat a + 4 * n \<le> 0xFFFFFF00" "unat q mod 4 = 0" "unat q < 0xFFFFFFF0"
  shows "load32 (fill_words a n f m) q =
    (if unat a \<le> unat q \<and> unat q < unat a + 4 * n then f ((unat q - unat a) div 4) else load32 m q)"
  using assms(2)
proof (induction n)
  case (Suc n)
  then have u: "unat (a + 4 * of_nat n) = unat a + 4 * n" by (intro unat_elem) simp
  have "load32 (fill_words a (Suc n) f m) q = (if unat a + 4 * n = unat q then f n else load32 (fill_words a n f m) q)"
    using load_store_at [of "a + 4 * of_nat n" q "f n" "fill_words a n f m"] assms Suc.prems by (simp add: fill_words_def u mod_add_eq [symmetric])
  moreover have "unat a \<le> unat q \<and> unat q < unat a + 4 * Suc n \<longleftrightarrow> unat a + 4 * n = unat q \<or> unat a \<le> unat q \<and> unat q < unat a + 4 * n"
    using assms(1,3) by presburger
  ultimately show ?case using Suc elem_idx [of "unat a" n "unat q"] by auto
qed (auto simp: fill_words_def)

text \<open>The loop that writes an entry of two tables in each round.\<close>

lemma load_two_tables:
  assumes "unat a mod 4 = 0" "unat b mod 4 = 0" "unat a + 4 * n \<le> unat b \<or> unat b + 4 * n \<le> unat a"
    "unat a + 4 * n \<le> 0xFFFFFF00" "unat b + 4 * n \<le> 0xFFFFFF00" "unat q mod 4 = 0" "unat q < 0xFFFFFFF0"
  shows "load32 (fold (\<lambda>i m. store32 (b + 4 * of_nat i) (f i) (store32 (a + 4 * of_nat i) (f i) m)) [0..<n] m) q =
    (if unat a \<le> unat q \<and> unat q < unat a + 4 * n then f ((unat q - unat a) div 4)
     else if unat b \<le> unat q \<and> unat q < unat b + 4 * n then f ((unat q - unat b) div 4) else load32 m q)"
  using assms(3-5)
proof (induction n)
  case (Suc n)
  let ?m = "fold (\<lambda>i m. store32 (b + 4 * of_nat i) (f i) (store32 (a + 4 * of_nat i) (f i) m)) [0..<n] m"
  have u: "unat (a + 4 * of_nat n) = unat a + 4 * n" "unat (b + 4 * of_nat n) = unat b + 4 * n"
    using Suc.prems by (auto intro: unat_elem)
  have "load32 (fold (\<lambda>i m. store32 (b + 4 * of_nat i) (f i) (store32 (a + 4 * of_nat i) (f i) m)) [0..<Suc n] m) q =
      (if unat b + 4 * n = unat q then f n else if unat a + 4 * n = unat q then f n else load32 ?m q)"
    using load_store_at [of "b + 4 * of_nat n" q] load_store_at [of "a + 4 * of_nat n" q] assms(1,2,6,7) Suc.prems
    by (simp add: u mod_add_eq [symmetric])
  moreover have "unat x \<le> unat q \<and> unat q < unat x + 4 * Suc n \<longleftrightarrow> unat x + 4 * n = unat q \<or> unat x \<le> unat q \<and> unat q < unat x + 4 * n"
    if "unat x mod 4 = 0" for x :: uint using that assms(6) by presburger
  ultimately show ?case
    using Suc assms(1,2) elem_idx [of "unat a" n "unat q"] elem_idx [of "unat b" n "unat q"] by auto
qed auto

section \<open>The entries\<close>

text \<open>What \<^verbatim>\<open>kernel.ld\<close> says of its symbols.\<close>

definition ld_ok :: "linker \<Rightarrow> bool" where
  "ld_ok ld \<longleftrightarrow> unat (ld_dev_pte ld) mod 0x400 = 0 \<and> unat (ld_pte ld) mod 0x400 = 0 \<and> unat (ld_kt ld) mod 0x4000 = 0 \<and>
     unat (ld_dev_pte ld) + 0x800 \<le> unat (ld_pte ld) \<and> unat (ld_pte ld) + 0x20000 \<le> unat (ld_kt ld) \<and>
     unat (ld_ut ld) = unat (ld_kt ld) + 0x4000 \<and> unat (ld_ut ld) + 0x4000 \<le> 0x40000 \<and>
     0x80040000 \<le> ld_kern_data ld \<and> ld_kern_data ld \<le> ld_kern_end ld"

lemma mod_4: "x mod 0x400 = 0 \<Longrightarrow> x mod 4 = 0" "x mod 0x4000 = 0 \<Longrightarrow> x mod 4 = 0" for x :: nat
  using mod_mod_cancel [of 4 "0x400" x] mod_mod_cancel [of 4 "0x4000" x] by simp_all

lemma boot_consts:
  "P2V (VEC_TBL AND PDE_MASK) = 0x800F0000" "drop_bit PDE_SHIFT VEC_TBL = 0xFFF" "drop_bit 20 (KERNBASE + DEVBASE) = 0x900"
  "unat (drop_bit 12 PHYSTOP) = 0x8000" "unat (drop_bit PDE_SHIFT PHYSTOP) = 128"
  "PTE_BUF OR PTE_CACHE OR 0x12 = 0x1E" "PTE_PA OR PTE_SMALL = 0x12"
  by (simp_all add: P2V_def KERNBASE_def VEC_TBL_def PDE_MASK_def PDE_SHIFT_def PTE_SHIFT_def DEVBASE_def PHYSTOP_def
      PTE_BUF_def PTE_CACHE_def PTE_PA_def PTE_SMALL_def drop_bit_eq_div)

text \<open>The layout as numbers, and the words of a table below the kernel.\<close>

lemma ld_okD:
  assumes "ld_ok ld"
  shows "unat (ld_dev_pte ld) mod 4 = 0" "unat (ld_pte ld) mod 4 = 0" "unat (ld_kt ld) mod 4 = 0" "unat (ld_ut ld) mod 4 = 0"
    "unat (ld_dev_pte ld) + 0x800 \<le> unat (ld_pte ld)" "unat (ld_pte ld) + 0x20000 \<le> unat (ld_kt ld)"
    "unat (ld_ut ld) = unat (ld_kt ld) + 0x4000" "unat (ld_ut ld) + 0x4000 \<le> 0x40000"
proof -
  show *: "unat (ld_dev_pte ld) mod 4 = 0" "unat (ld_pte ld) mod 4 = 0" "unat (ld_kt ld) mod 4 = 0"
    "unat (ld_dev_pte ld) + 0x800 \<le> unat (ld_pte ld)" "unat (ld_pte ld) + 0x20000 \<le> unat (ld_kt ld)"
    "unat (ld_ut ld) = unat (ld_kt ld) + 0x4000" "unat (ld_ut ld) + 0x4000 \<le> 0x40000"
    using assms by (auto simp: ld_ok_def intro: mod_4)
  show "unat (ld_ut ld) mod 4 = 0" using *(3,6) by (simp add: mod_add_eq [symmetric])
qed

lemma low_word:
  fixes a :: uint
  assumes "unat a mod 4 = 0" "unat a + 4 * k < 0x40000"
  shows "unat (a + 4 * of_nat k) = unat a + 4 * k" "unat (a + 4 * of_nat k) mod 4 = 0" "unat (a + 4 * of_nat k) < 0x40000"
  using assms unat_elem [of a k] by (simp_all add: mod_add_eq [symmetric])

text \<open>The memory after the loops of \<^verbatim>\<open>build_pages\<close>, word by word.\<close>

definition boot_word :: "linker \<Rightarrow> mem \<Rightarrow> uint \<Rightarrow> uint" where
  "boot_word ld m q =
      (if unat q = unat (ld_kt ld) + 0x2404 then (ld_dev_pte ld + 0x400) OR 1
       else if unat q = unat (ld_kt ld) + 0x2400 then ld_dev_pte ld OR 1
       else if unat (ld_dev_pte ld) \<le> unat q \<and> unat q < unat (ld_dev_pte ld) + 0x800
       then (DEVBASE + push_bit 12 (of_nat ((unat q - unat (ld_dev_pte ld)) div 4))) OR 0x12
       else if unat q = unat (ld_kt ld) + 0x3FFC then ld_pte ld OR 1
       else if unat (ld_ut ld) \<le> unat q \<and> unat q < unat (ld_ut ld) + 0x200
       then (ld_pte ld + 4 * push_bit 8 (of_nat ((unat q - unat (ld_ut ld)) div 4))) OR 1
       else if unat (ld_kt ld) + 0x2000 \<le> unat q \<and> unat q < unat (ld_kt ld) + 0x2200
       then (ld_pte ld + 4 * push_bit 8 (of_nat ((unat q - (unat (ld_kt ld) + 0x2000)) div 4))) OR 1
       else if unat (ld_pte ld) \<le> unat q \<and> unat q < unat (ld_pte ld) + 0x20000
       then push_bit 12 (of_nat ((unat q - unat (ld_pte ld)) div 4)) OR 0x1E else load32 m q)"

lemma build_pages_words:
  assumes "ld_ok ld" "ld_kern_end ld < 0x800F0000"
  shows "\<exists>m'. build_pages ld m = Some m' \<and> (\<forall>q. unat q mod 4 = 0 \<longrightarrow> unat q < 0x40000 \<longrightarrow> load32 m' q = boot_word ld m q)"
proof -
  let ?D = "ld_dev_pte ld" and ?P = "ld_pte ld" and ?K = "ld_kt ld" and ?U = "ld_ut ld"
  let ?f1 = "\<lambda>i. push_bit 12 (of_nat i) OR 0x1E :: uint" and ?f2 = "\<lambda>i. (?P + 4 * push_bit 8 (of_nat i)) OR 1 :: uint"
    and ?f3 = "\<lambda>i. (DEVBASE + push_bit 12 (of_nat i)) OR 0x12 :: uint"
  define m1 where "m1 = fill_words ?P 0x8000 ?f1 m"
  define m2 where "m2 = fold (\<lambda>i m. store32 (?K + 0x2000 + 4 * of_nat i) (?f2 i) (store32 (?U + 4 * of_nat i) (?f2 i) m)) [0..<128] m1"
  define m3 where "m3 = fill_words ?D 0x200 ?f3 (store32 (?K + 4 * of_nat 0xFFF) (?P OR 1) m2)"
  define m4 where "m4 = store32 (?K + 4 * of_nat 0x901) ((?D + 0x400) OR 1) (store32 (?K + 4 * of_nat 0x900) (?D OR 1) m3)"
  note ld = ld_okD [OF assms(1)]
  note kt = low_word [OF ld(3)]
  have k2: "unat (?K + 0x2000) = unat ?K + 0x2000" "unat (?K + 0x2000) mod 4 = 0" using kt [of "0x800"] ld by simp_all
  show ?thesis
  proof (intro exI [of _ m4] conjI allI impI)
    show "build_pages ld m = Some m4"
      using assms(2) unfolding build_pages_def boot_consts Let_def m4_def m3_def m2_def m1_def PDE_COARSE_def PTE_SHIFT_def
      by (simp add: not_le ac_simps)
  next
    fix q :: uint assume q: "unat q mod 4 = 0" "unat q < 0x40000"
    then have q': "unat q < 0xFFFFFFF0" by simp
    have 1: "load32 m1 q = (if unat ?P \<le> unat q \<and> unat q < unat ?P + 0x20000 then ?f1 ((unat q - unat ?P) div 4) else load32 m q)"
      using load_fill_words [of ?P "0x8000" q ?f1 m] ld q(1) q' by (simp add: m1_def)
    have 2: "load32 m2 q = (if unat ?U \<le> unat q \<and> unat q < unat ?U + 0x200 then ?f2 ((unat q - unat ?U) div 4)
       else if unat ?K + 0x2000 \<le> unat q \<and> unat q < unat ?K + 0x2200 then ?f2 ((unat q - (unat ?K + 0x2000)) div 4) else load32 m1 q)"
      using load_two_tables [of ?U "?K + 0x2000" 128 q ?f2 m1] ld k2 q(1) q' by (simp add: m2_def)
    have 3: "load32 m3 q = (if unat ?D \<le> unat q \<and> unat q < unat ?D + 0x800 then ?f3 ((unat q - unat ?D) div 4)
       else if unat q = unat ?K + 0x3FFC then ?P OR 1 else load32 m2 q)"
      using load_fill_words [of ?D "0x200" q ?f3] load_store_at [of "?K + 4 * of_nat 0xFFF" q "?P OR 1" m2] kt [of "0xFFF"] ld q(1) q'
      by (simp add: m3_def)
    have "load32 m4 q = (if unat q = unat ?K + 0x2404 then (?D + 0x400) OR 1 else if unat q = unat ?K + 0x2400 then ?D OR 1 else load32 m3 q)"
      using load_store_at [of "?K + 4 * of_nat 0x901" q] load_store_at [of "?K + 4 * of_nat 0x900" q] kt [of "0x901"] kt [of "0x900"] ld q(1) q'
      by (simp add: m4_def)
    then show "load32 m4 q = boot_word ld m q"
      by (simp only: 1 2 3 boot_word_def)
  qed
qed

text \<open>The entries that paging needs.\<close>

definition boot_tables :: "linker \<Rightarrow> mem \<Rightarrow> bool" where
  "boot_tables ld m \<longleftrightarrow>
     (\<forall>k<0x8000. load32 m (ld_pte ld + 4 * of_nat k) = push_bit 12 (of_nat k) OR 0x1E) \<and>
     (\<forall>k<0x200. load32 m (ld_dev_pte ld + 4 * of_nat k) = (DEVBASE + push_bit 12 (of_nat k)) OR 0x12) \<and>
     (\<forall>k<128. load32 m (ld_ut ld + 4 * of_nat k) = (ld_pte ld + 4 * of_nat (256 * k)) OR 1 \<and>
       load32 m (ld_kt ld + 4 * of_nat (k + 0x800)) = (ld_pte ld + 4 * of_nat (256 * k)) OR 1) \<and>
     load32 m (ld_kt ld + 4 * of_nat 0xFFF) = ld_pte ld OR 1 \<and>
     (\<forall>k<2. load32 m (ld_kt ld + 4 * of_nat (k + 0x900)) = (ld_dev_pte ld + 4 * of_nat (256 * k)) OR 1)"

lemma build_pages_tables:
  assumes "ld_ok ld" "ld_kern_end ld < 0x800F0000"
  shows "\<exists>m'. build_pages ld m = Some m' \<and> boot_tables ld m'"
proof -
  obtain m' where b: "build_pages ld m = Some m'" and w: "\<forall>q. unat q mod 4 = 0 \<longrightarrow> unat q < 0x40000 \<longrightarrow> load32 m' q = boot_word ld m q"
    using build_pages_words [OF assms] by blast
  note load = w [rule_format, unfolded boot_word_def]
  note ld = ld_okD [OF assms(1)]
  have sh: "push_bit 8 (of_nat k) = (of_nat (256 * k) :: uint)" for k by (simp add: push_bit_eq_mult)
  have "boot_tables ld m'"
    unfolding boot_tables_def
  proof (intro conjI allI impI)
    show "load32 m' (ld_pte ld + 4 * of_nat k) = push_bit 12 (of_nat k) OR 0x1E" if "k < 0x8000" for k
      using that ld low_word [OF ld(2), of k] by (simp add: load)
    show "load32 m' (ld_dev_pte ld + 4 * of_nat k) = (DEVBASE + push_bit 12 (of_nat k)) OR 0x12" if "k < 0x200" for k
      using that ld low_word [OF ld(1), of k] by (simp add: load)
    show "load32 m' (ld_ut ld + 4 * of_nat k) = (ld_pte ld + 4 * of_nat (256 * k)) OR 1"
      "load32 m' (ld_kt ld + 4 * of_nat (k + 0x800)) = (ld_pte ld + 4 * of_nat (256 * k)) OR 1" if "k < 128" for k
      using that ld low_word [OF ld(4), of k] low_word [OF ld(3), of "k + 0x800"] by (simp_all add: load sh del: of_nat_add)
    show "load32 m' (ld_kt ld + 4 * of_nat 0xFFF) = ld_pte ld OR 1"
      using ld low_word [OF ld(3), of "0xFFF"] by (simp add: load del: of_nat_numeral)
    show "load32 m' (ld_kt ld + 4 * of_nat (k + 0x900)) = (ld_dev_pte ld + 4 * of_nat (256 * k)) OR 1" if "k < 2" for k
    proof -
      have "k + 0x900 = 0x900 \<and> 256 * k = 0 \<or> k + 0x900 = 0x901 \<and> 256 * k = 0x100" using that by auto
      then show ?thesis
        using ld low_word [OF ld(3), of "0x900"] low_word [OF ld(3), of "0x901"] by (elim disjE conjE) (simp_all add: load)
    qed
  qed
  then show ?thesis using b by blast
qed

lemma boot_tables_cong:
  assumes "ld_ok ld" "\<And>q. unat q mod 4 = 0 \<Longrightarrow> unat q < 0x40000 \<Longrightarrow> load32 m' q = load32 m q" "boot_tables ld m"
  shows "boot_tables ld m'"
proof -
  note ld = ld_okD [OF assms(1)]
  have "load32 m' (a + 4 * of_nat k) = load32 m (a + 4 * of_nat k)" if "unat a mod 4 = 0" "unat a + 4 * k < 0x40000" for a k
    using low_word [OF that] by (intro assms(2)) simp_all
  note keep = this [OF ld(1)] this [OF ld(2)] this [OF ld(3)] this [OF ld(4)]
  show ?thesis using assms(3) ld unfolding boot_tables_def by (simp add: keep del: of_nat_add of_nat_numeral)
qed

section \<open>The walk on these tables\<close>

lemma unat_take: "unat (take_bit n (w :: uint)) = unat w mod 2 ^ n"
  by (simp only: unsigned_take_bit_eq take_bit_nat_def)

lemma or_and_not_mask:
  assumes "unat x mod 2 ^ n = 0" "unat y < 2 ^ n" "n \<le> 32"
  shows "(x OR y) AND NOT (2 ^ n - 1) = (x :: uint)"
proof (rule bit_word_eqI)
  fix k assume k: "k < LENGTH(32)"
  have tx: "take_bit n x = 0" using assms(1) by (simp only: word_unat_eq_iff unat_take unat_0)
  have ty: "take_bit n y = y" using assms(2) by (simp only: word_unat_eq_iff unat_take mod_less)
  have "\<not> bit x j" if "j < n" for j using arg_cong [OF tx, of "\<lambda>w. bit w j"] that by (simp add: bit_simps)
  moreover have "\<not> bit y j" if "\<not> j < n" for j using arg_cong [OF ty, of "\<lambda>w. bit w j"] that by (simp add: bit_simps)
  moreover have "(2 :: uint) ^ n - 1 = mask n" by (simp add: mask_eq_exp_minus_1)
  ultimately show "bit ((x OR y) AND NOT (2 ^ n - 1)) k = bit x k" using k by (auto simp: bit_simps)
qed

lemma walk_entries:
  assumes "load32 m ((if va < 0x80000000 then ttbr0 r else ttbr1 r) + 4 * PDE_IDX va) = tab OR 1" "unat tab mod 0x400 = 0"
    "load32 m (tab + 4 * PTE_IDX va) = pg OR fl" "unat pg mod 0x1000 = 0" "fl = 0x1E \<or> fl = 0x12"
    "bit (sctlr r) 0 \<and> ttbcr r = 1"
  shows "mmu_walk r m va = Some (pg + (va AND 0xFFF))"
proof -
  have t: "(tab OR 1) AND NOT 0x3FF = tab" using or_and_not_mask [of tab 10 1] assms(2) by simp
  have p: "(pg OR fl) AND NOT 0xFFF = pg" using or_and_not_mask [of pg 12 fl] assms(4,5) by auto
  have "take_bit 2 tab = 0"
  proof -
    have "unat tab mod 4 = 0" using assms(2) by (rule mod_4)
    then have "unat tab mod 2 ^ 2 = 0" by simp
    then show ?thesis by (simp only: word_unat_eq_iff unat_take unat_0)
  qed
  then have "(tab OR 1) AND 3 = 1" by (simp add: take_bit_eq_mask mask_eq_exp_minus_1 bit.conj_disj_distrib2)
  moreover have "(pg OR fl) AND 2 \<noteq> 0"
  proof -
    have "bit ((pg OR fl) AND 2) 1" using assms(5) by (auto simp: bit_simps)
    then show ?thesis by fastforce
  qed
  moreover have "load32 m ((if unat va < 2 ^ (32 - unat (ttbcr r AND 7)) then ttbr0 r else ttbr1 r) + 4 * PDE_IDX va) = tab OR 1"
    using assms(1,6) by (simp add: word_less_nat_alt)
  ultimately show ?thesis using assms(6) by (simp only: mmu_walk_def Let_def assms(3) t p) simp
qed

lemma word_of_unat: "unat (w :: uint) = n \<Longrightarrow> w = of_nat n"
  by auto

text \<open>An address as the number of its megabyte, of its page there, and its offset.\<close>

lemma addr_parts:
  assumes "unat (va :: uint) = 2 ^ 20 * i + 2 ^ 12 * j + k" "j < 256" "k < 4096"
  shows "PDE_IDX va = of_nat i" "PTE_IDX va = of_nat j" "va AND 0xFFF = of_nat k"
proof -
  have e: "unat va = 4096 * (256 * i + j) + k" using assms(1) by simp
  have d: "unat va div 4096 = 256 * i + j" "unat va mod 4096 = k" using assms(3) by (simp_all only: e mod_mult_self4 mod_less) simp_all
  have "unat va div 2 ^ 20 = unat va div 4096 div 256" by (simp add: div_mult2_eq [symmetric])
  then have "unat va div 2 ^ 20 = i" "unat va div 2 ^ 12 mod 2 ^ 8 = j" "unat va mod 2 ^ 12 = k" using assms(2) d by simp_all
  moreover have "va AND 0xFFF = take_bit 12 va" by (simp add: take_bit_eq_mask mask_eq_exp_minus_1)
  ultimately show "PDE_IDX va = of_nat i" "PTE_IDX va = of_nat j" "va AND 0xFFF = of_nat k"
    using unat_IDX [of va] by (auto intro!: word_of_unat simp: unat_take)
qed

text \<open>
  A run of second-level tables at \<open>t\<close> whose entries are the pages from \<open>g\<close> on, and an entry of the first table that points to the \<open>i\<close>-th of them.
\<close>

lemma walk_run:
  assumes "unat t mod 0x400 = 0" "unat t < 0x40000" "unat g mod 0x1000 = 0" "unat g + 0x1000 * n < 2 ^ 32" "fl = 0x1E \<or> fl = 0x12"
    "\<And>k. k < n \<Longrightarrow> load32 m (t + 4 * of_nat k) = (g + push_bit 12 (of_nat k)) OR fl"
    "unat va = 2 ^ 20 * e + 2 ^ 12 * j + k" "j < 256" "k < 4096" "256 * i + j < n" "i < 0x1000"
    "load32 m ((if va < 0x80000000 then ttbr0 r else ttbr1 r) + 4 * of_nat e) = (t + 4 * of_nat (256 * i)) OR 1"
    "bit (sctlr r) 0 \<and> ttbcr r = 1"
  shows "mmu_walk r m va = Some (g + of_nat (2 ^ 20 * i + 2 ^ 12 * j + k))"
proof -
  note a = addr_parts [OF assms(7-9)]
  let ?tab = "t + 4 * of_nat (256 * i)" and ?pg = "g + push_bit 12 (of_nat (256 * i + j)) :: uint"
  have ut: "unat ?tab = unat t + 0x400 * i" using unat_elem [of t "256 * i"] assms(2,11) by simp
  have tj: "?tab + 4 * PTE_IDX va = t + 4 * of_nat (256 * i + j)" by (simp add: a(2) algebra_simps)
  have l: "unat g + 0x1000 * (256 * i + j) < 4294967296" using assms(4,10) by simp
  then have "unat (push_bit 12 (of_nat (256 * i + j)) :: uint) = 0x1000 * (256 * i + j)"
    by (simp add: push_bit_eq_mult unat_word_ariths unat_of_nat del: of_nat_add of_nat_mult)
  then have up: "unat ?pg = unat g + 0x1000 * (256 * i + j)" using l by (simp add: unat_word_ariths del: of_nat_add of_nat_mult)
  have "mmu_walk r m va = Some (?pg + (va AND 0xFFF))"
  proof (rule walk_entries)
    show "load32 m ((if va < 0x80000000 then ttbr0 r else ttbr1 r) + 4 * PDE_IDX va) = ?tab OR 1" using assms(12) by (simp only: a(1))
    show "unat ?tab mod 0x400 = 0" unfolding ut using assms(1) by simp
    show "load32 m (?tab + 4 * PTE_IDX va) = ?pg OR fl" unfolding tj using assms(10) by (rule assms(6))
    show "unat ?pg mod 0x1000 = 0" unfolding up using assms(3) by (simp add: mod_add_eq [symmetric])
  qed (rule assms(5) assms(13))+
  moreover have "?pg + (va AND 0xFFF) = g + of_nat (2 ^ 20 * i + 2 ^ 12 * j + k)"
    by (simp add: a(3) push_bit_eq_mult algebra_simps)
  ultimately show ?thesis by simp
qed

text \<open>Megabyte, page and offset of a number of bytes.\<close>

lemma split_bytes: "(x :: nat) = 2 ^ 20 * (x div 2 ^ 20) + 2 ^ 12 * (x div 2 ^ 12 mod 256) + x mod 4096"
proof -
  have e: "x div 2 ^ 20 = x div 4096 div 256" by (simp add: div_mult2_eq [symmetric])
  have "x = 0x100000 * (x div 4096 div 256) + 4096 * (x div 4096 mod 256) + x mod 4096"
    using div_mult_mod_eq [of x 4096] div_mult_mod_eq [of "x div 4096" 256] by linarith
  then show ?thesis unfolding e by simp
qed

text \<open>The memory that \<^verbatim>\<open>bootmain\<close> clears is above the tables.\<close>

lemma load_below_clear:
  assumes "ld_ok ld" "ld_kern_end ld < 0x800F0000" "unat q < 0x40000" "unat q mod 4 = 0"
  shows "load32 (memset (V2P (ld_kern_data ld)) 0 (ld_kern_end ld - ld_kern_data ld) m) q = load32 m q"
proof -
  have kd: "0x80040000 \<le> unat (ld_kern_data ld)" "unat (ld_kern_data ld) \<le> unat (ld_kern_end ld)" "unat (ld_kern_end ld) < 0x800F0000"
    using assms(1,2) by (auto simp: ld_ok_def word_le_nat_alt word_less_nat_alt)
  have v: "unat (V2P (ld_kern_data ld)) = unat (ld_kern_data ld) - 0x80000000"
    using kd(1) by (simp add: V2P_def KERNBASE_def unat_sub_if')
  have n: "unat (ld_kern_end ld - ld_kern_data ld) = unat (ld_kern_end ld) - unat (ld_kern_data ld)" using kd(2) by (simp add: unat_sub_if')
  have "\<not> q + of_nat i - V2P (ld_kern_data ld) < ld_kern_end ld - ld_kern_data ld" if "i < 4" for i
  proof -
    have "unat q + 3 < 0x40000" using assms(3,4) by presburger
    then have "unat (q + of_nat i) = unat q + i" "unat q + i < 0x40000" using that by (auto intro: unat_add_small)
    then show ?thesis using kd by (simp add: word_less_nat_alt unat_sub_if' v n) linarith
  qed
  from this [of 0] this [of 1] this [of 2] this [of 3]
  show ?thesis by (intro load32_cong) (simp_all add: memset_fills mem_fill_def)
qed

lemma mega_page:
  fixes x :: nat
  assumes "x < 2 ^ 20 * n"
  shows "x div 2 ^ 20 < n" "256 * (x div 2 ^ 20) + x div 2 ^ 12 mod 256 < 256 * n"
proof -
  show *: "x div 2 ^ 20 < n" using assms by (simp add: less_mult_imp_div_less mult.commute)
  show "256 * (x div 2 ^ 20) + x div 2 ^ 12 mod 256 < 256 * n"
    using * mod_less_divisor [of 256 "x div 2 ^ 12"] by linarith
qed

text \<open>The three kinds of mappings, for any memory that holds the tables.\<close>

lemma walk_dram:
  assumes "ld_ok ld" "boot_tables ld m" "x < 0x8000000"
  shows "unat va = x \<Longrightarrow> mmu_walk (load_pgtbl ld val) m va = Some (of_nat x)"
    "unat va = 0x80000000 + x \<Longrightarrow> mmu_walk (load_pgtbl ld val) m va = Some (of_nat x)"
proof -
  let ?i = "x div 2 ^ 20" and ?j = "x div 2 ^ 12 mod 256" and ?k = "x mod 4096"
  have i: "?i < 128" "256 * ?i + ?j < 0x8000" using mega_page [of x 128] assms(3) by simp_all
  have l: "unat (ld_pte ld) mod 0x400 = 0" "unat (ld_pte ld) < 0x40000" using assms(1) by (auto simp: ld_ok_def)
  have p: "load32 m (ld_pte ld + 4 * of_nat k) = (0 + push_bit 12 (of_nat k)) OR 0x1E" if "k < 0x8000" for k
    using assms(2) that by (simp add: boot_tables_def)
  have d: "load32 m (ld_ut ld + 4 * of_nat ?i) = (ld_pte ld + 4 * of_nat (256 * ?i)) OR 1"
    "load32 m (ld_kt ld + 4 * of_nat (?i + 0x800)) = (ld_pte ld + 4 * of_nat (256 * ?i)) OR 1"
    using assms(2) i(1) unfolding boot_tables_def by blast+
  note w = walk_run [OF l, of 0 "0x8000" "0x1E" m, OF _ _ _ p]
  have sum: "2 ^ 20 * ?i + 2 ^ 12 * ?j + ?k = x" by (rule split_bytes [symmetric])
  { assume u: "unat va = x"
    then have "unat va = 2 ^ 20 * ?i + 2 ^ 12 * ?j + ?k" by (simp only: sum)
    moreover have "va < 0x80000000" using u assms(3) by (simp add: word_less_nat_alt)
    ultimately show "mmu_walk (load_pgtbl ld val) m va = Some (of_nat x)"
      using w [of va ?i ?j ?k ?i "load_pgtbl ld val"] d(1) i unfolding sum by (simp add: load_pgtbl_def bit_simps del: of_nat_mult) }
  { assume u: "unat va = 0x80000000 + x"
    then have "unat va = 2 ^ 20 * (?i + 0x800) + 2 ^ 12 * ?j + ?k" using sum by simp
    moreover have "\<not> va < 0x80000000" using u by (simp add: word_less_nat_alt)
    ultimately show "mmu_walk (load_pgtbl ld val) m va = Some (of_nat x)"
      using w [of va "?i + 0x800" ?j ?k ?i "load_pgtbl ld val"] d(2) i unfolding sum
      by (simp add: load_pgtbl_def bit_simps del: of_nat_mult of_nat_add) }
qed

lemma walk_dev:
  assumes "ld_ok ld" "boot_tables ld m" "x < 0x200000" "unat va = 0x90000000 + x"
  shows "mmu_walk (load_pgtbl ld val) m va = Some (DEVBASE + of_nat x)"
proof -
  let ?i = "x div 2 ^ 20" and ?j = "x div 2 ^ 12 mod 256" and ?k = "x mod 4096"
  have i: "?i < 2" "256 * ?i + ?j < 0x200" using mega_page [of x 2] assms(3) by simp_all
  have l: "unat (ld_dev_pte ld) mod 0x400 = 0" "unat (ld_dev_pte ld) < 0x40000" using assms(1) by (auto simp: ld_ok_def)
  have p: "load32 m (ld_dev_pte ld + 4 * of_nat k) = (DEVBASE + push_bit 12 (of_nat k)) OR 0x12" if "k < 0x200" for k
    using assms(2) that by (simp add: boot_tables_def)
  have d: "load32 m (ld_kt ld + 4 * of_nat (?i + 0x900)) = (ld_dev_pte ld + 4 * of_nat (256 * ?i)) OR 1"
    using assms(2) i(1) unfolding boot_tables_def by blast
  note w = walk_run [OF l, of DEVBASE "0x200" "0x12" m, OF _ _ _ p]
  have sum: "2 ^ 20 * ?i + 2 ^ 12 * ?j + ?k = x" by (rule split_bytes [symmetric])
  have "unat va = 2 ^ 20 * (?i + 0x900) + 2 ^ 12 * ?j + ?k" using assms(4) sum by simp
  moreover have "\<not> va < 0x80000000" using assms(4) by (simp add: word_less_nat_alt)
  ultimately show ?thesis
    using w [of va "?i + 0x900" ?j ?k ?i "load_pgtbl ld val"] d i unfolding sum
    by (simp add: load_pgtbl_def DEVBASE_def bit_simps del: of_nat_mult of_nat_add)
qed

lemma walk_vectors:
  assumes "ld_ok ld" "boot_tables ld m" "x < 0x10000" "unat va = 0xFFFF0000 + x"
  shows "mmu_walk (load_pgtbl ld val) m va = Some (0xF0000 + of_nat x)"
proof -
  let ?j = "0xF0 + x div 4096" and ?k = "x mod 4096"
  have j: "?j < 256" using assms(3) by (simp add: less_mult_imp_div_less)
  have l: "unat (ld_pte ld) mod 0x400 = 0" "unat (ld_pte ld) < 0x40000" using assms(1) by (auto simp: ld_ok_def)
  have p: "load32 m (ld_pte ld + 4 * of_nat k) = (0 + push_bit 12 (of_nat k)) OR 0x1E" if "k < 0x8000" for k
    using assms(2) that by (simp add: boot_tables_def)
  have d: "load32 m (ld_kt ld + 4 * of_nat 0xFFF) = (ld_pte ld + 4 * of_nat (256 * 0)) OR 1"
    using assms(2) by (simp add: boot_tables_def)
  note w = walk_run [OF l, of 0 "0x8000" "0x1E" m, OF _ _ _ p]
  have u: "unat va = 2 ^ 20 * 0xFFF + 2 ^ 12 * ?j + ?k"
    using assms(4) div_mult_mod_eq [of x 4096] by simp
  have h: "\<not> va < 0x80000000" using assms(4) by (simp add: word_less_nat_alt)
  have "mmu_walk (load_pgtbl ld val) m va = Some (0 + of_nat (2 ^ 20 * 0 + 2 ^ 12 * ?j + ?k))"
  proof (rule w [OF _ _ _ _ u j])
    show "load32 m ((if va < 0x80000000 then ttbr0 (load_pgtbl ld val) else ttbr1 (load_pgtbl ld val)) + 4 * of_nat 0xFFF) =
      (ld_pte ld + 4 * of_nat (256 * 0)) OR 1" unfolding if_not_P [OF h] using d by (simp add: load_pgtbl_def)
  qed (use j in \<open>simp_all add: load_pgtbl_def bit_simps\<close>)
  moreover have "2 ^ 20 * 0 + 2 ^ 12 * ?j + ?k = 0xF0000 + x" using div_mult_mod_eq [of x 4096] by simp
  ultimately show ?thesis by simp
qed

section \<open>Paging on\<close>

text \<open>
  C17. Paging starts with the address space that the kernel is linked for. For a layout as in the linker script and a kernel that ends below the vector table, \<^verbatim>\<open>bootmain\<close> goes on to \<^verbatim>\<open>kmain\<close>, and with the tables and
  registers it leaves the processor translates: every kernel address \<^verbatim>\<open>P2V(pa)\<close> of the physical memory to \<open>pa\<close>; every low address to itself, so the boot code goes on running; the 2 MB of device registers at their kernel addresses; and
  the high vectors at \<^verbatim>\<open>0xFFFF0000\<close> to the end of the first megabyte.
\<close>

theorem boot_mapping:
  assumes "ld_ok ld" "ld_kern_end ld < 0x800F0000"
  shows "\<exists>m' r. bootmain ld val m = Some (m', r) \<and>
    (\<forall>pa<PHYSTOP. mmu_walk r m' (P2V pa) = Some pa \<and> mmu_walk r m' pa = Some pa) \<and>
    (\<forall>x<0x200000. mmu_walk r m' (P2V (DEVBASE + x)) = Some (DEVBASE + x)) \<and>
    (\<forall>x<0x10000. mmu_walk r m' (VEC_TBL + x) = Some (0xF0000 + x))"
proof -
  obtain m1 where m1: "build_pages ld m = Some m1" "boot_tables ld m1" using build_pages_tables [OF assms] by blast
  let ?m = "memset (V2P (ld_kern_data ld)) 0 (ld_kern_end ld - ld_kern_data ld) m1" and ?r = "load_pgtbl ld val"
  have t: "boot_tables ld ?m" using boot_tables_cong [OF assms(1) load_below_clear [OF assms] m1(2)] by blast
  have "mmu_walk ?r ?m (P2V pa) = Some pa \<and> mmu_walk ?r ?m pa = Some pa" if "pa < PHYSTOP" for pa
  proof -
    have x: "unat pa < 0x8000000" using that by (simp add: PHYSTOP_def word_less_nat_alt)
    then have "unat (P2V pa) = 0x80000000 + unat pa" by (simp add: P2V_def KERNBASE_def unat_word_ariths)
    from walk_dram(2) [OF assms(1) t x this] walk_dram(1) [OF assms(1) t x refl] show ?thesis by simp
  qed
  moreover have "mmu_walk ?r ?m (P2V (DEVBASE + x)) = Some (DEVBASE + x)" if "x < 0x200000" for x
  proof -
    have x: "unat x < 0x200000" using that by (simp add: word_less_nat_alt)
    then have "unat (P2V (DEVBASE + x)) = 0x90000000 + unat x" by (simp add: P2V_def KERNBASE_def DEVBASE_def unat_word_ariths)
    from walk_dev [OF assms(1) t x this] show ?thesis by simp
  qed
  moreover have "mmu_walk ?r ?m (VEC_TBL + x) = Some (0xF0000 + x)" if "x < 0x10000" for x
  proof -
    have x: "unat x < 0x10000" using that by (simp add: word_less_nat_alt)
    then have "unat (VEC_TBL + x) = 0xFFFF0000 + unat x" by (simp add: VEC_TBL_def unat_word_ariths)
    from walk_vectors [OF assms(1) t x this] show ?thesis by simp
  qed
  moreover have "bootmain ld val m = Some (?m, ?r)" by (simp add: bootmain_def m1(1))
  ultimately show ?thesis by blast
qed

text \<open>A kernel of 896 KB with its tables between its start-up code and its text.\<close>

definition boot_layout :: linker where
  "boot_layout = \<lparr>ld_dev_pte = 0x11000, ld_pte = 0x12000, ld_kt = 0x34000, ld_ut = 0x38000, ld_kern_data = 0x80050000, ld_kern_end = 0x800E0000\<rparr>"

theorem boot_mapping_witness:
  "ld_ok boot_layout \<and> ld_kern_end boot_layout < 0x800F0000 \<and>
   (\<exists>m' r. bootmain boot_layout 0x50078 (\<lambda>_. 0xFF) = Some (m', r) \<and> mmu_walk r m' 0x80100234 = Some 0x100234 \<and>
      mmu_walk r m' 0x901F1018 = Some 0x101F1018 \<and> mmu_walk r m' 0xFFFF0018 = Some 0xF0018)"
proof -
  have h: "ld_ok boot_layout" "ld_kern_end boot_layout < 0x800F0000" by (simp_all add: boot_layout_def ld_ok_def)
  obtain m' r where b: "bootmain boot_layout 0x50078 (\<lambda>_. 0xFF) = Some (m', r)"
    "\<forall>pa<PHYSTOP. mmu_walk r m' (P2V pa) = Some pa \<and> mmu_walk r m' pa = Some pa"
    "\<forall>x<0x200000. mmu_walk r m' (P2V (DEVBASE + x)) = Some (DEVBASE + x)"
    "\<forall>x<0x10000. mmu_walk r m' (VEC_TBL + x) = Some (0xF0000 + x)"
    using boot_mapping [OF h] by blast
  have "mmu_walk r m' 0x80100234 = Some 0x100234" using b(2) [rule_format, of "0x100234"] by (simp add: PHYSTOP_def P2V_def KERNBASE_def)
  moreover have "mmu_walk r m' 0x901F1018 = Some 0x101F1018"
    using b(3) [rule_format, of "0x1F1018"] by (simp add: P2V_def KERNBASE_def DEVBASE_def)
  moreover have "mmu_walk r m' 0xFFFF0018 = Some 0xF0018" using b(4) [rule_format, of "0x18"] by (simp add: VEC_TBL_def)
  ultimately show ?thesis using h b(1) by blast
qed


end
