(* ===== verification/Spec2Isabelle.thy ===== *)
theory Spec2Isabelle
  imports Xv6_Trap Xv6_Sleeplock Xv6_Runcmd Xv6_Umalloc Xv6_Uprogs Xv6_Image Xv6_Copyuvm Xv6_Boot
begin

text \<open>
  A verification library for the ARM port of xv6.

  \<^bold>\<open>The program.\<close> The kernel under \<^verbatim>\<open>src/kernel\<close> runs on one CPU of a VersatilePB board. From the bottom up it has string primitives,
  spin locks with interrupt nesting, a scheduler with sleep and wakeup, a page allocator, page tables, pipes, a buffer cache over a
  memory disk, a redo log, a block allocator, inodes, directories and paths, a console, a table of open files, the process life cycle,
  \<^verbatim>\<open>exec\<close>, the system calls, and the trap and interrupt handlers. User programs under \<^verbatim>\<open>src/user\<close> use it through the calls.

  \<^bold>\<open>State.\<close> The machine is one record that grows with the layers: \<^verbatim>\<open>cpu_state\<close> (interrupt flag, \<^verbatim>\<open>ncli\<close>, \<^verbatim>\<open>intena\<close>, the locks), \<^verbatim>\<open>sched_state\<close> (process
  table, current process, ticks), \<^verbatim>\<open>kmem_state\<close> (memory as a function from addresses to bytes, free list), then pipes, buffers and disk,
  log, console, inodes, files, and last the interrupt table and device log. An operation takes the record of its layer, or any extension of it,
  so an upper layer calls a lower one as the code does. Pointers into tables are indices; null is \<^verbatim>\<open>None\<close>. Pages and page tables are
  bytes and words of the memory, as the allocator and \<^verbatim>\<open>vm.c\<close> keep their lists and entries inside the pages.

  \<^bold>\<open>Outcomes.\<close> An operation returns a value and a state, panics with its message, gives up the CPU (the state is the one at the switch), or spins
  for ever. Undefined behaviour of C, such as a null pointer dereference, is a panic with a message of its own. An operation that sleeps has a second
  definition, named \<^verbatim>\<open>..._resume\<close>, for what it does when it is dispatched again; a compound call ends in the model at its first sleep.

  \<^bold>\<open>Theories and sources.\<close>
  \<^item> \<^verbatim>\<open>Xv6_Prelude\<close>, \<^verbatim>\<open>Xv6_Bytes\<close>: C types, \<^verbatim>\<open>param.h\<close>, outcomes, little-endian encodings.
  \<^item> \<^verbatim>\<open>Xv6_String\<close> (\<^verbatim>\<open>string.c\<close>): word-wise \<^verbatim>\<open>memset\<close> equals a fill, \<^verbatim>\<open>memmove\<close> is right for every overlap, bounded strings.
  \<^item> \<^verbatim>\<open>Xv6_Spinlock\<close> (\<^verbatim>\<open>spinlock.c\<close>), \<^verbatim>\<open>Xv6_Sleeplock\<close> (\<^verbatim>\<open>sleeplock.c\<close>): the nesting depth counts the locks held; hand-over of a sleep lock.
  \<^item> \<^verbatim>\<open>Xv6_Sched\<close> (\<^verbatim>\<open>proc.c\<close>): the scheduler and kernel code as a step relation with one running process; no lost wakeup.
  \<^item> \<^verbatim>\<open>Xv6_Mmu\<close>, \<^verbatim>\<open>Xv6_Kalloc\<close> (\<^verbatim>\<open>mmu.h\<close>, \<^verbatim>\<open>kalloc.c\<close>): the in-page free list is a stack of pages.
  \<^item> \<^verbatim>\<open>Xv6_Pipe\<close> (\<^verbatim>\<open>pipe.c\<close>): the ring buffer refines a queue across wrap-around; a message is delivered.
  \<^item> \<^verbatim>\<open>Xv6_Bio\<close> (\<^verbatim>\<open>bio.c\<close>, \<^verbatim>\<open>ide.c\<close>): the LRU list; coherence of the cache; pinned buffers stay.
  \<^item> \<^verbatim>\<open>Xv6_Ondisk\<close>, \<^verbatim>\<open>Xv6_Log\<close> (\<^verbatim>\<open>fs.h\<close>, \<^verbatim>\<open>log.c\<close>): a crash at any disk write leaves the state before or after the transaction; recovery is idempotent.
  \<^item> \<^verbatim>\<open>Xv6_Balloc\<close>, \<^verbatim>\<open>Xv6_Inode\<close>, \<^verbatim>\<open>Xv6_Icache\<close>, \<^verbatim>\<open>Xv6_Readi\<close>, \<^verbatim>\<open>Xv6_Dir\<close> (\<^verbatim>\<open>fs.c\<close>): the bitmap; one table entry per inode; round trips of
    inodes, of file contents and of directory entries; paths.
  \<^item> \<^verbatim>\<open>Xv6_Console\<close> (\<^verbatim>\<open>console.c\<close>): line editing refines an editor on lists; printed numbers read back.
  \<^item> \<^verbatim>\<open>Xv6_Vm\<close> (\<^verbatim>\<open>vm.c\<close>): what is mapped is found, and nothing else changes; growing an address space.
  \<^item> \<^verbatim>\<open>Xv6_Copyuvm\<close> (\<^verbatim>\<open>vm.c\<close>): the copy that \<^verbatim>\<open>fork\<close> makes has the bytes and rights of the parent on pages of its own.
  \<^item> \<^verbatim>\<open>Xv6_Boot\<close> (\<^verbatim>\<open>bootmain.c\<close>): the first page tables, read by the table walk of the processor, map the addresses the kernel is linked for.
  \<^item> \<^verbatim>\<open>Xv6_File\<close>, \<^verbatim>\<open>Xv6_Proc\<close>, \<^verbatim>\<open>Xv6_Exec\<close> (\<^verbatim>\<open>file.c\<close>, \<^verbatim>\<open>proc.c\<close>, \<^verbatim>\<open>exec.c\<close>): reference counts; fresh process identifiers; exit and wait.
  \<^item> \<^verbatim>\<open>Xv6_Syscall\<close>, \<^verbatim>\<open>Xv6_Sysfile\<close>, \<^verbatim>\<open>Xv6_Trap\<close> (\<^verbatim>\<open>syscall.c\<close>, \<^verbatim>\<open>sysproc.c\<close>, \<^verbatim>\<open>sysfile.c\<close>, \<^verbatim>\<open>trap.c\<close>, \<^verbatim>\<open>picirq.c\<close>, \<^verbatim>\<open>timer.c\<close>, \<^verbatim>\<open>uart.c\<close>, \<^verbatim>\<open>main.c\<close>): bounds of arguments,
    strings in user memory, descriptors, sleeping for ticks.
  \<^item> \<^verbatim>\<open>Xv6_Grep\<close>, \<^verbatim>\<open>Xv6_Sh\<close> (\<^verbatim>\<open>grep.c\<close>, \<^verbatim>\<open>sh.c\<close>): the matcher decides the language of a pattern; the shell's parser ends and builds well-formed commands.
  \<^item> \<^verbatim>\<open>Xv6_Runcmd\<close> (\<^verbatim>\<open>sh.c\<close>): \<^verbatim>\<open>runcmd\<close> and \<^verbatim>\<open>main\<close> as trees of system calls, run on the kernel's descriptor tables; they start the programs, with the descriptors, that the line means.
  \<^item> \<^verbatim>\<open>Xv6_Umalloc\<close>, \<^verbatim>\<open>Xv6_Ulib\<close> (\<^verbatim>\<open>umalloc.c\<close>, \<^verbatim>\<open>ulib.c\<close>, \<^verbatim>\<open>printf.c\<close>): the circular free list holds the free units as sorted, maximal runs; strings and numbers.
  \<^item> \<^verbatim>\<open>Xv6_Uprogs\<close> (\<^verbatim>\<open>grep.c\<close>, \<^verbatim>\<open>wc.c\<close>, \<^verbatim>\<open>cat.c\<close>, \<^verbatim>\<open>echo.c\<close>, \<^verbatim>\<open>ls.c\<close>): \<^verbatim>\<open>grep\<close> prints the matching lines of one read, and what goes wrong after it; \<^verbatim>\<open>wc\<close> counts.
  \<^item> \<^verbatim>\<open>Xv6_Mkfs\<close>, \<^verbatim>\<open>Xv6_Image\<close> (\<^verbatim>\<open>mkfs.c\<close>): the image builder; the image holds the files, the directory and the bitmap that the kernel will read.

  \<^bold>\<open>Bounds and fuel.\<close> The scans of the buffer list run on \<^verbatim>\<open>Suc NBUF\<close> units, one more than the list is long, and are proved to end within them. The shell's parser
  runs on \<open>4 * length + 4\<close> units, four for each byte as every round through its four functions eats one, and is proved never to run out. The loop that opens the console for the
  shell has five rounds; at most four are needed, as the descriptor after the three standard ones ends it. The loops of \<^verbatim>\<open>malloc\<close>
  and \<^verbatim>\<open>free\<close> around the circular list and \<^verbatim>\<open>strcpy\<close> of the user library are partial functions into \<^verbatim>\<open>option\<close>, and are proved to return. All other
  loops have a measure. The loop of \<^verbatim>\<open>deallocuvm\<close> would start over if its counter wrapped around; that is the outcome \<^verbatim>\<open>Diverge\<close>.

  \<^bold>\<open>Not modelled.\<close> Assembly (context switch, trap entry, the first instructions of the boot), the flush of caches and TLB, the busy waits of the serial line and of \<^verbatim>\<open>micro_delay\<close>, interrupts inside
  kernel code (system calls run with them masked; they arrive between the steps of the model), more than one CPU (\<^verbatim>\<open>MULTICORE\<close> is 0), the memory that \<^verbatim>\<open>malloc\<close> gives the shell, and user programs, or
  parts of them, that are one sequence of system calls and print what comes back (\<^verbatim>\<open>init\<close>, the small commands, the listing of \<^verbatim>\<open>ls\<close>) or test the kernel.
\<close>

end
